(* ===== verification/Afl_Prelude.thy ===== *)
theory Afl_Prelude
  imports "HOL-Library.Word"
begin

unbundle bit_operations_syntax

text \<open>
  Shared material of the development: the integer types of \<open>types.h\<close>, the tunables of
  \<open>config.h\<close>, the ways the program can stop (\<open>debug.h\<close>), little-endian memory
  views (the casts \<open>(u16*)\<close>, \<open>(u32*)\<close>, \<open>(u64*)\<close> of the source), and the generic
  lemmas on lists, bytes and words that the component theories use.
\<close>

section \<open>Integer types and tunables\<close>

type_synonym u8 = "8 word"
type_synonym u16 = "16 word"
type_synonym u32 = "32 word"
type_synonym u64 = "64 word"

definition MAP_SIZE_POW2 :: nat where "MAP_SIZE_POW2 = 16"

definition MAP_SIZE :: nat where "MAP_SIZE = 2 ^ MAP_SIZE_POW2"

text \<open>Collections: \<open>mem_simps\<close> reasons about memory views, \<open>cfg_simps\<close> unfolds tunables.\<close>

named_theorems mem_simps
named_theorems cfg_simps

declare MAP_SIZE_POW2_def [cfg_simps] MAP_SIZE_def [cfg_simps]

lemma MAP_SIZE_eq: "MAP_SIZE = 65536"
  by (simp add: cfg_simps)

lemma MAP_SIZE_dvd [simp]: "8 dvd MAP_SIZE" "4 dvd MAP_SIZE"
  by (simp_all add: MAP_SIZE_eq)

section \<open>How the program stops\<close>

text \<open>
  \<open>FATAL\<close>, \<open>PFATAL\<close> and \<open>ABORT\<close> of \<open>debug.h\<close> print a message and end the
  process. A read through a null pointer, an access outside an object and a division by zero are
  undefined behaviour of C; the model makes them results of their own, so that their absence is
  a theorem. \<open>OutOfFuel\<close> is the result of a loop that ran out of the fuel it was given.
\<close>

datatype err =
    FATAL string
  | PFATAL string
  | ABORT string
  | NullDeref
  | OutOfBounds
  | DivByZero
  | OutOfFuel

definition bindE :: "err + 'a \<Rightarrow> ('a \<Rightarrow> err + 'b) \<Rightarrow> err + 'b" where
  "bindE m f = (case m of Inl e \<Rightarrow> Inl e | Inr x \<Rightarrow> f x)"

lemma bindE_simps [simp]:
  "bindE (Inl e) f = Inl e"
  "bindE (Inr x) f = f x"
  by (simp_all add: bindE_def)

lemma bindE_Inr_iff: "bindE m f = Inr y \<longleftrightarrow> (\<exists>x. m = Inr x \<and> f x = Inr y)"
  by (cases m) auto

lemma bindE_InrE [elim]:
  assumes "bindE m f = Inr y"
  obtains x where "m = Inr x" and "f x = Inr y"
  using assms by (auto simp: bindE_Inr_iff)

lemma bindE_cong [fundef_cong]:
  "m = m' \<Longrightarrow> (\<And>x. m' = Inr x \<Longrightarrow> f x = f' x) \<Longrightarrow> bindE m f = bindE m' f'"
  by (cases m') auto

section \<open>Lists\<close>

lemma take_splice: "take i xs @ take k (drop i xs) @ drop (i + k) xs = xs"
proof -
  have "drop (i + k) xs = drop k (drop i xs)" by (simp add: add.commute)
  then show ?thesis by (simp del: drop_drop)
qed

section \<open>Little-endian memory views\<close>

fun le_load :: "u8 list \<Rightarrow> 'a::len word" where
  "le_load [] = 0"
| "le_load (b # bs) = ucast b OR push_bit 8 (le_load bs)"

definition le_store :: "nat \<Rightarrow> 'a::len word \<Rightarrow> u8 list" where
  "le_store n w = map (\<lambda>i. ucast (drop_bit (8 * i) w)) [0..<n]"

fun chunks :: "nat \<Rightarrow> 'a list \<Rightarrow> 'a list list" where
  "chunks k xs = (if k = 0 \<or> length xs < k then [] else take k xs # chunks k (drop k xs))"

declare chunks.simps [simp del]

text \<open>The array of \<open>k\<close>-byte words that a cast of the byte array gives, and back.\<close>

definition view :: "nat \<Rightarrow> u8 list \<Rightarrow> 'a::len word list" where
  "view k bs = map le_load (chunks k bs)"

definition unview :: "nat \<Rightarrow> 'a::len word list \<Rightarrow> u8 list" where
  "unview k ws = concat (map (le_store k) ws)"

lemma byte_bit_bound: "bit (b :: u8) n \<Longrightarrow> n < 8"
  using bit_imp_le_length[of b n] by simp

lemma bit_le_load [mem_simps]:
  "bit (le_load bs :: 'a::len word) n \<longleftrightarrow>
     n < LENGTH('a) \<and> n div 8 < length bs \<and> bit (bs ! (n div 8)) (n mod 8)"
proof (induction bs arbitrary: n)
  case Nil
  then show ?case by simp
next
  case (Cons b bs)
  show ?case
  proof (cases "n < 8")
    case True
    then show ?thesis by (auto simp: bit_simps dest: bit_imp_le_length)
  next
    case False
    then obtain m where n: "n = m + 8" by (metis le_add_diff_inverse2 not_less)
    have "\<not> bit b n" using False byte_bit_bound[of b n] by auto
    moreover have "(m + 8) div 8 = Suc (m div 8)" by simp
    ultimately show ?thesis using Cons[of m] n by (auto simp: bit_simps)
  qed
qed

lemma length_le_store [simp]: "length (le_store n w) = n"
  by (simp add: le_store_def)

lemma le_load_store: "LENGTH('a) \<le> 8 * n \<Longrightarrow> le_load (le_store n w) = (w :: 'a::len word)"
  by (rule bit_word_eqI) (auto simp: bit_le_load le_store_def bit_simps)

lemma le_store_load:
  assumes "8 * length bs \<le> LENGTH('a)"
  shows "le_store (length bs) (le_load bs :: 'a::len word) = bs"
proof (rule nth_equalityI)
  show "length (le_store (length bs) (le_load bs :: 'a word)) = length bs" by simp
next
  fix i assume "i < length (le_store (length bs) (le_load bs :: 'a word))"
  then have i: "i < length bs" by simp
  show "le_store (length bs) (le_load bs :: 'a word) ! i = bs ! i"
  proof (rule bit_word_eqI)
    fix n assume "n < LENGTH(8)"
    then have n: "n < 8" by simp
    then have "8 * i + n < LENGTH('a)" using i assms by linarith
    then show "bit (le_store (length bs) (le_load bs :: 'a word) ! i) n = bit (bs ! i) n"
      using i n by (simp add: le_store_def bit_simps bit_le_load)
  qed
qed

lemma le_load_eq_0:
  assumes "8 * length bs \<le> LENGTH('a)"
  shows "(le_load bs :: 'a::len word) = 0 \<longleftrightarrow> (\<forall>b\<in>set bs. b = 0)"
proof
  assume "(le_load bs :: 'a word) = 0"
  then have "bs = le_store (length bs) (0::'a word)" using le_store_load[OF assms] by simp
  then have "bs = replicate (length bs) 0" by (simp add: le_store_def map_replicate_trivial)
  then show "\<forall>b\<in>set bs. b = 0" by (metis in_set_replicate)
next
  assume "\<forall>b\<in>set bs. b = 0"
  then show "(le_load bs :: 'a word) = 0" by (induction bs) auto
qed

lemma le_load_AND:
  assumes "length xs = length ys"
  shows "(le_load xs :: 'a::len word) AND le_load ys = le_load (map2 (AND) xs ys)"
  using assms by (intro bit_word_eqI) (auto simp: bit_simps bit_le_load)

lemma le_load_ANDNOT:
  assumes "length xs = length ys" "8 * length xs = LENGTH('a)"
  shows "(le_load xs :: 'a::len word) AND NOT (le_load ys) = le_load (map2 (\<lambda>x y. x AND NOT y) xs ys)"
  using assms by (intro bit_word_eqI) (auto simp: bit_simps bit_le_load)

subsection \<open>Splitting a buffer into words\<close>

lemma chunks_Nil [simp]: "chunks k [] = []"
  by (subst chunks.simps) auto

lemma chunks_append: "0 < k \<Longrightarrow> length xs = k \<Longrightarrow> chunks k (xs @ ys) = xs # chunks k ys"
  by (subst chunks.simps) auto

lemma chunk_induct [consumes 2, case_names Nil Cons]:
  assumes "0 < k" and "k dvd length xs"
    and "P []"
    and "\<And>c cs. length c = k \<Longrightarrow> k dvd length cs \<Longrightarrow> P cs \<Longrightarrow> P (c @ cs)"
  shows "P xs"
  using assms(2)
proof (induction "length xs" arbitrary: xs rule: less_induct)
  case less
  show ?case
  proof (cases "xs = []")
    case True
    then show ?thesis using assms(3) by simp
  next
    case False
    with less.prems have k: "k \<le> length xs" by (metis dvd_imp_le length_greater_0_conv)
    have "P (take k xs @ drop k xs)"
    proof (rule assms(4))
      show "length (take k xs) = k" using k by simp
      show d: "k dvd length (drop k xs)" using less.prems k by (simp add: dvd_minus_self)
      show "P (drop k xs)" using less.hyps[of "drop k xs"] d k assms(1) False by simp
    qed
    then show ?thesis by simp
  qed
qed

lemma chunk_induct2 [consumes 3, case_names Nil Cons]:
  assumes "0 < k" and "k dvd length xs" and "length xs = length ys"
    and "P [] []"
    and "\<And>c cs d ds. length c = k \<Longrightarrow> length d = k \<Longrightarrow> k dvd length cs \<Longrightarrow>
           length cs = length ds \<Longrightarrow> P cs ds \<Longrightarrow> P (c @ cs) (d @ ds)"
  shows "P xs ys"
  using assms(1,2,3)
proof (induction xs arbitrary: ys rule: chunk_induct)
  case Nil
  then show ?case using assms(4) by simp
next
  case (Cons c cs)
  then have "P (c @ cs) (take k ys @ drop k ys)" by (intro assms(5)) auto
  then show ?case by simp
qed

lemma view_append: "0 < k \<Longrightarrow> length xs = k \<Longrightarrow> view k (xs @ ys) = le_load xs # view k ys"
  by (simp add: view_def chunks_append)

lemma view_append_dvd:
  assumes "0 < k" "k dvd length xs"
  shows "view k (xs @ ys) = view k xs @ view k ys"
  using assms
proof (induction xs rule: chunk_induct)
  case Nil
  then show ?case by (simp add: view_def)
next
  case (Cons c cs)
  then show ?case using assms(1) by (simp add: view_append)
qed

lemma view_Nil [simp]: "view k [] = []"
  by (simp add: view_def)

lemma view_one: "0 < k \<Longrightarrow> length xs = k \<Longrightarrow> view k xs = [le_load xs]"
  using view_append[of k xs "[]"] by simp

lemma unview_simps [simp]: "unview k [] = []" "unview k (w # ws) = le_store k w @ unview k ws"
  by (simp_all add: unview_def)

lemma unview_view:
  assumes "0 < k" "k dvd length bs" "8 * k \<le> LENGTH('a)"
  shows "unview k (view k bs :: 'a::len word list) = bs"
  using assms(1,2)
proof (induction bs rule: chunk_induct)
  case Nil
  then show ?case by simp
next
  case (Cons c cs)
  then have "le_store k (le_load c :: 'a word) = c" using le_store_load[of c, where 'a='a] assms(3) by simp
  then show ?case using Cons assms(1) by (simp add: view_append)
qed

section \<open>Decimal numbers, as \<open>printf\<close> writes them\<close>

definition digit_char :: "nat \<Rightarrow> char" where
  "digit_char d = char_of (48 + d)"

fun dec :: "nat \<Rightarrow> string" where
  "dec n = (if n < 10 then [digit_char n] else dec (n div 10) @ [digit_char (n mod 10)])"

declare dec.simps [simp del]

text \<open>\<open>%06u\<close> and \<open>%02u\<close>: padded with zeros to a least width.\<close>

definition pad0 :: "nat \<Rightarrow> string \<Rightarrow> string" where
  "pad0 w s = replicate (w - length s) (CHR ''0'') @ s"

definition fmt06 :: "nat \<Rightarrow> string" where "fmt06 n = pad0 6 (dec n)"

fun undec :: "string \<Rightarrow> nat" where
  "undec [] = 0"
| "undec (c # cs) = (of_char c - 48) * 10 ^ length cs + undec cs"

lemma undec_append: "undec (xs @ ys) = undec xs * 10 ^ length ys + undec ys"
  by (induction xs) (auto simp: algebra_simps power_add)

lemma undec_digit: "d < 10 \<Longrightarrow> of_char (digit_char d) - (48 :: nat) = d"
  by (simp add: digit_char_def of_char_of)

lemma undec_dec [simp]: "undec (dec n) = n"
proof (induction n rule: dec.induct)
  case (1 n)
  show ?case
  proof (cases "n < 10")
    case True
    then show ?thesis by (simp add: dec.simps[of n] undec_digit)
  next
    case False
    then show ?thesis using 1 by (simp add: dec.simps[of n] undec_append undec_digit)
  qed
qed

lemma undec_zeros: "undec (replicate k (CHR ''0'') @ s) = undec s"
  by (induction k) simp_all

lemma fmt06_inj: "fmt06 m = fmt06 n \<longleftrightarrow> m = n"
proof
  assume "fmt06 m = fmt06 n"
  then have "undec (fmt06 m) = undec (fmt06 n)" by simp
  then show "m = n" by (simp add: fmt06_def pad0_def undec_zeros)
qed simp

lemma dec_inj: "dec m = dec n \<longleftrightarrow> m = n"
  by (metis undec_dec)

lemma dec_length: "0 < k \<Longrightarrow> n < 10 ^ k \<Longrightarrow> length (dec n) \<le> k"
proof (induction n arbitrary: k rule: dec.induct)
  case (1 n)
  show ?case
  proof (cases "n < 10")
    case True
    then show ?thesis using 1(2) by (simp add: dec.simps[of n])
  next
    case False
    then obtain j where j: "k = Suc j" "0 < j" using 1(2,3) by (cases k; cases "k - 1") auto
    then have "n div 10 < 10 ^ j" using 1(3) by (simp add: less_mult_imp_div_less mult.commute)
    then show ?thesis using 1(1)[OF False j(2)] False j(1) by (simp add: dec.simps[of n])
  qed
qed

lemma dec_u32_length: "length (dec (unat (w :: u32))) \<le> 10"
proof (rule dec_length)
  have "unat w < 2 ^ 32" using unsigned_less[of w] by simp
  then show "unat w < 10 ^ 10" by simp
qed simp

lemma fmt06_u32_length: "length (fmt06 (unat (w :: u32))) \<le> 10"
  using dec_u32_length[of w] by (simp add: fmt06_def pad0_def)

section \<open>Runs that can only end by a message\<close>

text \<open>
  \<open>okE P m\<close>: the computation \<open>m\<close> gives a result with \<open>P\<close>, or ends the process through one of the
  message macros. None of the undefined behaviours and no lack of fuel is possible.
\<close>

fun fatal :: "err \<Rightarrow> bool" where
  "fatal (FATAL _) = True"
| "fatal (PFATAL _) = True"
| "fatal (ABORT _) = True"
| "fatal _ = False"

definition okE :: "('a \<Rightarrow> bool) \<Rightarrow> err + 'a \<Rightarrow> bool" where
  "okE P m \<longleftrightarrow> (case m of Inl e \<Rightarrow> fatal e | Inr x \<Rightarrow> P x)"

lemma okE_simps [simp]: "okE P (Inl e) \<longleftrightarrow> fatal e" "okE P (Inr x) \<longleftrightarrow> P x"
  by (simp_all add: okE_def)

lemma okE_bind: "okE Q m \<Longrightarrow> (\<And>x. Q x \<Longrightarrow> okE P (f x)) \<Longrightarrow> okE P (bindE m f)"
  by (cases m) auto

lemma okE_mono: "okE Q m \<Longrightarrow> (\<And>x. Q x \<Longrightarrow> P x) \<Longrightarrow> okE P m"
  by (cases m) auto

lemma okE_conj: "okE P m \<Longrightarrow> okE Q m \<Longrightarrow> okE (\<lambda>x. P x \<and> Q x) m"
  by (cases m) auto

lemma okE_Inr: "okE P m \<Longrightarrow> m = Inr x \<Longrightarrow> P x"
  by simp

text \<open>
  A loop over given indices whose body may leave it early (\<open>goto abandon_entry\<close>): the body returns
  \<open>True\<close> to leave, and so does then the loop.
\<close>

fun for_each :: "'i list \<Rightarrow> ('i \<Rightarrow> 's \<Rightarrow> err + bool \<times> 's) \<Rightarrow> 's \<Rightarrow> err + bool \<times> 's" where
  "for_each [] body s = Inr (False, s)"
| "for_each (i # is) body s =
     bindE (body i s) (\<lambda>(leave, s). if leave then Inr (True, s) else for_each is body s)"

lemma for_each_cong [fundef_cong]:
  "is = is' \<Longrightarrow> s = s' \<Longrightarrow> (\<And>i s. i \<in> set is' \<Longrightarrow> body i s = body' i s) \<Longrightarrow> for_each is body s = for_each is' body' s'"
proof (induction "is" arbitrary: is' s s')
  case (Cons i js)
  have "for_each js body t = for_each js body' t" for t using Cons by auto
  then show ?case using Cons.prems by (cases is') (auto intro!: bindE_cong split: prod.split)
qed auto

lemma for_each_okE:
  assumes "\<And>i s. i \<in> set is \<Longrightarrow> P s \<Longrightarrow> okE (\<lambda>(l, s). if l then Q s else P s) (body i s)" "P s" "\<And>s. P s \<Longrightarrow> Q s"
  shows "okE (\<lambda>(l, s). if l then Q s else P s) (for_each is body s)"
  using assms(1,2)
proof (induction "is" arbitrary: s)
  case (Cons i js)
  have IH: "P t \<Longrightarrow> okE (\<lambda>(l, s). if l then Q s else P s) (for_each js body t)" for t
    using Cons.IH[of t] Cons.prems(1) by simp
  have "okE (\<lambda>(l, s). if l then Q s else P s) (body i s)" using Cons.prems by simp
  then show ?case unfolding for_each.simps 
  proof (rule okE_bind)
    fix x assume x: "case x of (l, s) \<Rightarrow> if l then Q s else P s"
    then show "okE (\<lambda>(l, s). if l then Q s else P s)
        (case x of (l, s) \<Rightarrow> if l then Inr (True, s) else for_each js body s)"
      using IH by (cases x; cases "fst x") simp_all
  qed
qed simp

text \<open>
  A loop over a buffer that every round puts back is a loop over the state alone, on the fixed
  buffer: \<open>body\<close> works on the pair, \<open>round\<close> on the state.
\<close>

lemma for_each_restores:
  assumes "\<And>i s. i \<in> set is \<Longrightarrow>
      body i (b, s) = bindE (round i s) (\<lambda>(l, s). Inr (l, (if l then left i else b), s))"
  shows "\<exists>f. for_each is body (b, s) = bindE (for_each is round s) (\<lambda>(l, s'). Inr (l, (if l then f else b), s'))"
  using assms
proof (induction "is" arbitrary: s)
  case (Cons i js)
  show ?case
  proof (cases "round i s")
    case (Inl e)
    then show ?thesis using Cons.prems[of i s] by simp
  next
    case (Inr r)
    obtain l s1 where r: "r = (l, s1)" by (cases r)
    obtain f where "for_each js body (b, s1) = bindE (for_each js round s1) (\<lambda>(l, s'). Inr (l, (if l then f else b), s'))"
      using Cons.IH[of s1] Cons.prems by auto
    then show ?thesis using Cons.prems[of i s] Inr r by (cases l) (auto intro: exI[of _ "left i"])
  qed
qed simp

end
