(* ===== verification/Afl_Disk.thy ===== *)
theory Afl_Disk
  imports Afl_Prelude
begin

text \<open>
  Files and directories, for the parts of \<open>afl-fuzz.c\<close> that create, rename and delete directories: the disk is a list of
  paths, each with a directory or with the contents of a file, and every operation returns it also when it fails. On it
  \<open>delete_files\<close> and \<open>nuke_resume_dir\<close>, and the paths they leave alone. Failures for lack of permissions are left out.
\<close>

section \<open>Files and directories\<close>

datatype dnode = Directory | Regular "u8 list"

record od_state =
  disk :: "(string \<times> dnode) list"
  input_dir :: string

type_synonym 'a dio = "od_state \<Rightarrow> (err + 'a) \<times> od_state"

definition retD :: "'a \<Rightarrow> 'a dio" where
  "retD x = (\<lambda>s. (Inr x, s))"

definition failD :: "err \<Rightarrow> 'a dio" where
  "failD e = (\<lambda>s. (Inl e, s))"

definition bindD :: "'a dio \<Rightarrow> ('a \<Rightarrow> 'b dio) \<Rightarrow> 'b dio" where
  "bindD m f = (\<lambda>s. case m s of (Inl e, s) \<Rightarrow> (Inl e, s) | (Inr x, s) \<Rightarrow> f x s)"

fun in_turn :: "unit dio list \<Rightarrow> unit dio" where
  "in_turn [] = retD ()"
| "in_turn (m # ms) = bindD m (\<lambda>_. in_turn ms)"

abbreviation node_at :: "string \<Rightarrow> od_state \<Rightarrow> dnode option" where
  "node_at p s \<equiv> map_of (disk s) p"

text \<open>What \<open>readdir\<close> lists.\<close>

definition entry_of :: "string \<Rightarrow> string \<Rightarrow> string option" where
  "entry_of path p =
     (let k = Suc (length path); n = drop k p
      in if take k p = path @ ''/'' \<and> n \<noteq> [] \<and> CHR ''/'' \<notin> set n then Some n else None)"

definition entries :: "string \<Rightarrow> od_state \<Rightarrow> string list" where
  "entries path s = List.map_filter (\<lambda>(p, _). entry_of path p) (disk s)"

definition forget :: "string \<Rightarrow> od_state \<Rightarrow> od_state" where
  "forget p s = s\<lparr>disk := filter (\<lambda>(q, _). q \<noteq> p) (disk s)\<rparr>"

text \<open>\<open>unlink\<close> and \<open>rmdir\<close>: whether they succeeded. \<open>errno\<close> is \<open>ENOENT\<close> when there was nothing at the path.\<close>

definition unlink :: "string \<Rightarrow> bool dio" where
  "unlink p = (\<lambda>s. case node_at p s of Some (Regular _) \<Rightarrow> (Inr True, forget p s) | _ \<Rightarrow> (Inr False, s))"

definition rmdir :: "string \<Rightarrow> bool dio" where
  "rmdir p = (\<lambda>s. if node_at p s = Some Directory \<and> entries p s = [] then (Inr True, forget p s) else (Inr False, s))"

definition absent :: "string \<Rightarrow> bool dio" where
  "absent p = (\<lambda>s. (Inr (node_at p s = None), s))"

text \<open>\<open>rename\<close>, with failures ignored: everything below the old path moves along.\<close>

definition renamed :: "string \<Rightarrow> string \<Rightarrow> string \<Rightarrow> string" where
  "renamed a b p = (if p = a then b else if take (Suc (length a)) p = a @ ''/'' then b @ drop (length a) p else p)"

definition rename :: "string \<Rightarrow> string \<Rightarrow> unit dio" where
  "rename a b = (\<lambda>s. (Inr (),
     if (case node_at a s of None \<Rightarrow> False
         | Some Directory \<Rightarrow> node_at b s = None \<or> node_at b s = Some Directory \<and> entries b s = []
         | Some (Regular _) \<Rightarrow> node_at b s \<noteq> Some Directory)
     then s\<lparr>disk := map (\<lambda>(p, n). (renamed a b p, n)) (filter (\<lambda>(p, _). p \<noteq> b) (disk s))\<rparr> else s))"

section \<open>Deleting\<close>

definition is_dot :: "string \<Rightarrow> bool" where
  "is_dot name \<longleftrightarrow> name \<noteq> [] \<and> hd name = CHR ''.''"

definition prefixed :: "string option \<Rightarrow> string \<Rightarrow> bool" where
  "prefixed pre name \<longleftrightarrow> (case pre of None \<Rightarrow> True | Some x \<Rightarrow> take (length x) name = x)"

fun delete_names :: "string \<Rightarrow> string option \<Rightarrow> string list \<Rightarrow> unit dio" where
  "delete_names path pre [] = retD ()"
| "delete_names path pre (name # names) =
     (if \<not> is_dot name \<and> prefixed pre name
      then bindD (unlink (path @ ''/'' @ name)) (\<lambda>ok. if ok then delete_names path pre names else failD (PFATAL ''Unable to delete''))
      else delete_names path pre names)"

text \<open>The result is \<open>True\<close> when the directory could not be removed.\<close>

definition delete_files :: "string \<Rightarrow> string option \<Rightarrow> bool dio" where
  "delete_files path pre = (\<lambda>s.
     if node_at path s \<noteq> Some Directory then (Inr False, s)
     else bindD (delete_names path pre (entries path s)) (\<lambda>_. bindD (rmdir path) (\<lambda>ok. retD (\<not> ok))) s)"

text \<open>The three kinds of steps, each followed by \<open>goto dir_cleanup_failed\<close> when it fails.\<close>

definition clean_dir :: "err \<Rightarrow> string \<Rightarrow> string option \<Rightarrow> unit dio" where
  "clean_dir e path pre = bindD (delete_files path pre) (\<lambda>bad. if bad then failD e else retD ())"

definition drop_dir :: "err \<Rightarrow> string \<Rightarrow> unit dio" where
  "drop_dir e path = bindD (absent path) (\<lambda>none. bindD (rmdir path) (\<lambda>ok. if \<not> ok \<and> \<not> none then failD e else retD ()))"

definition drop_file :: "err \<Rightarrow> string \<Rightarrow> unit dio" where
  "drop_file e path = bindD (absent path) (\<lambda>none. bindD (unlink path) (\<lambda>ok. if \<not> ok \<and> \<not> none then failD e else retD ()))"

definition CASE_PREFIX :: string where "CASE_PREFIX = ''id:''"

definition nuke_resume_dir :: "string \<Rightarrow> unit dio" where
  "nuke_resume_dir out =
     (let e = FATAL ''_resume directory cleanup failed'' in in_turn
        [clean_dir e (out @ ''/_resume/.state/deterministic_done'') (Some CASE_PREFIX),
         clean_dir e (out @ ''/_resume/.state/auto_extras'') (Some ''auto_''),
         clean_dir e (out @ ''/_resume/.state/redundant_edges'') (Some CASE_PREFIX),
         clean_dir e (out @ ''/_resume/.state/variable_behavior'') (Some CASE_PREFIX),
         drop_dir e (out @ ''/_resume/.state''),
         clean_dir e (out @ ''/_resume'') (Some CASE_PREFIX)])"

section \<open>What an operation leaves alone\<close>

text \<open>\<open>everD R m\<close>: the state before \<open>m\<close> and the one after it, whatever the result, are related by \<open>R\<close>.\<close>

definition everD :: "(od_state \<Rightarrow> od_state \<Rightarrow> bool) \<Rightarrow> 'a dio \<Rightarrow> bool" where
  "everD R m \<longleftrightarrow> (\<forall>s. R s (snd (m s)))"

locale evolution =
  fixes R :: "od_state \<Rightarrow> od_state \<Rightarrow> bool"
  assumes still: "R s s" and chain: "R s t \<Longrightarrow> R t u \<Longrightarrow> R s u"
begin

lemma ever_ret [simp]: "everD R (retD x)"
  by (simp add: everD_def retD_def still)

lemma ever_fail [simp]: "everD R (failD e)"
  by (simp add: everD_def failD_def still)

lemma ever_absent [simp]: "everD R (absent p)"
  by (simp add: everD_def absent_def still)

lemma ever_bind:
  assumes "everD R m" "\<And>x. everD R (f x)"
  shows "everD R (bindD m f)"
  unfolding everD_def
proof
  fix s
  have m: "R s (snd (m s))" using assms(1) by (simp add: everD_def)
  show "R s (snd (bindD m f s))"
  proof (cases "m s")
    case (Pair r t)
    show ?thesis
    proof (cases r)
      case (Inr x)
      have "R t (snd (f x t))" using assms(2) by (simp add: everD_def)
      then show ?thesis using m Pair Inr chain by (simp add: bindD_def)
    qed (use m Pair in \<open>simp add: bindD_def\<close>)
  qed
qed

lemma ever_in_turn: "\<forall>m\<in>set ms. everD R m \<Longrightarrow> everD R (in_turn ms)"
  by (induction ms) (auto intro: ever_bind)

lemma ever_if: "(c \<Longrightarrow> everD R m) \<Longrightarrow> (\<not> c \<Longrightarrow> everD R m') \<Longrightarrow> everD R (if c then m else m')"
  by simp

end

text \<open>Nothing outside \<open>P\<close> is touched.\<close>

definition confined :: "(string \<Rightarrow> bool) \<Rightarrow> od_state \<Rightarrow> od_state \<Rightarrow> bool" where
  "confined P s t \<longleftrightarrow> (\<forall>p. \<not> P p \<longrightarrow> node_at p t = node_at p s)"

interpretation confined: evolution "confined P" for P
  by unfold_locales (auto simp: confined_def)

lemma node_at_forget: "node_at q (forget p s) = (if q = p then None else node_at q s)"
proof -
  have "map_of (filter (\<lambda>(q, _). q \<noteq> p) xs) q = (if q = p then None else map_of xs q)" for xs :: "(string \<times> dnode) list"
    by (induction xs) auto
  then show ?thesis by (simp add: forget_def)
qed

lemma entry_of_append: "n \<noteq> [] \<Longrightarrow> CHR ''/'' \<notin> set n \<Longrightarrow> entry_of path (path @ ''/'' @ n) = Some n"
  by (simp add: entry_of_def Let_def)

lemma entry_of_Some: "entry_of path p = Some n \<Longrightarrow> p = path @ ''/'' @ n \<and> n \<noteq> [] \<and> CHR ''/'' \<notin> set n"
  by (auto simp: entry_of_def Let_def split: if_splits) (metis append.assoc append_Cons append_Nil append_take_drop_id)

lemma entries_names: "n \<in> set (entries path s) \<Longrightarrow> n \<noteq> [] \<and> CHR ''/'' \<notin> set n"
  using entry_of_Some by (fastforce simp: entries_def List.map_filter_def)

lemma unlink_within: "P p \<Longrightarrow> everD (confined P) (unlink p)"
  by (auto simp: everD_def unlink_def confined_def node_at_forget split: option.split dnode.split)

lemma rmdir_within: "P p \<Longrightarrow> everD (confined P) (rmdir p)"
  by (auto simp: everD_def rmdir_def confined_def node_at_forget)

definition sweeps :: "string \<Rightarrow> string option \<Rightarrow> (string \<Rightarrow> bool) \<Rightarrow> bool" where
  "sweeps path pre P \<longleftrightarrow> P path \<and>
     (\<forall>n. n \<noteq> [] \<and> CHR ''/'' \<notin> set n \<and> \<not> is_dot n \<and> prefixed pre n \<longrightarrow> P (path @ ''/'' @ n))"

lemma delete_names_within:
  assumes "sweeps path pre P" "\<forall>n\<in>set names. n \<noteq> [] \<and> CHR ''/'' \<notin> set n"
  shows "everD (confined P) (delete_names path pre names)"
  using assms(2)
proof (induction names)
  case (Cons n names)
  then show ?case using assms(1) by (auto simp: sweeps_def intro!: confined.ever_bind unlink_within confined.ever_if)
qed simp

lemma delete_files_within:
  assumes "sweeps path pre P"
  shows "everD (confined P) (delete_files path pre)"
  unfolding everD_def
proof
  fix s
  have "everD (confined P) (bindD (delete_names path pre (entries path s)) (\<lambda>_. bindD (rmdir path) (\<lambda>ok. retD (\<not> ok))))"
    using delete_names_within[OF assms] entries_names assms by (intro confined.ever_bind rmdir_within) (auto simp: sweeps_def)
  then show "confined P s (snd (delete_files path pre s))" by (auto simp: delete_files_def everD_def confined.still)
qed

lemma clean_dir_within: "sweeps path pre P \<Longrightarrow> everD (confined P) (clean_dir e path pre)"
  unfolding clean_dir_def by (intro confined.ever_bind delete_files_within confined.ever_if confined.ever_fail confined.ever_ret)

lemma drop_within: "P p \<Longrightarrow> everD (confined P) (drop_dir e p)" "P p \<Longrightarrow> everD (confined P) (drop_file e p)"
  unfolding drop_dir_def drop_file_def
  by (intro confined.ever_bind rmdir_within unlink_within confined.ever_if confined.ever_fail confined.ever_ret confined.ever_absent; assumption)+

lemmas step_within = clean_dir_within drop_within

lemma confined_mono: "everD (confined P) m \<Longrightarrow> (\<And>p. P p \<Longrightarrow> Q p) \<Longrightarrow> everD (confined Q) m"
  by (auto simp: everD_def confined_def)

section \<open>Paths inside a directory\<close>

text \<open>\<open>inside d p\<close>: the path \<open>p\<close> is that of \<open>d\<close> or lies in it.\<close>

definition inside :: "string \<Rightarrow> string \<Rightarrow> bool" where
  "inside d p \<longleftrightarrow> p = d \<or> take (Suc (length d)) p = d @ ''/''"

lemma inside_append [simp]: "inside d (d @ CHR ''/'' # x)"
  by (simp add: inside_def)

lemma inside_self [simp]: "inside d d"
  by (simp add: inside_def)

lemma insideE:
  assumes "inside d p"
  obtains "p = d" | z where "p = d @ ''/'' @ z"
  using assms by (auto simp: inside_def) (metis append.assoc append_Cons append_Nil append_take_drop_id)

lemma inside_common [simp]: "inside (out @ q) (out @ p) \<longleftrightarrow> inside q p"
  by (auto simp: inside_def)

lemma inside_next [simp]: "inside a (a @ c # y) \<longleftrightarrow> c = CHR ''/''"
  by (auto simp: inside_def)

lemma inside_trans: "inside a b \<Longrightarrow> inside b p \<Longrightarrow> inside a p"
proof (elim insideE)
  fix z w assume "b = a @ ''/'' @ z" "p = b @ ''/'' @ w"
  then have "p = a @ CHR ''/'' # (z @ ''/'' @ w)" by simp
  then show ?thesis by simp
qed auto

lemma clean_inside: "everD (confined (inside a)) (clean_dir e a pre)"
  by (rule clean_dir_within) (simp add: sweeps_def)

lemma drop_inside: "everD (confined (inside a)) (drop_dir e a)" "everD (confined (inside a)) (drop_file e a)"
  "everD (confined (inside a)) (unlink a)"
  by (simp_all add: drop_within unlink_within)

lemma nuke_resume_dir_inside: "everD (confined (inside (out @ ''/_resume''))) (nuke_resume_dir out)"
proof -
  have c: "everD (confined (inside (out @ ''/_resume''))) m" if "everD (confined (inside (out @ ''/_resume'' @ x))) m" "x = [] \<or> hd x = CHR ''/''"
    for m :: "unit dio" and x
  proof (rule confined_mono[OF that(1)])
    have "inside (out @ ''/_resume'') (out @ ''/_resume'' @ x)" using that(2) by (cases x) (auto simp: inside_def)
    then show "inside (out @ ''/_resume'' @ x) p \<Longrightarrow> inside (out @ ''/_resume'') p" for p using inside_trans by blast
  qed
  have "everD (confined (inside (out @ ''/_resume''))) (clean_dir e (out @ ''/_resume'' @ x) pre)"
    "everD (confined (inside (out @ ''/_resume''))) (drop_dir e (out @ ''/_resume'' @ x))" if "x = [] \<or> hd x = CHR ''/''" for e x pre
    using c[OF clean_inside that] c[OF drop_inside(1) that] by blast+
  from this[of "''/.state/deterministic_done''"] this[of "''/.state/auto_extras''"] this[of "''/.state/redundant_edges''"]
    this[of "''/.state/variable_behavior''"] this[of "''/.state''"] this[of "[]"]
  show ?thesis unfolding nuke_resume_dir_def Let_def by (intro confined.ever_in_turn) simp
qed

section \<open>How an operation can fail\<close>

definition dies :: "'a dio \<Rightarrow> bool" where
  "dies m \<longleftrightarrow> (\<forall>s. okE (\<lambda>_. True) (fst (m s)))"

lemma dies_simps [simp]: "dies (retD x)" "dies (failD e) = fatal e" "dies (absent p)" "dies (unlink p)" "dies (rmdir p)"
  by (auto simp: dies_def retD_def failD_def absent_def unlink_def rmdir_def split: option.split dnode.split)

lemma dies_bind: "dies m \<Longrightarrow> (\<And>x. dies (f x)) \<Longrightarrow> dies (bindD m f)"
  unfolding dies_def
proof
  fix s assume m: "\<forall>s. okE (\<lambda>_. True) (fst (m s))" and f: "\<And>x. \<forall>s. okE (\<lambda>_. True) (fst (f x s))"
  have "okE (\<lambda>_. True) (fst (m s))" using m by blast
  then show "okE (\<lambda>_. True) (fst (bindD m f s))" using f by (cases "m s") (auto simp: bindD_def split: sum.split)
qed

lemma dies_if: "(c \<Longrightarrow> dies m) \<Longrightarrow> (\<not> c \<Longrightarrow> dies m') \<Longrightarrow> dies (if c then m else m')"
  by simp

lemma dies_in_turn: "\<forall>m\<in>set ms. dies m \<Longrightarrow> dies (in_turn ms)"
  by (induction ms) (auto intro: dies_bind)

lemma dies_delete_names: "dies (delete_names path pre names)"
  by (induction names) (auto intro!: dies_bind)

lemma dies_delete_files: "dies (delete_files path pre)"
proof -
  have "dies (bindD (delete_names path pre names) (\<lambda>_. bindD (rmdir path) (\<lambda>ok. retD (\<not> ok))))" for names
    by (intro dies_bind dies_delete_names dies_simps)
  then show ?thesis unfolding dies_def delete_files_def by auto
qed

lemma dies_steps: "fatal e \<Longrightarrow> dies (clean_dir e path pre)" "fatal e \<Longrightarrow> dies (drop_dir e path)" "fatal e \<Longrightarrow> dies (drop_file e path)"
  by (auto simp: clean_dir_def drop_dir_def drop_file_def intro!: dies_bind dies_delete_files)

lemma nuke_resume_dir_dies: "dies (nuke_resume_dir out)"
  unfolding nuke_resume_dir_def Let_def by (rule dies_in_turn) (simp add: dies_steps)

end
