(* ===== verification/Afl_Words.thy ===== *)
theory Afl_Words
  imports Afl_Prelude
begin

unbundle bit_operations_syntax

text \<open>
  Generic facts on bytes and little-endian words: byte-wise addition and subtraction without
  carries, and the bit-counting identity behind the constants \<open>0x55555555\<close>,
  \<open>0x33333333\<close>, \<open>0x0F0F0F0F\<close> and \<open>0x01010101\<close> of \<open>count_bits\<close>: each of
  its four steps acts on the four bytes of the word separately.
\<close>

section \<open>Bytes in words\<close>

lemma word8_ones [simp]: "(c::u8) AND 0xff = c"
proof -
  have "c AND - 1 = c" by simp
  moreover have "(0xff::u8) = - 1" by simp
  ultimately show ?thesis by (simp only:)
qed

lemma AND_NOT_disjoint: "(x::'a::len word) AND y = 0 \<Longrightarrow> y AND NOT x = y"
  by (simp add: bit_eq_iff) (auto simp: bit_simps)

lemma le_load_AND_eq_0:
  assumes "length c = k" "length d = k" "8 * k \<le> LENGTH('a)"
  shows "(le_load c :: 'a::len word) AND le_load d = 0 \<longleftrightarrow> (\<forall>(x, y)\<in>set (zip c d). x AND y = 0)"
  using assms by (auto simp: le_load_AND le_load_eq_0)

lemma le_load_inj:
  assumes "length xs = length ys" "8 * length xs \<le> LENGTH('w)"
  shows "(le_load xs :: 'w::len word) = le_load ys \<longleftrightarrow> xs = ys"
  using assms le_store_load[of xs, where 'a='w] le_store_load[of ys, where 'a='w] by metis

lemma bytes4:
  assumes "length c = 4"
  obtains a b d e where "c = [a, b, d, e]"
  using assms by (auto simp: numeral_eq_Suc length_Suc_conv)

section \<open>Counting the bits of a word in parallel\<close>

definition popcount :: "'a::len word \<Rightarrow> nat" where
  "popcount w = length (filter (bit w) [0..<LENGTH('a)])"
definition swar1 :: "u8 \<Rightarrow> u8" where "swar1 x = x - (drop_bit 1 x AND 0x55)"
definition swar2 :: "u8 \<Rightarrow> u8" where "swar2 x = (x AND 0x33) + (drop_bit 2 x AND 0x33)"
definition swar3 :: "u8 \<Rightarrow> u8" where "swar3 x = (x + drop_bit 4 x) AND 0x0f"

definition byte_of :: "bool list \<Rightarrow> u8" where "byte_of bs = horner_sum of_bool 2 bs"

lemma byte_of_bits: "byte_of (map (bit x) [0..<8]) = x"
  using horner_sum_bit_eq_take_bit[of x 8] by (simp add: byte_of_def take_bit_word_eq_self del: upt_rec_numeral)

lemma byte_bools:
  obtains b0 b1 b2 b3 b4 b5 b6 b7 where "x = byte_of [b0, b1, b2, b3, b4, b5, b6, b7]"
proof -
  have "map (bit x) [0..<8] = [bit x 0, bit x 1, bit x 2, bit x 3, bit x 4, bit x 5, bit x 6, bit x 7]"
    by (simp add: upt_rec numeral_eq_Suc)
  then have "x = byte_of [bit x 0, bit x 1, bit x 2, bit x 3, bit x 4, bit x 5, bit x 6, bit x 7]"
    using byte_of_bits[of x] by simp
  then show thesis by (rule that)
qed

lemma popcount_byte_of: 
  "popcount (byte_of [b0, b1, b2, b3, b4, b5, b6, b7]) =
    of_bool b0 + of_bool b1 + of_bool b2 + of_bool b3 + of_bool b4 + of_bool b5 + of_bool b6 + of_bool b7"
  by (simp add: popcount_def byte_of_def bit_horner_sum_bit_word_iff numeral_eq_Suc  del: horner_sum_simps)

lemma swar_popcount:
  "unat (swar3 (swar2 (swar1 x))) = popcount x"
proof -
  obtain b0 b1 b2 b3 b4 b5 b6 b7 where x: "x = byte_of [b0, b1, b2, b3, b4, b5, b6, b7]"
    using byte_bools .
  show ?thesis unfolding x popcount_byte_of
    by (cases b0; cases b1; cases b2; cases b3; cases b4; cases b5; cases b6; cases b7;
        simp add: byte_of_def swar1_def swar2_def swar3_def)
qed

lemma swar_sub: "drop_bit 1 x AND 0x55 \<le> (x::u8)"
proof -
  obtain b0 b1 b2 b3 b4 b5 b6 b7 where x: "x = byte_of [b0, b1, b2, b3, b4, b5, b6, b7]"
    using byte_bools .
  show ?thesis unfolding x
    by (cases b0; cases b1; cases b2; cases b3; cases b4; cases b5; cases b6; cases b7;
        simp add: byte_of_def)
qed

lemma swar_nibbles:
  "unat (swar1 x AND 0x33) + unat (drop_bit 2 (swar1 x) AND 0x33) < 256"
  "unat (swar2 (swar1 x)) mod 16 \<le> 4" "unat (swar2 (swar1 x)) div 16 \<le> 4"
proof -
  obtain b0 b1 b2 b3 b4 b5 b6 b7 where x: "x = byte_of [b0, b1, b2, b3, b4, b5, b6, b7]"
    using byte_bools .
  have "unat (swar1 x AND 0x33) + unat (drop_bit 2 (swar1 x) AND 0x33) < 256
    \<and> unat (swar2 (swar1 x)) mod 16 \<le> 4 \<and> unat (swar2 (swar1 x)) div 16 \<le> 4"
  unfolding x
    by (cases b0; cases b1; cases b2; cases b3; cases b4; cases b5; cases b6; cases b7;
        simp add: byte_of_def swar1_def swar2_def)
  then show   "unat (swar1 x AND 0x33) + unat (drop_bit 2 (swar1 x) AND 0x33) < 256"
  "unat (swar2 (swar1 x)) mod 16 \<le> 4" "unat (swar2 (swar1 x)) div 16 \<le> 4" by simp_all
qed

lemma ucast_shift_disjoint: "(ucast (b::u8) :: 'w::len word) OR push_bit 8 w = ucast b + push_bit 8 w"
proof (rule sym, rule disjunctive_add)
  fix n show "\<not> bit (ucast b :: 'w word) n \<or> \<not> bit (push_bit 8 w) n"
    by (auto simp: bit_simps dest: byte_bit_bound)
qed

lemma le_load_Cons_plus: "(le_load (b # bs) :: 'w::len word) = ucast b + 256 * le_load bs"
  unfolding le_load.simps ucast_shift_disjoint by (simp add: push_bit_eq_mult mult.commute)

lemma le_load_add:
  assumes "length xs = length ys" "\<forall>(x, y)\<in>set (zip xs ys). unat x + unat y < 256"
    "8 \<le> LENGTH('w)"
  shows "(le_load xs :: 'w::len word) + le_load ys = le_load (map2 (+) xs ys)"
  using assms(1,2)
proof (induction xs ys rule: list_induct2)
  case Nil
  then show ?case by simp
next
  case (Cons x xs y ys)
  have "(ucast (x + y) :: 'w word) = ucast x + ucast y"
  proof -
    have "unat x + unat y < 2 ^ LENGTH(8)" using Cons.prems by simp
    then have "unat (x + y) = unat x + unat y" by (simp add: unat_word_ariths)
    then show ?thesis by (metis of_nat_add of_nat_unat)
  qed
  moreover have "256 * (le_load xs :: 'w word) + 256 * le_load ys = 256 * le_load (map2 (+) xs ys)"
    using Cons by (simp flip: distrib_left)
  ultimately show ?case by (simp add: le_load_Cons_plus ac_simps del: le_load.simps(2))
qed

lemma le_load_diff:
  assumes "length xs = length ys" "\<forall>(x, y)\<in>set (zip xs ys). y \<le> x"
  shows "(le_load xs :: 'w::len word) - le_load ys = le_load (map2 (-) xs ys)"
  using assms(1,2)
proof (induction xs ys rule: list_induct2)
  case Nil
  then show ?case by simp
next
  case (Cons x xs y ys)
  have "(ucast (x - y) :: 'w word) = ucast x - ucast y"
  proof -
    have "unat (x - y) = unat x - unat y" "unat y \<le> unat x" using Cons.prems
      by (simp_all add: unat_sub word_le_nat_alt)
    then show ?thesis by (metis of_nat_diff of_nat_unat)
  qed
  then show ?case using Cons by (simp add: le_load_Cons_plus algebra_simps del: le_load.simps(2))
qed

lemma le_load_drop_mask:
  assumes "8 * length xs \<le> LENGTH('w)" "\<And>i. bit m i \<Longrightarrow> i + k < 8"
  shows "drop_bit k (le_load xs :: 'w::len word) AND le_load (replicate (length xs) m)
     = le_load (map (\<lambda>x. drop_bit k x AND m) xs)"
proof (rule bit_word_eqI)
  fix n assume n: "n < LENGTH('w)"
  show "bit (drop_bit k (le_load xs :: 'w::len word) AND le_load (replicate (length xs) m)) n
     = bit (le_load (map (\<lambda>x. drop_bit k x AND m) xs) :: 'w word) n"
  proof (cases "bit m (n mod 8)")
    case True
    then have l: "n mod 8 + k < 8" using assms(2) by blast
    have kn: "k + n = 8 * (n div 8) + (k + n mod 8)" by simp
    have "(8 * q + r) div 8 = q \<and> (8 * q + r) mod 8 = r" if "r < 8" for q r :: nat using that by simp
    then have "(k + n) div 8 = n div 8" "(k + n) mod 8 = k + n mod 8"
      using l kn by (metis add.commute)+
    moreover have "n div 8 < length xs \<Longrightarrow> k + n < LENGTH('w)"
      using l assms(1) kn by linarith
    ultimately show ?thesis using n by (auto simp: bit_simps mem_simps)
  next
    case False
    then show ?thesis by (auto simp: bit_simps mem_simps)
  qed
qed


lemma nibble_add:
  assumes "unat (a::u8) mod 16 \<le> 4" "unat a div 16 \<le> 4" "unat (b::u8) mod 16 \<le> 4"
  shows "unat a + unat (drop_bit 4 a OR push_bit 4 b) < 256"
    "(a + (drop_bit 4 a OR push_bit 4 b)) AND 0x0f = swar3 a"
proof -
  have dj: "drop_bit 4 a OR push_bit 4 b = drop_bit 4 a + push_bit 4 b"
    by (rule sym, rule disjunctive_add) (auto simp: bit_simps dest: byte_bit_bound)
  have pb: "unat (push_bit 4 b) = 16 * (unat b mod 16)"
  proof -
    have "push_bit 4 b = b * 16" by (simp add: push_bit_eq_mult)
    then have "unat (push_bit 4 b) = (unat b * 16) mod (16 * 16)" by (simp add: unat_word_ariths)
    then show ?thesis by (simp only: mod_mult_mult2 mult.commute)
  qed
  have db: "unat (drop_bit 4 a) = unat a div 16"
    using unat_div[of a 16] by (simp add: drop_bit_eq_div)
  have ua: "unat a \<le> 68" using assms(1,2) div_mult_mod_eq[of "unat a" 16] by linarith
  have sum: "unat (drop_bit 4 a + push_bit 4 b) = unat a div 16 + 16 * (unat b mod 16)"
    using assms pb db by (simp add: unat_word_ariths)
  then show "unat a + unat (drop_bit 4 a OR push_bit 4 b) < 256"
    using ua dj assms by simp
  have m: "unat (x AND 0x0f) = unat x mod 16" for x :: u8
  proof -
    have "(0x0f::u8) = mask 4" by (simp add: mask_eq_exp_minus_1)
    then have "x AND 0x0f = x mod 16" by (simp only: take_bit_eq_mask [symmetric]) (simp add: take_bit_eq_mod)
    then show ?thesis using unat_mod[of x 16] by simp
  qed
  have "unat (a + (drop_bit 4 a + push_bit 4 b)) = unat a + unat a div 16 + 16 * (unat b mod 16)"
    using sum ua assms by (simp add: unat_word_ariths)
  moreover have "unat (a + drop_bit 4 a) = unat a + unat a div 16"
    using db ua assms by (simp add: unat_word_ariths)
  ultimately have "unat ((a + (drop_bit 4 a OR push_bit 4 b)) AND 0x0f) = unat (swar3 a)"
    unfolding dj swar3_def m by (simp only: mod_mult_self2)
  then show "(a + (drop_bit 4 a OR push_bit 4 b)) AND 0x0f = swar3 a"
    by (simp only: word_unat_eq_iff)
qed

lemma le_load_shift4:
  "drop_bit 4 (le_load [a, b, c, d] :: u32) =
     le_load [drop_bit 4 a OR push_bit 4 b, drop_bit 4 b OR push_bit 4 c,
              drop_bit 4 c OR push_bit 4 d, drop_bit 4 d OR push_bit 4 0]"
proof -
  have "drop_bit 4 (le_load xs :: u32) = le_load (map2 (\<lambda>x y. drop_bit 4 x OR push_bit 4 y) xs (tl xs @ [0]))"
    if "length xs = 4" for xs
  proof (rule bit_word_eqI)
    fix n assume "n < LENGTH(32)"
    then have n: "n < 32" by simp
    have k: "4 + n = 8 * (n div 8) + (n mod 8 + 4)" by simp
    have q: "(8 * q + r) div 8 = q \<and> (8 * q + r) mod 8 = r" if "r < 8" for q r :: nat using that by simp
    have q2: "(8 * q + r) div 8 = q + 1 \<and> (8 * q + r) mod 8 = r - 8" if "8 \<le> r" "r < 16" for q r :: nat
      using q[of "r - 8" "q + 1"] that by (simp add: algebra_simps)
    have nd: "n div 8 < 4" using n by simp
    show "bit (drop_bit 4 (le_load xs :: u32)) n =
      bit (le_load (map2 (\<lambda>x y. drop_bit 4 x OR push_bit 4 y) xs (tl xs @ [0])) :: u32) n"
    proof (cases "n mod 8 < 4")
      case True
      then have "(4 + n) div 8 = n div 8 \<and> (4 + n) mod 8 = n mod 8 + 4"
        unfolding k using q[of "n mod 8 + 4" "n div 8"] by simp
      moreover have "4 + n < 32" using True nd k by linarith
      ultimately show ?thesis using True nd n \<open>length xs = 4\<close>
        by (auto simp: bit_simps mem_simps add.commute)
    next
      case False
      then have e: "(4 + n) div 8 = n div 8 + 1 \<and> (4 + n) mod 8 = n mod 8 - 4"
        unfolding k using q2[of "n mod 8 + 4" "n div 8"] by simp
      have nb: "\<not> bit (xs ! (n div 8)) (4 + n mod 8)" using False byte_bit_bound[of "xs ! (n div 8)" "4 + n mod 8"] by linarith
      have "4 + n < 32 \<longleftrightarrow> n div 8 < 3" using False k nd by linarith
      then show ?thesis using False nd n e nb \<open>length xs = 4\<close>
        by (auto simp: bit_simps mem_simps nth_append nth_tl)
    qed
  qed
  from this[of "[a, b, c, d]"] show ?thesis by simp
qed


lemma mult_01010101:
  assumes "unat a + unat b + unat c + unat (d::u8) < 256"
  shows "unat (drop_bit 24 ((le_load [a, b, c, d] :: u32) * 0x01010101)) = unat a + unat b + unat c + unat d"
proof -
  have ub: "unat (x::u8) < 256" for x using unsigned_less[of x, where 'a=nat] by simp
  let ?v = "unat a + 256 * unat b + 65536 * unat c + 16777216 * unat d"
  have "(le_load [a, b, c, d] :: u32) = of_nat ?v"
    by (simp add: le_load_Cons_plus algebra_simps del: le_load.simps(2))
  then have "(le_load [a, b, c, d] :: u32) * 0x01010101 = of_nat (?v * 0x01010101)" by simp
  moreover define q where "q = unat b + unat c + unat d + 256 * unat c + 256 * unat d + 65536 * unat d"
  moreover define r where "r = 65536 * (unat a + unat b + unat c) + 256 * (unat a + unat b) + unat a"
  moreover define t where "t = unat a + unat b + unat c + unat d"
  moreover have "?v * 0x01010101 = 4294967296 * q + (16777216 * t + r)"
    by (simp add: q_def r_def t_def)
  moreover have r: "r < 16777216" using assms ub[of a] by (simp add: r_def)
  moreover have t: "t < 256" using assms by (simp add: t_def)
  ultimately have e: "(le_load [a, b, c, d] :: u32) * 0x01010101 = of_nat (4294967296 * q + (16777216 * t + r))"
    by metis
  have "unat (of_nat (4294967296 * q + (16777216 * t + r)) :: u32) = 16777216 * t + r"
    unfolding unat_of_nat using r t by simp
  then have "unat (drop_bit 24 ((le_load [a, b, c, d] :: u32) * 0x01010101)) = (16777216 * t + r) div 16777216"
    unfolding e unat_drop_bit_eq by (simp add: drop_bit_eq_div)
  then show ?thesis using r by (simp add: t_def)
qed


lemma count_bits_swar:
  fixes v :: u32
  assumes "v = le_load [a, b, c, d]"
  defines "v1 \<equiv> v - (drop_bit 1 v AND 0x55555555)"
  defines "v2 \<equiv> (v1 AND 0x33333333) + (drop_bit 2 v1 AND 0x33333333)"
  shows "drop_bit 24 (((v2 + drop_bit 4 v2) AND 0x0F0F0F0F) * 0x01010101)
     = of_nat (popcount a + popcount b + popcount c + popcount d)"
proof -
  have lt: "i < k" if "bit (m::u8) i" "take_bit k m = m" for m i k
    using that by (metis bit_take_bit_iff)
  have bnd: "bit (0x55::u8) i \<Longrightarrow> i + 1 < 8" "bit (0x33::u8) i \<Longrightarrow> i + 2 < 8" for i
    using lt[of "0x55" i 7] lt[of "0x33" i 6] by auto
  have c: "(0x55555555::u32) = le_load [0x55, 0x55, 0x55, 0x55]" "(0x33333333::u32) = le_load [0x33, 0x33, 0x33, 0x33]"
    "(0x0F0F0F0F::u32) = le_load [0x0f, 0x0f, 0x0f, 0x0f]"
    by simp_all
  have r: "replicate (length [x, y, z, w]) m = [m, m, m, m]" for x y z w m :: u8 by simp
  have v1: "v1 = le_load [swar1 a, swar1 b, swar1 c, swar1 d]"
    unfolding v1_def assms(1) c
    using le_load_drop_mask[of "[a, b, c, d]" "0x55" 1, where 'w=32, unfolded r] bnd(1)
      le_load_diff[of "[a, b, c, d]" "map (\<lambda>x. drop_bit 1 x AND 0x55) [a, b, c, d]", where 'w=32]
    by (simp add: swar_sub[simplified] swar1_def del: le_load.simps)
  have v2: "v2 = le_load [swar2 (swar1 a), swar2 (swar1 b), swar2 (swar1 c), swar2 (swar1 d)]"
    unfolding v2_def v1 c
    using le_load_drop_mask[of "[swar1 a, swar1 b, swar1 c, swar1 d]" "0x33" 2, where 'w=32, unfolded r] bnd(2)
      le_load_AND[of "[swar1 a, swar1 b, swar1 c, swar1 d]" "[0x33, 0x33, 0x33, 0x33]", where 'a=32]
    by (simp add: le_load_add swar_nibbles(1) swar2_def del: le_load.simps)
  let ?n = "\<lambda>x. swar2 (swar1 x)"
  have nz: "unat (0::u8) mod 16 \<le> 4" by simp
  note nib = swar_nibbles(2)[of a] swar_nibbles(3)[of a] swar_nibbles(2)[of b] swar_nibbles(3)[of b]
    swar_nibbles(2)[of c] swar_nibbles(3)[of c] swar_nibbles(2)[of d] swar_nibbles(3)[of d]
  have "v2 + drop_bit 4 v2 = le_load [?n a + (drop_bit 4 (?n a) OR push_bit 4 (?n b)),
      ?n b + (drop_bit 4 (?n b) OR push_bit 4 (?n c)), ?n c + (drop_bit 4 (?n c) OR push_bit 4 (?n d)),
      ?n d + (drop_bit 4 (?n d) OR push_bit 4 0)]"
    unfolding v2 le_load_shift4
    using nibble_add(1)[OF nib(1,2,3)] nibble_add(1)[OF nib(3,4,5)] nibble_add(1)[OF nib(5,6,7)]
      nibble_add(1)[OF nib(7,8) nz]
    by (subst le_load_add) (simp_all del: le_load.simps push_bit_of_0)
  then have "(v2 + drop_bit 4 v2) AND 0x0F0F0F0F =
      le_load [swar3 (?n a), swar3 (?n b), swar3 (?n c), swar3 (?n d)]"
    unfolding c
    using nibble_add(2)[OF nib(1,2,3)] nibble_add(2)[OF nib(3,4,5)] nibble_add(2)[OF nib(5,6,7)]
      nibble_add(2)[OF nib(7,8) nz]
    by (simp add: le_load_AND del: le_load.simps push_bit_of_0)
  moreover have le8: "popcount x \<le> 8" for x :: u8
    unfolding popcount_def using length_filter_le[of "bit x" "[0..<8]"] by simp
  moreover have "popcount a + popcount b + popcount c + popcount d < 256"
    using le8[of a] le8[of b] le8[of c] le8[of d] by linarith
  ultimately have "unat (drop_bit 24 (((v2 + drop_bit 4 v2) AND 0x0F0F0F0F) * 0x01010101))
     = popcount a + popcount b + popcount c + popcount d"
    using mult_01010101[of "swar3 (?n a)" "swar3 (?n b)" "swar3 (?n c)" "swar3 (?n d)"]
    by (simp add: swar_popcount del: le_load.simps)
  then show ?thesis by (metis of_nat_unat ucast_id)
qed

lemma popcount_ones: "popcount (0xff::u8) = 8"
  by (simp add: popcount_def upt_rec)

end
