(* ===== verification/Afl_Bitmap.thy ===== *)
theory Afl_Bitmap
  imports Afl_Words
begin

unbundle bit_operations_syntax

text \<open>
  The coverage bitmaps of \<open>afl-fuzz.c\<close>: the trace map the target writes, the virgin
  maps that remember what has been seen, and the routines that compare, count, classify and
  compact them. The C code casts the byte maps to words of 8 bytes (4 bytes when not compiled
  for x86-64) and walks them word by word; the definitions do the same on \<^const>\<open>view\<close>s,
  and the lemmas show what happens to each byte. A map is a list of bytes; where the C code
  counts \<^const>\<open>MAP_SIZE\<close> bytes the model takes the length of the list.
\<close>

section \<open>State\<close>

record bm_state =
  trace_bits :: "u8 list"
  virgin_bits :: "u8 list"
  virgin_tmout :: "u8 list"
  virgin_crash :: "u8 list"
  var_bytes :: "u8 list"
  bitmap_changed :: bool

text \<open>The pointer argument of \<open>has_new_bits\<close>: one of the three virgin maps.\<close>

datatype virgin_map = VirginBits | VirginTmout | VirginCrash

section \<open>Looking for new bits\<close>

fun has_new_bits_loop ::
  "nat \<Rightarrow> 'w::len word list \<Rightarrow> 'w word list \<Rightarrow> u8 \<Rightarrow> u8 \<times> 'w word list" where
  "has_new_bits_loop k (current # cs) (virgin # vs) ret =
     (let (ret', virgin') =
        (if current \<noteq> 0 \<and> current AND virgin \<noteq> 0 then
           (if ret < 2 then
              (let cur = le_store k current; vir = le_store k virgin in
               if \<exists>n\<in>set [0..<k]. cur ! n \<noteq> 0 \<and> vir ! n = 0xff then 2 else 1)
            else ret,
            virgin AND NOT current)
         else (ret, virgin));
        (r, vs') = has_new_bits_loop k cs vs ret'
      in (r, virgin' # vs'))"
| "has_new_bits_loop k _ vs ret = (ret, vs)"

definition has_new_bits_map :: "u8 list \<Rightarrow> u8 list \<Rightarrow> u8 \<times> u8 list" where
  "has_new_bits_map trace virgin =
     (let (ret, ws) = has_new_bits_loop 8 (view 8 trace :: u64 list) (view 8 virgin) 0
      in (ret, unview 8 ws))"

definition has_new_bits_map32 :: "u8 list \<Rightarrow> u8 list \<Rightarrow> u8 \<times> u8 list" where
  "has_new_bits_map32 trace virgin =
     (let (ret, ws) = has_new_bits_loop 4 (view 4 trace :: u32 list) (view 4 virgin) 0
      in (ret, unview 4 ws))"

fun has_new_bits :: "virgin_map \<Rightarrow> 'a bm_state_scheme \<Rightarrow> u8 \<times> 'a bm_state_scheme" where
  "has_new_bits VirginBits s =
     (let (ret, v) = has_new_bits_map (trace_bits s) (virgin_bits s)
      in (ret, s\<lparr>virgin_bits := v, bitmap_changed := (if ret \<noteq> 0 then True else bitmap_changed s)\<rparr>))"
| "has_new_bits VirginTmout s =
     (let (ret, v) = has_new_bits_map (trace_bits s) (virgin_tmout s) in (ret, s\<lparr>virgin_tmout := v\<rparr>))"
| "has_new_bits VirginCrash s =
     (let (ret, v) = has_new_bits_map (trace_bits s) (virgin_crash s) in (ret, s\<lparr>virgin_crash := v\<rparr>))"

section \<open>Counting\<close>

fun count_bits_loop :: "u32 list \<Rightarrow> u32 \<Rightarrow> u32" where
  "count_bits_loop [] ret = ret"
| "count_bits_loop (v # ptr) ret =
     (if v = 0xffffffff then count_bits_loop ptr (ret + 32)
      else
        (let v = v - (drop_bit 1 v AND 0x55555555);
             v = (v AND 0x33333333) + (drop_bit 2 v AND 0x33333333)
         in count_bits_loop ptr (ret + drop_bit 24 (((v + drop_bit 4 v) AND 0x0F0F0F0F) * 0x01010101))))"

definition count_bits :: "u8 list \<Rightarrow> u32" where
  "count_bits mem = count_bits_loop (view 4 mem) 0"

definition FF :: "nat \<Rightarrow> u32" where
  "FF b = push_bit (8 * b) 0xff"

fun count_bytes_loop :: "u32 list \<Rightarrow> u32 \<Rightarrow> u32" where
  "count_bytes_loop [] ret = ret"
| "count_bytes_loop (v # ptr) ret =
     (if v = 0 then count_bytes_loop ptr ret
      else
        (let ret = (if v AND FF 0 \<noteq> 0 then ret + 1 else ret);
             ret = (if v AND FF 1 \<noteq> 0 then ret + 1 else ret);
             ret = (if v AND FF 2 \<noteq> 0 then ret + 1 else ret);
             ret = (if v AND FF 3 \<noteq> 0 then ret + 1 else ret)
         in count_bytes_loop ptr ret))"

definition count_bytes :: "u8 list \<Rightarrow> u32" where
  "count_bytes mem = count_bytes_loop (view 4 mem) 0"

fun count_non_255_bytes_loop :: "u32 list \<Rightarrow> u32 \<Rightarrow> u32" where
  "count_non_255_bytes_loop [] ret = ret"
| "count_non_255_bytes_loop (v # ptr) ret =
     (if v = 0xffffffff then count_non_255_bytes_loop ptr ret
      else
        (let ret = (if v AND FF 0 \<noteq> FF 0 then ret + 1 else ret);
             ret = (if v AND FF 1 \<noteq> FF 1 then ret + 1 else ret);
             ret = (if v AND FF 2 \<noteq> FF 2 then ret + 1 else ret);
             ret = (if v AND FF 3 \<noteq> FF 3 then ret + 1 else ret)
         in count_non_255_bytes_loop ptr ret))"

definition count_non_255_bytes :: "u8 list \<Rightarrow> u32" where
  "count_non_255_bytes mem = count_non_255_bytes_loop (view 4 mem) 0"

section \<open>Simplifying and classifying traces\<close>

definition simplify_lookup :: "u8 \<Rightarrow> u8" where
  "simplify_lookup b = (if b = 0 then 1 else 128)"

fun simplify_trace_loop :: "nat \<Rightarrow> 'w::len word \<Rightarrow> 'w word list \<Rightarrow> 'w word list" where
  "simplify_trace_loop k ones [] = []"
| "simplify_trace_loop k ones (m # mem) =
     (if m \<noteq> 0 then le_load (map simplify_lookup (le_store k m)) else ones)
     # simplify_trace_loop k ones mem"

definition simplify_trace :: "u8 list \<Rightarrow> u8 list" where
  "simplify_trace mem =
     unview 8 (simplify_trace_loop 8 (0x0101010101010101 :: u64) (view 8 mem))"

definition simplify_trace32 :: "u8 list \<Rightarrow> u8 list" where
  "simplify_trace32 mem = unview 4 (simplify_trace_loop 4 (0x01010101 :: u32) (view 4 mem))"

definition count_class_lookup8 :: "u8 \<Rightarrow> u8" where
  "count_class_lookup8 b =
     (let n = unat b in
      if n = 0 then 0 else if n = 1 then 1 else if n = 2 then 2 else if n = 3 then 4
      else if n \<le> 7 then 8 else if n \<le> 15 then 16 else if n \<le> 31 then 32
      else if n \<le> 127 then 64 else 128)"

definition init_count_class16 :: "(nat \<Rightarrow> u16) \<Rightarrow> nat \<Rightarrow> u16" where
  "init_count_class16 tbl =
     fold (\<lambda>b1 tbl. fold (\<lambda>b2 tbl.
         tbl(b1 * 256 + b2 :=
           push_bit 8 (ucast (count_class_lookup8 (of_nat b1)))
           OR ucast (count_class_lookup8 (of_nat b2))))
       [0..<256] tbl) [0..<256] tbl"

fun classify_counts_loop :: "(nat \<Rightarrow> u16) \<Rightarrow> nat \<Rightarrow> 'w::len word list \<Rightarrow> 'w word list" where
  "classify_counts_loop tbl k [] = []"
| "classify_counts_loop tbl k (m # mem) =
     (if m \<noteq> 0 then
        (let mem16 = (view 2 (le_store k m) :: u16 list)
         in le_load (unview 2 (map (\<lambda>x. tbl (unat x)) mem16)))
      else m)
     # classify_counts_loop tbl k mem"

definition classify_counts :: "(nat \<Rightarrow> u16) \<Rightarrow> u8 list \<Rightarrow> u8 list" where
  "classify_counts tbl mem = unview 8 (classify_counts_loop tbl 8 (view 8 mem :: u64 list))"

definition classify_counts32 :: "(nat \<Rightarrow> u16) \<Rightarrow> u8 list \<Rightarrow> u8 list" where
  "classify_counts32 tbl mem = unview 4 (classify_counts_loop tbl 4 (view 4 mem :: u32 list))"

section \<open>Compacting a trace to one bit per byte\<close>

fun minimize_bits_loop :: "nat \<Rightarrow> u8 list \<Rightarrow> u8 list \<Rightarrow> u8 list" where
  "minimize_bits_loop i dst [] = dst"
| "minimize_bits_loop i dst (b # src) =
     minimize_bits_loop (Suc i)
       (if b \<noteq> 0 then dst[i div 8 := dst ! (i div 8) OR push_bit (i mod 8) 1] else dst) src"

definition minimize_bits :: "u8 list \<Rightarrow> u8 list \<Rightarrow> u8 list" where
  "minimize_bits dst src = minimize_bits_loop 0 dst src"

section \<open>What the routines do to each byte\<close>

text \<open>The reference reading of \<open>has_new_bits\<close>, byte by byte.\<close>

definition byte_news :: "u8 list \<Rightarrow> u8 list \<Rightarrow> u8 \<Rightarrow> u8" where
  "byte_news cs vs ret =
     (if ret \<ge> 2 then ret
      else if \<exists>(c, v)\<in>set (zip cs vs). c \<noteq> 0 \<and> v = 0xff then 2
      else if \<exists>(c, v)\<in>set (zip cs vs). c AND v \<noteq> 0 then 1
      else ret)"

lemma ex_byte_zip:
  assumes "length c = k" "length d = k"
  shows "(\<exists>n\<in>set [0..<k]. c ! n \<noteq> 0 \<and> d ! n = 0xff) \<longleftrightarrow> (\<exists>(x, y)\<in>set (zip c d). x \<noteq> 0 \<and> y = (0xff::u8))"
  using assms by (auto simp: in_set_zip Bex_def)

lemma byte_news_append:
  "length c = length d \<Longrightarrow> byte_news (c @ cs) (d @ ds) ret = byte_news cs ds (byte_news c d ret)"
proof -
  assume l: "length c = length d"
  define A B A' B' where
    "A = (\<exists>(c, v)\<in>set (zip c d). c \<noteq> 0 \<and> v = (0xff::u8))" and
    "B = (\<exists>(c, v)\<in>set (zip c d). c AND v \<noteq> 0)" and
    "A' = (\<exists>(c, v)\<in>set (zip cs ds). c \<noteq> 0 \<and> v = (0xff::u8))" and
    "B' = (\<exists>(c, v)\<in>set (zip cs ds). c AND v \<noteq> 0)"
  have "byte_news (c @ cs) (d @ ds) ret = (if ret \<ge> 2 then ret else if A \<or> A' then 2 else if B \<or> B' then 1 else ret)"
    unfolding byte_news_def A_def B_def A'_def B'_def using l by (simp add: bex_Un)
  moreover have "byte_news c d ret = (if ret \<ge> 2 then ret else if A then 2 else if B then 1 else ret)"
    unfolding byte_news_def A_def B_def ..
  moreover have "byte_news cs ds r = (if r \<ge> 2 then r else if A' then 2 else if B' then 1 else r)" for r
    unfolding byte_news_def A'_def B'_def ..
  moreover have "\<not> (2::u8) \<le> 1" by (simp add: word_le_nat_alt)
  ultimately show ?thesis by (simp split: if_splits)
qed

lemma has_new_bits_step:
  assumes "length c = k" "length d = k" "8 * k = LENGTH('w)"
  shows "has_new_bits_loop k ((le_load c :: 'w::len word) # X) (le_load d # Y) ret =
     (let (r, vs') = has_new_bits_loop k X Y (byte_news c d ret)
      in (r, le_load (map2 (\<lambda>v c. v AND NOT c) d c) # vs'))"
proof -
  have z: "le_store k (le_load c :: 'w word) = c" "le_store k (le_load d :: 'w word) = d"
    using le_store_load[of c, where 'a='w] le_store_load[of d, where 'a='w] assms by simp_all
  have an: "(le_load c :: 'w word) AND le_load d = 0 \<longleftrightarrow> (\<forall>(x, y)\<in>set (zip c d). x AND y = 0)"
    using le_load_AND_eq_0[of c k d, where 'a='w] assms by simp
  have upd: "(le_load d :: 'w word) AND NOT (le_load c) = le_load (map2 (\<lambda>v c. v AND NOT c) d c)"
    using le_load_ANDNOT[of d c, where 'a='w] assms by simp
  show ?thesis
  proof (cases "(le_load c :: 'w word) AND le_load d = 0")
    case True
    then have "byte_news c d ret = ret"
      using an by (fastforce simp: byte_news_def)
    moreover have "(le_load d :: 'w word) AND NOT (le_load c) = le_load d"
      using True by (rule AND_NOT_disjoint)
    ultimately show ?thesis using True upd by simp
  next
    case False
    then have nz: "(le_load c :: 'w word) \<noteq> 0" by auto
    have "byte_news c d ret = (if ret < 2 then
        (if \<exists>n\<in>set [0..<k]. c ! n \<noteq> 0 \<and> d ! n = 0xff then 2 else 1) else ret)"
      using False an unfolding ex_byte_zip[OF assms(1,2)] by (auto simp: byte_news_def not_less)
    then show ?thesis using False nz z upd by (simp add: Let_def)
  qed
qed

lemma has_new_bits_loop_eq:
  assumes "0 < k" "k dvd length cs" "length cs = length vs" "8 * k = LENGTH('w)"
  shows "has_new_bits_loop k (view k cs :: 'w::len word list) (view k vs) ret =
     (byte_news cs vs ret, view k (map2 (\<lambda>v c. v AND NOT c) vs cs))"
  using assms(1-3)
proof (induction cs vs arbitrary: ret rule: chunk_induct2)
  case Nil
  then show ?case by (simp add: byte_news_def)
next
  case (Cons c cs d ds)
  then show ?case using assms(1,4)
    by (simp add: view_append has_new_bits_step byte_news_append del: has_new_bits_loop.simps)
qed

lemma has_new_bits_map_eq:
  assumes "8 dvd length cs" "length cs = length vs"
  shows "has_new_bits_map cs vs = (byte_news cs vs 0, map2 (\<lambda>v c. v AND NOT c) vs cs)"
  using assms by (simp add: has_new_bits_map_def has_new_bits_loop_eq unview_view)

lemma has_new_bits_map32_eq:
  assumes "4 dvd length cs" "length cs = length vs"
  shows "has_new_bits_map32 cs vs = (byte_news cs vs 0, map2 (\<lambda>v c. v AND NOT c) vs cs)"
  using assms by (simp add: has_new_bits_map32_def has_new_bits_loop_eq unview_view)

subsection \<open>Counts\<close>

lemma FF_eq: "FF 0 = le_load [0xff, 0, 0, 0]" "FF (Suc 0) = le_load [0, 0xff, 0, 0]"
   "FF 2 = le_load [0, 0, 0xff, 0]" "FF 3 = le_load [0, 0, 0, 0xff]"
  by (simp_all add: FF_def)

lemma FF_test:
  "(le_load [a, b, c, d] :: u32) AND FF 0 = 0 \<longleftrightarrow> a = 0"
  "(le_load [a, b, c, d] :: u32) AND FF (Suc 0) = 0 \<longleftrightarrow> b = 0"
  "(le_load [a, b, c, d] :: u32) AND FF 2 = 0 \<longleftrightarrow> c = 0"
  "(le_load [a, b, c, d] :: u32) AND FF 3 = 0 \<longleftrightarrow> d = 0"
  by (simp_all only: FF_eq, simp_all add: le_load_AND le_load_eq_0 del: le_load.simps)

lemma FF_test255:
  "(le_load [a, b, c, d] :: u32) AND FF 0 = FF 0 \<longleftrightarrow> a = 0xff"
  "(le_load [a, b, c, d] :: u32) AND FF (Suc 0) = FF (Suc 0) \<longleftrightarrow> b = 0xff"
  "(le_load [a, b, c, d] :: u32) AND FF 2 = FF 2 \<longleftrightarrow> c = 0xff"
  "(le_load [a, b, c, d] :: u32) AND FF 3 = FF 3 \<longleftrightarrow> d = 0xff"
  by (simp_all only: FF_eq, simp_all add: le_load_AND le_load_inj del: le_load.simps)

lemma count_bytes_loop_eq:
  assumes "4 dvd length mem"
  shows "count_bytes_loop (view 4 mem) ret = ret + of_nat (length (filter (\<lambda>b. b \<noteq> 0) mem))"
proof -
  have "0 < (4::nat)" by simp
  then show ?thesis using assms
  proof (induction mem arbitrary: ret rule: chunk_induct)
    case Nil
    then show ?case by simp
  next
    case (Cons c cs)
    obtain a b d e where c: "c = [a, b, d, e]" using bytes4[OF Cons.hyps(1)] .
    show ?case
      using Cons c by (simp add: view_append[of 4 "[a, b, d, e]" cs, simplified append.simps] FF_test le_load_eq_0 Let_def del: le_load.simps)
  qed
qed

lemma count_bits_loop_eq:
  assumes "4 dvd length mem"
  shows "count_bits_loop (view 4 mem) ret = ret + of_nat (sum_list (map popcount mem))"
proof -
  have "0 < (4::nat)" by simp
  then show ?thesis using assms
  proof (induction mem arbitrary: ret rule: chunk_induct)
    case Nil
    then show ?case by simp
  next
    case (Cons c cs)
    obtain a b d e where c: "c = [a, b, d, e]" using bytes4[OF Cons.hyps(1)] .
    let ?v = "le_load [a, b, d, e] :: u32"
    have step: "count_bits_loop (?v # view 4 cs) ret =
      count_bits_loop (view 4 cs) (ret + of_nat (popcount a + popcount b + popcount d + popcount e))"
    proof (cases "?v = 0xffffffff")
      case True
      moreover have "(0xffffffff::u32) = le_load [0xff, 0xff, 0xff, 0xff]" by simp
      ultimately have "[a, b, d, e] = [0xff, 0xff, 0xff, 0xff]"
        using le_load_inj[of "[a, b, d, e]" "[0xff, 0xff, 0xff, 0xff]", where 'w=32] by (simp del: le_load.simps)
      then show ?thesis using True by (simp add: popcount_ones del: le_load.simps)
    next
      case False
      then show ?thesis
        using count_bits_swar[OF refl, of a b d e]
        by (simp only: count_bits_loop.simps Let_def if_False)
    qed
    show ?case
      using Cons c step by (simp add: view_append[of 4 "[a, b, d, e]" cs, simplified append.simps] ac_simps del: le_load.simps count_bits_loop.simps(2))
  qed
qed

lemma count_non_255_bytes_loop_eq:
  assumes "4 dvd length mem"
  shows "count_non_255_bytes_loop (view 4 mem) ret =
     ret + of_nat (length (filter (\<lambda>b. b \<noteq> 0xff) mem))"
proof -
  have "0 < (4::nat)" by simp
  then show ?thesis using assms
  proof (induction mem arbitrary: ret rule: chunk_induct)
    case Nil
    then show ?case by simp
  next
    case (Cons c cs)
    obtain a b d e where c: "c = [a, b, d, e]" using bytes4[OF Cons.hyps(1)] .
    have "(0xffffffff::u32) = le_load [0xff, 0xff, 0xff, 0xff]" by simp
    then have "(le_load [a, b, d, e] :: u32) = 0xffffffff \<longleftrightarrow> [a, b, d, e] = [0xff, 0xff, 0xff, 0xff]"
      using le_load_inj[of "[a, b, d, e]" "[0xff, 0xff, 0xff, 0xff]", where 'w=32] by (simp del: le_load.simps)
    then show ?case
      using Cons c by (auto simp add: view_append[of 4 "[a, b, d, e]" cs, simplified append.simps]
          FF_test255 Let_def simp del: le_load.simps)
  qed
qed

subsection \<open>Byte-wise maps\<close>

lemma view_map:
  assumes "0 < k" "k dvd length bs" "\<And>c. length c = k \<Longrightarrow> g (le_load c) = (le_load (map f c) :: 'w::len word)"
  shows "map g (view k bs :: 'w word list) = view k (map f bs)"
  using assms(1,2)
proof (induction bs rule: chunk_induct)
  case Nil
  then show ?case by simp
next
  case (Cons c cs)
  then show ?case using assms(1,3) by (simp add: view_append)
qed

lemma simplify_trace_loop_map:
  "simplify_trace_loop k ones mem =
     map (\<lambda>m. if m \<noteq> 0 then le_load (map simplify_lookup (le_store k m)) else ones) mem"
  by (induction mem) simp_all

lemma classify_counts_loop_map:
  "classify_counts_loop tbl k mem =
     map (\<lambda>m. if m \<noteq> 0 then le_load (unview 2 (map (\<lambda>x. tbl (unat x)) (view 2 (le_store k m) :: u16 list)))
              else m) mem"
  by (induction mem) (simp_all add: Let_def)

lemma simplify_trace_loop_eq:
  assumes "0 < k" "k dvd length bs" "8 * k = LENGTH('w)" "ones = le_load (replicate k 1)"
  shows "unview k (simplify_trace_loop k ones (view k bs :: 'w::len word list)) = map simplify_lookup bs"
proof -
  have "(if (le_load c :: 'w word) \<noteq> 0 then le_load (map simplify_lookup (le_store k (le_load c :: 'w word))) else ones)
      = (le_load (map simplify_lookup c) :: 'w word)" if "length c = k" for c
  proof -
    have z: "le_store k (le_load c :: 'w word) = c"
      using le_store_load[of c, where 'a='w] that assms(3) by simp
    show ?thesis
    proof (cases "(le_load c :: 'w word) = 0")
      case True
      then have "\<forall>b\<in>set c. b = 0" using le_load_eq_0[of c, where 'a='w] that assms(3) by simp
      then have "map simplify_lookup c = replicate k 1"
        using that by (intro nth_equalityI) (auto simp: simplify_lookup_def)
      then show ?thesis using True assms(4) by simp
    next
      case False
      then show ?thesis using z by simp
    qed
  qed
  then have "simplify_trace_loop k ones (view k bs :: 'w word list) = view k (map simplify_lookup bs)"
    unfolding simplify_trace_loop_map by (intro view_map assms(1,2))
  then show ?thesis using assms by (simp add: unview_view)
qed

lemma table_row:
  "fold (\<lambda>b2 tbl. tbl(b1 * 256 + b2 := f b1 b2)) [0..<n] tbl y =
     (if b1 * 256 \<le> y \<and> y < b1 * 256 + n then f b1 (y - b1 * 256) else tbl y)"
  by (induction n) auto

lemma table_rows:
  "fold (\<lambda>b1 tbl. fold (\<lambda>b2 tbl. tbl(b1 * 256 + b2 := f b1 b2)) [0..<256] tbl) [0..<m] tbl y =
     (if y < m * 256 then f (y div 256) (y mod 256) else (tbl y :: 'a))"
proof (induction m)
  case 0
  then show ?case by simp
next
  case (Suc m)
  have "y div 256 = m \<and> y mod 256 = y - m * 256" if "m * 256 \<le> y" "y < m * 256 + 256"
  proof -
    have "y = 256 * m + (y - m * 256)" "y - m * 256 < 256" using that by simp_all
    then show ?thesis by (metis div_mult_self4 div_less add_0_right mod_mult_self4 mod_less zero_neq_numeral)
  qed
  then show ?case
    using Suc by (simp add: table_row del: upt_rec_numeral fun_upd_apply)
qed

lemma init_count_class16_eq:
  assumes "y < 65536"
  shows "init_count_class16 tbl y =
     push_bit 8 (ucast (count_class_lookup8 (of_nat (y div 256)))) OR ucast (count_class_lookup8 (of_nat (y mod 256)))"
  unfolding init_count_class16_def table_rows using assms by simp

lemma count_class_lookup8_0 [simp]: "count_class_lookup8 0 = 0"
  by (simp add: count_class_lookup8_def)

lemma init_count_class16_bytes:
  "init_count_class16 tbl (unat (le_load [a, b] :: u16)) = le_load [count_class_lookup8 a, count_class_lookup8 b]"
proof -
  have ub: "unat (x::u8) < 256" for x using unsigned_less[of x, where 'a=nat] by simp
  define N where "N = unat a + 256 * unat b"
  have "(le_load [a, b] :: u16) = of_nat N"
    by (simp add: N_def le_load_Cons_plus del: le_load.simps(2))
  moreover have "N < 65536" using ub[of a] ub[of b] by (simp add: N_def)
  ultimately have "unat (le_load [a, b] :: u16) = unat a + 256 * unat b"
    by (simp add: unat_of_nat N_def [symmetric] del: le_load.simps)
  moreover have "(unat a + 256 * unat b) div 256 = unat b" "(unat a + 256 * unat b) mod 256 = unat a"
    "unat a + 256 * unat b < 65536"
    using ub[of a] ub[of b] by simp_all
  ultimately show ?thesis
    by (simp add: init_count_class16_eq or.commute del: of_nat_add)
qed

lemma classify_view16:
  assumes "even (length c)"
  shows "unview 2 (map (\<lambda>x. init_count_class16 tbl (unat x)) (view 2 c :: u16 list)) = map count_class_lookup8 c"
proof -
  have "init_count_class16 tbl (unat (le_load c :: u16)) = le_load (map count_class_lookup8 c)"
    if l: "length c = 2" for c
  proof -
    obtain a b where "c = [a, b]" using l by (cases c; cases "tl c") auto
    then show ?thesis using init_count_class16_bytes by (simp del: le_load.simps)
  qed
  then have "map (\<lambda>x. init_count_class16 tbl (unat x)) (view 2 c :: u16 list) = view 2 (map count_class_lookup8 c)"
    using assms by (intro view_map) auto
  then show ?thesis using assms by (simp add: unview_view)
qed

lemma classify_counts_loop_eq:
  assumes "0 < k" "even k" "k dvd length bs" "8 * k = LENGTH('w)"
  shows "unview k (classify_counts_loop (init_count_class16 tbl) k (view k bs :: 'w::len word list))
     = map count_class_lookup8 bs"
proof -
  have "(if (le_load c :: 'w word) \<noteq> 0 then le_load (unview 2 (map (\<lambda>x. init_count_class16 tbl (unat x))
          (view 2 (le_store k (le_load c :: 'w word)) :: u16 list))) else le_load c)
      = (le_load (map count_class_lookup8 c) :: 'w word)" if "length c = k" for c
  proof -
    have z: "le_store k (le_load c :: 'w word) = c"
      using le_store_load[of c, where 'a='w] that assms(4) by simp
    show ?thesis
    proof (cases "(le_load c :: 'w word) = 0")
      case True
      then have "\<forall>b\<in>set c. b = 0" using le_load_eq_0[of c, where 'a='w] that assms(4) by simp
      then have "map count_class_lookup8 c = c" by (intro map_idI) (metis count_class_lookup8_0)
      then show ?thesis using True by simp
    next
      case False
      then show ?thesis using z classify_view16[of c] that assms(2) by simp
    qed
  qed
  then have "classify_counts_loop (init_count_class16 tbl) k (view k bs :: 'w word list)
      = view k (map count_class_lookup8 bs)"
    unfolding classify_counts_loop_map by (intro view_map assms(1,3))
  then show ?thesis using assms by (simp add: unview_view)
qed

subsection \<open>Compaction\<close>

lemma length_minimize_bits_loop [simp]: "length (minimize_bits_loop i dst src) = length dst"
  by (induction src arbitrary: i dst) auto

lemma length_minimize_bits [simp]: "length (minimize_bits dst src) = length dst"
  by (simp add: minimize_bits_def)

lemma minimize_bits_loop_bit:
  assumes "i + length src \<le> 8 * length dst" "j < 8 * length dst"
  shows "bit (minimize_bits_loop i dst src ! (j div 8)) (j mod 8) \<longleftrightarrow>
     bit (dst ! (j div 8)) (j mod 8) \<or> (i \<le> j \<and> j < i + length src \<and> src ! (j - i) \<noteq> 0)"
  using assms
proof (induction src arbitrary: i dst)
  case Nil
  then show ?case by auto
next
  case (Cons b src)
  let ?d = "if b \<noteq> 0 then dst[i div 8 := dst ! (i div 8) OR push_bit (i mod 8) 1] else dst"
  have i: "i div 8 < length dst" "j div 8 < length dst" using Cons.prems by auto
  have new: "bit (?d ! (j div 8)) (j mod 8) \<longleftrightarrow> bit (dst ! (j div 8)) (j mod 8) \<or> (b \<noteq> 0 \<and> j = i)"
  proof (cases "j div 8 = i div 8")
    case True
    then have "j mod 8 = i mod 8 \<longleftrightarrow> j = i" by (metis mult_div_mod_eq)
    then show ?thesis using True i by (auto simp: bit_simps)
  next
    case False
    then show ?thesis using i by auto
  qed
  have "bit (minimize_bits_loop (Suc i) ?d src ! (j div 8)) (j mod 8) \<longleftrightarrow>
     bit (?d ! (j div 8)) (j mod 8) \<or> (Suc i \<le> j \<and> j < Suc i + length src \<and> src ! (j - Suc i) \<noteq> 0)"
    using Cons.prems by (intro Cons.IH) auto
  then show ?case unfolding minimize_bits_loop.simps new
    by (cases "j = i") (auto simp: nth_Cons' Suc_le_eq)
qed


section \<open>The interface of a virgin map\<close>

text \<open>
  What the rest of the fuzzer relies on: a trace that has been recorded is not new any more,
  and recording other traces never makes a known trace new again.
\<close>

locale novelty =
  fixes ok :: "'t \<Rightarrow> bool"
    and wf :: "'v \<Rightarrow> bool"
    and news :: "'t \<Rightarrow> 'v \<Rightarrow> u8"
    and absorb :: "'t \<Rightarrow> 'v \<Rightarrow> 'v"
  assumes wf_absorb: "wf v \<Longrightarrow> ok t \<Longrightarrow> wf (absorb t v)"
    and absorbed: "wf v \<Longrightarrow> ok t \<Longrightarrow> news t (absorb t v) = 0"
    and stays_known: "wf v \<Longrightarrow> ok t \<Longrightarrow> ok u \<Longrightarrow> news t v = 0 \<Longrightarrow> news t (absorb u v) = 0"
begin

lemma wf_fold: "wf v \<Longrightarrow> \<forall>t\<in>set ts. ok t \<Longrightarrow> wf (fold absorb ts v)"
  by (induction ts arbitrary: v) (auto intro: wf_absorb)

lemma known_fold: "wf v \<Longrightarrow> \<forall>t\<in>set ts. ok t \<Longrightarrow> ok t \<Longrightarrow> news t v = 0 \<Longrightarrow> news t (fold absorb ts v) = 0"
  by (induction ts arbitrary: v) (auto intro: wf_absorb stays_known)

lemma recorded_known:
  "wf v \<Longrightarrow> \<forall>t\<in>set ts. ok t \<Longrightarrow> t \<in> set ts \<Longrightarrow> news t (fold absorb ts v) = 0"
proof (induction ts arbitrary: v)
  case Nil
  then show ?case by simp
next
  case (Cons u us)
  show ?case
  proof (cases "t \<in> set us")
    case True
    then show ?thesis using Cons by (simp add: wf_absorb)
  next
    case False
    then have "t = u" using Cons.prems by simp
    then show ?thesis using Cons.prems by (simp add: known_fold absorbed wf_absorb)
  qed
qed

end

lemma byte_news_0_iff:
  "length cs = length vs \<Longrightarrow> byte_news cs vs 0 = 0 \<longleftrightarrow> (\<forall>i<length cs. cs ! i AND vs ! i = 0)"
  by (auto simp: byte_news_def set_zip)

lemma byte_news_2_iff:
  "length cs = length vs \<Longrightarrow> byte_news cs vs 0 = 2 \<longleftrightarrow> (\<exists>i<length cs. cs ! i \<noteq> 0 \<and> vs ! i = 0xff)"
  by (auto simp: byte_news_def set_zip) 

lemma byte_news_range: "byte_news cs vs 0 \<in> {0, 1, 2}"
  by (simp add: byte_news_def)

interpretation cov: novelty
  "\<lambda>t. length t = MAP_SIZE" "\<lambda>v. length v = MAP_SIZE"
  "\<lambda>t v. fst (has_new_bits_map t v)" "\<lambda>t v. snd (has_new_bits_map t v)"
proof unfold_locales
  fix t u v :: "u8 list"
  assume v: "length v = MAP_SIZE" and t: "length t = MAP_SIZE"
  then show "length (snd (has_new_bits_map t v)) = MAP_SIZE"
    by (simp add: has_new_bits_map_eq)
  have "t ! i AND (v ! i AND NOT (t ! i)) = 0" for i
    by (rule bit_word_eqI) (auto simp: bit_simps)
  then show "fst (has_new_bits_map t (snd (has_new_bits_map t v))) = 0"
    using v t by (simp add: has_new_bits_map_eq byte_news_0_iff)
  assume u: "length u = MAP_SIZE" and 0: "fst (has_new_bits_map t v) = 0"
  have "x AND (y AND NOT z) = 0" if "x AND y = 0" for x y z :: u8
    using that by (simp flip: and.assoc)
  then show "fst (has_new_bits_map t (snd (has_new_bits_map u v))) = 0"
    using v t u 0 by (simp add: has_new_bits_map_eq byte_news_0_iff)
qed

section \<open>Properties\<close>

text \<open>
  C6. \<open>has_new_bits\<close> on the main virgin map: every bit of the trace is cleared from the map,
  the answer is 2 exactly when a hit byte was pristine, 0 exactly when every trace bit was
  known, 1 otherwise, and the map is flagged as changed exactly when something was new. The
  word-by-word walk with its shortcuts computes this byte-by-byte meaning, for every map
  size that is a multiple of 8.
\<close>

theorem has_new_bits_spec:
  assumes "8 dvd length (trace_bits s)" "length (virgin_bits s) = length (trace_bits s)"
    and "has_new_bits VirginBits s = (ret, s')"
  shows "virgin_bits s' = map2 (\<lambda>v c. v AND NOT c) (virgin_bits s) (trace_bits s)
    \<and> (ret = 2 \<longleftrightarrow> (\<exists>i<length (trace_bits s). trace_bits s ! i \<noteq> 0 \<and> virgin_bits s ! i = 0xff))
    \<and> (ret = 0 \<longleftrightarrow> (\<forall>i<length (trace_bits s). trace_bits s ! i AND virgin_bits s ! i = 0))
    \<and> ret \<in> {0, 1, 2}
    \<and> bitmap_changed s' = (bitmap_changed s \<or> ret \<noteq> 0)
    \<and> trace_bits s' = trace_bits s"
proof -
  have ret: "ret = byte_news (trace_bits s) (virgin_bits s) 0"
    and s': "s' = s\<lparr>virgin_bits := map2 (\<lambda>v c. v AND NOT c) (virgin_bits s) (trace_bits s),
                 bitmap_changed := (if ret \<noteq> 0 then True else bitmap_changed s)\<rparr>"
    using assms by (auto simp: has_new_bits_map_eq)
  show ?thesis
    using assms(1,2) byte_news_0_iff[of "trace_bits s" "virgin_bits s"]
      byte_news_2_iff[of "trace_bits s" "virgin_bits s"] byte_news_range[of "trace_bits s" "virgin_bits s"]
    unfolding s' ret by auto
qed

definition example_bm :: bm_state where
  "example_bm = \<lparr>trace_bits = [1, 0, 0, 0, 128, 0, 0, 0], virgin_bits = [255, 255, 255, 255, 128, 255, 255, 255],
     virgin_tmout = replicate 8 255, virgin_crash = replicate 8 255, var_bytes = replicate 8 0,
     bitmap_changed = False\<rparr>"

theorem has_new_bits_spec_witness:
  "fst (has_new_bits VirginBits example_bm) = 2
   \<and> virgin_bits (snd (has_new_bits VirginBits example_bm)) = [254, 255, 255, 255, 0, 255, 255, 255]
   \<and> bitmap_changed (snd (has_new_bits VirginBits example_bm))"
proof -
  obtain ret s' where e: "has_new_bits VirginBits example_bm = (ret, s')" by fastforce
  have l: "length (trace_bits example_bm) = 8" "length (virgin_bits example_bm) = 8"
    by (simp_all add: example_bm_def)
  then have h: "8 dvd length (trace_bits example_bm)" "length (virgin_bits example_bm) = length (trace_bits example_bm)"
    by simp_all
  from has_new_bits_spec[OF h e] have "ret = 2"
    by (auto simp: example_bm_def)
  with has_new_bits_spec[OF h e] e show ?thesis
    by (auto simp: example_bm_def)
qed

text \<open>
  Once traces have been recorded in a virgin map, none of them is ever reported as new
  again, whatever was recorded in between or afterwards.
\<close>

lemma recorded_traces_not_new:
  assumes "length virgin = MAP_SIZE" "\<forall>t\<in>set traces. length t = MAP_SIZE" "t \<in> set traces"
  shows "fst (has_new_bits_map t (fold (\<lambda>t v. snd (has_new_bits_map t v)) traces virgin)) = 0"
  using assms by (rule cov.recorded_known)

lemma recorded_traces_not_new_witness:
  "fst (has_new_bits_map (replicate MAP_SIZE 1)
     (fold (\<lambda>t v. snd (has_new_bits_map t v)) [replicate MAP_SIZE 2, replicate MAP_SIZE 1]
       (replicate MAP_SIZE 255))) = 0"
  by (rule recorded_traces_not_new) simp_all

text \<open>
  C33. The 64-bit and the 32-bit flavour of the map routines (the two branches of
  \<open>#ifdef __x86_64__\<close>) compute the same results.
\<close>

theorem flavours_agree:
  assumes "8 dvd length trace" "length virgin = length trace"
  shows "has_new_bits_map trace virgin = has_new_bits_map32 trace virgin
    \<and> simplify_trace trace = simplify_trace32 trace
    \<and> classify_counts (init_count_class16 tbl) trace = classify_counts32 (init_count_class16 tbl) trace"
proof -
  have d: "4 dvd length trace" using assms(1) by (rule dvd_trans[rotated]) simp
  have "simplify_trace trace = map simplify_lookup trace"
    unfolding simplify_trace_def using assms(1)
    by (intro simplify_trace_loop_eq) (simp_all add: numeral_eq_Suc)
  moreover have "simplify_trace32 trace = map simplify_lookup trace"
    unfolding simplify_trace32_def using d
    by (intro simplify_trace_loop_eq) (simp_all add: numeral_eq_Suc)
  ultimately show ?thesis
    using assms d
    by (simp add: has_new_bits_map_eq has_new_bits_map32_eq classify_counts_def classify_counts32_def
        classify_counts_loop_eq)
qed

theorem flavours_agree_witness:
  "has_new_bits_map [1, 0, 0, 0, 128, 0, 0, 0] (replicate 8 255)
     = has_new_bits_map32 [1, 0, 0, 0, 128, 0, 0, 0] (replicate 8 255)"
proof -
  have l: "length ([1, 0, 0, 0, 128, 0, 0, 0] :: u8 list) = 8" by simp
  then show ?thesis
    using flavours_agree[of "[1, 0, 0, 0, 128, 0, 0, 0]" "replicate 8 255"]
    by (simp only: length_replicate dvd_refl simp_thms)
qed

text \<open>
  C34. The counting routines: \<open>count_bits\<close> (with its parallel bit counting and its shortcut
  for all-ones words) is the number of set bits of the map, \<open>count_bytes\<close> the number of
  bytes that are not 0 and \<open>count_non_255_bytes\<close> the number of bytes that are not 255, as
  32-bit numbers.
\<close>

theorem counts_spec:
  assumes "4 dvd length mem"
  shows "count_bits mem = of_nat (sum_list (map popcount mem))
    \<and> count_bytes mem = of_nat (length (filter (\<lambda>b. b \<noteq> 0) mem))
    \<and> count_non_255_bytes mem = of_nat (length (filter (\<lambda>b. b \<noteq> 0xff) mem))"
  using assms
  by (simp add: count_bits_def count_bytes_def count_non_255_bytes_def
      count_bits_loop_eq count_bytes_loop_eq count_non_255_bytes_loop_eq)

theorem counts_spec_witness:
  "count_bits [0, 255, 3, 128] = 11 \<and> count_bytes [0, 255, 3, 128] = 3
   \<and> count_non_255_bytes [0, 255, 3, 128] = 3"
proof -
  have l: "length ([0, 255, 3, 128] :: u8 list) = 4" by simp
  have "4 dvd length ([0, 255, 3, 128] :: u8 list)" by (simp only: l dvd_refl)
  from counts_spec[OF this] show ?thesis
    by (simp add: popcount_def upt_rec)
qed

text \<open>
  C35. \<open>classify_counts\<close>, which translates a trace 16 bits at a time through the table built
  by \<open>init_count_class16\<close>, puts every byte into its hit-count bucket; \<open>simplify_trace\<close>
  replaces every byte by 1 (not hit) or 128 (hit).
\<close>

theorem classify_simplify_spec:
  assumes "8 dvd length mem"
  shows "classify_counts (init_count_class16 tbl) mem = map count_class_lookup8 mem
    \<and> simplify_trace mem = map simplify_lookup mem"
proof
  show "classify_counts (init_count_class16 tbl) mem = map count_class_lookup8 mem"
    using assms by (simp add: classify_counts_def classify_counts_loop_eq)
  show "simplify_trace mem = map simplify_lookup mem"
    unfolding simplify_trace_def using assms
    by (intro simplify_trace_loop_eq) (simp_all add: numeral_eq_Suc)
qed

theorem classify_simplify_spec_witness:
  "classify_counts (init_count_class16 (\<lambda>_. 0)) [0, 1, 2, 3, 5, 20, 100, 200] = [0, 1, 2, 4, 8, 32, 64, 128]
   \<and> simplify_trace [0, 1, 2, 3, 5, 20, 100, 200] = [1, 128, 128, 128, 128, 128, 128, 128]"
proof -
  have l: "length ([0, 1, 2, 3, 5, 20, 100, 200] :: u8 list) = 8" by simp
  have "8 dvd length ([0, 1, 2, 3, 5, 20, 100, 200] :: u8 list)" by (simp only: l dvd_refl)
  from classify_simplify_spec[OF this] show ?thesis
    by (simp add: count_class_lookup8_def simplify_lookup_def)
qed

text \<open>
  \<open>minimize_bits\<close> sets bit \<open>i\<close> of the compact map exactly when byte \<open>i\<close> of
  the trace is not 0, and keeps the bits that were set before.
\<close>

lemma minimize_bits_spec:
  assumes "length src = 8 * length dst" "i < length src"
  shows "bit (minimize_bits dst src ! (i div 8)) (i mod 8) \<longleftrightarrow>
     bit (dst ! (i div 8)) (i mod 8) \<or> src ! i \<noteq> 0"
  unfolding minimize_bits_def using minimize_bits_loop_bit[of 0 src dst i] assms by simp

lemma minimize_bits_spec_witness:
  "bit (minimize_bits [0] [0, 7, 0, 0, 0, 0, 0, 1] ! 0) 1 \<and> \<not> bit (minimize_bits [0] [0, 7, 0, 0, 0, 0, 0, 1] ! 0) 2"
  using minimize_bits_spec[of "[0, 7, 0, 0, 0, 0, 0, 1]" "[0]" 1]
    minimize_bits_spec[of "[0, 7, 0, 0, 0, 0, 0, 1]" "[0]" 2]
  by simp

end
