(* ===== verification/Afl_Hash.thy ===== *)
theory Afl_Hash
  imports Afl_Prelude
begin

unbundle bit_operations_syntax

text \<open>
  The trace checksum of \<open>hash.h\<close>, a variant of MurmurHash3: the 64-bit routine used on
  x86-64 and the 32-bit one. Lengths that are not a multiple of the word size are cut off, as
  the header comment of \<open>hash.h\<close> warns.
\<close>

definition HASH_CONST :: u32 where "HASH_CONST = 0xa5b35705"

definition ROL64 :: "u64 \<Rightarrow> nat \<Rightarrow> u64" where
  "ROL64 x r = push_bit r x OR drop_bit (64 - r) x"

fun hash32_loop :: "u64 list \<Rightarrow> u64 \<Rightarrow> u64" where
  "hash32_loop [] h1 = h1"
| "hash32_loop (k1 # data) h1 =
     (let k1 = k1 * 0x87c37b91114253d5;
          k1 = ROL64 k1 31;
          k1 = k1 * 0x4cf5ad432745937f;
          h1 = h1 XOR k1;
          h1 = ROL64 h1 27;
          h1 = h1 * 5 + 0x52dce729
      in hash32_loop data h1)"

definition hash32_final :: "u64 \<Rightarrow> u64" where
  "hash32_final h1 =
     (let h1 = h1 XOR drop_bit 33 h1;
          h1 = h1 * 0xff51afd7ed558ccd;
          h1 = h1 XOR drop_bit 33 h1;
          h1 = h1 * 0xc4ceb9fe1a85ec53
      in h1 XOR drop_bit 33 h1)"

definition hash32 :: "u8 list \<Rightarrow> u32 \<Rightarrow> u32" where
  "hash32 key seed =
     (let h1 = ucast (seed XOR of_nat (length key)) :: u64
      in ucast (hash32_final (hash32_loop (view 8 key) h1)))"

definition ROL32 :: "u32 \<Rightarrow> nat \<Rightarrow> u32" where
  "ROL32 x r = push_bit r x OR drop_bit (32 - r) x"

fun hash32_32_loop :: "u32 list \<Rightarrow> u32 \<Rightarrow> u32" where
  "hash32_32_loop [] h1 = h1"
| "hash32_32_loop (k1 # data) h1 =
     (let k1 = k1 * 0xcc9e2d51;
          k1 = ROL32 k1 15;
          k1 = k1 * 0x1b873593;
          h1 = h1 XOR k1;
          h1 = ROL32 h1 13;
          h1 = h1 * 5 + 0xe6546b64
      in hash32_32_loop data h1)"

definition hash32_32_final :: "u32 \<Rightarrow> u32" where
  "hash32_32_final h1 =
     (let h1 = h1 XOR drop_bit 16 h1;
          h1 = h1 * 0x85ebca6b;
          h1 = h1 XOR drop_bit 13 h1;
          h1 = h1 * 0xc2b2ae35
      in h1 XOR drop_bit 16 h1)"

definition hash32_32 :: "u8 list \<Rightarrow> u32 \<Rightarrow> u32" where
  "hash32_32 key seed =
     hash32_32_final (hash32_32_loop (view 4 key) (seed XOR of_nat (length key)))"

section \<open>The mixing steps lose nothing\<close>

text \<open>
  Every step of the hash on one word is invertible: the multipliers are odd (their inverses are
  given below), rotations and \<open>x XOR (x >> k)\<close> can be undone.
\<close>

lemma mult_inj_word: "c * d = (1 :: 'a::len word) \<Longrightarrow> x * c = y * c \<longleftrightarrow> x = y"
  by (metis mult.assoc mult.right_neutral)

lemma mult_consts64:
  "(x::u64) * 0x87c37b91114253d5 = y * 0x87c37b91114253d5 \<longleftrightarrow> x = y"
  "(x::u64) * 0x4cf5ad432745937f = y * 0x4cf5ad432745937f \<longleftrightarrow> x = y"
  "(x::u64) * 0xff51afd7ed558ccd = y * 0xff51afd7ed558ccd \<longleftrightarrow> x = y"
  "(x::u64) * 0xc4ceb9fe1a85ec53 = y * 0xc4ceb9fe1a85ec53 \<longleftrightarrow> x = y"
  "(x::u64) * 5 = y * 5 \<longleftrightarrow> x = y"
  by (rule mult_inj_word[of _ "0xa98409e882ce4d7d"], simp)
    (rule mult_inj_word[of _ "0xa81e14edd9de2c7f"], simp,
     rule mult_inj_word[of _ "0x4f74430c22a54005"], simp,
     rule mult_inj_word[of _ "0x9cb4b2f8129337db"], simp,
     rule mult_inj_word[of _ "0xcccccccccccccccd"], simp)

lemma mult_consts32:
  "(x::u32) * 0xcc9e2d51 = y * 0xcc9e2d51 \<longleftrightarrow> x = y"
  "(x::u32) * 0x1b873593 = y * 0x1b873593 \<longleftrightarrow> x = y"
  "(x::u32) * 0x85ebca6b = y * 0x85ebca6b \<longleftrightarrow> x = y"
  "(x::u32) * 0xc2b2ae35 = y * 0xc2b2ae35 \<longleftrightarrow> x = y"
  "(x::u32) * 5 = y * 5 \<longleftrightarrow> x = y"
  by (rule mult_inj_word[of _ "0xdee13bb1"], simp)
    (rule mult_inj_word[of _ "0x56ed309b"], simp,
     rule mult_inj_word[of _ "0xa5cb9243"], simp,
     rule mult_inj_word[of _ "0x7ed1b41d"], simp,
     rule mult_inj_word[of _ "0xcccccccd"], simp)

lemma rol_inv:
  assumes "0 < r" "r < LENGTH('a)"
  shows "push_bit (LENGTH('a) - r) (push_bit r x OR drop_bit (LENGTH('a) - r) x)
       OR drop_bit r (push_bit r x OR drop_bit (LENGTH('a) - r) x) = (x :: 'a::len word)"
  using assms by (intro bit_word_eqI) (auto simp: bit_simps dest: bit_imp_le_length)

lemma lengths: "LENGTH(64) = 64" "LENGTH(32) = 32"
  by simp_all

lemma ROL64_inj: "0 < r \<Longrightarrow> r < 64 \<Longrightarrow> ROL64 x r = ROL64 y r \<longleftrightarrow> x = y"
  unfolding ROL64_def using rol_inv[of r x, unfolded lengths] rol_inv[of r y, unfolded lengths] by metis

lemma ROL32_inj: "0 < r \<Longrightarrow> r < 32 \<Longrightarrow> ROL32 x r = ROL32 y r \<longleftrightarrow> x = y"
  unfolding ROL32_def using rol_inv[of r x, unfolded lengths] rol_inv[of r y, unfolded lengths] by metis

lemma xorshift_top:
  assumes "x XOR drop_bit k x = y XOR drop_bit k (y :: 'a::len word)" "0 < k"
  shows "x = y"
proof (rule bit_word_eqI)
  have b: "bit x n \<noteq> bit x (k + n) \<longleftrightarrow> bit y n \<noteq> bit y (k + n)" for n
    using arg_cong[OF assms(1), of "\<lambda>w. bit w n"] by (simp add: bit_simps)
  fix n show "bit x n = bit y n"
  proof (induction "LENGTH('a) - n" arbitrary: n rule: less_induct)
    case less
    show ?case
    proof (cases "n < LENGTH('a)")
      case True
      then have "bit x (k + n) = bit y (k + n)" using less[of "k + n"] assms(2) by simp
      then show ?thesis using b[of n] by auto
    next
      case False
      then show ?thesis using bit_imp_le_length[of x n] bit_imp_le_length[of y n] by auto
    qed
  qed
qed

lemma XOR_right_inj: "(a :: 'a::len word) XOR x = a XOR y \<longleftrightarrow> x = y"
  by (metis xor.left_neutral xor.assoc xor_self_eq)

lemma XOR_left_inj: "(x :: 'a::len word) XOR a = y XOR a \<longleftrightarrow> x = y"
  by (metis XOR_right_inj xor.commute)

lemmas mix_inj = mult_consts64 mult_consts32 ROL64_inj ROL32_inj XOR_right_inj XOR_left_inj

lemma hash32_final_inj: "hash32_final x = hash32_final y \<longleftrightarrow> x = y"
  unfolding hash32_final_def Let_def
  by (auto simp: mix_inj dest!: xorshift_top)

lemma hash32_32_final_inj: "hash32_32_final x = hash32_32_final y \<longleftrightarrow> x = y"
  unfolding hash32_32_final_def Let_def
  by (auto simp: mix_inj dest!: xorshift_top)

lemma hash32_loop_inj_state: "hash32_loop ws x = hash32_loop ws y \<longleftrightarrow> x = y"
  by (induction ws arbitrary: x y) (auto simp: Let_def mix_inj)

lemma hash32_32_loop_inj_state: "hash32_32_loop ws x = hash32_32_loop ws y \<longleftrightarrow> x = y"
  by (induction ws arbitrary: x y) (auto simp: Let_def mix_inj)

lemma hash32_loop_one_word:
  "hash32_loop (us @ w # vs) x = hash32_loop (us @ w' # vs) x \<longleftrightarrow> w = w'"
  by (induction us arbitrary: x) (auto simp: Let_def mix_inj hash32_loop_inj_state)

lemma hash32_32_loop_one_word:
  "hash32_32_loop (us @ w # vs) x = hash32_32_loop (us @ w' # vs) x \<longleftrightarrow> w = w'"
  by (induction us arbitrary: x) (auto simp: Let_def mix_inj hash32_32_loop_inj_state)


section \<open>Properties\<close>

text \<open>
  A change confined to one aligned word of the trace never goes unnoticed: in the 32-bit
  flavour the checksum itself changes, in the 64-bit flavour the 64-bit value computed before
  the final truncation to 32 bits changes.
\<close>

lemma hash32_detects_one_word:
  assumes "4 dvd length pre" "length c = 4" "length c' = 4" "c \<noteq> c'"
    and "8 dvd length pre8" "length d = 8" "length d' = 8" "d \<noteq> d'"
  shows "hash32_32 (pre @ c @ post) seed \<noteq> hash32_32 (pre @ c' @ post) seed
    \<and> hash32_final (hash32_loop (view 8 (pre8 @ d @ post8)) h)
       \<noteq> hash32_final (hash32_loop (view 8 (pre8 @ d' @ post8)) h)"
proof -
  have "(le_load c :: u32) \<noteq> le_load c'" using le_store_load[of c, where 'a=32] le_store_load[of c', where 'a=32] assms
    by auto
  moreover have "(le_load d :: u64) \<noteq> le_load d'" using le_store_load[of d, where 'a=64] le_store_load[of d', where 'a=64] assms
    by auto
  ultimately show ?thesis
    using assms by (simp add: hash32_32_def view_append_dvd view_one hash32_32_final_inj hash32_final_inj
        hash32_loop_one_word hash32_32_loop_one_word)
qed

lemma hash32_detects_one_word_witness:
  "hash32_32 [7, 0, 0, 0, 1, 0, 0, 0, 9, 0, 0, 0] HASH_CONST \<noteq> hash32_32 [7, 0, 0, 0, 2, 0, 0, 0, 9, 0, 0, 0] HASH_CONST"
proof -
  have l: "length ([7, 0, 0, 0] :: u8 list) = 4" by simp
  have "4 dvd length ([7, 0, 0, 0] :: u8 list)" by (simp only: l dvd_refl)
  then show ?thesis
    using hash32_detects_one_word[of "[7, 0, 0, 0]" "[1, 0, 0, 0]" "[2, 0, 0, 0]" "[]" "replicate 8 1" "replicate 8 2"
        "[9, 0, 0, 0]" HASH_CONST "[]" 0]
    by (simp del: replicate.simps)
qed

end
