(* ===== verification/Afl_Mutators.thy ===== *)
theory Afl_Mutators
  imports Afl_Words
begin

unbundle bit_operations_syntax

text \<open>
  The value-level helpers of the mutation stages: byte swapping (\<open>types.h\<close>), the tables of
  interesting values (\<open>config.h\<close>), bit flips and unaligned stores into a buffer, and the
  three predicates that \<open>fuzz_one\<close> uses to skip inputs an earlier stage has produced.
\<close>

section \<open>Tunables and tables\<close>

definition ARITH_MAX :: nat where "ARITH_MAX = 35"

definition interesting_8 :: "int list" where
  "interesting_8 = [-128, -1, 0, 1, 16, 32, 64, 100, 127]"

definition interesting_16 :: "int list" where
  "interesting_16 = interesting_8 @ [-32768, -129, 128, 255, 256, 512, 1000, 1024, 4096, 32767]"

definition interesting_32 :: "int list" where
  "interesting_32 = interesting_16 @
     [-2147483648, -100663046, -32769, 32768, 65535, 65536, 100663045, 2147483647]"

definition SWAP16 :: "u16 \<Rightarrow> u16" where
  "SWAP16 x = push_bit 8 x OR drop_bit 8 x"

definition SWAP32 :: "u32 \<Rightarrow> u32" where
  "SWAP32 x = push_bit 24 x OR drop_bit 24 x OR (push_bit 8 x AND 0x00FF0000) OR (drop_bit 8 x AND 0x0000FF00)"

section \<open>Buffers\<close>

text \<open>
  \<open>put16 buf i w\<close> is \<open>*(u16*)(buf + i) = w\<close>, \<open>get16 buf i\<close> the read; similarly
  for 32 bits. \<open>FLIP_BIT\<close> counts bits from the most significant bit of byte 0.
\<close>

definition FLIP_BIT :: "u8 list \<Rightarrow> nat \<Rightarrow> u8 list" where
  "FLIP_BIT ar b = ar[b div 8 := ar ! (b div 8) XOR drop_bit (b mod 8) 128]"

definition get16 :: "u8 list \<Rightarrow> nat \<Rightarrow> u16" where
  "get16 buf i = le_load (take 2 (drop i buf))"

definition put16 :: "u8 list \<Rightarrow> nat \<Rightarrow> u16 \<Rightarrow> u8 list" where
  "put16 buf i w = take i buf @ le_store 2 w @ drop (i + 2) buf"

definition get32 :: "u8 list \<Rightarrow> nat \<Rightarrow> u32" where
  "get32 buf i = le_load (take 4 (drop i buf))"

definition put32 :: "u8 list \<Rightarrow> nat \<Rightarrow> u32 \<Rightarrow> u8 list" where
  "put32 buf i w = take i buf @ le_store 4 w @ drop (i + 4) buf"

section \<open>Skip predicates\<close>

text \<open>The loop \<open>while (!(xor_val & 1)) { sh++; xor_val >>= 1; }\<close>, entered with a nonzero value.\<close>

function shift_out :: "u32 \<Rightarrow> nat \<Rightarrow> u32 \<times> nat" where
  "shift_out x sh = (if x = 0 \<or> x AND 1 \<noteq> 0 then (x, sh) else shift_out (drop_bit 1 x) (Suc sh))"
  by pat_completeness auto
termination
proof (relation "measure (\<lambda>(x, sh). unat x)")
  fix x :: u32 and sh
  assume "\<not> (x = 0 \<or> x AND 1 \<noteq> 0)"
  then have "0 < unat x" by (simp add: unat_gt_0)
  then have "unat x div 2 < unat x" by simp
  then show "((drop_bit 1 x, Suc sh), x, sh) \<in> measure (\<lambda>(x, sh). unat x)"
    using unat_div[of x 2] by (simp add: drop_bit_eq_div)
qed simp

declare shift_out.simps [simp del]

definition could_be_bitflip :: "u32 \<Rightarrow> bool" where
  "could_be_bitflip xor_val =
     (if xor_val = 0 then True
      else
        (let (xor_val, sh) = shift_out xor_val 0 in
         if xor_val = 1 \<or> xor_val = 3 \<or> xor_val = 15 then True
         else if sh mod 8 \<noteq> 0 then False
         else xor_val = 0xff \<or> xor_val = 0xffff \<or> xor_val = 0xffffffff))"

text \<open>
  The two counting loops of \<open>could_be_arith\<close>: how many of the \<open>n\<close> units (bytes or 16-bit
  words) differ, and the last pair that differs.
\<close>

fun diff_loop :: "(nat \<Rightarrow> 'w::len word) \<Rightarrow> (nat \<Rightarrow> 'w word) \<Rightarrow> nat list \<Rightarrow> nat \<times> 'w word \<times> 'w word \<Rightarrow> nat \<times> 'w word \<times> 'w word" where
  "diff_loop a b [] r = r"
| "diff_loop a b (i # is) (diffs, ov, nv) =
     diff_loop a b is (if a i \<noteq> b i then (Suc diffs, a i, b i) else (diffs, ov, nv))"

definition within :: "'w::len word \<Rightarrow> 'w word \<Rightarrow> bool" where
  "within ov nv \<longleftrightarrow> ov - nv \<le> of_nat ARITH_MAX \<or> nv - ov \<le> of_nat ARITH_MAX"

definition could_be_arith :: "u32 \<Rightarrow> u32 \<Rightarrow> nat \<Rightarrow> bool" where
  "could_be_arith old_val new_val blen =
     (if old_val = new_val then True
      else
        (let (diffs, ov, nv) = diff_loop (\<lambda>i. ucast (drop_bit (8 * i) old_val) :: u8)
               (\<lambda>i. ucast (drop_bit (8 * i) new_val)) [0..<blen] (0, 0, 0) in
         if diffs = 1 \<and> within ov nv then True
         else if blen = 1 then False
         else
           (let (diffs, ov, nv) = diff_loop (\<lambda>i. ucast (drop_bit (16 * i) old_val) :: u16)
                  (\<lambda>i. ucast (drop_bit (16 * i) new_val)) [0..<blen div 2] (0, 0, 0) in
            if diffs = 1 \<and> within ov nv then True
            else if diffs = 1 \<and> within (SWAP16 ov) (SWAP16 nv) then True
            else if blen = 4 then
              within old_val new_val \<or> within (SWAP32 old_val) (SWAP32 new_val)
            else False)))"

definition could_be_interest :: "u32 \<Rightarrow> u32 \<Rightarrow> nat \<Rightarrow> bool \<Rightarrow> bool" where
  "could_be_interest old_val new_val blen check_le =
     (if old_val = new_val then True
      else if \<exists>i\<in>set [0..<blen]. \<exists>v\<in>set interesting_8.
          new_val = (old_val AND NOT (push_bit (i * 8) 0xff)) OR push_bit (i * 8) (ucast (word_of_int v :: u8))
        then True
      else if blen = 2 \<and> \<not> check_le then False
      else if \<exists>i\<in>set [0..<blen - 1]. \<exists>v\<in>set interesting_16.
          new_val = (old_val AND NOT (push_bit (i * 8) 0xffff)) OR push_bit (i * 8) (ucast (word_of_int v :: u16))
          \<or> (blen > 2 \<and> new_val = (old_val AND NOT (push_bit (i * 8) 0xffff))
                OR push_bit (i * 8) (ucast (SWAP16 (word_of_int v))))
        then True
      else if blen = 4 \<and> check_le then \<exists>v\<in>set interesting_32. new_val = word_of_int v
      else False)"

section \<open>Comparing buffers, powers of two\<close>

text \<open>\<open>locate_diffs\<close>: the offsets of the first and the last differing byte, \<open>-1\<close> when there is none.\<close>

fun locate_diffs_loop :: "nat \<Rightarrow> u8 list \<Rightarrow> u8 list \<Rightarrow> nat \<Rightarrow> int \<Rightarrow> int \<Rightarrow> int \<times> int" where
  "locate_diffs_loop 0 p1 p2 pos f_loc l_loc = (f_loc, l_loc)"
| "locate_diffs_loop (Suc n) p1 p2 pos f_loc l_loc =
     (if p1 ! pos \<noteq> p2 ! pos then
        locate_diffs_loop n p1 p2 (Suc pos) (if f_loc = -1 then int pos else f_loc) (int pos)
      else locate_diffs_loop n p1 p2 (Suc pos) f_loc l_loc)"

definition locate_diffs :: "u8 list \<Rightarrow> u8 list \<Rightarrow> nat \<Rightarrow> int \<times> int" where
  "locate_diffs ptr1 ptr2 len = locate_diffs_loop len ptr1 ptr2 0 (-1) (-1)"

partial_function (option) next_p2_loop :: "u32 \<Rightarrow> u32 \<Rightarrow> u32 option" where
  "next_p2_loop val ret = (if val > ret then next_p2_loop val (push_bit 1 ret) else Some ret)"

definition next_p2 :: "u32 \<Rightarrow> u32 option" where
  "next_p2 val = next_p2_loop val 1"

section \<open>Byte order and buffers\<close>

lemma le_byte_bits:
  "m < 8 \<Longrightarrow> bit (le_load bs :: 'w::len word) (8 * k + m) \<longleftrightarrow> 8 * k + m < LENGTH('w) \<and> k < length bs \<and> bit (bs ! k) m"
  by (simp add: mem_simps)

lemma byte_position:
  fixes n k :: nat
  assumes "n < 8 * k"
  obtains q m where "n = 8 * q + m" "q < k" "m < 8"
  using assms that[of "n div 8" "n mod 8"] by (simp add: less_mult_imp_div_less mult.commute)

lemma SWAP16_le: "SWAP16 (le_load [a, b]) = le_load [b, a]"
proof (rule bit_word_eqI)
  fix n :: nat assume "n < LENGTH(16)"
  then have "n < 8 * 2" by simp
  then obtain q m where n: "n = 8 * q + m" "q < 2" and m: "m < 8" by (rule byte_position)
  have "bit (SWAP16 (le_load [a, b])) n \<longleftrightarrow>
      (8 \<le> n \<and> bit (le_load [a, b] :: u16) (n - 8)) \<or> bit (le_load [a, b] :: u16) (8 + n)"
    using \<open>n < LENGTH(16)\<close> by (simp add: SWAP16_def bit_simps del: le_load.simps)
  moreover have "q = 0 \<or> q = 1" using n(2) by auto
  ultimately show "bit (SWAP16 (le_load [a, b])) n = bit (le_load [b, a] :: u16) n"
    using m n(1) le_byte_bits[OF m, of "[a, b]" 0, where 'w=16] le_byte_bits[OF m, of "[a, b]" 1, where 'w=16]
      le_byte_bits[OF m, of "[a, b]" 2, where 'w=16]
      le_byte_bits[OF m, of "[b, a]" 0, where 'w=16] le_byte_bits[OF m, of "[b, a]" 1, where 'w=16]
    by (elim disjE) (simp_all del: le_load.simps)
qed

lemma SWAP32_le: "SWAP32 (le_load [a, b, c, d]) = le_load [d, c, b, a]"
proof (rule bit_word_eqI)
  fix n :: nat assume n32: "n < LENGTH(32)"
  then have "n < 8 * 4" by simp
  then obtain q m where n: "n = 8 * q + m" "q < 4" and m: "m < 8" by (rule byte_position)
  let ?x = "le_load [a, b, c, d] :: u32"
  have mk: "(0x00FF0000::u32) = le_load [0, 0, 0xff, 0]" "(0x0000FF00::u32) = le_load [0, 0xff, 0, 0]"
    by simp_all
  have ff: "bit (0xff::u8) m"
  proof -
    have "(0xff::u8) = mask 8" by (simp add: mask_eq_exp_minus_1)
    then show ?thesis using m by (simp only: bit_mask_iff) simp
  qed
  have "bit (SWAP32 ?x) n \<longleftrightarrow>
      (24 \<le> n \<and> bit ?x (n - 24)) \<or> bit ?x (24 + n)
      \<or> (8 \<le> n \<and> bit ?x (n - 8) \<and> bit (le_load [0, 0, 0xff, 0] :: u32) n)
      \<or> (bit ?x (8 + n) \<and> bit (le_load [0, 0xff, 0, 0] :: u32) n)"
    unfolding SWAP32_def mk using n32 by (auto simp add: bit_simps simp del: le_load.simps)
  moreover have "q = 0 \<or> q = 1 \<or> q = 2 \<or> q = 3" using n(2) by auto
  moreover note le = le_byte_bits[OF m, of "[a, b, c, d]" _, where 'w=32] le_byte_bits[OF m, of "[d, c, b, a]" _, where 'w=32]
    le_byte_bits[OF m, of "[0, 0, 0xff, 0]" _, where 'w=32] le_byte_bits[OF m, of "[0, 0xff, 0, 0]" _, where 'w=32]
  ultimately show "bit (SWAP32 ?x) n = bit (le_load [d, c, b, a] :: u32) n"
    using m n(1) ff le[of 0] le[of 1] le[of 2] le[of 3] le[of 4] le[of 5] le[of 6]
    by (elim disjE) (simp_all del: le_load.simps)
qed

lemma SWAP16_SWAP16 [simp]: "SWAP16 (SWAP16 x) = x"
  by (rule bit_word_eqI) (auto simp: SWAP16_def bit_simps)

lemma FLIP_BIT_twice [simp]: "b < 8 * length ar \<Longrightarrow> FLIP_BIT (FLIP_BIT ar b) b = ar"
  by (simp add: FLIP_BIT_def xor.assoc)

lemma length_FLIP_BIT [simp]: "length (FLIP_BIT ar b) = length ar"
  by (simp add: FLIP_BIT_def)

lemma length_put [simp]:
  "i + 2 \<le> length buf \<Longrightarrow> length (put16 buf i w) = length buf"
  "i + 4 \<le> length buf \<Longrightarrow> length (put32 buf i x) = length buf"
  by (simp_all add: put16_def put32_def)

lemma put16_get16 [simp]: "i + 2 \<le> length buf \<Longrightarrow> put16 buf i (get16 buf i) = buf"
proof -
  assume i: "i + 2 \<le> length buf"
  then have "le_store 2 (get16 buf i) = take 2 (drop i buf)"
    using le_store_load[of "take 2 (drop i buf)", where 'a=16] by (simp add: get16_def)
  then show ?thesis
    using take_splice[of i buf 2] by (simp add: put16_def)
qed

lemma put32_get32 [simp]: "i + 4 \<le> length buf \<Longrightarrow> put32 buf i (get32 buf i) = buf"
proof -
  assume i: "i + 4 \<le> length buf"
  then have "le_store 4 (get32 buf i) = take 4 (drop i buf)"
    using le_store_load[of "take 4 (drop i buf)", where 'a=32] by (simp add: get32_def)
  then show ?thesis
    using take_splice[of i buf 4] by (simp add: put32_def)
qed

lemma put16_put16 [simp]: "i + 2 \<le> length buf \<Longrightarrow> put16 (put16 buf i w) i w' = put16 buf i w'"
  by (simp add: put16_def)

lemma put32_put32 [simp]: "i + 4 \<le> length buf \<Longrightarrow> put32 (put32 buf i w) i w' = put32 buf i w'"
  by (simp add: put32_def)

lemma get16_put16 [simp]: "i + 2 \<le> length buf \<Longrightarrow> get16 (put16 buf i w) i = w"
  by (simp add: put16_def get16_def le_load_store)

lemma get32_put32 [simp]: "i + 4 \<le> length buf \<Longrightarrow> get32 (put32 buf i w) i = w"
  by (simp add: put32_def get32_def le_load_store)


section \<open>Bit flips as values\<close>

lemma odd_decomposition:
  assumes "odd (y::nat)" "odd m" "y * 2 ^ s = m * 2 ^ t"
  shows "y = m \<and> s = t"
proof -
  have "s = t" using assms
  proof (induction s arbitrary: t)
    case 0
    then show ?case by (cases t) auto
  next
    case (Suc s)
    then obtain t' where "t = Suc t'" by (cases t) auto
    then show ?case using Suc.IH[of t'] Suc.prems by simp
  qed
  then show ?thesis using assms(3) by simp
qed

lemma AND_1_iff: "(x::u32) AND 1 \<noteq> 0 \<longleftrightarrow> odd (unat x)"
proof -
  have "x AND 1 = x mod 2" by (simp add: and_one_eq)
  then have "x AND 1 \<noteq> 0 \<longleftrightarrow> unat (x mod 2) \<noteq> 0" by (simp add: unat_eq_0)
  then show ?thesis using unat_mod[of x 2] by (simp add: odd_iff_mod_2_eq_one)
qed

lemma shift_out_decomposes:
  "x \<noteq> 0 \<Longrightarrow> shift_out x sh = (y, sh') \<Longrightarrow> sh \<le> sh' \<and> odd (unat y) \<and> unat x = unat y * 2 ^ (sh' - sh)"
proof (induction x sh rule: shift_out.induct)
  case (1 x sh)
  show ?case
  proof (cases "x AND 1 \<noteq> 0")
    case True
    then show ?thesis using "1.prems" AND_1_iff[of x] by (simp add: shift_out.simps[of x])
  next
    case False
    have ev: "even (unat x)" using False AND_1_iff[of x] by simp
    have h: "unat (drop_bit 1 x) = unat x div 2" using unat_div[of x 2] by (simp add: drop_bit_eq_div)
    then have nz: "drop_bit 1 x \<noteq> 0" using ev "1.prems"(1)
      by (metis dvd_mult_div_cancel mult_0_right unat_eq_0 unsigned_0)
    have "shift_out (drop_bit 1 x) (Suc sh) = (y, sh')"
      using "1.prems" False by (simp add: shift_out.simps[of x])
    then have IH: "Suc sh \<le> sh' \<and> odd (unat y) \<and> unat (drop_bit 1 x) = unat y * 2 ^ (sh' - Suc sh)"
      using "1.IH" "1.prems"(1) False nz by simp
    then have "unat x = 2 * (unat y * 2 ^ (sh' - Suc sh))" using h ev by auto
    moreover have "2 * 2 ^ (sh' - Suc sh) = (2::nat) ^ (sh' - sh)"
      using IH by (metis Suc_diff_le diff_Suc_Suc power_Suc)
    ultimately show ?thesis using IH by (simp add: mult.left_commute)
  qed
qed

text \<open>The changes the walking bit and byte flips make inside one little-endian word.\<close>

definition flip_pattern :: "nat \<Rightarrow> bool" where
  "flip_pattern x \<longleftrightarrow> x = 0
     \<or> (\<exists>m\<in>{1, 3, 15}. \<exists>sh. x = m * 2 ^ sh)
     \<or> (\<exists>m\<in>{0xff, 0xffff, 0xffffffff}. \<exists>k. x = m * 2 ^ (8 * k))"

lemma could_be_bitflip_iff: "could_be_bitflip x \<longleftrightarrow> flip_pattern (unat x)"
proof (cases "x = 0")
  case True
  then show ?thesis by (simp add: could_be_bitflip_def flip_pattern_def)
next
  case False
  obtain y sh where s: "shift_out x 0 = (y, sh)" by fastforce
  have d: "odd (unat y)" "unat x = unat y * 2 ^ sh" using shift_out_decomposes[OF False s] by simp_all
  have pat: "(\<exists>t. P t \<and> unat x = m * 2 ^ t) \<longleftrightarrow> unat y = m \<and> P sh" if "odd m" for m P
    using odd_decomposition[OF d(1) that] d(2) by auto
  have p1: "(\<exists>sh. unat x = m * 2 ^ sh) \<longleftrightarrow> unat y = m" if "odd m" for m
    using pat[OF that, of "\<lambda>_. True"] by simp
  have p2: "(\<exists>k. unat x = m * 2 ^ (8 * k)) \<longleftrightarrow> unat y = m \<and> sh mod 8 = 0" if "odd m" for m
  proof -
    have "(\<exists>k. unat x = m * 2 ^ (8 * k)) \<longleftrightarrow> (\<exists>t. t mod 8 = 0 \<and> unat x = m * 2 ^ t)"
      by (metis mod_0_imp_dvd dvd_def mod_mult_self1_is_0)
    then show ?thesis using pat[OF that, of "\<lambda>t. t mod 8 = 0"] by simp
  qed
  have "could_be_bitflip x \<longleftrightarrow> (y = 1 \<or> y = 3 \<or> y = 15) \<or> (sh mod 8 = 0 \<and> (y = 0xff \<or> y = 0xffff \<or> y = 0xffffffff))"
    using False s by (simp add: could_be_bitflip_def)
  also have "\<dots> \<longleftrightarrow> (unat y = 1 \<or> unat y = 3 \<or> unat y = 15)
      \<or> (sh mod 8 = 0 \<and> (unat y = 0xff \<or> unat y = 0xffff \<or> unat y = 0xffffffff))"
    by (simp only: word_unat_eq_iff) simp
  also have "\<dots> \<longleftrightarrow> flip_pattern (unat x)"
  proof -
    have o: "odd (1::nat)" "odd (3::nat)" "odd (15::nat)" "odd (0xff::nat)" "odd (0xffff::nat)" "odd (0xffffffff::nat)"
      by simp_all
    have "unat x \<noteq> 0" using False by (simp add: unat_eq_0)
    then show ?thesis
      unfolding flip_pattern_def bex_simps p1[OF o(1)] p1[OF o(2)] p1[OF o(3)] p2[OF o(4)] p2[OF o(5)] p2[OF o(6)]
      by blast
  qed
  finally show ?thesis .
qed


section \<open>Arithmetic edits\<close>

text \<open>
  The edits the arithmetic stages make at some offset of a buffer: add or subtract at most
  \<^const>\<open>ARITH_MAX\<close> to a byte, or to a 16-bit or 32-bit number in either byte order.
\<close>

definition arith_edit :: "u8 list \<Rightarrow> u8 list \<Rightarrow> bool" where
  "arith_edit xs ys \<longleftrightarrow> (\<exists>j\<le>ARITH_MAX.
     (\<exists>i<length xs. ys = xs[i := xs ! i + of_nat j] \<or> ys = xs[i := xs ! i - of_nat j])
     \<or> (\<exists>i. i + 2 \<le> length xs \<and>
          (ys = put16 xs i (get16 xs i + of_nat j) \<or> ys = put16 xs i (get16 xs i - of_nat j)
           \<or> ys = put16 xs i (SWAP16 (SWAP16 (get16 xs i) + of_nat j))
           \<or> ys = put16 xs i (SWAP16 (SWAP16 (get16 xs i) - of_nat j))))
     \<or> (\<exists>i. i + 4 \<le> length xs \<and>
          (ys = put32 xs i (get32 xs i + of_nat j) \<or> ys = put32 xs i (get32 xs i - of_nat j)
           \<or> ys = put32 xs i (SWAP32 (SWAP32 (get32 xs i) + of_nat j))
           \<or> ys = put32 xs i (SWAP32 (SWAP32 (get32 xs i) - of_nat j)))))"

lemma within_edit: "within ov nv \<Longrightarrow> \<exists>j\<le>ARITH_MAX. nv = ov + of_nat j \<or> nv = ov - of_nat j"
proof -
  have "\<exists>j\<le>ARITH_MAX. x = of_nat j" if "(x :: 'a::len word) \<le> of_nat ARITH_MAX" for x
  proof -
    have "unat x \<le> unat (of_nat ARITH_MAX :: 'a word)" using that by (simp add: word_le_nat_alt)
    also have "\<dots> \<le> ARITH_MAX" by (simp add: unat_of_nat)
    finally show ?thesis by (metis of_nat_unat ucast_id)
  qed
  moreover assume "within ov nv"
  ultimately show ?thesis unfolding within_def
    by (metis add_diff_cancel_left' diff_add_cancel add.commute diff_diff_eq2)
qed

lemma diff_loop_eq:
  "distinct is \<Longrightarrow> diff_loop a b is (d, ov, nv) = (d', ov', nv') \<Longrightarrow>
     d' = d + length (filter (\<lambda>i. a i \<noteq> b i) is)
     \<and> (if d' = d then ov' = ov \<and> nv' = nv else (\<exists>i\<in>set is. a i \<noteq> b i \<and> ov' = a i \<and> nv' = b i))"
proof (induction "is" arbitrary: d ov nv)
  case Nil
  then show ?case by simp
next
  case (Cons i "is")
  show ?case
  proof (cases "a i \<noteq> b i")
    case True
    then have "diff_loop a b is (Suc d, a i, b i) = (d', ov', nv')" using Cons.prems by simp
    from Cons.IH[OF _ this] Cons.prems True show ?thesis
      by (cases "d' = Suc d") (auto simp: filter_empty_conv split: if_splits)
  next
    case False
    then have "diff_loop a b is (d, ov, nv) = (d', ov', nv')" using Cons.prems by simp
    from Cons.IH[OF _ this] Cons.prems False show ?thesis by auto
  qed
qed

lemma diff_loop_one:
  assumes "diff_loop a b [0..<n] (0, ov, nv) = (1, ov', nv')"
  shows "\<exists>i<n. ov' = a i \<and> nv' = b i \<and> (\<forall>j<n. j \<noteq> i \<longrightarrow> a j = b j)"
proof -
  have d: "length (filter (\<lambda>i. a i \<noteq> b i) [0..<n]) = 1"
    and "\<exists>i\<in>set [0..<n]. a i \<noteq> b i \<and> ov' = a i \<and> nv' = b i"
    using diff_loop_eq[OF _ assms] by auto
  then obtain i where i: "i < n" "a i \<noteq> b i" "ov' = a i" "nv' = b i" by auto
  obtain k where k: "filter (\<lambda>i. a i \<noteq> b i) [0..<n] = [k]" using d by (auto simp: length_Suc_conv)
  have "j \<in> set [k]" if "j < n" "a j \<noteq> b j" for j
    unfolding k[symmetric] using that by simp
  then have k: "j = k" if "j < n" "a j \<noteq> b j" for j using that by simp
  then have "\<forall>j<n. j \<noteq> i \<longrightarrow> a j = b j" using k[OF i(1,2)] by blast
  then show ?thesis using i by blast
qed

lemma le_byte:
  assumes "i < length xs" "length xs \<le> 4"
  shows "(ucast (drop_bit (8 * i) (le_load xs :: u32)) :: u8) = xs ! i"
  using arg_cong[OF le_store_load[of xs, where 'a=32], of "\<lambda>l. l ! i"] assms by (simp add: le_store_def)

lemma le_half:
  assumes "2 * i + 2 \<le> length xs" "length xs \<le> 4"
  shows "(ucast (drop_bit (16 * i) (le_load xs :: u32)) :: u16) = get16 xs (2 * i)"
proof (rule bit_word_eqI)
  fix n :: nat assume "n < LENGTH(16)"
  then have "n < 8 * 2" by simp
  then obtain q m where n: "n = 8 * q + m" "q < 2" and m: "m < 8" by (rule byte_position)
  have pos: "16 * i + n = 8 * (2 * i + q) + m" using n by simp
  have "bit (ucast (drop_bit (16 * i) (le_load xs :: u32)) :: u16) n \<longleftrightarrow> bit (le_load xs :: u32) (8 * (2 * i + q) + m)"
    using \<open>n < LENGTH(16)\<close> by (simp add: bit_simps pos)
  also have "\<dots> \<longleftrightarrow> bit (xs ! (2 * i + q)) m"
    using assms n m by (subst le_byte_bits) auto
  also have "\<dots> \<longleftrightarrow> bit (get16 xs (2 * i)) n"
    unfolding get16_def n(1) using assms n m by (subst le_byte_bits) auto
  finally show "bit (ucast (drop_bit (16 * i) (le_load xs :: u32)) :: u16) n = bit (get16 xs (2 * i)) n" .
qed

lemma put16_eqI:
  assumes "i + 2 \<le> length xs" "length ys = length xs" "get16 ys i = w" "\<And>j. j < length xs \<Longrightarrow> j < i \<or> i + 2 \<le> j \<Longrightarrow> ys ! j = xs ! j"
  shows "ys = put16 xs i w"
proof -
  have "ys = put16 ys i w" using put16_get16[of i ys] assms(1-3) by simp
  also have "\<dots> = put16 xs i w"
    unfolding put16_def using assms(1,2,4) by (auto intro!: nth_equalityI)
  finally show ?thesis .
qed


lemma list_update_eqI:
  assumes "i < length xs" "length ys = length xs" "\<And>j. j < length xs \<Longrightarrow> j \<noteq> i \<Longrightarrow> ys ! j = xs ! j"
  shows "ys = xs[i := ys ! i]"
  using assms by (auto intro!: nth_equalityI simp: nth_list_update)

lemma SWAP16_inj: "SWAP16 x = y \<longleftrightarrow> x = SWAP16 y"
  by auto

lemma SWAP32_SWAP32 [simp]: "SWAP32 (SWAP32 x) = x"
proof -
  have "length (le_store 4 x) = 4" by simp
  then obtain a b c d where l: "le_store 4 x = [a, b, c, d]" by (rule bytes4)
  have "x = le_load [a, b, c, d]" using le_load_store[of 4 x] l by simp
  then show ?thesis by (simp add: SWAP32_le del: le_load.simps)
qed

lemma arith_byte_edit:
  assumes "length ys = length xs" "length xs \<le> 4"
    and "diff_loop (\<lambda>i. ucast (drop_bit (8 * i) (le_load xs :: u32)) :: u8)
          (\<lambda>i. ucast (drop_bit (8 * i) (le_load ys :: u32))) [0..<length xs] (0, 0, 0) = (1, ov, nv)"
    and "within ov nv"
  shows "arith_edit xs ys"
proof -
  from diff_loop_one[OF assms(3)] obtain i where i: "i < length xs" "ov = xs ! i" "nv = ys ! i"
      "\<forall>j<length xs. j \<noteq> i \<longrightarrow> xs ! j = ys ! j"
    using le_byte[of _ xs] le_byte[of _ ys] assms(1,2) by auto
  then have "ys = xs[i := nv]" using list_update_eqI[of i xs ys] assms(1) by simp
  with within_edit[OF assms(4)] i(1,2) show ?thesis unfolding arith_edit_def by blast
qed

lemma arith_half_edit:
  assumes "length ys = length xs" "length xs = 2 \<or> length xs = 4"
    and "diff_loop (\<lambda>i. ucast (drop_bit (16 * i) (le_load xs :: u32)) :: u16)
          (\<lambda>i. ucast (drop_bit (16 * i) (le_load ys :: u32))) [0..<length xs div 2] (0, 0, 0) = (1, ov, nv)"
    and "within ov nv \<or> within (SWAP16 ov) (SWAP16 nv)"
  shows "arith_edit xs ys"
proof -
  have h: "2 * i + 2 \<le> length xs" if "i < length xs div 2" for i using that assms(2) by auto
  from diff_loop_one[OF assms(3)] obtain i where i: "i < length xs div 2" "ov = get16 xs (2 * i)" "nv = get16 ys (2 * i)"
      "\<forall>j<length xs div 2. j \<noteq> i \<longrightarrow> get16 xs (2 * j) = get16 ys (2 * j)"
    using le_half[of _ xs] le_half[of _ ys] assms(1,2) h by auto
  have "ys ! j = xs ! j" if "j < length xs" "j < 2 * i \<or> 2 * i + 2 \<le> j" for j
  proof -
    have jd: "j div 2 < length xs div 2" "j div 2 \<noteq> i" using that assms(2) by auto
    then have e: "take 2 (drop (2 * (j div 2)) xs) = take 2 (drop (2 * (j div 2)) ys)"
      using i(4) h[OF jd(1)] le_load_inj[of "take 2 (drop (2 * (j div 2)) xs)" "take 2 (drop (2 * (j div 2)) ys)", where 'w=16]
        assms(1) by (simp add: get16_def)
    have "take 2 (drop (2 * (j div 2)) zs) ! (j mod 2) = zs ! j" if "j < length zs" for zs :: "u8 list"
      using that by simp
    from this[of xs] this[of ys] e show ?thesis using \<open>j < length xs\<close> assms(1) by metis
  qed
  then have ys: "ys = put16 xs (2 * i) nv"
    using put16_eqI[of "2 * i" xs ys nv] h[OF i(1)] i(3) assms(1) by simp
  from assms(4) obtain j where "j \<le> ARITH_MAX"
    "nv = ov + of_nat j \<or> nv = ov - of_nat j \<or> nv = SWAP16 (SWAP16 ov + of_nat j) \<or> nv = SWAP16 (SWAP16 ov - of_nat j)"
    using within_edit[of ov nv] within_edit[of "SWAP16 ov" "SWAP16 nv"] by (auto simp: SWAP16_inj)
  then show ?thesis unfolding arith_edit_def using ys i(2) h[OF i(1)] by blast
qed

lemma could_be_arith_cases:
  assumes "could_be_arith old new blen"
    and d8: "diff_loop (\<lambda>i. ucast (drop_bit (8 * i) old) :: u8) (\<lambda>i. ucast (drop_bit (8 * i) new)) [0..<blen] (0, 0, 0)
       = (d, ov, nv)"
    and d16: "diff_loop (\<lambda>i. ucast (drop_bit (16 * i) old) :: u16) (\<lambda>i. ucast (drop_bit (16 * i) new)) [0..<blen div 2] (0, 0, 0)
       = (e, ow, nw)"
  shows "old = new \<or> (d = 1 \<and> within ov nv)
     \<or> (blen \<noteq> 1 \<and> e = 1 \<and> (within ow nw \<or> within (SWAP16 ow) (SWAP16 nw)))
     \<or> (blen = 4 \<and> (within old new \<or> within (SWAP32 old) (SWAP32 new)))"
proof -
  have "if old = new then True else if d = 1 \<and> within ov nv then True else if blen = 1 then False
     else if e = 1 \<and> within ow nw then True else if e = 1 \<and> within (SWAP16 ow) (SWAP16 nw) then True
     else if blen = 4 then within old new \<or> within (SWAP32 old) (SWAP32 new) else False"
    using assms(1) by (simp only: could_be_arith_def Let_def d8 d16 prod.case)
  then show ?thesis by argo
qed

lemma could_be_arith_sound_aux:
  assumes "length ys = length xs" "length xs \<in> {1, 2, 4}"
    and "could_be_arith (le_load xs) (le_load ys) (length xs)"
  shows "xs = ys \<or> arith_edit xs ys"
proof -
  let ?o = "le_load xs :: u32" and ?n = "le_load ys :: u32"
  obtain d ov nv where d8: "diff_loop (\<lambda>i. ucast (drop_bit (8 * i) ?o) :: u8)
      (\<lambda>i. ucast (drop_bit (8 * i) ?n)) [0..<length xs] (0, 0, 0) = (d, ov, nv)" by (cases rule: prod_cases3)
  obtain e ow nw where d16: "diff_loop (\<lambda>i. ucast (drop_bit (16 * i) ?o) :: u16)
      (\<lambda>i. ucast (drop_bit (16 * i) ?n)) [0..<length xs div 2] (0, 0, 0) = (e, ow, nw)" by (cases rule: prod_cases3)
  have l4: "length xs \<le> 4" using assms(2) by auto
  consider (same) "?o = ?n" | (byte) "d = 1" "within ov nv"
    | (half) "e = 1" "within ow nw \<or> within (SWAP16 ow) (SWAP16 nw)" "length xs \<noteq> 1"
    | (full) "length xs = 4" "within ?o ?n \<or> within (SWAP32 ?o) (SWAP32 ?n)"
    using could_be_arith_cases[OF assms(3) d8 d16] by blast
  then show ?thesis
  proof cases
    case same
    moreover have "8 * length xs \<le> LENGTH(32)" using l4 by simp
    ultimately show ?thesis using le_load_inj[OF assms(1)[symmetric], where 'w=32] by blast
  next
    case byte
    then show ?thesis using arith_byte_edit[OF assms(1) l4] d8 by blast
  next
    case half
    then have "length xs = 2 \<or> length xs = 4" using assms(2) by blast
    with half show ?thesis using arith_half_edit[OF assms(1)] d16 by blast
  next
    case full
    have g: "get32 zs 0 = le_load zs" "put32 xs 0 (le_load zs) = zs" if "length zs = 4" for zs
      using that full(1) le_store_load[of zs, where 'a=32] by (simp_all add: get32_def put32_def)
    from full(2) obtain j where "j \<le> ARITH_MAX" "?n = ?o + of_nat j \<or> ?n = ?o - of_nat j
      \<or> ?n = SWAP32 (SWAP32 ?o + of_nat j) \<or> ?n = SWAP32 (SWAP32 ?o - of_nat j)"
      using within_edit[of ?o ?n] within_edit[of "SWAP32 ?o" "SWAP32 ?n"] by (metis SWAP32_SWAP32)
    then show ?thesis using g[of xs] g[of ys] full(1) assms(1) unfolding arith_edit_def
      by (metis add_0 order_refl)
  qed
qed


section \<open>Interesting-value edits\<close>

definition interest_edit :: "u8 list \<Rightarrow> u8 list \<Rightarrow> bool" where
  "interest_edit xs ys \<longleftrightarrow>
     (\<exists>i<length xs. \<exists>v\<in>set interesting_8. ys = xs[i := word_of_int v])
     \<or> (\<exists>i. i + 2 \<le> length xs \<and> (\<exists>v\<in>set interesting_16.
          ys = put16 xs i (word_of_int v) \<or> ys = put16 xs i (SWAP16 (word_of_int v))))
     \<or> (\<exists>i. i + 4 \<le> length xs \<and> (\<exists>v\<in>set interesting_32. ys = put32 xs i (word_of_int v)))"

lemma mask_consts: "(0xff::u32) = mask 8" "(0xffff::u32) = mask 16"
  by (simp_all add: mask_eq_exp_minus_1)

lemma insert_byte:
  assumes "i < length xs" "length xs \<le> 4"
  shows "((le_load xs :: u32) AND NOT (push_bit (i * 8) 0xff)) OR push_bit (i * 8) (ucast (b::u8)) = le_load (xs[i := b])"
proof (rule bit_word_eqI)
  fix n :: nat assume n32: "n < LENGTH(32)"
  then have "n < 8 * 4" by simp
  then obtain q m where n: "n = 8 * q + m" "q < 4" and m: "m < 8" by (rule byte_position)
  have nb: "\<not> bit b (n - i * 8)" if "i < q" using that n byte_bit_bound[of b "n - i * 8"] by auto
  have c: "q < i \<or> q = i \<or> i < q" by auto
  show "bit (((le_load xs :: u32) AND NOT (push_bit (i * 8) 0xff)) OR push_bit (i * 8) (ucast b)) n
      = bit (le_load (xs[i := b]) :: u32) n"
    unfolding mask_consts using n32 c m nb le_byte_bits[OF m, of xs q, where 'w=32] le_byte_bits[OF m, of "xs[i := b]" q, where 'w=32] assms
    unfolding n(1) by (elim disjE) (auto simp add: bit_simps)
qed

lemma insert_half:
  assumes "i + 2 \<le> length xs" "length xs \<le> 4"
  shows "((le_load xs :: u32) AND NOT (push_bit (i * 8) 0xffff)) OR push_bit (i * 8) (ucast (w::u16)) = le_load (put16 xs i w)"
proof (rule bit_word_eqI)
  fix n :: nat assume n32: "n < LENGTH(32)"
  then have "n < 8 * 4" by simp
  then obtain q m where n: "n = 8 * q + m" "q < 4" and m: "m < 8" by (rule byte_position)
  have nb: "\<not> bit w (n - i * 8)" if "i + 2 \<le> q" using that n bit_imp_le_length[of w "n - i * 8"] by auto
  have c: "q < i \<or> q = i \<or> q = i + 1 \<or> i + 2 \<le> q" by auto
  have ps: "put16 xs i w ! q = (if q = i then ucast w else if q = i + 1 then ucast (drop_bit 8 w) else xs ! q)"
    if "q < length xs"
  proof -
    have l: "le_store 2 w = [ucast w, ucast (drop_bit 8 w)]" by (simp add: le_store_def upt_rec)
    have s: "Suc (Suc (q - 2)) = q" if "i + 2 \<le> q" using that by simp
    show ?thesis unfolding put16_def l using assms that c s by (auto simp: nth_append nth_Cons')
  qed
  show "bit (((le_load xs :: u32) AND NOT (push_bit (i * 8) 0xffff)) OR push_bit (i * 8) (ucast w)) n
      = bit (le_load (put16 xs i w) :: u32) n"
    unfolding mask_consts
    using n32 c m nb ps le_byte_bits[OF m, of xs q, where 'w=32] le_byte_bits[OF m, of "put16 xs i w" q, where 'w=32] assms
    unfolding n(1) by (elim disjE) (auto simp add: bit_simps)
qed

lemma could_be_interest_sound_aux:
  assumes "length ys = length xs" "length xs \<in> {2, 4}"
    and "could_be_interest (le_load xs) (le_load ys) (length xs) check_le"
  shows "xs = ys \<or> interest_edit xs ys"
proof -
  let ?o = "le_load xs :: u32" and ?n = "le_load ys :: u32"
  have l4: "length xs \<le> 4" "8 * length xs \<le> LENGTH(32)" using assms(2) by auto
  have inj: "?n = le_load zs \<Longrightarrow> ys = zs" if "length zs = length xs" for zs
    using le_load_inj[of ys zs, where 'w=32] assms(1) that l4 by metis
  consider (same) "?o = ?n"
    | (byte) i v where "i < length xs" "v \<in> set interesting_8"
        "?n = (?o AND NOT (push_bit (i * 8) 0xff)) OR push_bit (i * 8) (ucast (word_of_int v :: u8))"
    | (half) i v where "i < length xs - 1" "v \<in> set interesting_16"
        "?n = (?o AND NOT (push_bit (i * 8) 0xffff)) OR push_bit (i * 8) (ucast (word_of_int v :: u16))
         \<or> ?n = (?o AND NOT (push_bit (i * 8) 0xffff)) OR push_bit (i * 8) (ucast (SWAP16 (word_of_int v)))"
    | (full) v where "length xs = 4" "v \<in> set interesting_32" "?n = word_of_int v"
  proof -
    have "?o = ?n \<or> (\<exists>i\<in>set [0..<length xs]. \<exists>v\<in>set interesting_8.
          ?n = (?o AND NOT (push_bit (i * 8) 0xff)) OR push_bit (i * 8) (ucast (word_of_int v :: u8)))
      \<or> (\<exists>i\<in>set [0..<length xs - 1]. \<exists>v\<in>set interesting_16.
          ?n = (?o AND NOT (push_bit (i * 8) 0xffff)) OR push_bit (i * 8) (ucast (word_of_int v :: u16))
          \<or> (length xs > 2 \<and> ?n = (?o AND NOT (push_bit (i * 8) 0xffff)) OR push_bit (i * 8) (ucast (SWAP16 (word_of_int v)))))
      \<or> (length xs = 4 \<and> (\<exists>v\<in>set interesting_32. ?n = word_of_int v))"
      using assms(3) unfolding could_be_interest_def by argo
    then show ?thesis using that unfolding set_upt atLeastLessThan_iff Bex_def by blast
  qed
  then show ?thesis
  proof cases
    case same
    then show ?thesis using inj[of xs] by simp
  next
    case byte
    then have "ys = xs[i := word_of_int v]" using inj[of "xs[i := word_of_int v]"] insert_byte[of i xs] l4(1) by simp
    then show ?thesis using byte(1,2) unfolding interest_edit_def by blast
  next
    case half
    then have i: "i + 2 \<le> length xs" by simp
    have "ys = put16 xs i (word_of_int v) \<or> ys = put16 xs i (SWAP16 (word_of_int v))"
      using half(3) inj[of "put16 xs i (word_of_int v)"] inj[of "put16 xs i (SWAP16 (word_of_int v))"]
        insert_half[OF i l4(1)] length_put(1)[OF i] by metis
    then show ?thesis using half(2) i unfolding interest_edit_def by blast
  next
    case full
    have "le_store 4 ?n = ys" using le_store_load[of ys, where 'a=32] full(1) assms(1) by simp
    then have "ys = put32 xs 0 (word_of_int v)" using full(1,3) by (simp add: put32_def)
    then show ?thesis using full(1,2) unfolding interest_edit_def by force
  qed
qed

section \<open>Locating differences\<close>

lemma locate_diffs_loop_eq:
  "locate_diffs_loop n p1 p2 pos f l =
     (let ds = filter (\<lambda>i. p1 ! i \<noteq> p2 ! i) [pos..<pos + n] in
      (if f = -1 \<and> ds \<noteq> [] then int (hd ds) else f, if ds \<noteq> [] then int (last ds) else l))"
proof (induction n arbitrary: pos f l)
  case 0
  then show ?case by simp
next
  case (Suc n)
  have "[pos..<pos + Suc n] = pos # [Suc pos..<Suc pos + n]" by (simp add: upt_conv_Cons)
  then show ?case using Suc by (simp add: Let_def)
qed

section \<open>Powers of two\<close>

lemma next_p2_loop_spec:
  assumes "k \<le> 31" "val \<le> 2 ^ 31" "k = 0 \<or> (2 :: u32) ^ (k - 1) < val"
  shows "\<exists>m\<le>31. next_p2_loop val (2 ^ k) = Some (2 ^ m) \<and> val \<le> 2 ^ m \<and> (m = 0 \<or> (2 :: u32) ^ (m - 1) < val)"
  using assms
proof (induction "31 - k" arbitrary: k)
  case 0
  then have "k = 31" by simp
  then show ?case using 0 by (subst next_p2_loop.simps) auto
next
  case (Suc d)
  then have k: "k < 31" by simp
  show ?case
  proof (cases "val > 2 ^ k")
    case True
    have "push_bit 1 ((2::u32) ^ k) = 2 ^ Suc k" by (simp add: push_bit_eq_mult)
    then have "next_p2_loop val (2 ^ k) = next_p2_loop val (2 ^ Suc k)"
      using True by (subst next_p2_loop.simps) (simp add: mult.commute)
    moreover have "\<exists>m\<le>31. next_p2_loop val (2 ^ Suc k) = Some (2 ^ m) \<and> val \<le> 2 ^ m \<and> (m = 0 \<or> (2 :: u32) ^ (m - 1) < val)"
      using Suc.hyps(2) Suc.prems True k by (intro Suc.hyps(1)) auto
    ultimately show ?thesis by simp
  next
    case False
    then have "next_p2_loop val (2 ^ k) = Some (2 ^ k)" by (subst next_p2_loop.simps) simp
    then show ?thesis using False Suc.prems k by (intro exI[of _ k]) auto
  qed
qed


section \<open>Properties\<close>

text \<open>
  C31. \<open>could_be_bitflip\<close> accepts exactly zero, the little-endian words with one, two or four adjacent bits set at any
  position, and those with one, two or four whole bytes set at a byte boundary. These are not the masks of the bit flip
  stages: bits that are adjacent in the word across a byte boundary are accepted although flipping two neighbours with
  \<open>FLIP_BIT\<close>, which counts from the most significant bit of each byte, never gives them, and the pair it does flip there
  is not recognised.
\<close>

theorem could_be_bitflip_spec:
  "(could_be_bitflip x \<longleftrightarrow> x = 0
     \<or> (\<exists>m\<in>{1, 3, 15}. \<exists>sh. unat x = m * 2 ^ sh)
     \<or> (\<exists>m\<in>{0xff, 0xffff, 0xffffffff}. \<exists>k. unat x = m * 2 ^ (8 * k)))
   \<and> could_be_bitflip 0x180 \<and> 0x180 \<notin> (\<lambda>i. le_load (FLIP_BIT (FLIP_BIT [0, 0, 0, 0] i) (Suc i)) :: u32) ` set [0..<31]
   \<and> le_load (FLIP_BIT (FLIP_BIT [0, 0, 0, 0] 7) 8) = (0x8001 :: u32) \<and> \<not> could_be_bitflip 0x8001"
proof -
  have iff: "could_be_bitflip x \<longleftrightarrow> x = 0
     \<or> (\<exists>m\<in>{1, 3, 15}. \<exists>sh. unat x = m * 2 ^ sh)
     \<or> (\<exists>m\<in>{0xff, 0xffff, 0xffffffff}. \<exists>k. unat x = m * 2 ^ (8 * k))" for x
    unfolding could_be_bitflip_iff flip_pattern_def by (simp add: unat_eq_0)
  moreover have "could_be_bitflip 0x180" "\<not> could_be_bitflip 0x8001" by code_simp+
  moreover have "0x180 \<notin> (\<lambda>i. le_load (FLIP_BIT (FLIP_BIT [0, 0, 0, 0] i) (Suc i)) :: u32) ` set [0..<31]" by code_simp
  moreover have "le_load (FLIP_BIT (FLIP_BIT [0, 0, 0, 0] 7) 8) = (0x8001 :: u32)" by code_simp
  ultimately show ?thesis by blast
qed

text \<open>
  \<open>could_be_arith\<close> never claims too much: when it answers yes for a 1-, 2- or 4-byte value,
  the new bytes are the old ones or result from one addition or subtraction of at most
  \<^const>\<open>ARITH_MAX\<close> to a byte or to a 16-bit or 32-bit number in some byte order.
\<close>

lemma could_be_arith_sound:
  assumes "length ys = length xs" "length xs \<in> {1, 2, 4}"
    and "could_be_arith (le_load xs) (le_load ys) (length xs)"
  shows "xs = ys \<or> arith_edit xs ys"
  using assms by (rule could_be_arith_sound_aux)

lemma could_be_arith_sound_witness:
  "could_be_arith (le_load [250, 1]) (le_load [4, 2]) 2 \<and> ([250, 1] = ([4, 2] :: u8 list) \<or> arith_edit [250, 1] [4, 2])"
proof -
  have c: "could_be_arith (le_load [250, 1]) (le_load [4, 2]) 2"
    by (simp add: could_be_arith_def upt_rec within_def ARITH_MAX_def)
  have l: "length ([250, 1] :: u8 list) = 2" by simp
  have "[250, 1] = ([4, 2] :: u8 list) \<or> arith_edit [250, 1] [4, 2]"
    by (rule could_be_arith_sound) (use c in \<open>simp_all only: l, simp_all\<close>)
  with c show ?thesis by blast
qed

text \<open>
  \<open>could_be_interest\<close> never claims too much: when it answers yes for a 2- or 4-byte value, the
  new bytes are the old ones or result from writing one interesting value of 1, 2 or 4 bytes.
\<close>

lemma could_be_interest_sound:
  assumes "length ys = length xs" "length xs \<in> {2, 4}"
    and "could_be_interest (le_load xs) (le_load ys) (length xs) check_le"
  shows "xs = ys \<or> interest_edit xs ys"
  using assms by (rule could_be_interest_sound_aux)

lemma could_be_interest_sound_witness:
  "could_be_interest (le_load [9, 9]) (le_load [9, 127]) 2 False \<and> interest_edit [9, 9] [9, 127]"
proof -
  have c: "could_be_interest (le_load [9, 9]) (le_load [9, 127]) 2 False"
    by (simp add: could_be_interest_def upt_rec interesting_8_def)
  have l: "length ([9, 9] :: u8 list) = 2" by simp
  have "[9, 9] = ([9, 127] :: u8 list) \<or> interest_edit [9, 9] [9, 127]"
    by (rule could_be_interest_sound[where check_le = False]) (use c in \<open>simp_all only: l, simp_all\<close>)
  with c show ?thesis by simp
qed

text \<open>
  \<open>locate_diffs\<close> returns the offsets of the first and the last byte in which the buffers
  differ, and \<open>-1\<close> twice when the compared prefixes are equal.
\<close>

lemma locate_diffs_spec:
  "case locate_diffs p1 p2 len of (f, l) \<Rightarrow>
     (if \<exists>i<len. p1 ! i \<noteq> p2 ! i then
        f = int (LEAST i. i < len \<and> p1 ! i \<noteq> p2 ! i)
        \<and> l = int (GREATEST i. i < len \<and> p1 ! i \<noteq> p2 ! i)
      else f = -1 \<and> l = -1)"
proof -
  define ds where "ds = filter (\<lambda>i. p1 ! i \<noteq> p2 ! i) [0..<len]"
  have mem: "i \<in> set ds \<longleftrightarrow> i < len \<and> p1 ! i \<noteq> p2 ! i" for i by (auto simp: ds_def)
  have srt: "sorted ds" by (simp add: ds_def sorted_wrt_filter)
  have e: "locate_diffs p1 p2 len = (if ds \<noteq> [] then int (hd ds) else -1, if ds \<noteq> [] then int (last ds) else -1)"
    by (simp add: locate_diffs_def locate_diffs_loop_eq Let_def ds_def)
  show ?thesis
  proof (cases "ds = []")
    case True
    then have "\<not> (\<exists>i<len. p1 ! i \<noteq> p2 ! i)" using mem by auto
    then show ?thesis using True by (simp add: e)
  next
    case False
    have bnd: "hd ds \<le> i \<and> i \<le> last ds" if i: "i \<in> set ds" for i
    proof -
      obtain k where k: "k < length ds" "i = ds ! k" using i by (metis in_set_conv_nth)
      then show ?thesis using False sorted_nth_mono[OF srt, of 0 k] sorted_nth_mono[OF srt, of k "length ds - 1"]
        by (simp add: hd_conv_nth last_conv_nth)
    qed
    have h: "hd ds \<in> set ds" "last ds \<in> set ds" using False by simp_all
    have "(LEAST i. i < len \<and> p1 ! i \<noteq> p2 ! i) = hd ds"
      by (rule Least_equality) (use h(1) bnd in \<open>simp_all add: mem\<close>)
    moreover have "(GREATEST i. i < len \<and> p1 ! i \<noteq> p2 ! i) = last ds"
      by (rule Greatest_equality) (use h(2) bnd in \<open>simp_all add: mem\<close>)
    moreover have "\<exists>i<len. p1 ! i \<noteq> p2 ! i" using h(1) mem by blast
    ultimately show ?thesis using False by (simp add: e)
  qed
qed

text \<open>
  \<open>next_p2\<close> returns, for every value up to \<open>2 ^ 31\<close>, the least power of two that is at
  least the value: its doubling loop ends.
\<close>

lemma next_p2_terminates:
  assumes "val \<le> 2 ^ 31"
  shows "\<exists>m\<le>31. next_p2 val = Some (2 ^ m) \<and> val \<le> 2 ^ m \<and> (m = 0 \<or> (2 :: u32) ^ (m - 1) < val)"
  using next_p2_loop_spec[of 0 val] assms by (simp add: next_p2_def)

lemma next_p2_terminates_witness:
  "\<exists>m\<le>31. next_p2 1000 = Some (2 ^ m) \<and> (1000 :: u32) \<le> 2 ^ m \<and> (m = 0 \<or> (2 :: u32) ^ (m - 1) < 1000)"
  by (rule next_p2_terminates) simp

end
