(* ===== verification/Afl_Random.thy ===== *)
theory Afl_Random
  imports Afl_Bitmap "HOL-Library.Multiset"
begin

text \<open>
  The random choices of \<open>afl-fuzz.c\<close>: \<open>UR\<close>, \<open>shuffle_ptrs\<close> and
  \<open>choose_block_len\<close>. The values of the libc generator and of \<open>/dev/urandom\<close> are
  not determined by the program: they are two arbitrary streams of the state, read one value
  at a time, so every theorem holds whatever they contain.
\<close>

section \<open>State\<close>

record rng_state = bm_state +
  random_src :: "nat \<Rightarrow> nat"     \<comment> \<open>successive results of \<open>random()\<close>\<close>
  random_pos :: nat
  urandom_src :: "nat \<Rightarrow> u32"    \<comment> \<open>successive words read from \<open>/dev/urandom\<close>\<close>
  urandom_pos :: nat
  rand_cnt :: u32
  queue_cycle :: u64
  run_over10m :: bool

definition RESEED_RNG :: u32 where "RESEED_RNG = 10000"
definition HAVOC_BLK_SMALL :: nat where "HAVOC_BLK_SMALL = 32"
definition HAVOC_BLK_MEDIUM :: nat where "HAVOC_BLK_MEDIUM = 128"
definition HAVOC_BLK_LARGE :: nat where "HAVOC_BLK_LARGE = 1500"
definition HAVOC_BLK_XL :: nat where "HAVOC_BLK_XL = 32768"

declare HAVOC_BLK_SMALL_def [cfg_simps] HAVOC_BLK_MEDIUM_def [cfg_simps]
  HAVOC_BLK_LARGE_def [cfg_simps] HAVOC_BLK_XL_def [cfg_simps]

section \<open>Operations\<close>

text \<open>
  \<open>UR(limit)\<close>: count down, reseed when the counter was 0 (two words of \<open>/dev/urandom\<close>, the
  second one resets the counter), then \<open>random() % limit\<close>.
\<close>

definition UR :: "nat \<Rightarrow> 'a rng_state_scheme \<Rightarrow> err + nat \<times> 'a rng_state_scheme" where
  "UR limit s =
     (let s = (if rand_cnt s = 0 then
                 s\<lparr>rand_cnt := RESEED_RNG div 2 + urandom_src s (urandom_pos s + 1) mod RESEED_RNG,
                   urandom_pos := urandom_pos s + 2\<rparr>
               else s\<lparr>rand_cnt := rand_cnt s - 1\<rparr>)
      in if limit = 0 then Inl DivByZero
         else Inr (random_src s (random_pos s) mod limit, s\<lparr>random_pos := random_pos s + 1\<rparr>))"

text \<open>\<open>for (i = 0; i < cnt - 2; i++)\<close>, with \<open>cnt - 2\<close> a 32-bit number: entered with at least two pointers.\<close>

fun shuffle_loop :: "nat list \<Rightarrow> nat \<Rightarrow> 'p list \<Rightarrow> 'a rng_state_scheme \<Rightarrow> err + 'p list \<times> 'a rng_state_scheme" where
  "shuffle_loop [] cnt ptrs s = Inr (ptrs, s)"
| "shuffle_loop (i # is) cnt ptrs s =
     bindE (UR (cnt - i) s) (\<lambda>(r, s).
       let j = i + r in
       if j < length ptrs \<and> i < length ptrs
       then shuffle_loop is cnt (ptrs[i := ptrs ! j, j := ptrs ! i]) s
       else Inl OutOfBounds)"

definition shuffle_ptrs :: "'p list \<Rightarrow> nat \<Rightarrow> 'a rng_state_scheme \<Rightarrow> err + 'p list \<times> 'a rng_state_scheme" where
  "shuffle_ptrs ptrs cnt s = shuffle_loop [0..<unat (of_nat cnt - 2 :: u32)] cnt ptrs s"

definition choose_block_len :: "nat \<Rightarrow> 'a rng_state_scheme \<Rightarrow> err + nat \<times> 'a rng_state_scheme" where
  "choose_block_len limit s =
     (let rlim = min (unat (queue_cycle s)) 3;
          rlim = (if \<not> run_over10m s then 1 else rlim)
      in bindE (UR rlim s) (\<lambda>(c, s).
         bindE (if c = 0 then Inr ((1, HAVOC_BLK_SMALL), s)
                else if c = 1 then Inr ((HAVOC_BLK_SMALL, HAVOC_BLK_MEDIUM), s)
                else bindE (UR 10 s) (\<lambda>(r, s).
                  if r \<noteq> 0 then Inr ((HAVOC_BLK_MEDIUM, HAVOC_BLK_LARGE), s)
                  else Inr ((HAVOC_BLK_LARGE, HAVOC_BLK_XL), s)))
         (\<lambda>((min_value, max_value), s).
           let min_value = (if min_value \<ge> limit then 1 else min_value)
           in bindE (UR (min max_value limit + 1 - min_value) s) (\<lambda>(r, s).
                Inr (min_value + r, s)))))"

section \<open>What a random choice may change\<close>

text \<open>Drawing numbers changes the generator's own fields only.\<close>

definition rng_erase :: "'a rng_state_scheme \<Rightarrow> 'a rng_state_scheme" where
  "rng_erase s = s\<lparr>random_pos := 0, urandom_pos := 0, rand_cnt := 0\<rparr>"

definition rng_only :: "'a rng_state_scheme \<Rightarrow> 'a rng_state_scheme \<Rightarrow> bool" where
  "rng_only s s' \<longleftrightarrow> rng_erase s' = rng_erase s"

lemma rng_only_refl [intro, simp]: "rng_only s s"
  by (simp add: rng_only_def)

lemma rng_only_trans [trans]: "rng_only s t \<Longrightarrow> rng_only t u \<Longrightarrow> rng_only s u"
  by (simp add: rng_only_def)

lemma rng_only_fields:
  assumes "rng_only s s'"
  shows "queue_cycle s' = queue_cycle s" "run_over10m s' = run_over10m s"
    "trace_bits s' = trace_bits s" "virgin_bits s' = virgin_bits s" "rng_state.more s' = rng_state.more s"
  using arg_cong[OF assms[unfolded rng_only_def], of queue_cycle]
    arg_cong[OF assms[unfolded rng_only_def], of run_over10m]
    arg_cong[OF assms[unfolded rng_only_def], of trace_bits]
    arg_cong[OF assms[unfolded rng_only_def], of virgin_bits]
    arg_cong[OF assms[unfolded rng_only_def], of rng_state.more]
  by (simp_all add: rng_erase_def)

lemma UR_ok: "0 < limit \<Longrightarrow> \<exists>r s'. UR limit s = Inr (r, s') \<and> r < limit \<and> rng_only s s'"
  by (simp add: UR_def Let_def rng_only_def rng_erase_def)

lemma UR_Inr: "UR limit s = Inr (r, s') \<Longrightarrow> 0 < limit \<and> r < limit \<and> rng_only s s'"
  using UR_ok[of limit s] by (cases "limit = 0") (auto simp: UR_def)

lemma UR_bind:
  assumes "0 < limit" "\<And>r s'. r < limit \<Longrightarrow> rng_only s s' \<Longrightarrow> P (f (r, s'))"
  shows "P (bindE (UR limit s) f)"
  using UR_ok[OF assms(1), of s] assms(2) by auto

text \<open>
  A block length lies between 1 and the limit and is at most \<^const>\<open>HAVOC_BLK_XL\<close>, provided the
  limit is positive and the first queue cycle has begun.
\<close>

lemma choose_block_len_ok:
  assumes "0 < limit" "run_over10m s \<longrightarrow> queue_cycle s \<noteq> 0"
  shows "\<exists>r s'. choose_block_len limit s = Inr (r, s') \<and> 1 \<le> r \<and> r \<le> limit \<and> r \<le> HAVOC_BLK_XL \<and> rng_only s s'"
proof -
  let ?rlim = "if \<not> run_over10m s then 1 else min (unat (queue_cycle s)) 3"
  have "0 < ?rlim" using assms(2) by (auto simp: unat_gt_0)
  then obtain c s1 where c: "UR ?rlim s = Inr (c, s1)" "rng_only s s1" using UR_ok by blast
  obtain lo hi s2 where b: "(if c = 0 then Inr ((1, HAVOC_BLK_SMALL), s1)
                else if c = 1 then Inr ((HAVOC_BLK_SMALL, HAVOC_BLK_MEDIUM), s1)
                else bindE (UR 10 s1) (\<lambda>(r, s).
                  if r \<noteq> 0 then Inr ((HAVOC_BLK_MEDIUM, HAVOC_BLK_LARGE), s)
                  else Inr ((HAVOC_BLK_LARGE, HAVOC_BLK_XL), s))) = Inr ((lo, hi), s2)"
      and s2: "rng_only s1 s2" and lohi: "1 \<le> lo" "lo \<le> hi" "hi \<le> HAVOC_BLK_XL"
  proof -
    obtain r t where "UR 10 s1 = Inr (r, t)" "rng_only s1 t" using UR_ok[of 10 s1] by auto
    then show thesis using that
      by (cases "c = 0"; cases "c = 1"; cases "r = 0") (auto simp: cfg_simps)
  qed
  let ?lo = "if lo \<ge> limit then 1 else lo"
  have "0 < min hi limit + 1 - ?lo" using assms(1) lohi by auto
  then obtain r s3 where r: "UR (min hi limit + 1 - ?lo) s2 = Inr (r, s3)" "r < min hi limit + 1 - ?lo" "rng_only s2 s3"
    using UR_ok by blast
  have "choose_block_len limit s = Inr (?lo + r, s3)"
    unfolding choose_block_len_def Let_def c(1) bindE_simps prod.case b r(1) ..
  moreover have "1 \<le> ?lo + r \<and> ?lo + r \<le> limit \<and> ?lo + r \<le> HAVOC_BLK_XL" using r(2) lohi assms(1) by auto
  moreover have "rng_only s s3" using c(2) s2 r(3) by (metis rng_only_trans)
  ultimately show ?thesis by blast
qed

text \<open>Swapping two elements of a list keeps its multiset.\<close>

lemma shuffle_loop_ok:
  assumes "\<forall>i\<in>set is. i < cnt" "length ptrs = cnt"
  shows "\<exists>ptrs' s'. shuffle_loop is cnt ptrs s = Inr (ptrs', s') \<and> mset ptrs' = mset ptrs \<and> rng_only s s'"
  using assms
proof (induction "is" arbitrary: ptrs s)
  case Nil
  then show ?case by simp
next
  case (Cons i js)
  then have i: "i < cnt" by simp
  obtain r s1 where r: "UR (cnt - i) s = Inr (r, s1)" "r < cnt - i" "rng_only s s1" using UR_ok[of "cnt - i" s] i by auto
  let ?p = "ptrs[i := ptrs ! (i + r), i + r := ptrs ! i]"
  have p: "mset ?p = mset ptrs" using mset_swap[of "i + r" ptrs i] i r(2) Cons.prems(2) by (simp add: less_diff_conv2)
  obtain ptrs' s' where "shuffle_loop js cnt ?p s1 = Inr (ptrs', s')" "mset ptrs' = mset ?p" "rng_only s1 s'"
    using Cons.IH[of ?p s1] Cons.prems by auto
  moreover have "i + r < length ptrs" using r(2) Cons.prems(2) by simp
  ultimately show ?case using r p i Cons.prems(2) rng_only_trans[OF r(3)] by (simp add: Let_def)
qed

definition example_rng :: rng_state where
  "example_rng = \<lparr>trace_bits = [], virgin_bits = [], virgin_tmout = [], virgin_crash = [], var_bytes = [], bitmap_changed = False,
     random_src = (\<lambda>i. 7 * i + 3), random_pos = 0, urandom_src = (\<lambda>i. 0), urandom_pos = 0, rand_cnt = 0, queue_cycle = 2,
     run_over10m = True\<rparr>"

text \<open>
  \<open>shuffle_ptrs\<close> on at least two pointers stays inside the array and permutes it, whatever the
  random numbers are. (With fewer pointers its unsigned bound \<open>cnt - 2\<close> wraps around.)
\<close>

lemma shuffle_ptrs_permutes:
  assumes "2 \<le> length ptrs" "length ptrs < 2 ^ 32"
  shows "\<exists>ptrs' s'. shuffle_ptrs ptrs (length ptrs) s = Inr (ptrs', s') \<and> mset ptrs' = mset ptrs \<and> rng_only s s'"
proof -
  obtain k where k: "length ptrs = k + 2" using assms(1) by (metis le_add_diff_inverse2)
  have "of_nat (length ptrs) - 2 = (of_nat k :: u32)" by (simp add: k)
  moreover have "unat (of_nat k :: u32) = k" using assms(2) k by (simp add: unat_of_nat take_bit_nat_eq_self)
  ultimately have "unat (of_nat (length ptrs) - 2 :: u32) = k" by simp
  then show ?thesis using shuffle_loop_ok[of "[0..<k]" "length ptrs" ptrs s] k by (simp add: shuffle_ptrs_def)
qed

lemma shuffle_ptrs_permutes_witness:
  "\<exists>ptrs' s'. shuffle_ptrs [10, 20, 30, 40 :: nat] 4 example_rng = Inr (ptrs', s') \<and> mset ptrs' = {#10, 20, 30, 40#}"
proof -
  have l: "length [10, 20, 30, 40 :: nat] = 4" by simp
  show ?thesis using shuffle_ptrs_permutes[of "[10, 20, 30, 40 :: nat]" example_rng] unfolding l by auto
qed

text \<open>
  \<open>choose_block_len\<close> never divides by zero and returns a length between 1 and the given limit,
  at most \<open>HAVOC_BLK_XL\<close>, once the limit is positive and the first queue cycle has begun; it
  changes nothing but the state of the generator.
\<close>

lemma choose_block_len_bounds:
  assumes "0 < limit" "run_over10m s \<longrightarrow> queue_cycle s \<noteq> 0"
  shows "\<exists>r s'. choose_block_len limit s = Inr (r, s') \<and> 1 \<le> r \<and> r \<le> limit \<and> r \<le> HAVOC_BLK_XL \<and> rng_only s s'"
  by (rule choose_block_len_ok[OF assms])

lemma choose_block_len_bounds_witness:
  "\<exists>r s'. choose_block_len 10 example_rng = Inr (r, s') \<and> 1 \<le> r \<and> r \<le> 10"
  using choose_block_len_bounds[of 10 example_rng] by (auto simp: example_rng_def)

end
