(* ===== verification/Afl_Queue.thy ===== *)
theory Afl_Queue
  imports Afl_Random
begin

unbundle bit_operations_syntax

text \<open>
  The queue of test cases of \<open>afl-fuzz.c\<close>. Queue entries live in a store (a list that only
  grows); a pointer to an entry is its index. The \<open>next\<close> and \<open>next_100\<close> pointers
  are kept as the code keeps them, and \<open>top_rated\<close> holds pointers to entries that are
  shared with the queue. The part of the file system the code touches is a map from path
  names to files and symbolic links.
\<close>

section \<open>State\<close>

record queue_entry =
  fname :: string
  q_len :: u32
  cal_failed :: u8
  trim_done :: bool
  was_fuzzed :: bool
  passed_det :: bool
  has_new_cov :: bool
  var_behavior :: bool
  favored :: bool
  fs_redundant :: bool
  bitmap_size :: u32
  exec_cksum :: u32
  exec_us :: u64
  handicap :: u64
  depth :: u64
  trace_mini :: "u8 list option"
  tc_ref :: u32
  q_next :: "nat option"
  q_next_100 :: "nat option"

datatype node = File "u8 list" | Link string

record q_state = rng_state +
  fs :: "string \<rightharpoonup> node"
  out_dir :: string
  time_src :: "nat \<Rightarrow> u64"     \<comment> \<open>successive readings of the clock, in microseconds\<close>
  time_pos :: nat
  qs :: "queue_entry list"
  queue :: "nat option"
  queue_cur :: "nat option"
  queue_top :: "nat option"
  q_prev100 :: "nat option"
  top_rated :: "nat option list"
  score_changed :: bool
  dumb_mode :: u8
  queued_paths :: u32
  queued_favored :: u32
  pending_not_fuzzed :: u32
  pending_favored :: u32
  cur_depth :: u32
  max_depth :: u32
  cycles_wo_finds :: u64
  last_path_time :: u64

section \<open>Time and files\<close>

definition get_cur_time :: "'a q_state_scheme \<Rightarrow> u64 \<times> 'a q_state_scheme" where
  "get_cur_time s = (time_src s (time_pos s) div 1000, s\<lparr>time_pos := time_pos s + 1\<rparr>)"

definition get_cur_time_us :: "'a q_state_scheme \<Rightarrow> u64 \<times> 'a q_state_scheme" where
  "get_cur_time_us s = (time_src s (time_pos s), s\<lparr>time_pos := time_pos s + 1\<rparr>)"

text \<open>\<open>strrchr(fname, '/') + 1\<close>: \<open>None\<close> when \<open>strrchr\<close> returns a null pointer.\<close>

definition base_name :: "string \<Rightarrow> string option" where
  "base_name p = (if CHR ''/'' \<in> set p then Some (rev (takeWhile (\<lambda>c. c \<noteq> CHR ''/'') (rev p))) else None)"

text \<open>\<open>open(fn, O_WRONLY | O_CREAT | O_EXCL)\<close> followed by writing \<open>mem\<close> and \<open>close\<close>.\<close>

definition create_excl :: "string \<Rightarrow> u8 list \<Rightarrow> 'a q_state_scheme \<Rightarrow> err + 'a q_state_scheme" where
  "create_excl fn mem s =
     (if fs s fn \<noteq> None then Inl (PFATAL ''Unable to create'')
      else Inr (s\<lparr>fs := (fs s)(fn \<mapsto> File mem)\<rparr>))"

definition upd_q :: "nat \<Rightarrow> (queue_entry \<Rightarrow> queue_entry) \<Rightarrow> 'a q_state_scheme \<Rightarrow> 'a q_state_scheme" where
  "upd_q q f s = s\<lparr>qs := (qs s)[q := f (qs s ! q)]\<rparr>"

definition mark_as_det_done :: "nat \<Rightarrow> 'a q_state_scheme \<Rightarrow> err + 'a q_state_scheme" where
  "mark_as_det_done q s =
     (case base_name (fname (qs s ! q)) of
        None \<Rightarrow> Inl NullDeref
      | Some fn \<Rightarrow>
          bindE (create_excl (out_dir s @ ''/queue/.state/deterministic_done/'' @ fn) [] s) (\<lambda>s.
            Inr (upd_q q (\<lambda>e. e\<lparr>passed_det := True\<rparr>) s)))"

definition mark_as_variable :: "nat \<Rightarrow> 'a q_state_scheme \<Rightarrow> err + 'a q_state_scheme" where
  "mark_as_variable q s =
     (case base_name (fname (qs s ! q)) of
        None \<Rightarrow> Inl NullDeref
      | Some fn \<Rightarrow>
          let ldest = ''../../'' @ fn;
              fn = out_dir s @ ''/queue/.state/variable_behavior/'' @ fn
          in bindE (if fs s fn = None then Inr (s\<lparr>fs := (fs s)(fn \<mapsto> Link ldest)\<rparr>)
                    else create_excl fn [] s) (\<lambda>s.
               Inr (upd_q q (\<lambda>e. e\<lparr>var_behavior := True\<rparr>) s)))"

definition redundant_path :: "'a q_state_scheme \<Rightarrow> string \<Rightarrow> string" where
  "redundant_path s fn = out_dir s @ ''/queue/.state/redundant_edges/'' @ fn"

definition mark_as_redundant :: "nat \<Rightarrow> bool \<Rightarrow> 'a q_state_scheme \<Rightarrow> err + 'a q_state_scheme" where
  "mark_as_redundant q state s =
     (if state = fs_redundant (qs s ! q) then Inr s
      else
        let s = upd_q q (\<lambda>e. e\<lparr>fs_redundant := state\<rparr>) s in
        case base_name (fname (qs s ! q)) of
          None \<Rightarrow> Inl NullDeref
        | Some fn \<Rightarrow>
            let fn = redundant_path s fn in
            if state then create_excl fn [] s
            else if fs s fn = None then Inl (PFATAL ''Unable to remove'')
            else Inr (s\<lparr>fs := (fs s)(fn := None)\<rparr>))"

section \<open>Queue operations\<close>

definition new_entry :: "string \<Rightarrow> u32 \<Rightarrow> bool \<Rightarrow> u64 \<Rightarrow> queue_entry" where
  "new_entry fn l det dep =
     \<lparr>fname = fn, q_len = l, cal_failed = 0, trim_done = False, was_fuzzed = False, passed_det = det,
      has_new_cov = False, var_behavior = False, favored = False, fs_redundant = False,
      bitmap_size = 0, exec_cksum = 0, exec_us = 0, handicap = 0, depth = dep,
      trace_mini = None, tc_ref = 0, q_next = None, q_next_100 = None\<rparr>"

definition add_to_queue :: "string \<Rightarrow> u32 \<Rightarrow> bool \<Rightarrow> 'a q_state_scheme \<Rightarrow> 'a q_state_scheme" where
  "add_to_queue fn l det s =
     (let q = length (qs s);
          dep = ucast (cur_depth s + 1);
          s = s\<lparr>qs := qs s @ [new_entry fn l det dep]\<rparr>;
          s = (if dep > ucast (max_depth s) then s\<lparr>max_depth := ucast dep\<rparr> else s);
          s = (case queue_top s of
                 Some t \<Rightarrow> (upd_q t (\<lambda>e. e\<lparr>q_next := Some q\<rparr>) s)\<lparr>queue_top := Some q\<rparr>
               | None \<Rightarrow> s\<lparr>q_prev100 := Some q, queue := Some q, queue_top := Some q\<rparr>);
          s = s\<lparr>queued_paths := queued_paths s + 1, pending_not_fuzzed := pending_not_fuzzed s + 1,
                cycles_wo_finds := 0\<rparr>;
          s = (if queued_paths s mod 100 = 0 then
                 (case q_prev100 s of
                    Some p \<Rightarrow> (upd_q p (\<lambda>e. e\<lparr>q_next_100 := Some q\<rparr>) s)\<lparr>q_prev100 := Some q\<rparr>
                  | None \<Rightarrow> s)
               else s);
          (t, s) = get_cur_time s
      in s\<lparr>last_path_time := t\<rparr>)"

text \<open>
  \<open>destroy_queue\<close> walks the list and frees every entry with its name and trace; the model
  returns the entries in the order they are freed. The walk has fuel for every entry.
\<close>

fun destroy_queue_loop :: "nat \<Rightarrow> queue_entry list \<Rightarrow> nat option \<Rightarrow> err + nat list" where
  "destroy_queue_loop fuel es None = Inr []"
| "destroy_queue_loop 0 es (Some q) = Inl OutOfFuel"
| "destroy_queue_loop (Suc fuel) es (Some q) =
     bindE (destroy_queue_loop fuel es (q_next (es ! q))) (\<lambda>freed. Inr (q # freed))"

definition destroy_queue :: "'a q_state_scheme \<Rightarrow> err + nat list" where
  "destroy_queue s = destroy_queue_loop (length (qs s)) (qs s) (queue s)"

text \<open>
  Seeking an entry as the splicing stage of \<open>fuzz_one\<close> does: \<open>next_100\<close> while at least 100
  remain, then \<open>next\<close>.
\<close>

fun seek_next :: "nat \<Rightarrow> queue_entry list \<Rightarrow> nat option \<Rightarrow> err + nat option" where
  "seek_next 0 es p = Inr p"
| "seek_next (Suc n) es None = Inl NullDeref"
| "seek_next (Suc n) es (Some p) = seek_next n es (q_next (es ! p))"

function seek_entry :: "nat \<Rightarrow> queue_entry list \<Rightarrow> nat option \<Rightarrow> err + nat option" where
  "seek_entry tid es p =
     (if tid \<ge> 100 then
        (case p of None \<Rightarrow> Inl NullDeref | Some q \<Rightarrow> seek_entry (tid - 100) es (q_next_100 (es ! q)))
      else seek_next tid es p)"
  by pat_completeness auto
termination by (relation "measure (\<lambda>(tid, es, p). tid)") auto

declare seek_entry.simps [simp del]

section \<open>Favourites\<close>

definition fav_factor :: "queue_entry \<Rightarrow> u64" where
  "fav_factor e = exec_us e * ucast (q_len e)"

definition drop_ref :: "nat \<Rightarrow> 'a q_state_scheme \<Rightarrow> 'a q_state_scheme" where
  "drop_ref t s =
     upd_q t (\<lambda>e. e\<lparr>tc_ref := tc_ref e - 1,
                    trace_mini := (if tc_ref e - 1 = 0 then None else trace_mini e)\<rparr>) s"

definition take_slot :: "nat \<Rightarrow> u8 list \<Rightarrow> nat \<Rightarrow> 'a q_state_scheme \<Rightarrow> 'a q_state_scheme" where
  "take_slot q trace i s =
     (let s = s\<lparr>top_rated := (top_rated s)[i := Some q]\<rparr>;
          s = upd_q q (\<lambda>e. e\<lparr>tc_ref := tc_ref e + 1\<rparr>) s;
          s = upd_q q (\<lambda>e. case trace_mini e of
                 None \<Rightarrow> e\<lparr>trace_mini := Some (minimize_bits (replicate (length trace div 8) 0) trace)\<rparr>
               | Some _ \<Rightarrow> e) s
      in s\<lparr>score_changed := True\<rparr>)"

definition update_score_at :: "u64 \<Rightarrow> nat \<Rightarrow> u8 list \<Rightarrow> nat \<Rightarrow> 'a q_state_scheme \<Rightarrow> 'a q_state_scheme" where
  "update_score_at fav q trace i s =
     (if trace ! i \<noteq> 0 then
        (case top_rated s ! i of
           Some t \<Rightarrow> if fav > fav_factor (qs s ! t) then s else take_slot q trace i (drop_ref t s)
         | None \<Rightarrow> take_slot q trace i s)
      else s)"

definition update_bitmap_score :: "nat \<Rightarrow> 'a q_state_scheme \<Rightarrow> 'a q_state_scheme" where
  "update_bitmap_score q s =
     fold (update_score_at (fav_factor (qs s ! q)) q (trace_bits s)) [0..<length (trace_bits s)] s"

fun clear_favored :: "nat \<Rightarrow> nat option \<Rightarrow> queue_entry list \<Rightarrow> err + queue_entry list" where
  "clear_favored fuel None es = Inr es"
| "clear_favored 0 (Some q) es = Inl OutOfFuel"
| "clear_favored (Suc fuel) (Some q) es =
     (let es = es[q := (es ! q)\<lparr>favored := False\<rparr>] in clear_favored fuel (q_next (es ! q)) es)"

fun pick_winners :: "nat list \<Rightarrow> u8 list \<Rightarrow> 'a q_state_scheme \<Rightarrow> err + 'a q_state_scheme" where
  "pick_winners [] temp_v s = Inr s"
| "pick_winners (i # is) temp_v s =
     (case top_rated s ! i of
        Some t \<Rightarrow>
          if bit (temp_v ! (i div 8)) (i mod 8) then
            (case trace_mini (qs s ! t) of
               None \<Rightarrow> Inl NullDeref
             | Some tm \<Rightarrow>
                 let temp_v = map2 (\<lambda>v m. if m \<noteq> 0 then v AND NOT m else v) temp_v tm;
                     s = upd_q t (\<lambda>e. e\<lparr>favored := True\<rparr>) s;
                     s = s\<lparr>queued_favored := queued_favored s + 1\<rparr>;
                     s = (if \<not> was_fuzzed (qs s ! t) then s\<lparr>pending_favored := pending_favored s + 1\<rparr> else s)
                 in pick_winners is temp_v s)
          else pick_winners is temp_v s
      | None \<Rightarrow> pick_winners is temp_v s)"

fun mark_redundant_loop :: "nat \<Rightarrow> nat option \<Rightarrow> 'a q_state_scheme \<Rightarrow> err + 'a q_state_scheme" where
  "mark_redundant_loop fuel None s = Inr s"
| "mark_redundant_loop 0 (Some q) s = Inl OutOfFuel"
| "mark_redundant_loop (Suc fuel) (Some q) s =
     bindE (mark_as_redundant q (\<not> favored (qs s ! q)) s) (\<lambda>s.
       mark_redundant_loop fuel (q_next (qs s ! q)) s)"

definition cull_queue :: "'a q_state_scheme \<Rightarrow> err + 'a q_state_scheme" where
  "cull_queue s =
     (if dumb_mode s \<noteq> 0 \<or> \<not> score_changed s then Inr s
      else
        let s = s\<lparr>score_changed := False\<rparr>;
            temp_v = replicate (length (top_rated s) div 8) 255;
            s = s\<lparr>queued_favored := 0, pending_favored := 0\<rparr>
        in bindE (clear_favored (length (qs s)) (queue s) (qs s)) (\<lambda>es.
           bindE (pick_winners [0..<length (top_rated s)] temp_v (s\<lparr>qs := es\<rparr>)) (\<lambda>s.
             mark_redundant_loop (length (qs s)) (queue s) s)))"

lemma ucast_up:
  fixes w :: "'a::len word"
  assumes "LENGTH('a) \<le> LENGTH('b::len)"
  shows "unat (ucast w :: 'b word) = unat w" "ucast (ucast w :: 'b word) = w"
proof -
  have "unat w < 2 ^ LENGTH('b)" using assms unsigned_less[of w] by (meson less_le_trans one_le_numeral power_increasing)
  then show u: "unat (ucast w :: 'b word) = unat w" by (simp add: unsigned_ucast_eq take_bit_nat_eq_self)
  show "ucast (ucast w :: 'b word) = w"
    by (rule bit_word_eqI) (use assms in \<open>auto simp: bit_simps\<close>)
qed

section \<open>The linked queue\<close>

definition next_of :: "nat \<Rightarrow> nat \<Rightarrow> nat option" where
  "next_of n i = (if Suc i < n then Some (Suc i) else None)"

text \<open>The 100-step pointers: from entry 0 to entry 99, then from 99 to 199 and so on.\<close>

definition next_100_of :: "nat \<Rightarrow> nat \<Rightarrow> nat option" where
  "next_100_of n i =
     (if i = 0 then (if 100 \<le> n then Some 99 else None)
      else if i mod 100 = 99 \<and> i + 100 < n then Some (i + 100) else None)"

definition prev100_of :: "nat \<Rightarrow> nat option" where
  "prev100_of n = (if n = 0 then None else if n < 100 then Some 0 else Some (n div 100 * 100 - 1))"

definition queue_inv :: "'a q_state_scheme \<Rightarrow> bool" where
  "queue_inv s \<longleftrightarrow>
     (let n = length (qs s) in
      (\<forall>i<n. q_next (qs s ! i) = next_of n i \<and> q_next_100 (qs s ! i) = next_100_of n i) \<and>
      queue s = (if n = 0 then None else Some 0) \<and>
      queue_top s = (if n = 0 then None else Some (n - 1)) \<and>
      q_prev100 s = prev100_of n \<and>
      queued_paths s = of_nat n)"

lemma qs_upd_q [simp]: "qs (upd_q q f s) = (qs s)[q := f (qs s ! q)]"
  by (simp add: upd_q_def)

lemma upd_q_fields [simp]:
  "queue (upd_q q f s) = queue s" "queue_top (upd_q q f s) = queue_top s" "q_prev100 (upd_q q f s) = q_prev100 s"
  "queued_paths (upd_q q f s) = queued_paths s" "pending_not_fuzzed (upd_q q f s) = pending_not_fuzzed s"
  "top_rated (upd_q q f s) = top_rated s" "trace_bits (upd_q q f s) = trace_bits s"
  "fs (upd_q q f s) = fs s" "out_dir (upd_q q f s) = out_dir s" "score_changed (upd_q q f s) = score_changed s"
  "queued_favored (upd_q q f s) = queued_favored s" "pending_favored (upd_q q f s) = pending_favored s"
  "max_depth (upd_q q f s) = max_depth s" "cur_depth (upd_q q f s) = cur_depth s"
  "cycles_wo_finds (upd_q q f s) = cycles_wo_finds s"
  by (simp_all add: upd_q_def)

text \<open>What \<open>add_to_queue\<close> does to the store and to the pointers, with the clock and counters set aside.\<close>

lemma add_to_queue_fields:
  fixes fn l det and s :: "'a q_state_scheme"
  assumes "queue_inv s" "Suc (length (qs s)) < 2 ^ 32"
  defines "n \<equiv> length (qs s)"
  defines "es \<equiv> qs s @ [new_entry fn l det (ucast (cur_depth s + 1))]"
  defines "es1 \<equiv> (if n = 0 then es else es[n - 1 := (es ! (n - 1))\<lparr>q_next := Some n\<rparr>])"
  shows "qs (add_to_queue fn l det s) =
           (if Suc n mod 100 = 0 then (let p = the (prev100_of n) in es1[p := (es1 ! p)\<lparr>q_next_100 := Some n\<rparr>]) else es1)"
    and "queue (add_to_queue fn l det s) = Some 0" "queue_top (add_to_queue fn l det s) = Some n"
    and "q_prev100 (add_to_queue fn l det s) = prev100_of (Suc n)"
    and "queued_paths (add_to_queue fn l det s) = of_nat (Suc n)"
proof -
  have m: "((of_nat n + 1 :: u32) mod 100 = 0) = (Suc n mod 100 = 0)"
  proof -
    have "unat ((of_nat n + 1 :: u32) mod 100) = Suc n mod 100"
    proof -
      have "unat (of_nat (Suc n) :: u32) = Suc n"
        using assms(2) unfolding n_def[symmetric] by (simp only: unat_of_nat) (simp add: take_bit_nat_eq_self)
      moreover have "of_nat n + 1 = (of_nat (Suc n) :: u32)" by simp
      ultimately show ?thesis by (simp only: unat_mod) simp
    qed
    then show ?thesis by (metis unat_0 unsigned_eq_0_iff)
  qed
  note defs = add_to_queue_def Let_def get_cur_time_def upd_q_def split_beta
  have q: "queued_paths s = of_nat n" "queue_top s = (if n = 0 then None else Some (n - 1))"
    "queue s = (if n = 0 then None else Some 0)" "q_prev100 s = prev100_of n"
    using assms(1) by (auto simp: queue_inv_def Let_def n_def)
  show "queue (add_to_queue fn l det s) = Some 0" "queue_top (add_to_queue fn l det s) = Some n"
    "queued_paths (add_to_queue fn l det s) = of_nat (Suc n)"
    by (simp_all add: defs q n_def split: option.split)
  have p: "n \<noteq> 0 \<Longrightarrow> \<exists>p. prev100_of n = Some p" by (simp add: prev100_of_def)
  show "qs (add_to_queue fn l det s) =
           (if Suc n mod 100 = 0 then (let p = the (prev100_of n) in es1[p := (es1 ! p)\<lparr>q_next_100 := Some n\<rparr>]) else es1)"
    apply (cases "n = 0")
    subgoal by (simp add: defs q es1_def es_def n_def[symmetric])
    subgoal using p by (auto simp: defs q es1_def es_def n_def[symmetric] m)
    done
  have m2: "Suc n mod 100 = 0 \<Longrightarrow> prev100_of (Suc n) = Some n" by (auto simp: prev100_of_def dest: dvd_imp_le)
  have m3: "Suc n mod 100 \<noteq> 0 \<Longrightarrow> n \<noteq> 0 \<Longrightarrow> prev100_of (Suc n) = prev100_of n"
    by (auto simp: prev100_of_def div_Suc)
  show "q_prev100 (add_to_queue fn l det s) = prev100_of (Suc n)"
    apply (cases "n = 0")
    subgoal by (simp add: defs q prev100_of_def n_def[symmetric])
    subgoal using p m2 m3 by (auto simp: defs q n_def[symmetric] m)
    done
qed

lemma next_100_of_Suc:
  assumes "i < Suc n" "0 < n"
  shows "next_100_of (Suc n) i = (if Suc n mod 100 = 0 \<and> Some i = prev100_of n then Some n else if i = n then None else next_100_of n i)"
proof (cases "Suc n mod 100 = 0")
  case True
  then obtain k where k: "Suc n = 100 * Suc k"
    by (metis mod_0_imp_dvd dvd_def nat.simps(3) not0_implies_Suc mult_0_right)
  have p: "prev100_of n = Some (if k = 0 then 0 else 100 * k - 1)"
  proof -
    have "n div 100 = k" using k by (simp add: div_nat_eqI)
    then show ?thesis using k by (auto simp: prev100_of_def)
  qed
  show ?thesis
    using assms k unfolding p next_100_of_def
    apply (cases k)
     apply simp
    apply clarsimp
    done
next
  case False
  have "i + 100 \<noteq> n \<or> i mod 100 \<noteq> 99"
  proof (rule ccontr)
    assume "\<not> ?thesis"
    then have "n = i + 100" "i mod 100 = 99" by auto
    then have "Suc n mod 100 = 0" by presburger
    then show False using False by simp
  qed
  moreover have "n \<noteq> 99" using False by auto
  ultimately show ?thesis using assms False by (auto simp: next_100_of_def)
qed

definition unlink :: "queue_entry \<Rightarrow> queue_entry" where
  "unlink e = e\<lparr>q_next := None, q_next_100 := None\<rparr>"

lemma length_add_to_queue [simp]: "length (qs (add_to_queue fn l det s)) = Suc (length (qs s))"
  by (simp add: add_to_queue_def Let_def get_cur_time_def split: option.split)

lemma add_to_queue_entry:
  fixes fn l det and s :: "'a q_state_scheme"
  assumes "queue_inv s" "Suc (length (qs s)) < 2 ^ 32" "i \<le> length (qs s)"
  defines "n \<equiv> length (qs s)"
  defines "e \<equiv> (qs s @ [new_entry fn l det (ucast (cur_depth s + 1))]) ! i"
  shows "qs (add_to_queue fn l det s) ! i = e\<lparr>q_next := next_of (Suc n) i, q_next_100 := next_100_of (Suc n) i\<rparr>"
proof -
  note f = add_to_queue_fields(1)[OF assms(1,2), of fn l det]
  let ?es = "qs s @ [new_entry fn l det (ucast (cur_depth s + 1))]"
  define es1 where "es1 = (if n = 0 then ?es else ?es[n - 1 := (?es ! (n - 1))\<lparr>q_next := Some n\<rparr>])"
  have l1: "length es1 = Suc n" by (simp add: es1_def n_def)
  have F: "qs (add_to_queue fn l det s) =
      (if Suc n mod 100 = 0 then es1[the (prev100_of n) := (es1 ! the (prev100_of n))\<lparr>q_next_100 := Some n\<rparr>] else es1)"
    unfolding f es1_def n_def Let_def ..
  have links: "q_next e = next_of n i \<and> q_next_100 e = (if i = n then None else next_100_of n i)"
  proof (cases "i = n")
    case True
    then show ?thesis by (simp add: e_def n_def new_entry_def next_of_def)
  next
    case False
    then have "i < n" "e = qs s ! i" using assms(3) by (auto simp: e_def n_def nth_append)
    then show ?thesis using assms(1) False by (simp add: queue_inv_def Let_def n_def)
  qed
  have e1: "es1 ! i = e\<lparr>q_next := next_of (Suc n) i\<rparr>"
  proof (cases "Suc i = n")
    case True
    then have "n - 1 = i" "n \<noteq> 0" by auto
    then show ?thesis using True by (simp add: es1_def n_def e_def next_of_def)
  next
    case False
    then have "es1 ! i = e" by (simp add: es1_def e_def)
    then show ?thesis using links False assms(3) by (auto simp: next_of_def n_def[symmetric])
  qed
  show "qs (add_to_queue fn l det s) ! i = e\<lparr>q_next := next_of (Suc n) i, q_next_100 := next_100_of (Suc n) i\<rparr>"
  proof (cases "n = 0")
    case True
    then show ?thesis using e1 links assms(3) by (simp add: F n_def next_100_of_def)
  next
    case False
    have i: "i < Suc n" using assms(3) by (simp add: n_def)
    obtain p where p: "prev100_of n = Some p" using False by (cases "prev100_of n") (auto simp: prev100_of_def split: if_splits)
    show ?thesis
      using e1 links next_100_of_Suc[OF i] False l1 i p
      by (cases "p = i"; cases "Suc n mod 100 = 0") (simp_all add: F)
  qed
qed

lemma add_to_queue_queue_inv:
  assumes "queue_inv s" "Suc (length (qs s)) < 2 ^ 32"
  shows "queue_inv (add_to_queue fn l det s)"
proof -
  note A = add_to_queue_entry[OF assms, of _ fn l det]
  note B = add_to_queue_fields(2-5)[OF assms, of fn l det]
  show ?thesis unfolding queue_inv_def Let_def B length_add_to_queue by (simp add: A)
qed

lemma destroy_queue_loop_ok:
  assumes "\<And>j. j < length es \<Longrightarrow> q_next (es ! j) = next_of (length es) j" "i < length es" "length es - i \<le> fuel"
  shows "destroy_queue_loop fuel es (Some i) = Inr [i..<length es]"
  using assms(2,3)
proof (induction fuel arbitrary: i)
  case 0
  then show ?case by simp
next
  case (Suc fuel)
  show ?case
  proof (cases "Suc i < length es")
    case True
    then show ?thesis using Suc assms(1) by (simp add: next_of_def upt_conv_Cons)
  next
    case False
    then show ?thesis using Suc.prems assms(1) by (simp add: next_of_def upt_conv_Cons)
  qed
qed

lemma seek_next_ok:
  assumes "\<And>j. j < length es \<Longrightarrow> q_next (es ! j) = next_of (length es) j" "i + k < length es"
  shows "seek_next k es (Some i) = Inr (Some (i + k))"
  using assms(2)
proof (induction k arbitrary: i)
  case (Suc k)
  then show ?case using assms(1)[of i] Suc.IH[of "Suc i"] by (simp add: next_of_def)
qed simp

lemma seek_entry_from_99:
  assumes "\<And>j. j < length es \<Longrightarrow> q_next (es ! j) = next_of (length es) j \<and> q_next_100 (es ! j) = next_100_of (length es) j"
    and "p mod 100 = 99" "p + tid < length es"
  shows "seek_entry tid es (Some p) = Inr (Some (p + tid))"
  using assms(2,3)
proof (induction tid arbitrary: p rule: less_induct)
  case (less tid)
  show ?case
  proof (cases "tid \<ge> 100")
    case True
    then have "q_next_100 (es ! p) = Some (p + 100)" using less.prems assms(1)[of p] by (auto simp: next_100_of_def)
    moreover have "(p + 100) mod 100 = 99" using less.prems by simp
    ultimately show ?thesis
      using True less.IH[of "tid - 100" "p + 100"] less.prems by (subst seek_entry.simps) simp
  next
    case False
    then show ?thesis using assms(1) less.prems by (subst seek_entry.simps) (simp add: seek_next_ok)
  qed
qed

text \<open>
  C29. The queue stays well formed: \<open>add_to_queue\<close> appends one fresh entry with the given name,
  length and flags at depth \<open>cur_depth + 1\<close>, keeps every other entry apart from its links, and
  re-establishes the links, the two end pointers, the 100-step marker and the path counter.
\<close>

theorem add_to_queue_spec:
  fixes fn l det and s :: "'a q_state_scheme"
  assumes "queue_inv s" "Suc (length (qs s)) < 2 ^ 32"
  defines "s' \<equiv> add_to_queue fn l det s"
  shows "queue_inv s' \<and>
    map unlink (qs s') = map unlink (qs s) @ [new_entry fn l det (ucast (cur_depth s + 1))] \<and>
    pending_not_fuzzed s' = pending_not_fuzzed s + 1 \<and> cycles_wo_finds s' = 0 \<and>
    max_depth s' = max (max_depth s) (cur_depth s + 1) \<and>
    top_rated s' = top_rated s \<and> fs s' = fs s"
proof -
  note A = add_to_queue_entry[OF assms(1,2), of _ fn l det]
  have "map unlink (qs s') = map unlink (qs s) @ [new_entry fn l det (ucast (cur_depth s + 1))]"
  proof (rule nth_equalityI)
    show "length (map unlink (qs s')) = length (map unlink (qs s) @ [new_entry fn l det (ucast (cur_depth s + 1))])"
      by (simp add: s'_def)
  next
    fix i assume "i < length (map unlink (qs s'))"
    then have i: "i \<le> length (qs s)" by (simp add: s'_def)
    show "map unlink (qs s') ! i = (map unlink (qs s) @ [new_entry fn l det (ucast (cur_depth s + 1))]) ! i"
      using A[OF i] i by (auto simp: s'_def unlink_def nth_append new_entry_def)
  qed
  moreover have "pending_not_fuzzed s' = pending_not_fuzzed s + 1" "cycles_wo_finds s' = 0"
     "top_rated s' = top_rated s" "fs s' = fs s"
    by (simp_all add: s'_def add_to_queue_def Let_def get_cur_time_def split: option.split)
  moreover have "max_depth s' = max (max_depth s) (cur_depth s + 1)"
    by (auto simp: s'_def add_to_queue_def Let_def get_cur_time_def max_def word_le_nat_alt word_less_nat_alt ucast_up intro: word_unat_eq_iff[THEN iffD2] split: option.split)
  ultimately show ?thesis using add_to_queue_queue_inv[OF assms(1,2)] by (simp add: s'_def)
qed

text \<open>
  \<open>destroy_queue\<close> ends and frees every entry exactly once, in queue order.
\<close>

lemma destroy_queue_frees_all:
  assumes "queue_inv s"
  shows "destroy_queue s = Inr [0..<length (qs s)]"
proof (cases "qs s = []")
  case True
  then show ?thesis using assms by (simp add: destroy_queue_def queue_inv_def Let_def)
next
  case False
  then show ?thesis
    using assms destroy_queue_loop_ok[of "qs s" 0 "length (qs s)"] by (simp add: destroy_queue_def queue_inv_def Let_def)
qed

lemma seek_entry_ok:
  assumes "queue_inv s" "tid < length (qs s)"
  shows "seek_entry tid (qs s) (queue s) = Inr (Some (if tid < 100 then tid else tid - 1))"
proof -
  have l: "\<And>j. j < length (qs s) \<Longrightarrow> q_next (qs s ! j) = next_of (length (qs s)) j \<and> q_next_100 (qs s ! j) = next_100_of (length (qs s)) j"
    and q: "queue s = Some 0"
    using assms by (auto simp: queue_inv_def Let_def)
  show ?thesis
  proof (cases "tid < 100")
    case True
    then show ?thesis using l q assms(2) seek_next_ok[of "qs s" 0 tid] by (subst seek_entry.simps) simp
  next
    case False
    then have "q_next_100 (qs s ! 0) = Some 99" using l[of 0] assms(2) by (cases "qs s = []") (auto simp: next_100_of_def)
    then show ?thesis
      using False q l assms(2) seek_entry_from_99[of "qs s" 99 "tid - 100"] by (subst seek_entry.simps) simp
  qed
qed

text \<open>
  C40. Seeking entry \<open>tid\<close> as the splicing stage does ends at entry \<open>tid\<close> when \<open>tid\<close> is below 100,
  but one entry short, at \<open>tid - 1\<close>, for every larger \<open>tid\<close>: \<open>add_to_queue\<close> sets the first
  100-step pointer from entry 0 to entry 99.
\<close>

theorem seek_entry_spec:
  assumes "queue_inv s" "tid < length (qs s)"
  shows "seek_entry tid (qs s) (queue s) = Inr (Some (if tid < 100 then tid else tid - 1))"
  using assms by (rule seek_entry_ok)

section \<open>Scoring\<close>

text \<open>
  The invariant of the favourites: every slot of \<open>top_rated\<close> points to an entry whose kept trace
  has the slot's bit, an entry keeps its trace exactly while some slot points to it, and
  \<open>tc_ref\<close> counts those slots.
\<close>

definition mini_bit :: "u8 list \<Rightarrow> nat \<Rightarrow> bool" where
  "mini_bit tm i \<longleftrightarrow> bit (tm ! (i div 8)) (i mod 8)"

definition covers :: "queue_entry \<Rightarrow> nat \<Rightarrow> nat \<Rightarrow> bool" where
  "covers e m i \<longleftrightarrow> (case trace_mini e of None \<Rightarrow> False | Some tm \<Rightarrow> length tm = m div 8 \<and> mini_bit tm i)"

definition slots :: "nat option list \<Rightarrow> nat \<Rightarrow> nat set" where
  "slots tr t = {i. i < length tr \<and> tr ! i = Some t}"

definition score_ok :: "queue_entry list \<Rightarrow> nat option list \<Rightarrow> bool" where
  "score_ok es tr \<longleftrightarrow>
     (\<forall>i<length tr. \<forall>t. tr ! i = Some t \<longrightarrow> t < length es \<and> covers (es ! t) (length tr) i) \<and>
     (\<forall>t<length es. unat (tc_ref (es ! t)) = card (slots tr t) \<and> (trace_mini (es ! t) = None \<longleftrightarrow> slots tr t = {}))"

definition score_inv :: "'a q_state_scheme \<Rightarrow> bool" where
  "score_inv s \<longleftrightarrow>
     length (trace_bits s) = length (top_rated s) \<and> 8 dvd length (top_rated s) \<and> length (top_rated s) < 2 ^ 32 \<and>
     score_ok (qs s) (top_rated s)"

lemma score_okD:
  assumes "score_ok es tr"
  shows "i < length tr \<Longrightarrow> tr ! i = Some t \<Longrightarrow> t < length es"
    and "i < length tr \<Longrightarrow> tr ! i = Some t \<Longrightarrow> covers (es ! t) (length tr) i"
    and "t < length es \<Longrightarrow> unat (tc_ref (es ! t)) = card (slots tr t)"
    and "t < length es \<Longrightarrow> trace_mini (es ! t) = None \<longleftrightarrow> slots tr t = {}"
  using assms by (auto simp: score_ok_def)

lemma finite_slots [simp]: "finite (slots tr t)"
  by (simp add: slots_def)

lemma slots_update:
  assumes "i < length tr"
  shows "slots (tr[i := v]) t = (if v = Some t then insert i (slots tr t) else slots tr t - {i})"
  using assms by (auto simp: slots_def nth_list_update)

lemma card_slots_le: "card (slots tr t) \<le> length tr"
  using card_mono[of "{..<length tr}" "slots tr t"] by (auto simp: slots_def)

lemma unat_dec: "unat w = Suc k \<Longrightarrow> unat (w - 1) = k"
  using unat_minus_one[of w] by (cases "w = 0") auto

lemma unat_inc: "Suc (unat (w :: 'a::len word)) < 2 ^ LENGTH('a) \<Longrightarrow> unat (w + 1) = Suc (unat w)"
  by (simp add: unat_word_ariths)

text \<open>Releasing a slot and taking a free one, on the entries and the slots alone.\<close>

definition released :: "queue_entry \<Rightarrow> queue_entry" where
  "released e = e\<lparr>tc_ref := tc_ref e - 1, trace_mini := (if tc_ref e - 1 = 0 then None else trace_mini e)\<rparr>"

definition taken :: "u8 list \<Rightarrow> queue_entry \<Rightarrow> queue_entry" where
  "taken tm e = e\<lparr>tc_ref := tc_ref e + 1, trace_mini := Some (case trace_mini e of Some tm' \<Rightarrow> tm' | None \<Rightarrow> tm)\<rparr>"

lemma release_ok:
  assumes "score_ok es tr" "i < length tr" "tr ! i = Some t"
  shows "score_ok (es[t := released (es ! t)]) (tr[i := None])"
proof -
  note D = score_okD[OF assms(1)]
  have t: "t < length es" using D(1) assms(2,3) by blast
  have "i \<in> slots tr t" using assms(2,3) by (simp add: slots_def)
  then obtain k where k: "card (slots tr t) = Suc k" by (metis card_gt_0_iff empty_iff finite_slots gr0_conv_Suc)
  have tc: "unat (tc_ref (es ! t) - 1) = k" using unat_dec D(3)[OF t] k by simp
  have ck: "card (slots tr t - {i}) = k" using k \<open>i \<in> slots tr t\<close> by simp
  have z: "tc_ref (es ! t) - 1 = 0 \<longleftrightarrow> slots tr t - {i} = {}"
    using tc ck by (metis card_0_eq finite_Diff finite_slots unat_0 unsigned_eq_0_iff)
  have ne: "slots tr t \<noteq> {}" using \<open>i \<in> slots tr t\<close> by auto
  have "covers ((es[t := released (es ! t)]) ! u) (length tr) j \<and> u < length es"
    if "j < length tr" "(tr[i := None]) ! j = Some u" for j u
  proof -
    from that have j: "j \<noteq> i" "tr ! j = Some u" using assms(2) by (auto simp: nth_list_update split: if_splits)
    have "u = t \<Longrightarrow> j \<in> slots tr t - {i}" using j that(1) by (simp add: slots_def)
    then show ?thesis using D(1,2)[OF that(1) j(2)] z t by (auto simp: nth_list_update covers_def released_def)
  qed
  moreover have "unat (tc_ref (es[t := released (es ! t)] ! u)) = card (slots (tr[i := None]) u) \<and>
       (trace_mini (es[t := released (es ! t)] ! u) = None \<longleftrightarrow> slots (tr[i := None]) u = {})" if "u < length es" for u
  proof (cases "u = t")
    case True
    then show ?thesis using t tc ck z ne D(4)[OF t] by (simp add: slots_update[OF assms(2)] released_def)
  next
    case False
    then have "slots tr u - {i} = slots tr u" using assms(3) by (auto simp: slots_def)
    then show ?thesis using False D(3,4)[OF that] by (simp add: slots_update[OF assms(2)])
  qed
  ultimately show ?thesis unfolding score_ok_def by auto
qed

lemma take_ok:
  assumes "score_ok es tr" "i < length tr" "tr ! i = None" "q < length es" "length tr < 2 ^ 32"
    and "length tm = length tr div 8" "mini_bit tm i"
    and fit: "\<And>tm'. trace_mini (es ! q) = Some tm' \<Longrightarrow> tm' = tm"
  shows "score_ok (es[q := taken tm (es ! q)]) (tr[i := Some q])"
proof -
  note D = score_okD[OF assms(1)]
  have ni: "i \<notin> slots tr u" for u using assms(3) by (simp add: slots_def)
  have "card (slots (tr[i := Some q]) q) \<le> length tr" using card_slots_le[of "tr[i := Some q]" q] by simp
  then have c: "Suc (card (slots tr q)) \<le> length tr" using ni by (simp add: slots_update[OF assms(2)])
  have tc: "unat (tc_ref (es ! q) + 1) = Suc (card (slots tr q))"
    using unat_inc[of "tc_ref (es ! q)"] D(3)[OF assms(4)] c assms(5) by simp
  have tm: "trace_mini (taken tm (es ! q)) = Some tm" using fit by (auto simp: taken_def split: option.split)
  have "covers ((es[q := taken tm (es ! q)]) ! u) (length tr) j \<and> u < length es"
    if "j < length tr" "(tr[i := Some q]) ! j = Some u" for j u
  proof (cases "j = i")
    case True
    then show ?thesis using that assms(2,4,6,7) tm by (simp add: covers_def)
  next
    case False
    then have "tr ! j = Some u" using that by simp
    then show ?thesis using D(1,2)[OF that(1)] fit tm by (cases "u = q") (auto simp: covers_def nth_list_update split: option.splits)
  qed
  moreover have "unat (tc_ref (es[q := taken tm (es ! q)] ! u)) = card (slots (tr[i := Some q]) u) \<and>
       (trace_mini (es[q := taken tm (es ! q)] ! u) = None \<longleftrightarrow> slots (tr[i := Some q]) u = {})" if "u < length es" for u
  proof (cases "u = q")
    case True
    have "tc_ref (taken tm (es ! q)) = tc_ref (es ! q) + 1" by (simp add: taken_def)
    then show ?thesis using True that tc tm ni by (simp add: slots_update[OF assms(2)])
  next
    case False
    then show ?thesis using D(3,4)[OF that] ni by (simp add: slots_update[OF assms(2)])
  qed
  ultimately show ?thesis unfolding score_ok_def by auto
qed

definition mini_of :: "u8 list \<Rightarrow> u8 list" where
  "mini_of trace = minimize_bits (replicate (length trace div 8) 0) trace"

lemma mini_of_bit:
  assumes "8 dvd length trace" "i < length trace"
  shows "mini_bit (mini_of trace) i \<longleftrightarrow> trace ! i \<noteq> 0"
proof -
  have "i div 8 < length trace div 8" using assms by (metis less_mult_imp_div_less dvd_div_mult_self)
  then show ?thesis
    using minimize_bits_loop_bit[of 0 trace "replicate (length trace div 8) 0" i] assms
    by (simp add: mini_bit_def mini_of_def minimize_bits_def)
qed

text \<open>The slot a byte ends up with: the new entry takes it unless the owner is strictly better.\<close>

definition slot_winner :: "queue_entry list \<Rightarrow> nat \<Rightarrow> u8 list \<Rightarrow> nat option list \<Rightarrow> nat \<Rightarrow> nat option" where
  "slot_winner es q trace tr i =
     (if trace ! i = 0 then tr ! i
      else case tr ! i of
             None \<Rightarrow> Some q
           | Some t \<Rightarrow> if fav_factor (es ! q) > fav_factor (es ! t) then Some t else Some q)"

text \<open>What the scoring keeps of each entry.\<close>

definition unscored :: "queue_entry \<Rightarrow> queue_entry" where
  "unscored e = e\<lparr>tc_ref := 0, trace_mini := None\<rparr>"

lemma unscored_eqs [simp]:
  "unscored (released e) = unscored e" "unscored (taken tm e) = unscored e"
  by (simp_all add: unscored_def released_def taken_def)

lemma unscored_fav: "unscored e = unscored e' \<Longrightarrow> fav_factor e = fav_factor e'"
  unfolding fav_factor_def unscored_def
  by (drule arg_cong[of _ _ "\<lambda>e. (exec_us e, q_len e)"]) simp

lemma drop_ref_released: "drop_ref t s = upd_q t released s"
  by (simp add: drop_ref_def released_def[abs_def])

lemma take_slot_taken:
  assumes "q < length (qs s)"
  shows "take_slot q trace i s = s\<lparr>top_rated := (top_rated s)[i := Some q],
     qs := (qs s)[q := taken (mini_of trace) (qs s ! q)], score_changed := True\<rparr>"
proof (cases "trace_mini (qs s ! q)")
  case None
  then show ?thesis using assms by (simp add: take_slot_def upd_q_def taken_def mini_of_def)
next
  case (Some tm)
  have "taken (mini_of trace) (qs s ! q) = (qs s ! q)\<lparr>tc_ref := tc_ref (qs s ! q) + 1\<rparr>"
    using Some unfolding taken_def by (cases "qs s ! q") simp
  then show ?thesis using assms Some by (simp add: take_slot_def upd_q_def)
qed

lemma trace_mini_taken:
  "(\<And>tm'. trace_mini e = Some tm' \<Longrightarrow> tm' = tm) \<Longrightarrow> trace_mini (taken tm e) = Some tm"
  by (auto simp: taken_def split: option.split)

definition score_step_inv :: "nat \<Rightarrow> u8 list \<Rightarrow> queue_entry list \<Rightarrow> 'a q_state_scheme \<Rightarrow> bool" where
  "score_step_inv q trace es s \<longleftrightarrow>
     score_ok (qs s) (top_rated s) \<and> length (qs s) = length es \<and> map unscored (qs s) = map unscored es \<and>
     length (top_rated s) = length trace \<and>
     (\<forall>tm. trace_mini (qs s ! q) = Some tm \<longrightarrow> tm = mini_of trace)"

lemma map_unscored_nth:
  "map unscored xs = map unscored ys \<Longrightarrow> i < length ys \<Longrightarrow> unscored (xs ! i) = unscored (ys ! i)"
  by (metis length_map nth_map)

lemma map_unscored_update:
  "unscored e = unscored (xs ! q) \<Longrightarrow> map unscored (xs[q := e]) = map unscored xs"
  by (metis list_update_id map_update)

lemma update_score_at_step:
  assumes inv: "score_step_inv q trace es s" and q: "q < length es" and i: "i < length trace"
    and m: "8 dvd length trace" "length trace < 2 ^ 32"
  defines "s' \<equiv> update_score_at (fav_factor (es ! q)) q trace i s"
  shows "score_step_inv q trace es s' \<and> top_rated s' = (top_rated s)[i := slot_winner es q trace (top_rated s) i] \<and>
    s'\<lparr>qs := qs s, top_rated := top_rated s, score_changed := score_changed s\<rparr> = s"
proof -
  from inv have ok: "score_ok (qs s) (top_rated s)" and l: "length (qs s) = length es" "length (top_rated s) = length trace"
    and u: "map unscored (qs s) = map unscored es" and fit: "\<And>tm. trace_mini (qs s ! q) = Some tm \<Longrightarrow> tm = mini_of trace"
    by (auto simp: score_step_inv_def)
  have it: "i < length (top_rated s)" using i l by simp
  have lm: "length (mini_of trace) = length trace div 8" by (simp add: mini_of_def)
  note take = take_ok[where q = q and i = i and tm = "mini_of trace", unfolded lm mini_of_bit[OF m(1) i]]
  show ?thesis
  proof (cases "trace ! i = 0")
    case True
    then have "(top_rated s)[i := slot_winner es q trace (top_rated s) i] = top_rated s" by (simp add: slot_winner_def)
    then show ?thesis using True inv by (simp add: s'_def update_score_at_def)
  next
    case nz: False
    show ?thesis
    proof (cases "top_rated s ! i")
      case None
      have "score_ok ((qs s)[q := taken (mini_of trace) (qs s ! q)]) ((top_rated s)[i := Some q])"
        by (rule take[OF ok it None]) (use q l m nz fit in auto)
      then show ?thesis using None nz q l u fit
        by (simp add: s'_def update_score_at_def take_slot_taken score_step_inv_def slot_winner_def map_unscored_update
          trace_mini_taken)
    next
      case (Some t)
      have t: "t < length es" using score_okD(1)[OF ok it Some] l by simp
      have fav: "fav_factor (qs s ! t) = fav_factor (es ! t)" using unscored_fav map_unscored_nth[OF u t] by blast
      let ?es = "(qs s)[t := released (qs s ! t)]"
      show ?thesis
      proof (cases "fav_factor (es ! q) > fav_factor (es ! t)")
        case True
        then have "(top_rated s)[i := slot_winner es q trace (top_rated s) i] = top_rated s"
          using nz Some by (simp add: slot_winner_def list_update_same_conv[OF it])
        then show ?thesis using True inv Some nz by (simp add: s'_def update_score_at_def fav)
      next
        case False
        have fit': "\<And>tm. trace_mini (?es ! q) = Some tm \<Longrightarrow> tm = mini_of trace"
          using fit q t l by (auto simp: nth_list_update released_def split: if_splits)
        have "score_ok (?es[q := taken (mini_of trace) (?es ! q)]) ((top_rated s)[i := None, i := Some q])"
          by (rule take[OF release_ok[OF ok it Some]]) (use it q l m nz fit' in auto)
        then have ok': "score_ok (?es[q := taken (mini_of trace) (?es ! q)]) ((top_rated s)[i := Some q])" by simp
        have s': "s' = s\<lparr>qs := ?es[q := taken (mini_of trace) (?es ! q)], top_rated := (top_rated s)[i := Some q], score_changed := True\<rparr>"
          using Some nz False q l by (simp add: s'_def update_score_at_def fav drop_ref_released upd_q_def take_slot_taken)
        have "map unscored (?es[q := taken (mini_of trace) (?es ! q)]) = map unscored es"
          using u by (simp add: map_unscored_update)
        moreover have "trace_mini (?es[q := taken (mini_of trace) (?es ! q)] ! q) = Some (mini_of trace)"
          using q l trace_mini_taken[OF fit'] by simp
        moreover have "slot_winner es q trace (top_rated s) i = Some q" using Some nz False by (simp add: slot_winner_def)
        ultimately show ?thesis using ok' l by (simp add: s' score_step_inv_def)
      qed
    qed
  qed
qed

lemma update_score_fold:
  assumes "score_step_inv q trace es s" "q < length es" "8 dvd length trace" "length trace < 2 ^ 32"
    and "distinct is" "\<forall>i\<in>set is. i < length trace"
  defines "s' \<equiv> fold (update_score_at (fav_factor (es ! q)) q trace) is s"
  shows "score_step_inv q trace es s' \<and>
    (\<forall>i<length trace. top_rated s' ! i = (if i \<in> set is then slot_winner es q trace (top_rated s) i else top_rated s ! i)) \<and>
    s'\<lparr>qs := qs s, top_rated := top_rated s, score_changed := score_changed s\<rparr> = s"
  unfolding s'_def using assms(1,5,6)
proof (induction "is" arbitrary: s)
  case Nil
  then show ?case by simp
next
  case (Cons i js)
  define s1 where "s1 = update_score_at (fav_factor (es ! q)) q trace i s"
  have st: "score_step_inv q trace es s1" "top_rated s1 = (top_rated s)[i := slot_winner es q trace (top_rated s) i]"
    "s1\<lparr>qs := qs s, top_rated := top_rated s, score_changed := score_changed s\<rparr> = s"
    using update_score_at_step[OF Cons.prems(1) assms(2) _ assms(3,4), of i] Cons.prems(3) by (auto simp: s1_def)
  have l: "length (top_rated s) = length trace" using Cons.prems(1) by (simp add: score_step_inv_def)
  define s2 where "s2 = fold (update_score_at (fav_factor (es ! q)) q trace) js s1"
  have IH: "score_step_inv q trace es s2"
    "\<forall>j<length trace. top_rated s2 ! j = (if j \<in> set js then slot_winner es q trace (top_rated s1) j else top_rated s1 ! j)"
    "s2\<lparr>qs := qs s1, top_rated := top_rated s1, score_changed := score_changed s1\<rparr> = s1"
    using Cons.IH[OF st(1)] Cons.prems by (auto simp: s2_def)
  have "s2\<lparr>qs := qs s, top_rated := top_rated s, score_changed := score_changed s\<rparr> = s"
    using arg_cong[OF IH(3), of "\<lambda>x. x\<lparr>qs := qs s, top_rated := top_rated s, score_changed := score_changed s\<rparr>"] st(3) by simp
  moreover have "j \<in> set js \<Longrightarrow> slot_winner es q trace (top_rated s1) j = slot_winner es q trace (top_rated s) j" for j
  proof -
    assume "j \<in> set js"
    then have "j \<noteq> i" using Cons.prems(2) by auto
    then show ?thesis using st(2) by (simp add: slot_winner_def)
  qed
  ultimately show ?case using IH(1,2) st(2) l Cons.prems(2,3)
    by (auto simp: s1_def[symmetric] s2_def[symmetric] nth_list_update)
qed

lemma update_bitmap_score_run:
  fixes s :: "'a q_state_scheme"
  assumes "score_inv s" "q < length (qs s)"
    and "\<forall>tm. trace_mini (qs s ! q) = Some tm \<longrightarrow> tm = mini_of (trace_bits s)"
  defines "s' \<equiv> update_bitmap_score q s"
  shows "score_inv s' \<and>
    top_rated s' = map (slot_winner (qs s) q (trace_bits s) (top_rated s)) [0..<length (top_rated s)] \<and>
    map unscored (qs s') = map unscored (qs s) \<and>
    s'\<lparr>qs := qs s, top_rated := top_rated s, score_changed := score_changed s\<rparr> = s"
proof -
  have m: "length (top_rated s) = length (trace_bits s)" "8 dvd length (trace_bits s)" "length (trace_bits s) < 2 ^ 32"
    using assms(1) by (auto simp: score_inv_def)
  have "score_step_inv q (trace_bits s) (qs s) s" using assms m by (auto simp: score_inv_def score_step_inv_def)
  from update_score_fold[OF this assms(2) m(2,3), of "[0..<length (trace_bits s)]"]
  have F: "score_step_inv q (trace_bits s) (qs s) s'"
    "\<forall>i<length (trace_bits s). top_rated s' ! i = slot_winner (qs s) q (trace_bits s) (top_rated s) i"
    "s'\<lparr>qs := qs s, top_rated := top_rated s, score_changed := score_changed s\<rparr> = s"
    by (auto simp: s'_def update_bitmap_score_def)
  have "trace_bits s' = trace_bits s" using arg_cong[OF F(3), of trace_bits] by simp
  then show ?thesis using F m by (auto simp: score_step_inv_def score_inv_def intro!: nth_equalityI)
qed

text \<open>
  C19. \<open>update_bitmap_score\<close>: every traced byte without an owner, or whose owner is not strictly
  faster-and-smaller, goes to the new entry and no other slot changes; the reference counts, the
  kept traces and the slots stay consistent, nothing else of any entry changes. The entry's kept
  trace, if it has one already, must stem from the same trace.
\<close>

theorem update_bitmap_score_spec:
  fixes s :: "'a q_state_scheme"
  assumes "score_inv s" "q < length (qs s)"
    and "\<forall>tm. trace_mini (qs s ! q) = Some tm \<longrightarrow> tm = mini_of (trace_bits s)"
  defines "s' \<equiv> update_bitmap_score q s"
  shows "score_inv s' \<and>
    top_rated s' = map (slot_winner (qs s) q (trace_bits s) (top_rated s)) [0..<length (top_rated s)] \<and>
    map unscored (qs s') = map unscored (qs s) \<and>
    s'\<lparr>qs := qs s, top_rated := top_rated s, score_changed := score_changed s\<rparr> = s"
  unfolding s'_def by (rule update_bitmap_score_run[OF assms(1-3)])

section \<open>Culling\<close>

definition favs :: "queue_entry list \<Rightarrow> nat set" where
  "favs es = {t. t < length es \<and> favored (es ! t)}"

definition pending_favs :: "queue_entry list \<Rightarrow> nat set" where
  "pending_favs es = {t. t < length es \<and> favored (es ! t) \<and> \<not> was_fuzzed (es ! t)}"

definition unfav :: "queue_entry \<Rightarrow> queue_entry" where
  "unfav e = e\<lparr>favored := False\<rparr>"

lemma finite_favs [simp]: "finite (favs es)" "finite (pending_favs es)"
  by (simp_all add: favs_def pending_favs_def)

lemma unfav_fields:
  assumes "unfav e = unfav e'"
  shows "trace_mini e = trace_mini e'" "was_fuzzed e = was_fuzzed e'" "q_next e = q_next e'" "fname e = fname e'"
    "fs_redundant e = fs_redundant e'"
  using arg_cong[OF assms, of trace_mini] arg_cong[OF assms, of was_fuzzed] arg_cong[OF assms, of q_next]
    arg_cong[OF assms, of fname] arg_cong[OF assms, of fs_redundant]
  by (simp_all add: unfav_def)

lemma map_unfav_nth:
  "map unfav xs = map unfav ys \<Longrightarrow> i < length ys \<Longrightarrow> unfav (xs ! i) = unfav (ys ! i)"
  by (metis length_map nth_map)

lemma map_unfav_update: "map unfav (xs[q := (xs ! q)\<lparr>favored := b\<rparr>]) = map unfav xs"
proof -
  have "unfav ((xs ! q)\<lparr>favored := b\<rparr>) = unfav (xs ! q)" by (simp add: unfav_def)
  then show ?thesis by (metis list_update_id map_update)
qed

lemma clear_favored_ok:
  assumes "\<And>j. j < length es \<Longrightarrow> q_next (es ! j) = next_of (length es) j" "i < length es" "length es - i \<le> fuel"
  shows "clear_favored fuel (Some i) es = Inr (take i es @ map unfav (drop i es))"
  using assms
proof (induction fuel arbitrary: i es)
  case 0
  then show ?case by simp
next
  case (Suc fuel)
  let ?es = "es[i := unfav (es ! i)]"
  have n: "\<And>j. j < length ?es \<Longrightarrow> q_next (?es ! j) = next_of (length ?es) j"
  proof -
    fix j assume "j < length ?es"
    then show "q_next (?es ! j) = next_of (length ?es) j"
      using Suc.prems(1)[of j] by (cases "j = i") (simp_all add: unfav_def)
  qed
  have sp: "take (Suc i) ?es @ map unfav (drop (Suc i) ?es) = take i es @ map unfav (drop i es)"
    using Suc.prems(2) by (simp add: take_Suc_conv_app_nth Cons_nth_drop_Suc[symmetric])
  have step: "clear_favored (Suc fuel) (Some i) es = clear_favored fuel (next_of (length es) i) ?es"
    using n[of i] Suc.prems(2) by (simp add: unfav_def)
  show ?case
  proof (cases "Suc i < length es")
    case True
    then show ?thesis using step Suc.IH[OF n, of "Suc i"] Suc.prems(3) sp by (simp add: next_of_def)
  next
    case False
    then have "drop (Suc i) ?es = []" "take (Suc i) ?es = ?es" by auto
    then show ?thesis using step sp False by (simp add: next_of_def)
  qed
qed

text \<open>One winner: its bits leave the map of what is still to be covered.\<close>

definition strike :: "u8 list \<Rightarrow> u8 list \<Rightarrow> u8 list" where
  "strike v tm = map2 (\<lambda>v m. if m \<noteq> 0 then v AND NOT m else v) v tm"

lemma length_strike [simp]: "length tm = length v \<Longrightarrow> length (strike v tm) = length v"
  by (simp add: strike_def)

lemma mini_bit_strike:
  assumes "length tm = length v" "i div 8 < length v"
  shows "mini_bit (strike v tm) i \<longleftrightarrow> mini_bit v i \<and> \<not> mini_bit tm i"
proof -
  have "bit (tm ! (i div 8)) (i mod 8) \<Longrightarrow> tm ! (i div 8) \<noteq> 0" by auto
  moreover have "i mod 8 < 8" by simp
  ultimately show ?thesis using assms by (auto simp: mini_bit_def strike_def bit_simps)
qed

definition pick_pre :: "nat list \<Rightarrow> u8 list \<Rightarrow> 'a q_state_scheme \<Rightarrow> bool" where
  "pick_pre is v s \<longleftrightarrow>
     (\<forall>i\<in>set is. i div 8 < length v \<and> (\<forall>t. top_rated s ! i = Some t \<longrightarrow> t < length (qs s) \<and> covers (qs s ! t) (8 * length v) i)) \<and>
     (\<forall>t\<in>favs (qs s). \<forall>i. i div 8 < length v \<longrightarrow> covers (qs s ! t) (8 * length v) i \<longrightarrow> \<not> mini_bit v i)"

lemma card_Diff_insert_Suc:
  assumes "t \<in> A" "t \<notin> B" "finite A"
  shows "card (A - B) = Suc (card (A - insert t B))"
proof -
  have e: "A - B = insert t (A - insert t B)" using assms by auto
  show ?thesis by (subst e, rule card_insert_disjoint) (use assms(3) in auto)
qed

lemma favs_update:
  assumes "t < length es"
  shows "favs (es[t := (es ! t)\<lparr>favored := True\<rparr>]) = insert t (favs es)"
    and "pending_favs (es[t := (es ! t)\<lparr>favored := True\<rparr>]) =
      (if was_fuzzed (es ! t) then pending_favs es else insert t (pending_favs es))"
  using assms by (auto simp: favs_def pending_favs_def nth_list_update)

lemma covers_unfav: "map unfav es = map unfav es' \<Longrightarrow> w < length es' \<Longrightarrow> covers (es ! w) m j = covers (es' ! w) m j"
  unfolding covers_def by (subst unfav_fields(1)[OF map_unfav_nth]) simp_all

lemma pick_pre_strike:
  assumes "pick_pre (i # js) v s" "top_rated s ! i = Some t" "trace_mini (qs s ! t) = Some tm" "length tm = length v"
  shows "pick_pre js (strike v tm) (s\<lparr>qs := (qs s)[t := (qs s ! t)\<lparr>favored := True\<rparr>], queued_favored := a, pending_favored := b\<rparr>)"
proof -
  let ?es = "(qs s)[t := (qs s ! t)\<lparr>favored := True\<rparr>]"
  note cov = covers_unfav[OF map_unfav_update[of "qs s" t True]]
  have t: "t < length (qs s)" using assms(1,2) by (simp add: pick_pre_def)
  have "\<not> mini_bit (strike v tm) j" if "w \<in> favs ?es" "j div 8 < length v" "covers (?es ! w) (8 * length v) j" for w j
  proof (cases "w = t")
    case True
    then show ?thesis using that assms(3,4) t cov[of t] by (simp add: mini_bit_strike covers_def)
  next
    case False
    then have "w \<in> favs (qs s)" "w < length (qs s)" using that(1) favs_update(1)[OF t] by (auto simp: favs_def)
    then show ?thesis using that assms(1,4) cov by (auto simp: pick_pre_def mini_bit_strike)
  qed
  then show ?thesis using assms(1,4) cov by (auto simp: pick_pre_def)
qed

text \<open>What the loop promises: exact counters, only owners of slots win, and every owned slot still open is covered.\<close>

definition pick_post :: "nat list \<Rightarrow> u8 list \<Rightarrow> 'a q_state_scheme \<Rightarrow> 'a q_state_scheme \<Rightarrow> bool" where
  "pick_post is v s s' \<longleftrightarrow>
     map unfav (qs s') = map unfav (qs s) \<and> favs (qs s) \<subseteq> favs (qs s') \<and>
     queued_favored s' = queued_favored s + of_nat (card (favs (qs s') - favs (qs s))) \<and>
     pending_favored s' = pending_favored s + of_nat (card (pending_favs (qs s') - pending_favs (qs s))) \<and>
     (\<forall>t\<in>favs (qs s') - favs (qs s). \<exists>i\<in>set is. top_rated s ! i = Some t) \<and>
     (\<forall>i\<in>set is. top_rated s ! i \<noteq> None \<longrightarrow> mini_bit v i \<longrightarrow> (\<exists>w\<in>favs (qs s'). covers (qs s ! w) (8 * length v) i)) \<and>
     s'\<lparr>qs := qs s, queued_favored := queued_favored s, pending_favored := pending_favored s\<rparr> = s"

lemma pick_post_step:
  assumes "pick_pre (i # js) v s" "top_rated s ! i = Some t" "trace_mini (qs s ! t) = Some tm" "length tm = length v" "mini_bit tm i" "mini_bit v i"
  defines "s1 \<equiv> s\<lparr>qs := (qs s)[t := (qs s ! t)\<lparr>favored := True\<rparr>], queued_favored := queued_favored s + 1,
     pending_favored := (if was_fuzzed (qs s ! t) then pending_favored s else pending_favored s + 1)\<rparr>"
  assumes "pick_post js (strike v tm) s1 s'"
  shows "pick_post (i # js) v s s'"
proof -
  define es where "es = (qs s)[t := (qs s ! t)\<lparr>favored := True\<rparr>]"
  have t: "t < length (qs s)" using assms(1,2) by (simp add: pick_pre_def)
  note fe = favs_update(1)[OF t, folded es_def] and pe = favs_update(2)[OF t, folded es_def]
  have u: "map unfav es = map unfav (qs s)" by (simp add: es_def map_unfav_update)
  have post: "map unfav (qs s') = map unfav es"
      "favs es \<subseteq> favs (qs s')" "queued_favored s' = queued_favored s1 + of_nat (card (favs (qs s') - favs es))"
      "pending_favored s' = pending_favored s1 + of_nat (card (pending_favs (qs s') - pending_favs es))"
      "\<forall>t\<in>favs (qs s') - favs es. \<exists>i\<in>set js. top_rated s ! i = Some t"
      "\<forall>i\<in>set js. top_rated s ! i \<noteq> None \<longrightarrow> mini_bit (strike v tm) i \<longrightarrow> (\<exists>w\<in>favs (qs s'). covers (es ! w) (8 * length v) i)"
      "s'\<lparr>qs := es, queued_favored := queued_favored s1, pending_favored := pending_favored s1\<rparr> = s1"
    using assms(4,8) by (auto simp: pick_post_def s1_def es_def)
  have nt: "t \<notin> favs (qs s)" using assms(1,3-6) t by (fastforce simp: pick_pre_def covers_def)
  have tf: "t \<in> favs (qs s')" using post(2) fe by blast
  have wf: "was_fuzzed (qs s' ! t) = was_fuzzed (qs s ! t)"
    using unfav_fields(2)[OF map_unfav_nth[of "qs s'" "qs s" t]] post(1) u t by simp
  have c1: "card (favs (qs s') - favs (qs s)) = Suc (card (favs (qs s') - favs es))"
    using card_Diff_insert_Suc[OF tf nt] fe by simp
  have c2: "card (pending_favs (qs s') - pending_favs (qs s)) =
      (if was_fuzzed (qs s ! t) then 0 else 1) + card (pending_favs (qs s') - pending_favs es)"
    using card_Diff_insert_Suc[of t "pending_favs (qs s')" "pending_favs (qs s)"] pe tf nt wf by (auto simp: favs_def pending_favs_def)
  have cover: "\<exists>w\<in>favs (qs s'). covers (qs s ! w) (8 * length v) j"
    if H: "j \<in> set (i # js)" "top_rated s ! j \<noteq> None" "mini_bit v j" for j
  proof (cases "mini_bit tm j")
    case True
    then show ?thesis using tf assms(3,4) by (intro bexI[of _ t]) (simp_all add: covers_def)
  next
    case False
    then have "mini_bit (strike v tm) j" "j \<in> set js"
      using H assms(1,4,5) by (auto simp: mini_bit_strike pick_pre_def)
    then obtain w where "w \<in> favs (qs s')" "covers (es ! w) (8 * length v) j" using post(6) H(2) by blast
    moreover have "length (qs s') = length (qs s)" using post(1) u by (metis length_map)
    ultimately show ?thesis using covers_unfav[OF u, of w] by (auto simp: favs_def)
  qed
  have rest: "s'\<lparr>qs := qs s, queued_favored := queued_favored s, pending_favored := pending_favored s\<rparr> = s"
    using arg_cong[OF post(7), of "\<lambda>x. x\<lparr>qs := qs s, queued_favored := queued_favored s, pending_favored := pending_favored s\<rparr>"]
    by (simp add: s1_def)
  have win: "\<forall>w\<in>favs (qs s') - favs (qs s). \<exists>j\<in>set (i # js). top_rated s ! j = Some w"
    using post(5) fe assms(2) by auto
  show ?thesis unfolding pick_post_def
    using post(1-4) u fe c1 c2 win cover rest by (auto simp: s1_def)
qed

lemma pick_winners_ok:
  "pick_pre is v s \<Longrightarrow> \<exists>s'. pick_winners is v s = Inr s' \<and> pick_post is v s s'"
proof (induction "is" arbitrary: v s)
  case Nil
  then show ?case by (simp add: pick_post_def)
next
  case (Cons i js)
  show ?case
  proof (cases "top_rated s ! i \<noteq> None \<and> mini_bit v i")
    case False
    then have "pick_winners (i # js) v s = pick_winners js v s"
      by (cases "top_rated s ! i") (auto simp: mini_bit_def)
    moreover have "pick_pre js v s" using Cons.prems by (simp add: pick_pre_def)
    ultimately show ?thesis using Cons.IH[of v s] False by (auto simp: pick_post_def)
  next
    case True
    then obtain t where t: "top_rated s ! i = Some t" "mini_bit v i" by blast
    with Cons.prems obtain tm where tm: "trace_mini (qs s ! t) = Some tm" "length tm = length v" "mini_bit tm i" "t < length (qs s)"
      by (auto simp: covers_def pick_pre_def split: option.splits)
    let ?s1 = "s\<lparr>qs := (qs s)[t := (qs s ! t)\<lparr>favored := True\<rparr>], queued_favored := queued_favored s + 1,
       pending_favored := (if was_fuzzed (qs s ! t) then pending_favored s else pending_favored s + 1)\<rparr>"
    have "pick_winners (i # js) v s = pick_winners js (strike v tm) ?s1"
      using t tm by (simp add: mini_bit_def strike_def upd_q_def Let_def)
    then show ?thesis
      using Cons.IH[OF pick_pre_strike[OF Cons.prems t(1) tm(1,2)]] pick_post_step[OF Cons.prems t(1) tm(1-3) t(2)] by metis
  qed
qed

text \<open>
  The redundancy marks on disk: every entry has a base name of its own, and the file of that name
  under \<open>redundant_edges\<close> exists exactly when the entry is flagged.
\<close>

definition mark_of :: "'a q_state_scheme \<Rightarrow> nat \<Rightarrow> string" where
  "mark_of s i = redundant_path s (the (base_name (fname (qs s ! i))))"

definition marks_inv :: "'a q_state_scheme \<Rightarrow> bool" where
  "marks_inv s \<longleftrightarrow>
     (\<forall>i<length (qs s). base_name (fname (qs s ! i)) \<noteq> None \<and> (fs s (mark_of s i) \<noteq> None \<longleftrightarrow> fs_redundant (qs s ! i))) \<and>
     distinct (map (\<lambda>e. base_name (fname e)) (qs s))"

lemma mark_of_inj:
  assumes "marks_inv s" "i < length (qs s)" "j < length (qs s)" "mark_of s i = mark_of s j"
  shows "i = j"
proof -
  obtain a b where ab: "base_name (fname (qs s ! i)) = Some a" "base_name (fname (qs s ! j)) = Some b"
    using assms(1-3) unfolding marks_inv_def by blast
  then have "a = b" using assms(4) by (simp add: mark_of_def redundant_path_def)
  then have "base_name (fname (qs s ! i)) = base_name (fname (qs s ! j))" using ab by simp
  then show ?thesis using assms(1-3) by (auto simp: marks_inv_def distinct_conv_nth)
qed

lemma mark_as_redundant_ok:
  assumes "marks_inv s" "q < length (qs s)"
  shows "\<exists>s'. mark_as_redundant q st s = Inr s' \<and> marks_inv s' \<and> qs s' = (qs s)[q := (qs s ! q)\<lparr>fs_redundant := st\<rparr>] \<and>
    s'\<lparr>qs := qs s, fs := fs s\<rparr> = s"
proof (cases "st = fs_redundant (qs s ! q)")
  case True
  then have "(qs s ! q)\<lparr>fs_redundant := st\<rparr> = qs s ! q" by (cases "qs s ! q") simp
  then have "(qs s)[q := (qs s ! q)\<lparr>fs_redundant := st\<rparr>] = qs s" by (simp only: list_update_id)
  then show ?thesis using True assms(1) by (simp add: mark_as_redundant_def)
next
  case False
  let ?e = "(qs s ! q)\<lparr>fs_redundant := st\<rparr>"
  let ?v = "if st then Some (File []) else None"
  define s' where "s' = s\<lparr>qs := (qs s)[q := ?e], fs := (fs s)(mark_of s q := ?v)\<rparr>"
  have b: "base_name (fname (qs s ! q)) \<noteq> None" "fs s (mark_of s q) \<noteq> None \<longleftrightarrow> \<not> st"
    using assms False by (auto simp: marks_inv_def)
  have run: "mark_as_redundant q st s = Inr s'"
    using False b assms(2) by (auto simp: mark_as_redundant_def s'_def mark_of_def create_excl_def upd_q_def redundant_path_def)
  have names: "fname ((qs s)[q := ?e] ! i) = fname (qs s ! i)" if "i < length (qs s)" for i
    using that by (cases "i = q") auto
  have "map (\<lambda>e. base_name (fname e)) ((qs s)[q := ?e]) = map (\<lambda>e. base_name (fname e)) (qs s)"
    using names by (intro nth_equalityI) auto
  moreover have "mark_of s' i = mark_of s i" if "i < length (qs s)" for i
    using names[OF that] by (simp add: s'_def mark_of_def redundant_path_def)
  ultimately have "marks_inv s'"
    using assms mark_of_inj[OF assms(1) _ assms(2)] names
    by (auto simp: marks_inv_def s'_def nth_list_update)
  then show ?thesis using run by (simp add: s'_def)
qed

definition marked :: "queue_entry \<Rightarrow> queue_entry" where
  "marked e = e\<lparr>fs_redundant := \<not> favored e\<rparr>"

lemma mark_redundant_loop_ok:
  assumes "marks_inv s" "\<And>j. j < length (qs s) \<Longrightarrow> q_next (qs s ! j) = next_of (length (qs s)) j"
    and "i < length (qs s)" "length (qs s) - i \<le> fuel"
  shows "\<exists>s'. mark_redundant_loop fuel (Some i) s = Inr s' \<and> marks_inv s' \<and>
     qs s' = take i (qs s) @ map marked (drop i (qs s)) \<and> s'\<lparr>qs := qs s, fs := fs s\<rparr> = s"
  using assms
proof (induction fuel arbitrary: i s)
  case 0
  then show ?case by simp
next
  case (Suc fuel)
  obtain s1 where s1: "mark_as_redundant i (\<not> favored (qs s ! i)) s = Inr s1" "marks_inv s1"
      "qs s1 = (qs s)[i := marked (qs s ! i)]" "s1\<lparr>qs := qs s, fs := fs s\<rparr> = s"
    using mark_as_redundant_ok[OF Suc.prems(1,3), of "\<not> favored (qs s ! i)"] by (auto simp: marked_def)
  have n: "q_next (qs s1 ! j) = next_of (length (qs s1)) j" if "j < length (qs s1)" for j
    using Suc.prems(2)[of j] that by (cases "j = i") (simp_all add: s1(3) marked_def)
  have sp: "take (Suc i) (qs s1) @ map marked (drop (Suc i) (qs s1)) = take i (qs s) @ map marked (drop i (qs s))"
    using Suc.prems(3) by (simp add: s1(3) take_Suc_conv_app_nth Cons_nth_drop_Suc[symmetric])
  have step: "mark_redundant_loop (Suc fuel) (Some i) s = mark_redundant_loop fuel (next_of (length (qs s)) i) s1"
    using s1(1) n[of i] Suc.prems(3) by (simp add: s1(3))
  show ?case
  proof (cases "Suc i < length (qs s)")
    case True
    then have "Suc i < length (qs s1)" "length (qs s1) - Suc i \<le> fuel" using Suc.prems(4) by (simp_all add: s1(3))
    from Suc.IH[OF s1(2) n this] obtain s' where s': "mark_redundant_loop fuel (Some (Suc i)) s1 = Inr s'" "marks_inv s'"
      "qs s' = take i (qs s) @ map marked (drop i (qs s))" "s'\<lparr>qs := qs s1, fs := fs s1\<rparr> = s1" unfolding sp by blast
    have "s'\<lparr>qs := qs s, fs := fs s\<rparr> = s"
      using arg_cong[OF s'(4), of "\<lambda>x. x\<lparr>qs := qs s, fs := fs s\<rparr>"] s1(4) by simp
    then show ?thesis using step True s' by (simp add: next_of_def)
  next
    case False
    then have "drop (Suc i) (qs s1) = []" "take (Suc i) (qs s1) = qs s1" by (auto simp: s1(3))
    then show ?thesis using step sp False s1(2,4) by (simp add: next_of_def)
  qed
qed

lemma favs_marked [simp]: "favs (map marked es) = favs es" "pending_favs (map marked es) = pending_favs es"
  by (auto simp: favs_def pending_favs_def marked_def)

definition unculled :: "queue_entry \<Rightarrow> queue_entry" where
  "unculled e = e\<lparr>favored := False, fs_redundant := False\<rparr>"

lemma unculled_marked [simp]: "unculled (marked e) = unculled e"
  by (simp add: unculled_def marked_def)

lemma map_unculled: "map unfav es = map unfav es' \<Longrightarrow> map unculled es = map unculled es'"
proof -
  have u: "map unculled xs = map unculled (map unfav xs)" for xs by (simp add: unculled_def unfav_def)
  show "map unfav es = map unfav es' \<Longrightarrow> ?thesis" by (subst (1 2) u) simp
qed

lemma favs_unfav [simp]: "favs (map unfav es) = {}" "pending_favs (map unfav es) = {}"
  by (auto simp: favs_def pending_favs_def unfav_def)

lemma mini_bit_255: "i div 8 < n \<Longrightarrow> mini_bit (replicate n 255) i"
proof -
  have "\<forall>k\<in>{..<8}. bit (255 :: u8) k" by (simp add: lessThan_nat_numeral bit_numeral_rec numeral_eq_Suc lessThan_Suc)
  then show "i div 8 < n \<Longrightarrow> ?thesis" by (simp add: mini_bit_def)
qed

lemma cull_pick:
  assumes "score_inv s"
  defines "m \<equiv> length (top_rated s)"
  defines "s0 \<equiv> s\<lparr>score_changed := False, queued_favored := 0, pending_favored := 0, qs := map unfav (qs s)\<rparr>"
  shows "\<exists>s1. pick_winners [0..<m] (replicate (m div 8) 255) s0 = Inr s1 \<and> map unfav (qs s1) = map unfav (qs s) \<and>
     queued_favored s1 = of_nat (card (favs (qs s1))) \<and> pending_favored s1 = of_nat (card (pending_favs (qs s1))) \<and>
     (\<forall>t\<in>favs (qs s1). \<exists>i<m. top_rated s ! i = Some t) \<and>
     (\<forall>i<m. top_rated s ! i \<noteq> None \<longrightarrow> (\<exists>w\<in>favs (qs s1). covers (qs s ! w) m i)) \<and>
     s1\<lparr>qs := qs s, queued_favored := queued_favored s, pending_favored := pending_favored s, score_changed := score_changed s\<rparr> = s \<and>
     \<not> score_changed s1"
proof -
  have ok: "score_ok (qs s) (top_rated s)" and m8: "8 * (m div 8) = m" using assms(1) by (auto simp: score_inv_def m_def)
  have div8: "i div 8 < m div 8" if "i < m" for i
    using that m8 by (metis less_mult_imp_div_less mult.commute)
  have cov: "covers (map unfav (qs s) ! t) n i = covers (qs s ! t) n i" if "t < length (qs s)" for t n i
    using that by (simp add: covers_def unfav_def)
  have "pick_pre [0..<m] (replicate (m div 8) 255) s0"
    using score_okD(1,2)[OF ok] div8 m8 cov by (auto simp: pick_pre_def s0_def m_def)
  then obtain s1 where s1: "pick_winners [0..<m] (replicate (m div 8) 255) s0 = Inr s1"
    and post: "pick_post [0..<m] (replicate (m div 8) 255) s0 s1" using pick_winners_ok by blast
  from post have P: "map unfav (qs s1) = map unfav (map unfav (qs s))" "queued_favored s1 = of_nat (card (favs (qs s1)))"
     "pending_favored s1 = of_nat (card (pending_favs (qs s1)))" "\<forall>t\<in>favs (qs s1). \<exists>i<m. top_rated s ! i = Some t"
     "\<forall>i<m. top_rated s ! i \<noteq> None \<longrightarrow> (\<exists>w\<in>favs (qs s1). covers (map unfav (qs s) ! w) m i)"
     "s1\<lparr>qs := map unfav (qs s), queued_favored := 0, pending_favored := 0\<rparr> = s0"
    using mini_bit_255 div8 m8 by (simp_all add: pick_post_def s0_def Bex_def)
  have u: "map unfav (qs s1) = map unfav (qs s)" using P(1) by (simp add: unfav_def comp_def)
  have l: "length (qs s1) = length (qs s)" using u by (metis length_map)
  have "\<forall>i<m. top_rated s ! i \<noteq> None \<longrightarrow> (\<exists>w\<in>favs (qs s1). covers (qs s ! w) m i)"
    using P(5) cov l by (metis (mono_tags, lifting) favs_def mem_Collect_eq)
  moreover have "s1\<lparr>qs := qs s, queued_favored := queued_favored s, pending_favored := pending_favored s, score_changed := score_changed s\<rparr> = s"
    using arg_cong[OF P(6), of "\<lambda>x. x\<lparr>qs := qs s, queued_favored := queued_favored s, pending_favored := pending_favored s, score_changed := score_changed s\<rparr>"]
    by (simp add: s0_def)
  moreover have "\<not> score_changed s1" using arg_cong[OF P(6), of score_changed] by (simp add: s0_def)
  ultimately show ?thesis using s1 u P(2,3,4) by blast
qed

text \<open>
  C7. \<open>cull_queue\<close> on a changed score: it always ends without touching a freed trace, the favoured
  entries together cover every byte of the map that any entry is rated for, each favoured entry owns
  a byte, \<open>queued_favored\<close> and \<open>pending_favored\<close> are the exact numbers, and the redundancy marks on
  disk are those of the entries that are not favoured. Nothing else of any entry changes.
\<close>

theorem cull_queue_spec:
  fixes s :: "'a q_state_scheme"
  assumes "queue_inv s" "score_inv s" "marks_inv s" "dumb_mode s = 0" "score_changed s"
  shows "\<exists>s'. cull_queue s = Inr s' \<and> \<not> score_changed s' \<and>
     (\<forall>i<length (top_rated s). top_rated s ! i \<noteq> None \<longrightarrow> (\<exists>w\<in>favs (qs s'). covers (qs s ! w) (length (top_rated s)) i)) \<and>
     (\<forall>w\<in>favs (qs s'). \<exists>i<length (top_rated s). top_rated s ! i = Some w) \<and>
     queued_favored s' = of_nat (card (favs (qs s'))) \<and> pending_favored s' = of_nat (card (pending_favs (qs s'))) \<and>
     (\<forall>e\<in>set (qs s'). fs_redundant e = (\<not> favored e)) \<and> marks_inv s' \<and>
     map unculled (qs s') = map unculled (qs s) \<and> top_rated s' = top_rated s"
proof -
  let ?m = "length (top_rated s)"
  let ?s0 = "s\<lparr>score_changed := False, queued_favored := 0, pending_favored := 0\<rparr>"
  have qi: "\<And>j. j < length (qs s) \<Longrightarrow> q_next (qs s ! j) = next_of (length (qs s)) j"
    "queue s = (if qs s = [] then None else Some 0)" using assms(1) by (auto simp: queue_inv_def Let_def)
  have cl: "clear_favored (length (qs s)) (queue s) (qs s) = Inr (map unfav (qs s))"
    using clear_favored_ok[OF qi(1), of 0 "length (qs s)"] qi(2) by (cases "qs s = []") auto
  obtain s1 where s1: "pick_winners [0..<?m] (replicate (?m div 8) 255) (?s0\<lparr>qs := map unfav (qs s)\<rparr>) = Inr s1"
      "map unfav (qs s1) = map unfav (qs s)"
      "queued_favored s1 = of_nat (card (favs (qs s1)))" "pending_favored s1 = of_nat (card (pending_favs (qs s1)))"
      "\<forall>t\<in>favs (qs s1). \<exists>i<?m. top_rated s ! i = Some t"
      "\<forall>i<?m. top_rated s ! i \<noteq> None \<longrightarrow> (\<exists>w\<in>favs (qs s1). covers (qs s ! w) ?m i)"
      "s1\<lparr>qs := qs s, queued_favored := queued_favored s, pending_favored := pending_favored s, score_changed := score_changed s\<rparr> = s"
      "\<not> score_changed s1"
    using cull_pick[OF assms(2)] by auto
  have l: "length (qs s1) = length (qs s)" using s1(2) by (metis length_map)
  have f: "fname (qs s1 ! i) = fname (qs s ! i)" "fs_redundant (qs s1 ! i) = fs_redundant (qs s ! i)"
    "q_next (qs s1 ! i) = q_next (qs s ! i)" if "i < length (qs s)" for i
    using unfav_fields[OF map_unfav_nth[OF s1(2) that]] by auto
  have eqs: "fs s1 = fs s" "out_dir s1 = out_dir s" "queue s1 = queue s" "top_rated s1 = top_rated s"
    using arg_cong[OF s1(7), of fs] arg_cong[OF s1(7), of out_dir] arg_cong[OF s1(7), of queue] arg_cong[OF s1(7), of top_rated] by auto
  have "map (\<lambda>e. base_name (fname e)) (qs s1) = map (\<lambda>e. base_name (fname e)) (qs s)"
    using f(1) l by (intro nth_equalityI) auto
  then have mi: "marks_inv s1" using assms(3) f l eqs by (simp add: marks_inv_def mark_of_def redundant_path_def)
  have "\<exists>s'. mark_redundant_loop (length (qs s1)) (queue s1) s1 = Inr s' \<and> marks_inv s' \<and>
     qs s' = map marked (qs s1) \<and> s'\<lparr>qs := qs s1, fs := fs s1\<rparr> = s1"
  proof (cases "qs s = []")
    case True
    then show ?thesis using l eqs qi(2) mi by simp
  next
    case False
    then show ?thesis using mark_redundant_loop_ok[OF mi, of 0 "length (qs s1)"] qi f(3) l eqs by auto
  qed
  then obtain s' where s': "mark_redundant_loop (length (qs s1)) (queue s1) s1 = Inr s'" "marks_inv s'"
     "qs s' = map marked (qs s1)" "s'\<lparr>qs := qs s1, fs := fs s1\<rparr> = s1" by blast
  have e': "score_changed s' = score_changed s1" "queued_favored s' = queued_favored s1" "pending_favored s' = pending_favored s1"
    "top_rated s' = top_rated s1"
    using arg_cong[OF s'(4), of score_changed] arg_cong[OF s'(4), of queued_favored] arg_cong[OF s'(4), of pending_favored]
      arg_cong[OF s'(4), of top_rated] by auto
  have run: "cull_queue s = Inr s'" using assms(4,5) cl s1(1) s'(1) by (simp add: cull_queue_def)
  have "map unculled (qs s') = map unculled (qs s)" using map_unculled[OF s1(2)] by (simp add: s'(3) comp_def)
  moreover have "\<forall>e\<in>set (qs s'). fs_redundant e = (\<not> favored e)" by (auto simp: s'(3) marked_def)
  ultimately show ?thesis using run s1 s'(2) e' eqs(4) by (intro exI[of _ s']) (simp add: s'(3))
qed

section \<open>The invariants together\<close>

text \<open>Every operation on the queue keeps the three invariants.\<close>

lemma score_ok_cong:
  assumes "score_ok es tr" "length es' = n" "length es \<le> n"
    and "\<And>i. i < length es \<Longrightarrow> trace_mini (es' ! i) = trace_mini (es ! i) \<and> tc_ref (es' ! i) = tc_ref (es ! i)"
    and "\<And>i. length es \<le> i \<Longrightarrow> i < n \<Longrightarrow> trace_mini (es' ! i) = None \<and> tc_ref (es' ! i) = 0"
  shows "score_ok es' tr"
proof -
  note D = score_okD[OF assms(1)]
  have "t < length es' \<and> covers (es' ! t) (length tr) i" if "i < length tr" "tr ! i = Some t" for i t
    using D(1,2)[OF that] assms(2,3,4) by (auto simp: covers_def)
  moreover have "unat (tc_ref (es' ! t)) = card (slots tr t) \<and> (trace_mini (es' ! t) = None \<longleftrightarrow> slots tr t = {})" if "t < n" for t
  proof (cases "t < length es")
    case True
    then show ?thesis using D(3,4) assms(4) by simp
  next
    case False
    then have "slots tr t = {}" using D(1) by (auto simp: slots_def)
    then show ?thesis using assms(5)[of t] False that by simp
  qed
  ultimately show ?thesis using assms(2) by (auto simp: score_ok_def)
qed

lemma add_to_queue_score_inv:
  assumes "queue_inv s" "Suc (length (qs s)) < 2 ^ 32" "score_inv s"
  shows "score_inv (add_to_queue fn l det s)"
proof -
  have f: "top_rated (add_to_queue fn l det s) = top_rated s" "trace_bits (add_to_queue fn l det s) = trace_bits s"
    by (simp_all add: add_to_queue_def Let_def get_cur_time_def split: option.split)
  have e: "trace_mini (qs (add_to_queue fn l det s) ! i) = (if i < length (qs s) then trace_mini (qs s ! i) else None) \<and>
     tc_ref (qs (add_to_queue fn l det s) ! i) = (if i < length (qs s) then tc_ref (qs s ! i) else 0)"
    if "i \<le> length (qs s)" for i
    using add_to_queue_entry[OF assms(1,2) that, of fn l det] that by (auto simp: nth_append new_entry_def)
  have "score_ok (qs (add_to_queue fn l det s)) (top_rated s)"
    by (rule score_ok_cong[where es = "qs s" and n = "Suc (length (qs s))"]) (use assms(3) e in \<open>auto simp: score_inv_def\<close>)
  then show ?thesis using assms(3) f by (simp add: score_inv_def)
qed

lemma queue_inv_cong:
  assumes "queue_inv s" "map q_next (qs s') = map q_next (qs s)" "map q_next_100 (qs s') = map q_next_100 (qs s)"
    and "queue s' = queue s" "queue_top s' = queue_top s" "q_prev100 s' = q_prev100 s" "queued_paths s' = queued_paths s"
  shows "queue_inv s'"
proof -
  have l: "length (qs s') = length (qs s)" using assms(2) by (metis length_map)
  have "q_next (qs s' ! i) = q_next (qs s ! i)" "q_next_100 (qs s' ! i) = q_next_100 (qs s ! i)" if "i < length (qs s)" for i
    using assms(2,3) that l by (metis nth_map)+
  then show ?thesis using assms(1,4-7) l by (simp add: queue_inv_def Let_def)
qed

lemma update_bitmap_score_queue_inv:
  assumes "queue_inv s" "score_inv s" "q < length (qs s)"
    and "\<forall>tm. trace_mini (qs s ! q) = Some tm \<longrightarrow> tm = mini_of (trace_bits s)"
  shows "queue_inv (update_bitmap_score q s)"
proof (rule queue_inv_cong[OF assms(1)])
  let ?s' = "update_bitmap_score q s"
  have U: "map unscored (qs ?s') = map unscored (qs s)" and R: "?s'\<lparr>qs := qs s, top_rated := top_rated s, score_changed := score_changed s\<rparr> = s"
    using update_bitmap_score_run[OF assms(2-4)] by auto
  show "map q_next (qs ?s') = map q_next (qs s)"
    using arg_cong[OF U, of "map q_next"] by (simp add: comp_def unscored_def)
  show "map q_next_100 (qs ?s') = map q_next_100 (qs s)"
    using arg_cong[OF U, of "map q_next_100"] by (simp add: comp_def unscored_def)
  show "queue ?s' = queue s" "queue_top ?s' = queue_top s" "q_prev100 ?s' = q_prev100 s" "queued_paths ?s' = queued_paths s"
    using arg_cong[OF R, of queue] arg_cong[OF R, of queue_top] arg_cong[OF R, of q_prev100] arg_cong[OF R, of queued_paths] by auto
qed

section \<open>Reference counts\<close>

text \<open>
  What the reference counting guarantees whatever the traces: \<open>tc_ref\<close> counts the slots of
  \<open>top_rated\<close> that point to an entry, and a kept trace, of the size of the bitmap, is there exactly while
  there is such a slot. Unlike \<open>score_ok\<close> it does not say which bits the kept trace has, and so
  it also survives a second rating of an entry whose trace has changed.
\<close>

definition refs_ok :: "queue_entry list \<Rightarrow> nat option list \<Rightarrow> bool" where
  "refs_ok es tr \<longleftrightarrow>
     (\<forall>i<length tr. \<forall>t. tr ! i = Some t \<longrightarrow> t < length es) \<and>
     (\<forall>t<length es. unat (tc_ref (es ! t)) = card (slots tr t) \<and> (trace_mini (es ! t) = None \<longleftrightarrow> slots tr t = {}) \<and>
        (\<forall>tm. trace_mini (es ! t) = Some tm \<longrightarrow> length tm = length tr div 8))"

definition rate_ok :: "queue_entry list \<Rightarrow> nat option list \<Rightarrow> nat \<Rightarrow> bool" where
  "rate_ok es tr m \<longleftrightarrow> length tr = m \<and> 8 dvd m \<and> m < 2 ^ 32 \<and> refs_ok es tr"

definition rated :: "'a q_state_scheme \<Rightarrow> bool" where
  "rated s = rate_ok (qs s) (top_rated s) (length (trace_bits s))"

lemma refs_okD:
  assumes "refs_ok es tr"
  shows "i < length tr \<Longrightarrow> tr ! i = Some t \<Longrightarrow> t < length es"
    and "t < length es \<Longrightarrow> unat (tc_ref (es ! t)) = card (slots tr t)"
    and "t < length es \<Longrightarrow> trace_mini (es ! t) = None \<longleftrightarrow> slots tr t = {}"
    and "t < length es \<Longrightarrow> trace_mini (es ! t) = Some tm \<Longrightarrow> length tm = length tr div 8"
  using assms by (auto simp: refs_ok_def)

lemma score_refs: "score_ok es tr \<Longrightarrow> refs_ok es tr"
proof -
  assume a: "score_ok es tr"
  note D = score_okD[OF a]
  have "length tm = length tr div 8" if "t < length es" "trace_mini (es ! t) = Some tm" for t tm
  proof -
    have "slots tr t \<noteq> {}" using D(4)[OF that(1)] that(2) by auto
    then obtain i where "i < length tr" "tr ! i = Some t" by (auto simp: slots_def)
    then have "covers (es ! t) (length tr) i" by (rule D(2))
    then show ?thesis using that(2) by (simp add: covers_def)
  qed
  then show ?thesis using D by (auto simp: refs_ok_def)
qed

lemma release_refs:
  assumes "refs_ok es tr" "i < length tr" "tr ! i = Some t"
  shows "refs_ok (es[t := released (es ! t)]) (tr[i := None])"
proof -
  note D = refs_okD[OF assms(1)]
  have t: "t < length es" using D(1) assms(2,3) by blast
  have it: "i \<in> slots tr t" using assms(2,3) by (simp add: slots_def)
  then obtain k where k: "card (slots tr t) = Suc k" by (metis card_gt_0_iff empty_iff finite_slots gr0_conv_Suc)
  have tc: "unat (tc_ref (es ! t) - 1) = k" using unat_dec D(2)[OF t] k by simp
  have ck: "card (slots tr t - {i}) = k" using k it by simp
  have z: "tc_ref (es ! t) - 1 = 0 \<longleftrightarrow> slots tr t - {i} = {}"
    using tc ck by (metis card_0_eq finite_Diff finite_slots unat_0 unsigned_eq_0_iff)
  have ne: "slots tr t \<noteq> {}" using it by auto
  have "unat (tc_ref (es[t := released (es ! t)] ! u)) = card (slots (tr[i := None]) u) \<and>
       (trace_mini (es[t := released (es ! t)] ! u) = None \<longleftrightarrow> slots (tr[i := None]) u = {}) \<and>
       (\<forall>tm. trace_mini (es[t := released (es ! t)] ! u) = Some tm \<longrightarrow> length tm = length tr div 8)" if "u < length es" for u
  proof (cases "u = t")
    case True
    then show ?thesis using t tc ck z ne D(3,4)[OF t] by (simp add: slots_update[OF assms(2)] released_def)
  next
    case False
    then have "slots tr u - {i} = slots tr u" using assms(3) by (auto simp: slots_def)
    then show ?thesis using False D(2-4)[OF that] by (simp add: slots_update[OF assms(2)])
  qed
  moreover have "u < length es" if "j < length tr" "(tr[i := None]) ! j = Some u" for j u
    using that assms(2) D(1)[of j u] by (cases "j = i") auto
  ultimately show ?thesis by (simp add: refs_ok_def)
qed

lemma take_refs:
  assumes "refs_ok es tr" "i < length tr" "tr ! i = None" "q < length es" "length tr < 2 ^ 32" "length tm = length tr div 8"
  shows "refs_ok (es[q := taken tm (es ! q)]) (tr[i := Some q])"
proof -
  note D = refs_okD[OF assms(1)]
  have ni: "i \<notin> slots tr u" for u using assms(3) by (simp add: slots_def)
  have "card (slots (tr[i := Some q]) q) \<le> length tr" using card_slots_le[of "tr[i := Some q]" q] by simp
  then have c: "Suc (card (slots tr q)) \<le> length tr" using ni by (simp add: slots_update[OF assms(2)])
  have tc: "unat (tc_ref (es ! q) + 1) = Suc (card (slots tr q))"
    using unat_inc[of "tc_ref (es ! q)"] D(2)[OF assms(4)] c assms(5) by simp
  have "unat (tc_ref (es[q := taken tm (es ! q)] ! u)) = card (slots (tr[i := Some q]) u) \<and>
       (trace_mini (es[q := taken tm (es ! q)] ! u) = None \<longleftrightarrow> slots (tr[i := Some q]) u = {}) \<and>
       (\<forall>tm'. trace_mini (es[q := taken tm (es ! q)] ! u) = Some tm' \<longrightarrow> length tm' = length tr div 8)" if "u < length es" for u
  proof (cases "u = q")
    case True
    then show ?thesis using that tc ni D(4)[OF that] assms(6) by (auto simp: slots_update[OF assms(2)] taken_def split: option.split)
  next
    case False
    then show ?thesis using D(2-4)[OF that] ni by (simp add: slots_update[OF assms(2)])
  qed
  moreover have "u < length es" if "j < length tr" "(tr[i := Some q]) ! j = Some u" for j u
    using that assms(2,4) D(1)[of j u] by (cases "j = i") auto
  ultimately show ?thesis by (simp add: refs_ok_def)
qed

lemma update_score_at_rated:
  assumes "rated s" "q < length (qs s)" "length trace = length (trace_bits s)" "i < length trace"
  shows "rated (update_score_at fav q trace i s)" "length (qs (update_score_at fav q trace i s)) = length (qs s)"
    "trace_bits (update_score_at fav q trace i s) = trace_bits s"
proof -
  have r: "refs_ok (qs s) (top_rated s)" "length (top_rated s) = length (trace_bits s)" "length (top_rated s) < 2 ^ 32"
    and m: "8 dvd length (trace_bits s)" using assms(1) by (auto simp: rated_def rate_ok_def)
  have it: "i < length (top_rated s)" using assms(3,4) r(2) by simp
  have lm: "length (mini_of trace) = length (top_rated s) div 8" using assms(3) r(2) by (simp add: mini_of_def)
  have slot: "rated (take_slot q trace i u) \<and> length (qs (take_slot q trace i u)) = length (qs u) \<and> trace_bits (take_slot q trace i u) = trace_bits u"
    if "refs_ok (qs u) ((top_rated s)[i := None])" "top_rated u = top_rated s" "length (qs u) = length (qs s)"
      "trace_bits u = trace_bits s" for u :: "'a q_state_scheme"
  proof -
    have "refs_ok ((qs u)[q := taken (mini_of trace) (qs u ! q)]) ((top_rated s)[i := None, i := Some q])"
      by (rule take_refs[OF that(1)]) (use it that(3) assms(2) r(3) lm in auto)
    then show ?thesis using that r m assms(2) by (simp add: take_slot_taken rated_def rate_ok_def)
  qed
  have "rated (update_score_at fav q trace i s) \<and> length (qs (update_score_at fav q trace i s)) = length (qs s) \<and>
      trace_bits (update_score_at fav q trace i s) = trace_bits s"
  proof (cases "top_rated s ! i")
    case None
    then have "(top_rated s)[i := None] = top_rated s" by (metis list_update_id)
    then show ?thesis using slot[of s] r(1) assms(1) None by (simp add: update_score_at_def)
  next
    case (Some t)
    have "qs (drop_ref t s) = (qs s)[t := released (qs s ! t)]" by (simp add: drop_ref_released)
    then show ?thesis using slot[of "drop_ref t s"] release_refs[OF r(1) it Some] assms(1) Some
      by (simp add: update_score_at_def) (simp add: drop_ref_released)
  qed
  then show "rated (update_score_at fav q trace i s)" "length (qs (update_score_at fav q trace i s)) = length (qs s)"
    "trace_bits (update_score_at fav q trace i s) = trace_bits s" by simp_all
qed

lemma update_bitmap_score_rated:
  assumes "rated s" "q < length (qs s)"
  shows "rated (update_bitmap_score q s)"
proof -
  have "rated (fold (update_score_at fav q trace) is s)"
    if "\<forall>i\<in>set is. i < length trace" "length trace = length (trace_bits s)" "rated s" "q < length (qs s)"
    for fav trace "is" and s :: "'a q_state_scheme"
    using that
  proof (induction "is" arbitrary: s)
    case (Cons i js)
    note u = update_score_at_rated[OF Cons.prems(3,4,2), of i fav]
    have "i < length trace" using Cons.prems(1) by simp
    then show ?case using Cons.IH[of "update_score_at fav q trace i s"] u Cons.prems by simp
  qed simp
  from this[of "[0..<length (trace_bits s)]" "trace_bits s" s] show ?thesis using assms by (simp add: update_bitmap_score_def)
qed

lemma refs_ok_cong:
  assumes "refs_ok es tr" "length es \<le> length es'"
    and "\<And>i. i < length es \<Longrightarrow> trace_mini (es' ! i) = trace_mini (es ! i) \<and> tc_ref (es' ! i) = tc_ref (es ! i)"
    and "\<And>i. length es \<le> i \<Longrightarrow> i < length es' \<Longrightarrow> trace_mini (es' ! i) = None \<and> tc_ref (es' ! i) = 0"
  shows "refs_ok es' tr"
proof -
  note D = refs_okD[OF assms(1)]
  have "unat (tc_ref (es' ! t)) = card (slots tr t) \<and> (trace_mini (es' ! t) = None \<longleftrightarrow> slots tr t = {}) \<and>
      (\<forall>tm. trace_mini (es' ! t) = Some tm \<longrightarrow> length tm = length tr div 8)" if "t < length es'" for t
  proof (cases "t < length es")
    case True
    then show ?thesis using D(2-4) assms(3) by simp
  next
    case False
    then have "slots tr t = {}" using D(1) by (auto simp: slots_def)
    then show ?thesis using assms(4)[of t] False that by simp
  qed
  then show ?thesis using D(1) assms(2) by (fastforce simp: refs_ok_def)
qed

lemma add_to_queue_rated:
  assumes "queue_inv s" "Suc (length (qs s)) < 2 ^ 32" "rated s"
  shows "rated (add_to_queue fn l det s)"
proof -
  have f: "top_rated (add_to_queue fn l det s) = top_rated s" "trace_bits (add_to_queue fn l det s) = trace_bits s"
    by (simp_all add: add_to_queue_def Let_def get_cur_time_def split: option.split)
  have e: "trace_mini (qs (add_to_queue fn l det s) ! i) = (if i < length (qs s) then trace_mini (qs s ! i) else None) \<and>
     tc_ref (qs (add_to_queue fn l det s) ! i) = (if i < length (qs s) then tc_ref (qs s ! i) else 0)"
    if "i \<le> length (qs s)" for i
    using add_to_queue_entry[OF assms(1,2) that, of fn l det] that by (auto simp: nth_append new_entry_def)
  have "refs_ok (qs (add_to_queue fn l det s)) (top_rated s)"
    by (rule refs_ok_cong[where es = "qs s"]) (use assms(3) e in \<open>auto simp: rated_def rate_ok_def\<close>)
  then show ?thesis using assms(3) f by (simp add: rated_def rate_ok_def)
qed

lemma score_inv_rated: "score_inv s \<Longrightarrow> rated s"
  using score_refs by (auto simp: score_inv_def rated_def rate_ok_def)

lemma rate_ok_upd:
  assumes "rate_ok es tr m" "tc_ref e = tc_ref (es ! q)" "trace_mini e = trace_mini (es ! q)"
  shows "rate_ok (es[q := e]) tr m"
proof -
  have "trace_mini (es[q := e] ! i) = trace_mini (es ! i) \<and> tc_ref (es[q := e] ! i) = tc_ref (es ! i)" if "i < length es" for i
    using assms(2,3) that by (cases "i = q") simp_all
  then have "refs_ok (es[q := e]) tr" using refs_ok_cong[of es tr "es[q := e]"] assms(1) by (simp add: rate_ok_def)
  then show ?thesis using assms(1) by (simp add: rate_ok_def)
qed

text \<open>
  Culling needs no more than this: it reads the trace of an entry only while a slot points to the
  entry. It may stop the fuzzer because a mark file cannot be created or removed; otherwise it changes
  the flags of the entries, the two counters and the marks.
\<close>

definition culled :: "'a q_state_scheme \<Rightarrow> 'a q_state_scheme \<Rightarrow> bool" where
  "culled s t \<longleftrightarrow> map unculled (qs t) = map unculled (qs s) \<and>
     t\<lparr>qs := qs s, fs := fs s, queued_favored := queued_favored s, pending_favored := pending_favored s, score_changed := score_changed s\<rparr> = s"

lemma culled_refl: "culled s s"
  by (simp add: culled_def)

lemma culled_trans: "culled s t \<Longrightarrow> culled t u \<Longrightarrow> culled s u"
proof -
  assume a: "culled s t" and b: "culled t u"
  let ?f = "\<lambda>x. x\<lparr>qs := qs s, fs := fs s, queued_favored := queued_favored s, pending_favored := pending_favored s, score_changed := score_changed s\<rparr>"
  have "?f u = ?f t" using arg_cong[OF conjunct2[OF b[unfolded culled_def]], of ?f] by simp
  moreover have "?f t = s" using a by (simp add: culled_def)
  moreover have "map unculled (qs u) = map unculled (qs s)" using a b by (simp add: culled_def)
  ultimately show ?thesis by (simp only: culled_def)
qed

lemma unculled_fields:
  assumes "unculled e = unculled e'"
  shows "q_next e = q_next e'" "fname e = fname e'" "trace_mini e = trace_mini e'" "tc_ref e = tc_ref e'" "q_next_100 e = q_next_100 e'" "q_len e = q_len e'"
  using arg_cong[OF assms, of q_next] arg_cong[OF assms, of fname] arg_cong[OF assms, of trace_mini] arg_cong[OF assms, of tc_ref]
    arg_cong[OF assms, of q_next_100] arg_cong[OF assms, of q_len] by (simp_all add: unculled_def)

lemma culled_entry:
  assumes "culled s t"
  shows "length (qs t) = length (qs s)"
    and "i < length (qs s) \<Longrightarrow> q_next (qs t ! i) = q_next (qs s ! i) \<and> fname (qs t ! i) = fname (qs s ! i) \<and>
      trace_mini (qs t ! i) = trace_mini (qs s ! i) \<and> tc_ref (qs t ! i) = tc_ref (qs s ! i) \<and>
      q_next_100 (qs t ! i) = q_next_100 (qs s ! i) \<and> q_len (qs t ! i) = q_len (qs s ! i)"
    and "top_rated t = top_rated s" "queue t = queue s" "trace_bits t = trace_bits s"
proof -
  have m: "map unculled (qs t) = map unculled (qs s)" and r: "t\<lparr>qs := qs s, fs := fs s, queued_favored := queued_favored s,
      pending_favored := pending_favored s, score_changed := score_changed s\<rparr> = s" using assms by (auto simp: culled_def)
  show l: "length (qs t) = length (qs s)" using m by (metis length_map)
  have "unculled (qs t ! i) = unculled (qs s ! i)" if "i < length (qs s)" for i using m that l by (metis nth_map)
  then show "q_next (qs t ! i) = q_next (qs s ! i) \<and> fname (qs t ! i) = fname (qs s ! i) \<and>
      trace_mini (qs t ! i) = trace_mini (qs s ! i) \<and> tc_ref (qs t ! i) = tc_ref (qs s ! i) \<and>
      q_next_100 (qs t ! i) = q_next_100 (qs s ! i) \<and> q_len (qs t ! i) = q_len (qs s ! i)" if "i < length (qs s)"
    using unculled_fields[of "qs t ! i" "qs s ! i"] that by simp
  show "top_rated t = top_rated s" "queue t = queue s" "trace_bits t = trace_bits s"
    using arg_cong[OF r, of top_rated] arg_cong[OF r, of queue] arg_cong[OF r, of trace_bits] by simp_all
qed

lemma culled_rated: "culled s t \<Longrightarrow> rated s \<Longrightarrow> rated t"
proof -
  assume c: "culled s t" and r: "rated s"
  note e = culled_entry[OF c]
  have "refs_ok (qs t) (top_rated s)"
    by (rule refs_ok_cong[of "qs s"]) (use r e(1,2) in \<open>auto simp: rated_def rate_ok_def\<close>)
  then show ?thesis using r e(3,5) by (simp add: rated_def rate_ok_def)
qed

lemma unculled_upd: "unculled e = unculled (es ! q) \<Longrightarrow> map unculled (es[q := e]) = map unculled es"
  by (metis list_update_id map_update)

lemma pick_winners_culled:
  "rated s \<Longrightarrow> \<forall>i\<in>set is. i < length (top_rated s) \<Longrightarrow> \<exists>t. pick_winners is v s = Inr t \<and> culled s t"
proof (induction "is" arbitrary: v s)
  case Nil
  then show ?case by (simp add: culled_refl)
next
  case (Cons i js)
  note IH = Cons.IH[OF Cons.prems(1)]
  show ?case
  proof (cases "top_rated s ! i")
    case None
    then show ?thesis using IH Cons.prems(2) by simp
  next
    case (Some t)
    have r: "refs_ok (qs s) (top_rated s)" using Cons.prems(1) by (simp add: rated_def rate_ok_def)
    have t: "t < length (qs s)" "slots (top_rated s) t \<noteq> {}" using refs_okD(1)[OF r _ Some] Cons.prems(2) Some by (auto simp: slots_def)
    then obtain tm where tm: "trace_mini (qs s ! t) = Some tm" using refs_okD(3)[OF r t(1)] by auto
    define s1 where "s1 = s\<lparr>qs := (qs s)[t := (qs s ! t)\<lparr>favored := True\<rparr>], queued_favored := queued_favored s + 1,
       pending_favored := (if was_fuzzed (qs s ! t) then pending_favored s else pending_favored s + 1)\<rparr>"
    have c: "culled s s1" by (simp add: culled_def s1_def unculled_upd unculled_def)
    have "\<exists>u. pick_winners js w s1 = Inr u \<and> culled s1 u" for w
      by (rule Cons.IH[OF culled_rated[OF c Cons.prems(1)]]) (use Cons.prems(2) in \<open>simp add: s1_def\<close>)
    then have "\<exists>u. pick_winners js w s1 = Inr u \<and> culled s u" for w using culled_trans[OF c] by blast
    moreover have "pick_winners (i # js) v s = (if bit (v ! (i div 8)) (i mod 8)
        then pick_winners js (map2 (\<lambda>v m. if m \<noteq> 0 then v AND NOT m else v) v tm) s1 else pick_winners js v s)"
      using Some tm t(1) by (simp add: s1_def upd_q_def Let_def)
    ultimately show ?thesis using IH Cons.prems(2) by simp
  qed
qed

lemma mark_as_redundant_culled:
  assumes "CHR ''/'' \<in> set (fname (qs s ! q))" "q < length (qs s)"
  shows "okE (culled s) (mark_as_redundant q st s)"
proof -
  have b: "base_name (fname (qs s ! q)) \<noteq> None" using assms(1) by (simp add: base_name_def)
  have "culled s (upd_q q (\<lambda>e. e\<lparr>fs_redundant := st\<rparr>) s)" "culled s ((upd_q q (\<lambda>e. e\<lparr>fs_redundant := st\<rparr>) s)\<lparr>fs := f\<rparr>)" for f
    by (simp_all add: culled_def upd_q_def unculled_upd unculled_def)
  then show ?thesis using b assms(2)
    by (auto simp: mark_as_redundant_def culled_refl Let_def create_excl_def split: option.split)
qed

lemma mark_redundant_loop_culled:
  assumes "\<And>j. j < length (qs s) \<Longrightarrow> q_next (qs s ! j) = next_of (length (qs s)) j"
    and "\<And>j. j < length (qs s) \<Longrightarrow> CHR ''/'' \<in> set (fname (qs s ! j))" and "i < length (qs s)" "length (qs s) - i \<le> fuel"
  shows "okE (culled s) (mark_redundant_loop fuel (Some i) s)"
  using assms
proof (induction fuel arbitrary: i s)
  case 0
  then show ?case by simp
next
  case (Suc fuel)
  have "okE (culled s) (bindE (mark_as_redundant i (\<not> favored (qs s ! i)) s) (\<lambda>s. mark_redundant_loop fuel (q_next (qs s ! i)) s))"
  proof (rule okE_bind[OF mark_as_redundant_culled[OF Suc.prems(2)[OF Suc.prems(3)] Suc.prems(3)]])
    fix t :: "'a q_state_scheme" assume c: "culled s t"
    note e = culled_entry[OF c]
    have n: "q_next (qs t ! i) = next_of (length (qs t)) i" using e(1) e(2)[OF Suc.prems(3)] Suc.prems(1,3) by simp
    show "okE (culled s) (mark_redundant_loop fuel (q_next (qs t ! i)) t)"
    proof (cases "Suc i < length (qs s)")
      case True
      have "okE (culled t) (mark_redundant_loop fuel (Some (Suc i)) t)"
        by (rule Suc.IH) (use e(1,2) Suc.prems True in auto)
      then show ?thesis using True e(1) n culled_trans[OF c] by (auto simp: next_of_def intro: okE_mono)
    next
      case False
      then show ?thesis using e(1) n c by (simp add: next_of_def)
    qed
  qed
  then show ?case by simp
qed

lemma cull_queue_culled:
  assumes "queue_inv s" "rated s" "\<forall>e\<in>set (qs s). CHR ''/'' \<in> set (fname e)"
  shows "okE (culled s) (cull_queue s)"
proof (cases "dumb_mode s \<noteq> 0 \<or> \<not> score_changed s")
  case True
  then show ?thesis by (simp add: cull_queue_def culled_refl)
next
  case False
  let ?s0 = "s\<lparr>score_changed := False, queued_favored := 0, pending_favored := 0\<rparr>"
  have qi: "\<And>j. j < length (qs s) \<Longrightarrow> q_next (qs s ! j) = next_of (length (qs s)) j"
    "queue s = (if qs s = [] then None else Some 0)" using assms(1) by (auto simp: queue_inv_def Let_def)
  have cl: "clear_favored (length (qs s)) (queue s) (qs s) = Inr (map unfav (qs s))"
    using clear_favored_ok[OF qi(1), of 0 "length (qs s)"] qi(2) by (cases "qs s = []") auto
  have c0: "culled s (?s0\<lparr>qs := map unfav (qs s)\<rparr>)" by (simp add: culled_def unculled_def unfav_def comp_def)
  obtain t where t: "pick_winners [0..<length (top_rated s)] (replicate (length (top_rated s) div 8) 255) (?s0\<lparr>qs := map unfav (qs s)\<rparr>) = Inr t"
      "culled (?s0\<lparr>qs := map unfav (qs s)\<rparr>) t"
    using pick_winners_culled[OF culled_rated[OF c0 assms(2)], of "[0..<length (top_rated s)]"] by auto
  have ct: "culled s t" by (rule culled_trans[OF c0 t(2)])
  note e = culled_entry[OF ct]
  have "okE (culled t) (mark_redundant_loop (length (qs t)) (queue t) t)"
    using mark_redundant_loop_culled[of t 0 "length (qs t)"] e(1,2,4) qi assms(3) by (cases "qs s = []") (auto simp: culled_refl)
  then have "okE (culled s) (mark_redundant_loop (length (qs t)) (queue t) t)" by (rule okE_mono) (rule culled_trans[OF ct])
  then show ?thesis using False cl t(1) by (simp add: cull_queue_def)
qed

text \<open>A small queue, for the examples below: two entries, the first one rated for bytes 1 and 3 of an eight-byte map.\<close>

definition empty_q :: q_state where
  "empty_q = \<lparr>trace_bits = [0, 1, 0, 1, 0, 0, 0, 0], virgin_bits = replicate 8 255, virgin_tmout = replicate 8 255,
     virgin_crash = replicate 8 255, var_bytes = replicate 8 0, bitmap_changed = False,
     random_src = (\<lambda>i. i), random_pos = 0, urandom_src = (\<lambda>i. 0), urandom_pos = 0, rand_cnt = 5, queue_cycle = 1, run_over10m = False,
     fs = Map.empty, out_dir = ''o'', time_src = (\<lambda>i. of_nat i), time_pos = 0, qs = [], queue = None, queue_cur = None,
     queue_top = None, q_prev100 = None, top_rated = replicate 8 None, score_changed = False, dumb_mode = 0,
     queued_paths = 0, queued_favored = 0, pending_not_fuzzed = 0, pending_favored = 0, cur_depth = 0, max_depth = 0,
     cycles_wo_finds = 3, last_path_time = 0\<rparr>"

lemma empty_q_invs: "queue_inv empty_q" "score_inv empty_q"
  by (simp_all add: empty_q_def queue_inv_def prev100_of_def score_inv_def score_ok_def)

definition example_q0 :: q_state where
  "example_q0 = add_to_queue ''q/b'' 5 False (add_to_queue ''q/a'' 4 False empty_q)"

definition example_q :: q_state where
  "example_q = update_bitmap_score 0 example_q0"

lemma example_q0_invs: "queue_inv example_q0" "score_inv example_q0"
proof -
  let ?s1 = "add_to_queue ''q/a'' 4 False empty_q"
  have l: "length (qs empty_q) = 0" by (simp add: empty_q_def)
  have i1: "queue_inv ?s1" "score_inv ?s1"
    using add_to_queue_queue_inv[OF empty_q_invs(1)] add_to_queue_score_inv[OF empty_q_invs(1) _ empty_q_invs(2)] l by simp_all
  show "queue_inv example_q0" "score_inv example_q0"
    unfolding example_q0_def
    using add_to_queue_queue_inv[OF i1(1)] add_to_queue_score_inv[OF i1(1) _ i1(2)] l by simp_all
qed

lemma example_q0_fields:
  "qs example_q0 = [(new_entry ''q/a'' 4 False 1)\<lparr>q_next := Some 1\<rparr>, new_entry ''q/b'' 5 False 1]"
  "dumb_mode example_q0 = 0" "top_rated example_q0 = replicate 8 None"
  "trace_bits example_q0 = [0, 1, 0, 1, 0, 0, 0, 0]" "fs example_q0 = Map.empty"
  by (simp_all add: example_q0_def add_to_queue_def empty_q_def get_cur_time_def new_entry_def upd_q_def Let_def)

lemma example_q0_fresh:
  "0 < length (qs example_q0)" "\<forall>tm. trace_mini (qs example_q0 ! 0) = Some tm \<longrightarrow> tm = mini_of (trace_bits example_q0)"
  by (simp_all add: example_q0_fields new_entry_def)

lemmas example_q_run = update_bitmap_score_run[OF example_q0_invs(2) example_q0_fresh, folded example_q_def]

lemma example_q_fields:
  "map fname (qs example_q) = [''q/a'', ''q/b'']" "map fs_redundant (qs example_q) = [False, False]"
  "fs example_q = Map.empty" "dumb_mode example_q = 0" "length (qs example_q) = 2"
proof -
  have R: "example_q\<lparr>qs := qs example_q0, top_rated := top_rated example_q0, score_changed := score_changed example_q0\<rparr> = example_q0"
    and U: "map unscored (qs example_q) = map unscored (qs example_q0)"
    using example_q_run by blast+
  show "map fname (qs example_q) = [''q/a'', ''q/b'']" "map fs_redundant (qs example_q) = [False, False]"
    using arg_cong[OF U, of "map fname"] arg_cong[OF U, of "map fs_redundant"]
    by (simp_all add: comp_def unscored_def example_q0_fields new_entry_def)
  show "fs example_q = Map.empty" "dumb_mode example_q = 0"
    using arg_cong[OF R, of fs] arg_cong[OF R, of dumb_mode] by (simp_all add: example_q0_fields)
  show "length (qs example_q) = 2" using arg_cong[OF U, of length] by (simp add: example_q0_fields)
qed

lemma example_q_invs:
  "queue_inv example_q" "score_inv example_q" "marks_inv example_q" "score_changed example_q"
proof -
  show "queue_inv example_q" "score_inv example_q"
    using update_bitmap_score_queue_inv[OF example_q0_invs example_q0_fresh] example_q_run by (simp_all add: example_q_def)
  show "score_changed example_q"
    unfolding example_q_def update_bitmap_score_def example_q0_fields(4)
    by (simp add: example_q0_fields update_score_at_def take_slot_def Let_def upt_rec[of 0 8] upt_rec_numeral numeral_eq_Suc)
  show "marks_inv example_q" using example_q_fields
    by (auto simp: marks_inv_def base_name_def map_eq_Cons_conv less_2_cases_iff)
qed

theorem add_to_queue_spec_witness:
  "queue_inv (add_to_queue ''q/a'' 4 False empty_q) \<and>
    map unlink (qs (add_to_queue ''q/a'' 4 False empty_q)) = [new_entry ''q/a'' 4 False 1] \<and>
    max_depth (add_to_queue ''q/a'' 4 False empty_q) = 1"
  using add_to_queue_spec[OF empty_q_invs(1), of "''q/a''" 4 False] by (simp add: empty_q_def)

lemma destroy_queue_frees_all_witness:
  "destroy_queue example_q = Inr [0, 1]"
  using destroy_queue_frees_all[OF example_q_invs(1)] by (simp add: example_q_fields upt_rec numeral_2_eq_2)

lemma funpow_add_to_queue:
  assumes "queue_inv s" "length (qs s) + k < 2 ^ 32"
  shows "queue_inv ((add_to_queue fn l det ^^ k) s) \<and> length (qs ((add_to_queue fn l det ^^ k) s)) = length (qs s) + k"
  using assms(2) by (induction k) (auto intro!: add_to_queue_queue_inv assms(1))

theorem seek_entry_spec_witness:
  "let s = (add_to_queue ''q/a'' 4 False ^^ 101) empty_q in
   seek_entry 99 (qs s) (queue s) = Inr (Some 99) \<and> seek_entry 100 (qs s) (queue s) = Inr (Some 99)"
proof -
  let ?s = "(add_to_queue ''q/a'' 4 False ^^ 101) empty_q"
  have "length (qs empty_q) = 0" by (simp add: empty_q_def)
  then have i: "queue_inv ?s" "length (qs ?s) = 101"
    using funpow_add_to_queue[OF empty_q_invs(1), of 101 "''q/a''" 4 False] by auto
  show ?thesis unfolding Let_def using seek_entry_spec[OF i(1), of 99] seek_entry_spec[OF i(1), of 100] i(2) by simp
qed
theorem update_bitmap_score_spec_witness:
  "score_inv example_q \<and> top_rated example_q = [None, Some 0, None, Some 0, None, None, None, None]"
  using update_bitmap_score_spec[OF example_q0_invs(2) example_q0_fresh, folded example_q_def]
  by (simp add: example_q0_fields slot_winner_def upt_rec numeral_eq_Suc)

theorem cull_queue_spec_witness:
  "\<exists>s'. cull_queue example_q = Inr s' \<and> marks_inv s' \<and> queued_favored s' = of_nat (card (favs (qs s')))"
  using cull_queue_spec[OF example_q_invs(1-3) example_q_fields(4) example_q_invs(4)] by blast

end
