(* ===== verification/Afl_Extras.thy ===== *)
theory Afl_Extras
  imports Afl_Queue Afl_Mutators
begin

unbundle bit_operations_syntax

text \<open>
  The dictionaries of \<open>afl-fuzz.c\<close>: the tokens the user gives (\<open>load_extras\<close>,
  \<open>load_extras_file\<close>) and the tokens found while flipping bits (\<open>maybe_add_auto\<close>,
  \<open>save_auto\<close>, \<open>load_auto\<close>). A token is its byte list; \<open>len\<close> of the C structure is the
  length of that list. Directory listings are an argument of \<open>load_extras\<close>.
\<close>

section \<open>State\<close>

record extra_data =
  ed_data :: "u8 list"
  ed_hit :: u32

record ex_state = q_state +
  extras :: "extra_data list"
  a_extras :: "extra_data list"
  auto_changed :: bool
  in_dir :: string

definition MIN_AUTO_EXTRA :: nat where "MIN_AUTO_EXTRA = 3"
definition MAX_AUTO_EXTRA :: nat where "MAX_AUTO_EXTRA = 32"
definition MAX_DET_EXTRAS :: nat where "MAX_DET_EXTRAS = 200"
definition USE_AUTO_EXTRAS :: nat where "USE_AUTO_EXTRAS = 50"
definition MAX_AUTO_EXTRAS :: nat where "MAX_AUTO_EXTRAS = USE_AUTO_EXTRAS * 10"
definition MAX_DICT_FILE :: nat where "MAX_DICT_FILE = 128"
definition MAX_LINE :: nat where "MAX_LINE = 8192"

declare MIN_AUTO_EXTRA_def [cfg_simps] MAX_AUTO_EXTRA_def [cfg_simps] MAX_DET_EXTRAS_def [cfg_simps]
  USE_AUTO_EXTRAS_def [cfg_simps] MAX_AUTO_EXTRAS_def [cfg_simps] MAX_DICT_FILE_def [cfg_simps] MAX_LINE_def [cfg_simps]

section \<open>Character classes of the C locale\<close>

definition isspace :: "u8 \<Rightarrow> bool" where
  "isspace c \<longleftrightarrow> (9 \<le> c \<and> c \<le> 13) \<or> c = 32"

definition isdigit :: "u8 \<Rightarrow> bool" where
  "isdigit c \<longleftrightarrow> 48 \<le> c \<and> c \<le> 57"

definition isalnum :: "u8 \<Rightarrow> bool" where
  "isalnum c \<longleftrightarrow> isdigit c \<or> (65 \<le> c \<and> c \<le> 90) \<or> (97 \<le> c \<and> c \<le> 122)"

definition isxdigit :: "u8 \<Rightarrow> bool" where
  "isxdigit c \<longleftrightarrow> isdigit c \<or> (65 \<le> c \<and> c \<le> 70) \<or> (97 \<le> c \<and> c \<le> 102)"

definition tolower :: "u8 \<Rightarrow> u8" where
  "tolower c = (if 65 \<le> c \<and> c \<le> 90 then c + 32 else c)"

text \<open>\<open>strchr(hexdigits, tolower(c)) - hexdigits\<close> for a hexadecimal digit.\<close>

definition hexval :: "u8 \<Rightarrow> u8" where
  "hexval c = (let c = tolower c in if isdigit c then c - 48 else c - 87)"

definition bytes_of :: "string \<Rightarrow> u8 list" where
  "bytes_of s = map of_char s"

text \<open>\<open>atoi\<close>: white space, a sign, digits; values that do not fit an \<open>int\<close> are not looked at.\<close>

definition atoi :: "u8 list \<Rightarrow> int" where
  "atoi s =
     (let s = dropWhile isspace s;
          (sg, s) = (case s of c # r \<Rightarrow> if c = 45 then (-1, r) else if c = 43 then (1, r) else (1, s) | [] \<Rightarrow> (1, s))
      in sg * foldl (\<lambda>v c. 10 * v + (uint c - 48)) 0 (takeWhile isdigit s))"

section \<open>Reading a dictionary file\<close>

text \<open>One line: skipped, rejected with one of the four messages, or a token.\<close>

datatype dict_line = Skip | Malformed string | Token "u8 list"

text \<open>The text between the quotes, with its escapes.\<close>

fun unescape :: "u8 list \<Rightarrow> string + u8 list" where
  "unescape [] = Inr []"
| "unescape (c # cs) =
     (if (1 \<le> c \<and> c \<le> 31) \<or> 128 \<le> c then Inl ''Non-printable characters''
      else if c = 92 then
        (case cs of
           [] \<Rightarrow> Inl ''Invalid escaping''
         | d # ds \<Rightarrow>
             if d = 92 \<or> d = 34 then map_sum id ((#) d) (unescape ds)
             else if d \<noteq> 120 then Inl ''Invalid escaping''
             else (case ds of
                     h # l # es \<Rightarrow>
                       if isxdigit h \<and> isxdigit l
                       then map_sum id ((#) (push_bit 4 (hexval h) OR hexval l)) (unescape es)
                       else Inl ''Invalid escaping''
                   | _ \<Rightarrow> Inl ''Invalid escaping''))
      else map_sum id ((#) c) (unescape cs))"

definition parse_extra_line :: "u32 \<Rightarrow> u8 list \<Rightarrow> dict_line" where
  "parse_extra_line dict_level line =
     (let l = dropWhile isspace line;
          l = rev (dropWhile isspace (rev l))
      in if l = [] \<or> hd l = 35 then Skip
         else if last l \<noteq> 34 then Malformed ''Malformed name=value pair''
         else
           let l = butlast l;
               l = dropWhile (\<lambda>c. isalnum c \<or> c = 95) l;
               (skip, l) =
                 (if l \<noteq> [] \<and> hd l = 64 then
                    (let l = tl l in
                     if (of_int (atoi l) :: u32) > dict_level then (True, l) else (False, dropWhile isdigit l))
                  else (False, l))
           in if skip then Skip
              else
                let l = dropWhile (\<lambda>c. isspace c \<or> c = 61) l in
                if l = [] \<or> hd l \<noteq> 34 then Malformed ''Malformed name=keyword pair''
                else
                  let l = tl l in
                  if l = [] then Malformed ''Empty keyword''
                  else (case unescape l of
                          Inl msg \<Rightarrow> Malformed msg
                        | Inr tok \<Rightarrow> if length tok > MAX_DICT_FILE then Malformed ''Keyword too big'' else Token tok))"

text \<open>
  \<open>fgets(buf, MAX_LINE, f)\<close> until the end of the file: at most \<open>MAX_LINE - 1\<close> characters, up to and
  including a newline; the code sees each line up to its first zero byte.
\<close>

function fgets_lines :: "u8 list \<Rightarrow> u8 list list" where
  "fgets_lines bs =
     (if bs = [] then []
      else let pre = takeWhile (\<lambda>c. c \<noteq> 10) (take (MAX_LINE - 1) bs);
               n = (if length pre < min (MAX_LINE - 1) (length bs) then length pre + 1 else length pre)
           in takeWhile (\<lambda>c. c \<noteq> 0) (take n bs) # fgets_lines (drop n bs))"
  by pat_completeness auto
termination
proof (relation "measure length")
  fix bs pre n
  assume a: "bs \<noteq> []" "pre = takeWhile (\<lambda>c. c \<noteq> 10) (take (MAX_LINE - 1) (bs :: u8 list))"
    "n = (if length pre < min (MAX_LINE - 1) (length bs) then length pre + 1 else length pre)"
  have "0 < min (MAX_LINE - 1) (length bs)" using a(1) by (simp add: cfg_simps)
  then have "0 < n" using a(3) by (auto split: if_splits)
  then show "(drop n bs, bs) \<in> measure length" using a(1) by simp
qed simp

declare fgets_lines.simps [simp del]

fun add_extra_lines :: "u32 \<Rightarrow> u8 list list \<Rightarrow> nat \<times> nat \<times> extra_data list \<Rightarrow> err + nat \<times> nat \<times> extra_data list" where
  "add_extra_lines dict_level [] acc = Inr acc"
| "add_extra_lines dict_level (l # ls) (mn, mx, es) =
     (case parse_extra_line dict_level l of
        Skip \<Rightarrow> add_extra_lines dict_level ls (mn, mx, es)
      | Malformed msg \<Rightarrow> Inl (FATAL msg)
      | Token t \<Rightarrow> add_extra_lines dict_level ls (min mn (length t), max mx (length t), es @ [\<lparr>ed_data = t, ed_hit = 0\<rparr>]))"

definition load_extras_file :: "string \<Rightarrow> nat \<times> nat \<Rightarrow> u32 \<Rightarrow> 'a ex_state_scheme \<Rightarrow> err + (nat \<times> nat) \<times> 'a ex_state_scheme" where
  "load_extras_file fn mm dict_level s =
     (case fs s fn of
        Some (File bs) \<Rightarrow>
          bindE (add_extra_lines dict_level (fgets_lines bs) (fst mm, snd mm, extras s)) (\<lambda>(mn, mx, es).
            Inr ((mn, mx), s\<lparr>extras := es\<rparr>))
      | _ \<Rightarrow> Inl (PFATAL ''Unable to open''))"

section \<open>Sorting and loading\<close>

definition compare_extras_len :: "extra_data \<Rightarrow> extra_data \<Rightarrow> int" where
  "compare_extras_len e1 e2 = sint (of_nat (length (ed_data e1)) - of_nat (length (ed_data e2)) :: u32)"

definition compare_extras_use_d :: "extra_data \<Rightarrow> extra_data \<Rightarrow> int" where
  "compare_extras_use_d e1 e2 = sint (ed_hit e2 - ed_hit e1)"

text \<open>The sorting function of the C library, as an insertion sort that keeps the order of equal elements.\<close>

fun q_insert :: "('e \<Rightarrow> 'e \<Rightarrow> int) \<Rightarrow> 'e \<Rightarrow> 'e list \<Rightarrow> 'e list" where
  "q_insert cmp x [] = [x]"
| "q_insert cmp x (y # ys) = (if cmp x y \<le> 0 then x # y # ys else y # q_insert cmp x ys)"

definition qsort :: "('e \<Rightarrow> 'e \<Rightarrow> int) \<Rightarrow> 'e list \<Rightarrow> 'e list" where
  "qsort cmp xs = foldr (q_insert cmp) xs []"

text \<open>What \<open>opendir\<close> and \<open>readdir\<close> say: no directory but a file, an error, or the regular files with their names and the others.\<close>

datatype dir_entry = Regular string "u8 list" | Other string
datatype dir_result = NotDir | OpenError | Entries "dir_entry list"

fun add_extra_entries :: "dir_entry list \<Rightarrow> nat \<times> nat \<times> extra_data list \<Rightarrow> err + nat \<times> nat \<times> extra_data list" where
  "add_extra_entries [] acc = Inr acc"
| "add_extra_entries (Other n # ds) acc = add_extra_entries ds acc"
| "add_extra_entries (Regular n bs # ds) (mn, mx, es) =
     (if bs = [] then add_extra_entries ds (mn, mx, es)
      else if length bs > MAX_DICT_FILE then Inl (FATAL ''Extra is too big'')
      else add_extra_entries ds (min mn (length bs), max mx (length bs), es @ [\<lparr>ed_data = bs, ed_hit = 0\<rparr>]))"

definition load_extras :: "(string \<Rightarrow> dir_result) \<Rightarrow> string \<Rightarrow> 'a ex_state_scheme \<Rightarrow> err + (nat \<times> nat) \<times> 'a ex_state_scheme" where
  "load_extras opendir dir s =
     (let at = CHR ''@'' \<in> set dir;
          lvl = (if at then of_int (atoi (bytes_of (tl (dropWhile (\<lambda>c. c \<noteq> CHR ''@'') dir)))) else 0 :: u32);
          dir = takeWhile (\<lambda>c. c \<noteq> CHR ''@'') dir
      in bindE
        (case opendir dir of
           NotDir \<Rightarrow> load_extras_file dir (MAX_DICT_FILE, 0) lvl s
         | OpenError \<Rightarrow> Inl (PFATAL ''Unable to open'')
         | Entries ds \<Rightarrow>
             if at then Inl (FATAL ''Dictionary levels not supported for directories'')
             else bindE (add_extra_entries ds (MAX_DICT_FILE, 0, extras s)) (\<lambda>(mn, mx, es).
                    Inr ((mn, mx), s\<lparr>extras := es\<rparr>)))
        (\<lambda>(mm, s).
          if extras s = [] then Inl (FATAL ''No usable files'')
          else Inr (mm, s\<lparr>extras := qsort compare_extras_len (extras s)\<rparr>)))"

section \<open>Automatic tokens\<close>

fun memcmp_nocase :: "u8 list \<Rightarrow> u8 list \<Rightarrow> nat \<Rightarrow> bool" where
  "memcmp_nocase m1 m2 0 = False"
| "memcmp_nocase m1 m2 (Suc n) =
     (if tolower (hd m1) XOR tolower (hd m2) \<noteq> 0 then True else memcmp_nocase (tl m1) (tl m2) n)"

definition run_of_bytes :: "u8 list \<Rightarrow> bool" where
  "run_of_bytes mem \<longleftrightarrow> mem \<noteq> [] \<and> (\<forall>b\<in>set (tl mem). hd mem XOR b = 0)"

text \<open>
  The built-in values: the two-byte test promotes both sides to \<open>int\<close>, so that a negative
  \<open>interesting_16\<close> value never equals the unsigned word; the swapped value is unsigned again.
\<close>

definition builtin_interesting :: "u8 list \<Rightarrow> bool" where
  "builtin_interesting mem \<longleftrightarrow>
     (length mem = 2 \<and> (\<exists>v\<in>set interesting_16. uint (le_load mem :: u16) = v \<or> le_load mem = SWAP16 (of_int v))) \<or>
     (length mem = 4 \<and> (\<exists>v\<in>set interesting_32. (le_load mem :: u32) = of_int v \<or> le_load mem = SWAP32 (of_int v)))"

text \<open>The two loops over \<open>extras\<close>: skip the shorter ones, look at those of equal length.\<close>

definition known_extra :: "extra_data list \<Rightarrow> u8 list \<Rightarrow> bool" where
  "known_extra es mem \<longleftrightarrow>
     (\<exists>e\<in>set (takeWhile (\<lambda>e. length (ed_data e) = length mem) (dropWhile (\<lambda>e. length (ed_data e) < length mem) es)).
        \<not> memcmp_nocase (ed_data e) mem (length mem))"

fun bump_hit :: "extra_data list \<Rightarrow> u8 list \<Rightarrow> extra_data list option" where
  "bump_hit [] mem = None"
| "bump_hit (e # es) mem =
     (if length (ed_data e) = length mem \<and> \<not> memcmp_nocase (ed_data e) mem (length mem)
      then Some (e\<lparr>ed_hit := ed_hit e + 1\<rparr> # es)
      else map_option ((#) e) (bump_hit es mem))"

definition sort_a_extras :: "extra_data list \<Rightarrow> extra_data list" where
  "sort_a_extras es =
     (let es = qsort compare_extras_use_d es; n = min USE_AUTO_EXTRAS (length es)
      in qsort compare_extras_len (take n es) @ drop n es)"

definition maybe_add_auto :: "u8 list \<Rightarrow> 'a ex_state_scheme \<Rightarrow> err + 'a ex_state_scheme" where
  "maybe_add_auto mem s =
     (if MAX_AUTO_EXTRAS = 0 \<or> USE_AUTO_EXTRAS = 0 then Inr s
      else if run_of_bytes mem then Inr s
      else if builtin_interesting mem then Inr s
      else if known_extra (extras s) mem then Inr s
      else
        let s = s\<lparr>auto_changed := True\<rparr> in
        bindE
          (case bump_hit (a_extras s) mem of
             Some es \<Rightarrow> Inr (s\<lparr>a_extras := es\<rparr>)
           | None \<Rightarrow>
               if length (a_extras s) < MAX_AUTO_EXTRAS
               then Inr (s\<lparr>a_extras := a_extras s @ [\<lparr>ed_data = mem, ed_hit = 0\<rparr>]\<rparr>)
               else bindE (UR ((MAX_AUTO_EXTRAS + 1) div 2) s) (\<lambda>(r, s).
                      Inr (s\<lparr>a_extras := (a_extras s)[MAX_AUTO_EXTRAS div 2 + r := \<lparr>ed_data = mem, ed_hit = 0\<rparr>]\<rparr>)))
          (\<lambda>s. Inr (s\<lparr>a_extras := sort_a_extras (a_extras s)\<rparr>)))"

definition auto_path :: "string \<Rightarrow> nat \<Rightarrow> string" where
  "auto_path dir i = dir @ ''/.state/auto_extras/auto_'' @ fmt06 i"

definition save_auto :: "'a ex_state_scheme \<Rightarrow> 'a ex_state_scheme" where
  "save_auto s =
     (if \<not> auto_changed s then s
      else
        let s = s\<lparr>auto_changed := False\<rparr>
        in fold (\<lambda>i s. s\<lparr>fs := (fs s)(auto_path (out_dir s @ ''/queue'') i \<mapsto> File (ed_data (a_extras s ! i)))\<rparr>)
             [0..<min USE_AUTO_EXTRAS (length (a_extras s))] s)"

fun load_auto_loop :: "nat list \<Rightarrow> 'a ex_state_scheme \<Rightarrow> err + 'a ex_state_scheme" where
  "load_auto_loop [] s = Inr s"
| "load_auto_loop (i # is) s =
     (case fs s (auto_path (in_dir s) i) of
        None \<Rightarrow> Inr s
      | Some (Link _) \<Rightarrow> Inl (PFATAL ''Unable to open'')
      | Some (File bs) \<Rightarrow>
          let tmp = take (MAX_AUTO_EXTRA + 1) bs in
          bindE (if MIN_AUTO_EXTRA \<le> length tmp \<and> length tmp \<le> MAX_AUTO_EXTRA then maybe_add_auto tmp s else Inr s)
            (load_auto_loop is))"

definition load_auto :: "'a ex_state_scheme \<Rightarrow> err + 'a ex_state_scheme" where
  "load_auto s = load_auto_loop [0..<USE_AUTO_EXTRAS] s"

section \<open>Sorting\<close>

text \<open>
  What the sorting function needs of a comparison: on the elements at hand it decides the order
  of some key. The two comparisons of the source are differences of unsigned numbers read as a
  signed one, which is so below \<open>2 ^ 31\<close>.
\<close>

locale comparison =
  fixes cmp :: "'e \<Rightarrow> 'e \<Rightarrow> int" and key :: "'e \<Rightarrow> int" and small :: "'e \<Rightarrow> bool"
  assumes cmp_key: "small x \<Longrightarrow> small y \<Longrightarrow> cmp x y \<le> 0 \<longleftrightarrow> key x \<le> key y"
begin

lemma q_insert_sorted:
  assumes "small x" "\<forall>y\<in>set ys. small y" "sorted (map key ys)"
  shows "sorted (map key (q_insert cmp x ys))"
  using assms
proof (induction ys)
  case Nil
  then show ?case by simp
next
  case (Cons y ys)
  have "set (q_insert cmp x ys) = insert x (set ys)" for ys by (induction ys) auto
  then show ?case using Cons cmp_key[of x y] by auto
qed

lemma qsort_sorted: "\<forall>y\<in>set xs. small y \<Longrightarrow> sorted (map key (qsort cmp xs))"
proof (induction xs)
  case Nil
  then show ?case by (simp add: qsort_def)
next
  case (Cons x xs)
  have "set (q_insert cmp x ys) = insert x (set ys)" for x ys by (induction ys) auto
  then have "set (foldr (q_insert cmp) xs []) = set xs" for xs by (induction xs) auto
  then show ?case using Cons q_insert_sorted[of x "qsort cmp xs"] by (simp add: qsort_def)
qed

end

lemma mset_q_insert: "mset (q_insert cmp x ys) = add_mset x (mset ys)"
  by (induction ys) auto

lemma mset_qsort [simp]: "mset (qsort cmp xs) = mset xs"
  unfolding qsort_def by (induction xs) (auto simp: mset_q_insert)

lemma set_qsort [simp]: "set (qsort cmp xs) = set xs"
  using mset_qsort[of cmp xs] by (metis set_mset_mset)

lemma length_qsort [simp]: "length (qsort cmp xs) = length xs"
  using mset_qsort[of cmp xs] by (metis size_mset)

lemma sint_diff_small:
  fixes a b :: u32
  assumes "uint a < 2 ^ 31" "uint b < 2 ^ 31"
  shows "sint (a - b) = uint a - uint b"
proof -
  have ab: "a - b = word_of_int (uint a - uint b)" by simp
  have "- (2 ^ 31) \<le> uint a - uint b" "uint a - uint b < 2 ^ 31"
    using assms uint_nonnegative[of a] uint_nonnegative[of b] by linarith+
  then have "signed_take_bit 31 (uint a - uint b) = uint a - uint b"
    by (simp add: signed_take_bit_int_eq_self)
  then show ?thesis unfolding ab signed_of_int by simp
qed

lemma uint_of_nat_small: "n < 2 ^ 32 \<Longrightarrow> uint (of_nat n :: u32) = int n"
  by (simp add: uint_nat unat_of_nat take_bit_nat_eq_self)

interpretation by_len: comparison compare_extras_len "\<lambda>e. int (length (ed_data e))" "\<lambda>e. length (ed_data e) < 2 ^ 31"
proof
  fix x y :: extra_data
  assume a: "length (ed_data x) < 2 ^ 31" "length (ed_data y) < 2 ^ 31"
  then show "compare_extras_len x y \<le> 0 \<longleftrightarrow> int (length (ed_data x)) \<le> int (length (ed_data y))"
    unfolding compare_extras_len_def
    by (subst sint_diff_small) (simp_all add: uint_of_nat_small)
qed

interpretation by_use: comparison compare_extras_use_d "\<lambda>e. - uint (ed_hit e)" "\<lambda>e. uint (ed_hit e) < 2 ^ 31"
  by unfold_locales (simp add: compare_extras_use_d_def sint_diff_small)

section \<open>Automatic tokens\<close>

definition lower :: "u8 list \<Rightarrow> u8 list" where "lower m = map tolower m"

lemma byte_xor_0: "(x XOR y = 0) = (x = y)" for x y :: u8
  by (metis xor.right_neutral xor_self_eq xor.assoc)

lemma memcmp_nocase_lower:
  "length a = n \<Longrightarrow> length b = n \<Longrightarrow> memcmp_nocase a b n \<longleftrightarrow> lower a \<noteq> lower b"
proof (induction n arbitrary: a b)
  case 0
  then show ?case by (simp add: lower_def)
next
  case (Suc n)
  then obtain x a' y b' where ab: "a = x # a'" "b = y # b'" by (metis length_Suc_conv)
  then show ?case using Suc.IH[of a' b'] Suc.prems by (auto simp: lower_def byte_xor_0)
qed

lemma lower_length: "lower a = lower b \<Longrightarrow> length a = length b"
  unfolding lower_def by (metis length_map)

lemma set_takeWhile_sorted:
  fixes f :: "'e \<Rightarrow> nat"
  assumes "sorted (map f xs)" "\<forall>x\<in>set xs. n \<le> f x"
  shows "set (takeWhile (\<lambda>e. f e = n) xs) = {x\<in>set xs. f x = n}"
  using assms
proof (induction xs)
  case (Cons x xs)
  show ?case
  proof (cases "f x = n")
    case True
    then show ?thesis using Cons by auto
  next
    case False
    then show ?thesis using Cons.prems by fastforce
  qed
qed simp

lemma set_dropWhile_sorted:
  fixes f :: "'e \<Rightarrow> nat"
  assumes "sorted (map f xs)"
  shows "set (dropWhile (\<lambda>e. f e < n) xs) = {x\<in>set xs. n \<le> f x} \<and> sorted (map f (dropWhile (\<lambda>e. f e < n) xs))"
  using assms
proof (induction xs)
  case (Cons x xs)
  show ?case
  proof (cases "f x < n")
    case True
    then show ?thesis using Cons by auto
  next
    case False
    then show ?thesis using Cons.prems by auto
  qed
qed simp

lemma known_extra_iff:
  assumes "sorted (map (\<lambda>e. length (ed_data e)) es)"
  shows "known_extra es mem \<longleftrightarrow> (\<exists>e\<in>set es. lower (ed_data e) = lower mem)"
proof -
  let ?f = "\<lambda>e. length (ed_data e)" and ?n = "length mem"
  note D = set_dropWhile_sorted[OF assms, of ?n]
  have "set (takeWhile (\<lambda>e. ?f e = ?n) (dropWhile (\<lambda>e. ?f e < ?n) es)) = {e\<in>set es. ?f e = ?n}"
    using set_takeWhile_sorted[OF conjunct2[OF D], of ?n] conjunct1[OF D] by auto
  then have "known_extra es mem \<longleftrightarrow> (\<exists>e\<in>set es. ?f e = ?n \<and> \<not> memcmp_nocase (ed_data e) mem ?n)"
    unfolding known_extra_def by auto
  also have "\<dots> \<longleftrightarrow> (\<exists>e\<in>set es. lower (ed_data e) = lower mem)"
    using memcmp_nocase_lower[of _ ?n mem] lower_length by blast
  finally show ?thesis .
qed

lemma bump_hit_None: "bump_hit es mem = None \<longleftrightarrow> (\<forall>e\<in>set es. lower (ed_data e) \<noteq> lower mem)"
  by (induction es) (auto simp: memcmp_nocase_lower dest: lower_length)

lemma bump_hit_Some:
  assumes "bump_hit es mem = Some es'"
  shows "map ed_data es' = map ed_data es \<and> (\<exists>e\<in>set es. lower (ed_data e) = lower mem) \<and>
    (\<forall>e'\<in>set es'. \<exists>e\<in>set es. ed_hit e' = ed_hit e \<or> ed_hit e' = ed_hit e + 1)"
  using assms
proof (induction es arbitrary: es')
  case (Cons e es)
  show ?case
  proof (cases "length (ed_data e) = length mem \<and> lower (ed_data e) = lower mem")
    case True
    then show ?thesis using Cons.prems by (auto simp: memcmp_nocase_lower)
  next
    case False
    then obtain z where z: "bump_hit es mem = Some z" "es' = e # z"
      using Cons.prems by (auto simp: memcmp_nocase_lower split: if_splits)
    then show ?thesis using Cons.IH[OF z(1)] by (simp add: z(2))
  qed
qed simp

definition auto_inv :: "'a ex_state_scheme \<Rightarrow> bool" where
  "auto_inv s \<longleftrightarrow>
     length (a_extras s) \<le> MAX_AUTO_EXTRAS \<and>
     distinct (map (\<lambda>e. lower (ed_data e)) (a_extras s)) \<and>
     (\<forall>e\<in>set (a_extras s). 2 \<le> length (ed_data e) \<and> length (ed_data e) \<le> MAX_AUTO_EXTRA \<and>
        (\<forall>x\<in>set (extras s). lower (ed_data x) \<noteq> lower (ed_data e)))"

text \<open>The order the stages rely on: the most used tokens come first, and these are sorted by length.\<close>

definition auto_sorted :: "extra_data list \<Rightarrow> bool" where
  "auto_sorted es \<longleftrightarrow>
     sorted (map (\<lambda>e. int (length (ed_data e))) (take USE_AUTO_EXTRAS es)) \<and>
     (\<forall>x\<in>set (take USE_AUTO_EXTRAS es). \<forall>y\<in>set (drop USE_AUTO_EXTRAS es). ed_hit y \<le> ed_hit x)"

lemma mset_sort_a_extras [simp]: "mset (sort_a_extras es) = mset es"
  unfolding sort_a_extras_def Let_def by (simp, metis append_take_drop_id mset_append mset_qsort)

lemma sort_a_extras_sorted:
  assumes "\<forall>e\<in>set es. uint (ed_hit e) < 2 ^ 31 \<and> length (ed_data e) < 2 ^ 31"
  shows "auto_sorted (sort_a_extras es)"
proof -
  let ?es = "qsort compare_extras_use_d es" let ?n = "min USE_AUTO_EXTRAS (length es)"
  have s: "sorted (map (\<lambda>e. - uint (ed_hit e)) ?es)" using by_use.qsort_sorted assms by simp
  have t: "take USE_AUTO_EXTRAS (sort_a_extras es) = qsort compare_extras_len (take ?n ?es)"
    "drop USE_AUTO_EXTRAS (sort_a_extras es) = drop ?n ?es"
    by (cases "USE_AUTO_EXTRAS \<le> length es"; simp add: sort_a_extras_def Let_def min_def)+
  have "\<forall>x\<in>set (take ?n ?es). length (ed_data x) < 2 ^ 31" using assms by (auto dest!: in_set_takeD)
  then have 1: "sorted (map (\<lambda>e. int (length (ed_data e))) (qsort compare_extras_len (take ?n ?es)))"
    by (rule by_len.qsort_sorted)
  have "sorted (map (\<lambda>e. - uint (ed_hit e)) (take ?n ?es) @ map (\<lambda>e. - uint (ed_hit e)) (drop ?n ?es))"
    using s by (simp flip: map_append)
  then have "\<forall>x\<in>set (take ?n ?es). \<forall>y\<in>set (drop ?n ?es). - uint (ed_hit x) \<le> - uint (ed_hit y)"
    unfolding sorted_append by auto
  then show ?thesis unfolding auto_sorted_def t using 1 by (auto simp: word_le_def)
qed

lemma auto_inv_cong_mset:
  assumes "auto_inv s" "mset es = mset (a_extras s)"
  shows "auto_inv (s\<lparr>a_extras := es\<rparr>)"
proof -
  have "set es = set (a_extras s)" using assms(2) by (metis set_mset_mset)
  moreover have "length es = length (a_extras s)" using assms(2) by (metis size_mset)
  moreover have "mset (map (\<lambda>e. lower (ed_data e)) es) = mset (map (\<lambda>e. lower (ed_data e)) (a_extras s))" using assms(2) by simp
  then have "distinct (map (\<lambda>e. lower (ed_data e)) es) = distinct (map (\<lambda>e. lower (ed_data e)) (a_extras s))"
    by (rule mset_eq_imp_distinct_iff)
  ultimately show ?thesis using assms(1) by (simp add: auto_inv_def)
qed

lemma auto_inv_cong_data:
  assumes "auto_inv s" "map ed_data es = map ed_data (a_extras s)"
  shows "auto_inv (s\<lparr>a_extras := es\<rparr>)"
proof -
  have l: "map (\<lambda>e. lower (ed_data e)) es = map (\<lambda>e. lower (ed_data e)) (a_extras s)"
    using arg_cong[OF assms(2), of "map lower"] by (simp add: comp_def)
  have "ed_data ` set es = ed_data ` set (a_extras s)" using arg_cong[OF assms(2), of set] by simp
  then have "\<exists>x\<in>set (a_extras s). ed_data x = ed_data e" if "e \<in> set es" for e using that by (metis image_iff)
  then show ?thesis using assms(1) l map_eq_imp_length_eq[OF assms(2)] unfolding auto_inv_def by fastforce
qed

lemma auto_inv_new:
  assumes "auto_inv s" "bump_hit (a_extras s) mem = None" "\<not> (\<exists>x\<in>set (extras s). lower (ed_data x) = lower mem)"
    and "2 \<le> length mem" "length mem \<le> MAX_AUTO_EXTRA"
  shows "length (a_extras s) < MAX_AUTO_EXTRAS \<Longrightarrow> auto_inv (s\<lparr>a_extras := a_extras s @ [\<lparr>ed_data = mem, ed_hit = 0\<rparr>]\<rparr>)"
    and "i < length (a_extras s) \<Longrightarrow> auto_inv (s\<lparr>a_extras := (a_extras s)[i := \<lparr>ed_data = mem, ed_hit = 0\<rparr>]\<rparr>)"
proof -
  have nm: "\<forall>e\<in>set (a_extras s). lower (ed_data e) \<noteq> lower mem" using assms(2) by (simp add: bump_hit_None)
  show "length (a_extras s) < MAX_AUTO_EXTRAS \<Longrightarrow> auto_inv (s\<lparr>a_extras := a_extras s @ [\<lparr>ed_data = mem, ed_hit = 0\<rparr>]\<rparr>)"
    using assms nm by (auto simp: auto_inv_def)
  have "distinct ((map (\<lambda>e. lower (ed_data e)) (a_extras s))[i := lower mem])"
    using assms(1) nm by (intro distinct_list_update) (auto simp: auto_inv_def)
  then show "auto_inv (s\<lparr>a_extras := (a_extras s)[i := \<lparr>ed_data = mem, ed_hit = 0\<rparr>]\<rparr>)" if "i < length (a_extras s)"
    using assms that by (auto simp: auto_inv_def map_update dest!: set_update_subset_insert[THEN subsetD])
qed

definition wanted_token :: "u8 list \<Rightarrow> 'a ex_state_scheme \<Rightarrow> bool" where
  "wanted_token mem s \<longleftrightarrow> \<not> run_of_bytes mem \<and> \<not> builtin_interesting mem \<and> (\<forall>x\<in>set (extras s). lower (ed_data x) \<noteq> lower mem)"

lemma maybe_add_auto_cases:
  assumes "auto_inv s" "sorted (map (\<lambda>e. length (ed_data e)) (extras s))" "wanted_token mem s"
    and "2 \<le> length mem" "length mem \<le> MAX_AUTO_EXTRA"
  shows "\<exists>es s0. maybe_add_auto mem s = Inr (s0\<lparr>auto_changed := True, a_extras := sort_a_extras es\<rparr>) \<and> rng_only s s0 \<and>
    auto_inv (s0\<lparr>a_extras := es\<rparr>) \<and> (\<exists>e\<in>set es. lower (ed_data e) = lower mem) \<and>
    (\<forall>e'\<in>set es. ed_hit e' = 0 \<or> (\<exists>e\<in>set (a_extras s). ed_hit e' = ed_hit e \<or> ed_hit e' = ed_hit e + 1))"
proof -
  have kn: "\<not> known_extra (extras s) mem" "\<not> run_of_bytes mem" "\<not> builtin_interesting mem"
    using assms(3) known_extra_iff[OF assms(2)] by (auto simp: wanted_token_def)
  have nx: "\<not> (\<exists>x\<in>set (extras s). lower (ed_data x) = lower mem)" using assms(3) by (auto simp: wanted_token_def)
  have c: "MAX_AUTO_EXTRAS \<noteq> 0" "USE_AUTO_EXTRAS \<noteq> 0" by (simp_all add: cfg_simps)
  show ?thesis
  proof (cases "bump_hit (a_extras s) mem")
    case (Some es)
    note b = bump_hit_Some[OF Some]
    have "ed_data ` set es = ed_data ` set (a_extras s)" using arg_cong[OF conjunct1[OF b], of set] by simp
    then have "\<exists>e\<in>set es. lower (ed_data e) = lower mem" using b by (metis (no_types, lifting) image_iff)
    then show ?thesis using Some kn c b auto_inv_cong_data[OF assms(1) conjunct1[OF b]]
      by (intro exI[of _ es] exI[of _ s]) (simp add: maybe_add_auto_def)
  next
    case None
    note new = auto_inv_new[OF assms(1) None nx assms(4,5)]
    show ?thesis
    proof (cases "length (a_extras s) < MAX_AUTO_EXTRAS")
      case True
      then show ?thesis using None kn c new(1)
        by (intro exI[of _ "a_extras s @ [\<lparr>ed_data = mem, ed_hit = 0\<rparr>]"] exI[of _ s]) (auto simp: maybe_add_auto_def)
    next
      case False
      then have len: "length (a_extras s) = MAX_AUTO_EXTRAS" using assms(1) by (simp add: auto_inv_def)
      let ?s = "s\<lparr>auto_changed := True\<rparr>"
      obtain r s0 where r: "UR ((MAX_AUTO_EXTRAS + 1) div 2) s = Inr (r, s0)" "r < (MAX_AUTO_EXTRAS + 1) div 2" "rng_only s s0"
        using UR_ok[of "(MAX_AUTO_EXTRAS + 1) div 2" s] c by (auto simp: cfg_simps)
      have r': "UR ((MAX_AUTO_EXTRAS + 1) div 2) ?s = Inr (r, s0\<lparr>auto_changed := True\<rparr>)"
        using r(1) by (auto simp: UR_def Let_def cfg_simps)
      let ?i = "MAX_AUTO_EXTRAS div 2 + r"
      have i: "?i < length (a_extras s)" using r(2) len by (simp add: cfg_simps)
      have more: "a_extras s0 = a_extras s" "extras s0 = extras s"
        using arg_cong[OF r(3)[unfolded rng_only_def], of a_extras] arg_cong[OF r(3)[unfolded rng_only_def], of extras]
        by (simp_all add: rng_erase_def)
      let ?es = "(a_extras s)[?i := \<lparr>ed_data = mem, ed_hit = 0\<rparr>]"
      have "maybe_add_auto mem s = Inr (s0\<lparr>auto_changed := True, a_extras := sort_a_extras ?es\<rparr>)"
        using None kn c False r' more by (simp add: maybe_add_auto_def)
      moreover have "auto_inv (s0\<lparr>a_extras := ?es\<rparr>)" using new(2)[OF i] more by (simp add: auto_inv_def)
      moreover have "\<exists>e\<in>set ?es. lower (ed_data e) = lower mem" using set_update_memI[OF i] by (metis extra_data.select_convs(1))
      moreover have "\<forall>e'\<in>set ?es. ed_hit e' = 0 \<or> (\<exists>e\<in>set (a_extras s). ed_hit e' = ed_hit e \<or> ed_hit e' = ed_hit e + 1)"
        by (auto dest!: set_update_subset_insert[THEN subsetD])
      ultimately show ?thesis using r(3) by blast
    qed
  qed
qed

text \<open>
  C30. \<open>maybe_add_auto\<close> always ends without an error; the automatic dictionary never holds more than
  \<open>MAX_AUTO_EXTRAS\<close> tokens, never two tokens that differ in case only and never one the user gave.
  A wanted token is in the dictionary afterwards, and as long as the use counts stay below
  \<open>2 ^ 31\<close> the most used tokens come first, sorted by length. Other tokens change nothing.
\<close>

theorem maybe_add_auto_spec:
  assumes "auto_inv s" "sorted (map (\<lambda>e. length (ed_data e)) (extras s))"
    and "2 \<le> length mem" "length mem \<le> MAX_AUTO_EXTRA"
    and "\<forall>e\<in>set (a_extras s). ed_hit e < 2 ^ 31 - 1"
  shows "\<exists>s'. maybe_add_auto mem s = Inr s' \<and> auto_inv s' \<and> extras s' = extras s \<and>
    (if wanted_token mem s
     then (\<exists>e\<in>set (a_extras s'). lower (ed_data e) = lower mem) \<and> auto_sorted (a_extras s') \<and> auto_changed s'
     else s' = s)"
proof (cases "wanted_token mem s")
  case False
  then show ?thesis using assms(1) known_extra_iff[OF assms(2)] by (auto simp: maybe_add_auto_def wanted_token_def cfg_simps)
next
  case True
  from maybe_add_auto_cases[OF assms(1,2) True assms(3,4)] obtain es s0 where
    run: "maybe_add_auto mem s = Inr (s0\<lparr>auto_changed := True, a_extras := sort_a_extras es\<rparr>)" and ro: "rng_only s s0"
    and inv: "auto_inv (s0\<lparr>a_extras := es\<rparr>)" and found: "\<exists>e\<in>set es. lower (ed_data e) = lower mem"
    and hits: "\<forall>e'\<in>set es. ed_hit e' = 0 \<or> (\<exists>e\<in>set (a_extras s). ed_hit e' = ed_hit e \<or> ed_hit e' = ed_hit e + 1)" by blast
  have "uint (ed_hit e') < 2 ^ 31" if "e' \<in> set es" for e'
  proof -
    have u: "uint (w + 1) = uint w + 1" "uint w < 2 ^ 31 - 1" if "w < 2 ^ 31 - 1" for w :: u32
      using that by (auto simp: word_less_def uint_word_ariths)
    then show ?thesis using that hits assms(5) by fastforce
  qed
  moreover have "length (ed_data e) < 2 ^ 31" if "e \<in> set es" for e
  proof -
    have "length (ed_data e) \<le> 32" using inv that by (auto simp: auto_inv_def cfg_simps)
    then show ?thesis by simp
  qed
  ultimately have "auto_sorted (sort_a_extras es)" by (intro sort_a_extras_sorted) auto
  moreover have "auto_inv (s0\<lparr>auto_changed := True, a_extras := sort_a_extras es\<rparr>)"
    using auto_inv_cong_mset[OF inv, of "sort_a_extras es"] by (simp add: auto_inv_def)
  moreover have "extras s0 = extras s" using arg_cong[OF ro[unfolded rng_only_def], of extras] by (simp add: rng_erase_def)
  moreover have "set (sort_a_extras es) = set es" using mset_sort_a_extras[of es] by (metis set_mset_mset)
  ultimately show ?thesis using run found True by simp
qed

definition example_ex :: ex_state where
  "example_ex = q_state.extend example_q
     \<lparr>extras = [\<lparr>ed_data = bytes_of ''GET'', ed_hit = 0\<rparr>], a_extras = [\<lparr>ed_data = bytes_of ''IHDR'', ed_hit = 4\<rparr>],
      auto_changed = False, in_dir = ''in''\<rparr>"

theorem maybe_add_auto_spec_witness:
  "\<exists>s'. maybe_add_auto (bytes_of ''HELLO'') example_ex = Inr s' \<and> auto_inv s' \<and> auto_sorted (a_extras s') \<and>
     (\<exists>e\<in>set (a_extras s'). lower (ed_data e) = bytes_of ''hello'')"
proof -
  have "auto_inv example_ex" "sorted (map (\<lambda>e. length (ed_data e)) (extras example_ex))"
    "2 \<le> length (bytes_of ''HELLO'')" "length (bytes_of ''HELLO'') \<le> MAX_AUTO_EXTRA" "\<forall>e\<in>set (a_extras example_ex). ed_hit e < 2 ^ 31 - 1"
    by (simp_all add: example_ex_def q_state.extend_def auto_inv_def bytes_of_def cfg_simps lower_def)
  note T = maybe_add_auto_spec[OF this]
  have "wanted_token (bytes_of ''HELLO'') example_ex"
    by (simp add: example_ex_def q_state.extend_def wanted_token_def bytes_of_def lower_def run_of_bytes_def
        builtin_interesting_def byte_xor_0)
  moreover have "lower (bytes_of ''HELLO'') = bytes_of ''hello''" by (simp add: lower_def bytes_of_def tolower_def)
  ultimately show ?thesis using T by auto
qed

section \<open>Reading back an escaped token\<close>

definition hexchar :: "u8 \<Rightarrow> u8" where
  "hexchar n = (if n < 10 then 48 + n else 87 + n)"

text \<open>A dictionary writer: printable characters as they are, all others as hexadecimal escapes.\<close>

definition escape_byte :: "u8 \<Rightarrow> u8 list" where
  "escape_byte c =
     (if 32 \<le> c \<and> c < 127 \<and> c \<noteq> 34 \<and> c \<noteq> 92 then [c] else [92, 120, hexchar (drop_bit 4 c), hexchar (c AND 15)])"

lemma hexchar_props:
  assumes "n \<le> 15"
  shows "isxdigit (hexchar n)" "hexval (hexchar n) = n"
proof -
  have "unat n \<le> unat (15 :: u8)" using assms by (simp only: word_le_nat_alt)
  then obtain k where k: "n = of_nat k" "k < 16" by (intro that[of "unat n"]) simp_all
  then have "k \<in> {0,1,2,3,4,5,6,7,8,9,10,11,12,13,14,15}" unfolding insert_iff empty_iff by presburger
  then show "isxdigit (hexchar n)" "hexval (hexchar n) = n"
    using k(1) by (auto simp: hexchar_def isxdigit_def isdigit_def hexval_def tolower_def)
qed

lemma unescape_escape_byte:
  "unescape (escape_byte c @ r) = map_sum id ((#) c) (unescape r)"
proof (cases "32 \<le> c \<and> c < 127 \<and> c \<noteq> 34 \<and> c \<noteq> 92")
  case True
  then have n: "((1 \<le> c \<and> c \<le> 31) \<or> 128 \<le> c) = False" by (auto simp: word_le_nat_alt word_less_nat_alt)
  have e: "escape_byte c = [c]" using True by (simp add: escape_byte_def)
  show ?thesis unfolding e append_Cons append_Nil unescape.simps n using True by simp
next
  case False
  have hi: "drop_bit 4 c \<le> 15"
  proof -
    have "unat (drop_bit 4 c) = unat c div 16" by (simp add: unat_div drop_bit_eq_div)
    moreover have "unat c < 256" using unsigned_less[of c] by simp
    ultimately show ?thesis by (simp add: word_le_nat_alt)
  qed
  have lo: "c AND 15 \<le> 15" by (rule word_and_le1)
  have "push_bit 4 (drop_bit 4 c) OR (c AND 15) = c"
  proof (rule bit_word_eqI)
    fix n assume "n < LENGTH(8)"
    moreover have "bit (15 :: u8) n \<longleftrightarrow> n < 4"
      using bit_mask_iff[of 4 n, where 'a = u8] \<open>n < LENGTH(8)\<close> by (simp add: mask_eq_exp_minus_1)
    ultimately show "bit (push_bit 4 (drop_bit 4 c) OR (c AND 15)) n = bit c n" by (auto simp: bit_simps)
  qed
  moreover have "escape_byte c = [92, 120, hexchar (drop_bit 4 c), hexchar (c AND 15)]"
    unfolding escape_byte_def by (rule if_not_P[OF False])
  ultimately show ?thesis using hexchar_props[OF hi] hexchar_props[OF lo] by simp
qed

lemma unescape_escape: "unescape (concat (map escape_byte tok)) = Inr tok"
  by (induction tok) (simp_all add: unescape_escape_byte)

text \<open>
  C39. Dictionary files read back: a line \<open>label="..."\<close> whose quoted part is a non-empty token of at most
  \<open>MAX_DICT_FILE\<close> bytes, written with hexadecimal escapes for everything but plain printable
  characters, gives exactly that token, at every dictionary level.
\<close>

theorem parse_extra_line_roundtrip:
  assumes "\<forall>c\<in>set label. isalnum c \<or> c = 95" "tok \<noteq> []" "length tok \<le> MAX_DICT_FILE"
  shows "parse_extra_line lvl (label @ [61, 34] @ concat (map escape_byte tok) @ [34, 10]) = Token tok"
proof -
  let ?q = "concat (map escape_byte tok)"
  have alnum: "\<not> isspace c \<and> c \<noteq> 35 \<and> c \<noteq> 64" if "isalnum c \<or> c = 95" for c :: u8
    using that by (auto simp: isalnum_def isdigit_def isspace_def word_le_nat_alt)
  have h: "hd (label @ [61, 34] @ ?q @ [34]) \<noteq> 35 \<and> \<not> isspace (hd (label @ [61, 34] @ ?q @ [34]))"
    using assms(1) alnum by (cases label) (auto simp: isspace_def)
  have 1: "dropWhile isspace (label @ [61, 34] @ ?q @ [34, 10]) = label @ [61, 34] @ ?q @ [34, 10]"
    using h by (cases label) auto
  have 2: "rev (dropWhile isspace (rev (label @ [61, 34] @ ?q @ [34, 10]))) = label @ [61, 34] @ ?q @ [34]"
    by (simp add: isspace_def)
  have 3: "dropWhile (\<lambda>c. isalnum c \<or> c = 95) (label @ [61, 34] @ ?q) = [61, 34] @ ?q"
    using assms(1) by (induction label) (auto simp: isalnum_def isdigit_def)
  have 4: "dropWhile (\<lambda>c. isspace c \<or> c = 61) ([61, 34] @ ?q) = 34 # ?q" by (simp add: isspace_def)
  have 5: "butlast (label @ [61, 34] @ ?q @ [34]) = label @ [61, 34] @ ?q" "last (label @ [61, 34] @ ?q @ [34]) = 34"
    by (simp_all add: butlast_append)
  have 6: "?q \<noteq> []" using assms(2) by (cases tok) (auto simp: escape_byte_def)
  have 7: "(label @ [61, 34] @ ?q @ [34] = [] \<or> hd (label @ [61, 34] @ ?q @ [34]) = 35) = False" using h by simp
  show ?thesis
    unfolding parse_extra_line_def Let_def 1 2 5 3 7 if_False
    using 4 6 assms(3) by (simp add: unescape_escape isspace_def)
qed

theorem parse_extra_line_roundtrip_witness:
  "parse_extra_line 0 (bytes_of ''magic='' @ [34] @ bytes_of ''a'' @ [92, 120] @ bytes_of ''0f'' @ [34, 10]) = Token [97, 15]"
  using parse_extra_line_roundtrip[of "bytes_of ''magic''" "[97, 15]" 0]
  by (simp add: bytes_of_def isalnum_def isdigit_def cfg_simps escape_byte_def hexchar_def)

end
