(* ===== verification/Afl_Exec.thy ===== *)
theory Afl_Exec
  imports Afl_Extras Afl_Hash
begin

unbundle bit_operations_syntax

text \<open>
  Running the target and judging the result, from \<open>afl-fuzz.c\<close>: \<open>write_to_testcase\<close>,
  \<open>run_target\<close>, \<open>calibrate_case\<close>, \<open>save_if_interesting\<close> and
  \<open>common_fuzz_stuff\<close>. The fuzzed program is a parameter: the field \<open>target\<close> gives, for the
  number of the execution, the input and the time limit, an arbitrary outcome (the trace it leaves,
  its wait status, the signals that arrived meanwhile and the failures of the system calls), so
  that it may behave differently on every run.
\<close>

section \<open>State\<close>

datatype fault = FAULT_NONE | FAULT_TMOUT | FAULT_CRASH | FAULT_ERROR | FAULT_NOINST | FAULT_NOBITS

datatype stage_val = STAGE_VAL_NONE | STAGE_VAL_LE | STAGE_VAL_BE

text \<open>Where talking to the child or to the fork server can go wrong.\<close>

datatype sys_event = SysOk | ForkFailed | WriteFailed | ReadPidFailed | WaitFailed

record outcome =
  oc_sys :: sys_event
  oc_pid :: int
  oc_trace :: "u8 list \<Rightarrow> u8 list"   \<comment> \<open>from the map the child finds to the map it leaves\<close>
  oc_status :: u32
  oc_timed_out :: bool
  oc_stop :: bool      \<comment> \<open>\<open>handle_stop_sig\<close> ran\<close>
  oc_skip :: bool      \<comment> \<open>\<open>handle_skipreq\<close> ran\<close>

record x_state = ex_state +
  target :: "nat \<Rightarrow> u8 list \<Rightarrow> u32 \<Rightarrow> outcome"
  exec_pos :: nat
  forksrv_start :: "err + int"
  forksrv_pid :: int
  child_pid :: int
  no_forkserver :: bool
  out_file :: "string option"
  out_fd_data :: "u8 list"
  count_class_lookup16 :: "nat \<Rightarrow> u16"
  stop_soon :: u8
  child_timed_out :: bool
  prev_timed_out :: bool
  skip_requested :: bool
  kill_signal :: u8
  uses_asan :: bool
  crash_mode :: fault
  exec_tmout :: u32
  hang_tmout :: u32
  resuming_fuzz :: bool
  fast_cal :: bool
  total_execs :: u64
  first_trace :: "u8 list"
  total_cal_us :: u64
  total_cal_cycles :: u64
  total_bitmap_size :: u64
  total_bitmap_entries :: u64
  queued_with_cov :: u32
  queued_variable :: u32
  queued_discovered :: u32
  var_byte_count :: u32
  cur_skipped_paths :: u32
  subseq_tmouts :: u32
  total_crashes :: u64
  unique_crashes :: u64
  total_tmouts :: u64
  unique_tmouts :: u64
  unique_hangs :: u64
  last_hang_time :: u64
  last_crash_time :: u64
  last_crash_execs :: u64
  trim_execs :: u64
  bytes_trim_in :: u64
  bytes_trim_out :: u64
  stage_short :: string
  stage_cur :: int
  stage_max :: int
  stage_cur_byte :: int
  stage_cur_val :: int
  stage_val_type :: stage_val
  syncing_party :: "string option"
  syncing_case :: u32
  current_entry :: u32
  splicing_with :: int
  post_handler :: "(u8 list \<Rightarrow> u8 list option) option"
  start_time :: u64
  stats_update_freq :: u32
  freq_src :: "nat \<Rightarrow> u32"   \<comment> \<open>successive values of \<open>avg_exec / (UI_TARGET_HZ * 10)\<close>, a floating-point average\<close>
  freq_pos :: nat
  last_ms :: u64
  last_stats_ms :: u64
  exit_when_done :: bool
  bench_until_crash :: bool
  skip_deterministic :: bool
  use_splicing :: bool
  no_arith :: bool
  master_id :: u32
  master_max :: u32
  havoc_div :: u32
  stage_finds :: "nat \<Rightarrow> u64"
  stage_cycles :: "nat \<Rightarrow> u64"
  blocks_eff_total :: u64
  blocks_eff_select :: u64
  readme_text :: "u8 list"   \<comment> \<open>the text of the crash read-me file\<close>

definition EXEC_FAIL_SIG :: u32 where "EXEC_FAIL_SIG = 0xfee1dead"
definition MSAN_ERROR :: u32 where "MSAN_ERROR = 86"
definition CAL_CYCLES :: int where "CAL_CYCLES = 8"
definition CAL_CYCLES_LONG :: int where "CAL_CYCLES_LONG = 40"
definition CAL_TMOUT_PERC :: u32 where "CAL_TMOUT_PERC = 125"
definition CAL_TMOUT_ADD :: u32 where "CAL_TMOUT_ADD = 50"
definition TMOUT_LIMIT :: u32 where "TMOUT_LIMIT = 250"
definition KEEP_UNIQUE_HANG :: u64 where "KEEP_UNIQUE_HANG = 500"
definition KEEP_UNIQUE_CRASH :: u64 where "KEEP_UNIQUE_CRASH = 5000"
definition TRIM_MIN_BYTES :: nat where "TRIM_MIN_BYTES = 4"
definition TRIM_START_STEPS :: nat where "TRIM_START_STEPS = 16"
definition TRIM_END_STEPS :: nat where "TRIM_END_STEPS = 1024"
definition UI_TARGET_HZ :: u64 where "UI_TARGET_HZ = 5"
definition STATS_UPDATE_SEC :: u64 where "STATS_UPDATE_SEC = 60"

declare CAL_CYCLES_def [cfg_simps] CAL_CYCLES_LONG_def [cfg_simps] TRIM_MIN_BYTES_def [cfg_simps]
  TRIM_START_STEPS_def [cfg_simps] TRIM_END_STEPS_def [cfg_simps]
  KEEP_UNIQUE_HANG_def [cfg_simps] KEEP_UNIQUE_CRASH_def [cfg_simps]

section \<open>Status screen\<close>

definition write_bitmap :: "'a x_state_scheme \<Rightarrow> 'a x_state_scheme" where
  "write_bitmap s =
     (if \<not> bitmap_changed s then s
      else s\<lparr>bitmap_changed := False, fs := (fs s)(out_dir s @ ''/fuzz_bitmap'' \<mapsto> File (virgin_bits s))\<rparr>)"

definition read_bitmap :: "string \<Rightarrow> 'a x_state_scheme \<Rightarrow> err + 'a x_state_scheme" where
  "read_bitmap fn s =
     (case fs s fn of
        Some (File bs) \<Rightarrow>
          if length bs < length (virgin_bits s) then Inl (FATAL ''Short read'')
          else Inr (s\<lparr>virgin_bits := take (length (virgin_bits s)) bs\<rparr>)
      | _ \<Rightarrow> Inl (PFATAL ''Unable to open''))"

text \<open>
  \<open>show_stats\<close> up to the drawing: what it changes of the fuzzer's own state, the token and
  bitmap files it refreshes, and the two ways it ends the session. The statistics and plot files
  and the screen are output only.
\<close>

definition show_stats :: "'a x_state_scheme \<Rightarrow> 'a x_state_scheme" where
  "show_stats s =
     (let (cur_ms, s) = get_cur_time s in
      if cur_ms - last_ms s < 1000 div UI_TARGET_HZ then s
      else
        let s = (if cur_ms - start_time s > 10 * 60 * 1000 then s\<lparr>run_over10m := True\<rparr> else s);
            s = s\<lparr>last_ms := cur_ms\<rparr>;
            f = freq_src s (freq_pos s);
            s = s\<lparr>freq_pos := freq_pos s + 1, stats_update_freq := (if f = 0 then 1 else f)\<rparr>;
            s = (if cur_ms - last_stats_ms s > STATS_UPDATE_SEC * 1000
                 then write_bitmap (save_auto (s\<lparr>last_stats_ms := cur_ms\<rparr>)) else s);
            s = (if dumb_mode s = 0 \<and> cycles_wo_finds s > 100 \<and> pending_not_fuzzed s = 0 \<and> exit_when_done s
                 then s\<lparr>stop_soon := 2\<rparr> else s)
        in if total_crashes s \<noteq> 0 \<and> bench_until_crash s then s\<lparr>stop_soon := 2\<rparr> else s)"

section \<open>Running the target\<close>

definition WIFSIGNALED :: "u32 \<Rightarrow> bool" where
  "WIFSIGNALED st \<longleftrightarrow> st AND 0x7f \<noteq> 0 \<and> st AND 0x7f \<noteq> 0x7f"

definition WTERMSIG :: "u32 \<Rightarrow> u8" where
  "WTERMSIG st = ucast (st AND 0x7f)"

definition WEXITSTATUS :: "u32 \<Rightarrow> u32" where
  "WEXITSTATUS st = drop_bit 8 (st AND 0xff00)"

definition WIFSTOPPED :: "u32 \<Rightarrow> bool" where
  "WIFSTOPPED st \<longleftrightarrow> st AND 0xff = 0x7f"

text \<open>
  Writing the test case: a fresh file \<open>out_file\<close>, or the file behind \<open>out_fd\<close> rewound,
  overwritten and truncated.
\<close>

definition put_testcase :: "u8 list \<Rightarrow> 'a x_state_scheme \<Rightarrow> 'a x_state_scheme" where
  "put_testcase bs s =
     (case out_file s of
        Some f \<Rightarrow> s\<lparr>fs := (fs s)(f := None, f \<mapsto> File bs)\<rparr>
      | None \<Rightarrow> s\<lparr>out_fd_data := take (length bs) (bs @ drop (length bs) (out_fd_data s))\<rparr>)"

definition write_to_testcase :: "u8 list \<Rightarrow> nat \<Rightarrow> 'a x_state_scheme \<Rightarrow> err + 'a x_state_scheme" where
  "write_to_testcase mem len s =
     (if length mem < len then Inl OutOfBounds else Inr (put_testcase (take len mem) s))"

definition write_with_gap :: "u8 list \<Rightarrow> nat \<Rightarrow> nat \<Rightarrow> nat \<Rightarrow> 'a x_state_scheme \<Rightarrow> err + 'a x_state_scheme" where
  "write_with_gap mem len skip_at skip_len s =
     (let tail_len = len - skip_at - skip_len in
      if length mem < len \<or> len < skip_at + skip_len then Inl OutOfBounds
      else Inr (put_testcase (take skip_at mem @ take tail_len (drop (skip_at + skip_len) mem)) s))"

text \<open>What the target reads.\<close>

definition cur_input :: "'a x_state_scheme \<Rightarrow> u8 list" where
  "cur_input s = (case out_file s of
      Some f \<Rightarrow> (case fs s f of Some (File bs) \<Rightarrow> bs | _ \<Rightarrow> [])
    | None \<Rightarrow> out_fd_data s)"

text \<open>Clearing the map and letting the target run once, with the signals that arrive meanwhile.\<close>

definition run_child :: "u32 \<Rightarrow> 'a x_state_scheme \<Rightarrow> outcome \<times> 'a x_state_scheme" where
  "run_child timeout s =
     (let s = s\<lparr>child_timed_out := False, trace_bits := replicate (length (trace_bits s)) 0\<rparr>;
          oc = target s (exec_pos s) (cur_input s) timeout
      in (oc, s\<lparr>exec_pos := exec_pos s + 1, stop_soon := (if oc_stop oc then 1 else stop_soon s),
                skip_requested := (skip_requested s \<or> oc_skip oc), child_pid := oc_pid oc\<rparr>))"

text \<open>
  After the child has ended: the map as the child has left it, starting from what was in the shared memory,
  its first word as it was, then classified. The shared memory keeps its size whatever the child does.
\<close>

definition shared_map :: "outcome \<Rightarrow> u8 list \<Rightarrow> u8 list" where
  "shared_map oc m = take (length m) (oc_trace oc m @ drop (length (oc_trace oc m)) m)"

lemma shared_map_length [simp]: "length (shared_map oc m) = length m"
  by (simp add: shared_map_def)

definition collect_child :: "outcome \<Rightarrow> 'a x_state_scheme \<Rightarrow> u32 \<times> 'a x_state_scheme" where
  "collect_child oc s =
     (let s = s\<lparr>trace_bits := shared_map oc (trace_bits s),
                child_timed_out := oc_timed_out oc\<rparr>;
          s = (if WIFSTOPPED (oc_status oc) then s else s\<lparr>child_pid := 0\<rparr>);
          s = s\<lparr>total_execs := total_execs s + 1\<rparr>;
          tb4 = le_load (take 4 (trace_bits s));
          s = s\<lparr>trace_bits := classify_counts (count_class_lookup16 s) (trace_bits s)\<rparr>
      in (tb4, s\<lparr>prev_timed_out := child_timed_out s\<rparr>))"

definition report_outcome :: "bool \<Rightarrow> outcome \<Rightarrow> u32 \<Rightarrow> 'a x_state_scheme \<Rightarrow> fault \<times> 'a x_state_scheme" where
  "report_outcome dumb oc tb4 s =
     (if WIFSIGNALED (oc_status oc) \<and> stop_soon s = 0 then
        let s = s\<lparr>kill_signal := WTERMSIG (oc_status oc)\<rparr>
        in (if child_timed_out s \<and> kill_signal s = 9 then FAULT_TMOUT else FAULT_CRASH, s)
      else if uses_asan s \<and> WEXITSTATUS (oc_status oc) = MSAN_ERROR then (FAULT_CRASH, s\<lparr>kill_signal := 0\<rparr>)
      else if dumb \<and> tb4 = EXEC_FAIL_SIG then (FAULT_ERROR, s)
      else (FAULT_NONE, s))"

definition run_target :: "u32 \<Rightarrow> 'a x_state_scheme \<Rightarrow> err + fault \<times> 'a x_state_scheme" where
  "run_target timeout s =
     (let (oc, s) = run_child timeout s;
          dumb = (dumb_mode s = 1 \<or> no_forkserver s)
      in
      if dumb \<and> oc_sys oc = ForkFailed then Inl (PFATAL ''fork() failed'')
      else if \<not> dumb \<and> oc_sys oc \<in> {WriteFailed, ReadPidFailed} then
        (if stop_soon s \<noteq> 0 then Inr (FAULT_NONE, s) else Inl (PFATAL ''Unable to request new process from fork server''))
      else if \<not> dumb \<and> child_pid s \<le> 0 then Inl (FATAL ''Fork server is misbehaving'')
      else if oc_sys oc = WaitFailed then
        (if dumb then Inl (PFATAL ''waitpid() failed'')
         else if stop_soon s \<noteq> 0 then Inr (FAULT_NONE, s)
         else Inl (PFATAL ''Unable to communicate with fork server (OOM?)''))
      else
        let (tb4, s) = collect_child oc s in Inr (report_outcome dumb oc tb4 s))"

text \<open>\<open>if (!(cur % stats_update_freq)) show_stats()\<close>, with the remainder of C.\<close>

definition stats_tick :: "int \<Rightarrow> bool \<Rightarrow> 'a x_state_scheme \<Rightarrow> err + 'a x_state_scheme" where
  "stats_tick cur also_if s =
     (if stats_update_freq s = 0 then Inl DivByZero
      else Inr (if cur mod uint (stats_update_freq s) = 0 \<or> also_if then show_stats s else s))"

section \<open>Calibration\<close>

text \<open>The bytes that differ between two runs are marked; a newly marked one makes the calibration longer.\<close>

definition mark_var :: "u8 list \<Rightarrow> u8 list \<Rightarrow> u8 list \<Rightarrow> u8 list" where
  "mark_var first trace var =
     map (\<lambda>i. if var ! i = 0 \<and> first ! i \<noteq> trace ! i then 1 else var ! i) [0..<length var]"

definition new_var :: "u8 list \<Rightarrow> u8 list \<Rightarrow> u8 list \<Rightarrow> bool" where
  "new_var first trace var \<longleftrightarrow> (\<exists>i\<in>set [0..<length var]. var ! i = 0 \<and> first ! i \<noteq> trace ! i)"

text \<open>The checksum comparison of one calibration run.\<close>

definition calibrate_compare :: "nat \<Rightarrow> u8 \<times> bool \<Rightarrow> 'a x_state_scheme \<Rightarrow> (u8 \<times> bool) \<times> 'a x_state_scheme" where
  "calibrate_compare q nv s =
     (let cksum = hash32 (trace_bits s) HASH_CONST; (new_bits, var_detected) = nv in
      if exec_cksum (qs s ! q) \<noteq> cksum then
        let (hnb, s) = has_new_bits VirginBits s;
            new_bits = (if hnb > new_bits then hnb else new_bits)
        in if exec_cksum (qs s ! q) \<noteq> 0 then
             let s = (if new_var (first_trace s) (trace_bits s) (var_bytes s) then s\<lparr>stage_max := CAL_CYCLES_LONG\<rparr> else s);
                 s = s\<lparr>var_bytes := mark_var (first_trace s) (trace_bits s) (var_bytes s)\<rparr>
             in ((new_bits, True), s)
           else
             let s = upd_q q (\<lambda>e. e\<lparr>exec_cksum := cksum\<rparr>) s;
                 s = s\<lparr>first_trace := trace_bits s\<rparr>
             in ((new_bits, var_detected), s)
      else ((new_bits, var_detected), s))"

text \<open>
  The loop \<open>for (stage_cur = 0; stage_cur < stage_max; stage_cur++)\<close>; the first component of the
  result says whether it left through \<open>abort_calibration\<close>. \<open>stage_max\<close> never exceeds
  \<open>CAL_CYCLES_LONG\<close>, which is the fuel the caller gives.
\<close>

fun calibrate_loop ::
  "nat \<Rightarrow> nat \<Rightarrow> u8 list \<Rightarrow> u32 \<Rightarrow> bool \<Rightarrow> fault \<times> u8 \<times> bool \<Rightarrow> 'a x_state_scheme \<Rightarrow>
   err + (bool \<times> fault \<times> u8 \<times> bool) \<times> 'a x_state_scheme" where
  "calibrate_loop 0 q use_mem use_tmout first_run acc s =
     (if stage_cur s < stage_max s then Inl OutOfFuel else Inr ((False, acc), s))"
| "calibrate_loop (Suc fuel) q use_mem use_tmout first_run (fault, new_bits, var_detected) s =
     (if stage_cur s < stage_max s then
        bindE (if \<not> first_run then stats_tick (stage_cur s) False s else Inr s) (\<lambda>s.
        bindE (write_to_testcase use_mem (unat (q_len (qs s ! q))) s) (\<lambda>s.
        bindE (run_target use_tmout s) (\<lambda>(fault, s).
          if stop_soon s \<noteq> 0 \<or> fault \<noteq> crash_mode s then Inr ((True, fault, new_bits, var_detected), s)
          else if dumb_mode s = 0 \<and> stage_cur s = 0 \<and> count_bytes (trace_bits s) = 0 then
            Inr ((True, FAULT_NOINST, new_bits, var_detected), s)
          else
            let ((new_bits, var_detected), s) = calibrate_compare q (new_bits, var_detected) s in
            calibrate_loop fuel q use_mem use_tmout first_run (fault, new_bits, var_detected)
              (s\<lparr>stage_cur := stage_cur s + 1\<rparr>))))
      else Inr ((False, fault, new_bits, var_detected), s))"

definition calibrate_stats :: "nat \<Rightarrow> u64 \<Rightarrow> u64 \<Rightarrow> u32 \<Rightarrow> 'a x_state_scheme \<Rightarrow> 'a x_state_scheme" where
  "calibrate_stats q start_us stop_us handi s =
     (let s = s\<lparr>total_cal_us := total_cal_us s + (stop_us - start_us),
                total_cal_cycles := total_cal_cycles s + of_int (stage_max s)\<rparr>;
          s = upd_q q (\<lambda>e. e\<lparr>exec_us := (stop_us - start_us) div of_int (stage_max s),
                bitmap_size := count_bytes (trace_bits s), handicap := ucast handi, cal_failed := 0\<rparr>) s;
          s = s\<lparr>total_bitmap_size := total_bitmap_size s + ucast (bitmap_size (qs s ! q)),
                total_bitmap_entries := total_bitmap_entries s + 1\<rparr>
      in update_bitmap_score q s)"

definition calibrate_end :: "nat \<Rightarrow> u8 \<Rightarrow> bool \<Rightarrow> 'a x_state_scheme \<Rightarrow> err + 'a x_state_scheme" where
  "calibrate_end q new_bits var_detected s =
     (let s = (if new_bits = 2 \<and> \<not> has_new_cov (qs s ! q)
               then (upd_q q (\<lambda>e. e\<lparr>has_new_cov := True\<rparr>) s)\<lparr>queued_with_cov := queued_with_cov s + 1\<rparr> else s)
      in if var_detected then
           let s = s\<lparr>var_byte_count := count_bytes (var_bytes s)\<rparr> in
           if \<not> var_behavior (qs s ! q)
           then bindE (mark_as_variable q s) (\<lambda>s. Inr (s\<lparr>queued_variable := queued_variable s + 1\<rparr>))
           else Inr s
         else Inr s)"

text \<open>Everything before the clock is started.\<close>

definition calibrate_begin :: "nat \<Rightarrow> 'a x_state_scheme \<Rightarrow> err + 'a x_state_scheme" where
  "calibrate_begin q s =
     (let s = upd_q q (\<lambda>e. e\<lparr>cal_failed := cal_failed e + 1\<rparr>) s;
          s = s\<lparr>stage_max := (if fast_cal s then 3 else CAL_CYCLES)\<rparr>
      in bindE (if dumb_mode s \<noteq> 1 \<and> \<not> no_forkserver s \<and> forksrv_pid s = 0
                then bindE (forksrv_start s) (\<lambda>pid. Inr (s\<lparr>forksrv_pid := pid\<rparr>)) else Inr s) (\<lambda>s.
           Inr (if exec_cksum (qs s ! q) \<noteq> 0 then s\<lparr>first_trace := trace_bits s\<rparr> else s)))"

text \<open>What follows the loop up to the label \<open>abort_calibration\<close>.\<close>

definition calibrate_judge :: "nat \<Rightarrow> u64 \<Rightarrow> u32 \<Rightarrow> bool \<Rightarrow> fault \<Rightarrow> u8 \<Rightarrow> 'a x_state_scheme \<Rightarrow> fault \<times> 'a x_state_scheme" where
  "calibrate_judge q start_us handi first_run fault new_bits s =
     (let s0 = snd (get_cur_time_us s);
          s = calibrate_stats q start_us (fst (get_cur_time_us s)) handi s0
      in (if dumb_mode s = 0 \<and> first_run \<and> fault = FAULT_NONE \<and> new_bits = 0 then FAULT_NOBITS else fault, s))"

definition calibrate_finish ::
  "nat \<Rightarrow> u64 \<Rightarrow> u32 \<Rightarrow> bool \<Rightarrow> int \<times> int \<Rightarrow> (bool \<times> fault \<times> u8 \<times> bool) \<times> 'a x_state_scheme \<Rightarrow> err + fault \<times> 'a x_state_scheme" where
  "calibrate_finish q start_us handi first_run old r =
     (case r of ((aborted, fault, new_bits, var_detected), s) \<Rightarrow>
        let fs = (if aborted then (fault, s) else calibrate_judge q start_us handi first_run fault new_bits s) in
        bindE (calibrate_end q new_bits var_detected (snd fs)) (\<lambda>s.
          let s = s\<lparr>stage_cur := fst old, stage_max := snd old\<rparr>
          in Inr (fst fs, if \<not> first_run then show_stats s else s)))"

definition calibrate_case :: "nat \<Rightarrow> u8 list \<Rightarrow> u32 \<Rightarrow> bool \<Rightarrow> 'a x_state_scheme \<Rightarrow> err + fault \<times> 'a x_state_scheme" where
  "calibrate_case q use_mem handi from_queue s =
     (let first_run = (exec_cksum (qs s ! q) = 0);
          old = (stage_cur s, stage_max s);
          use_tmout = (if \<not> from_queue \<or> resuming_fuzz s
                       then max (exec_tmout s + CAL_TMOUT_ADD) (exec_tmout s * CAL_TMOUT_PERC div 100) else exec_tmout s)
      in bindE (calibrate_begin q s) (\<lambda>s.
         bindE (calibrate_loop (nat CAL_CYCLES_LONG) q use_mem use_tmout first_run (FAULT_NONE, 0, False)
                  ((snd (get_cur_time_us s))\<lparr>stage_cur := 0\<rparr>))
           (calibrate_finish q (fst (get_cur_time_us s)) handi first_run old)))"

section \<open>Keeping what is interesting\<close>

definition signed_dec :: "int \<Rightarrow> string" where
  "signed_dec v = (if v < 0 then ''-'' @ dec (nat (- v)) else ''+'' @ dec (nat v))"

text \<open>
  The buffer of \<open>describe_op\<close> has 256 bytes, and neither \<open>sprintf\<close> nor \<open>strcat\<close> looks at its size: a text that does not
  fit in with its final zero is written past the end.
\<close>

definition op_text :: "u8 \<Rightarrow> 'a x_state_scheme \<Rightarrow> string" where
  "op_text hnb s =
     (case syncing_party s of
        Some party \<Rightarrow> ''sync:'' @ party @ '',src:'' @ fmt06 (unat (syncing_case s))
      | None \<Rightarrow>
          ''src:'' @ fmt06 (unat (current_entry s)) @
          (if splicing_with s \<ge> 0 then ''+'' @ fmt06 (unat (of_int (splicing_with s) :: u32)) else []) @
          '',op:'' @ stage_short s @
          (if stage_cur_byte s \<ge> 0 then
             '',pos:'' @ dec (unat (of_int (stage_cur_byte s) :: u32)) @
             (if stage_val_type s \<noteq> STAGE_VAL_NONE
              then '',val:'' @ (if stage_val_type s = STAGE_VAL_BE then ''be:'' else []) @ signed_dec (sint (of_int (stage_cur_val s) :: u32)) else [])
           else '',rep:'' @ dec (unat (of_int (stage_cur_val s) :: u32)))) @
     (if hnb = 2 then '',+cov'' else [])"

definition OP_BUFFER :: nat where "OP_BUFFER = 256"

definition describe_op :: "u8 \<Rightarrow> 'a x_state_scheme \<Rightarrow> err + string" where
  "describe_op hnb s = (let ret = op_text hnb s in if length ret < OP_BUFFER then Inr ret else Inl OutOfBounds)"

definition write_crash_readme :: "'a x_state_scheme \<Rightarrow> 'a x_state_scheme" where
  "write_crash_readme s =
     (let fn = out_dir s @ ''/crashes/README.txt'' in
      if fs s fn \<noteq> None then s else s\<lparr>fs := (fs s)(fn \<mapsto> File (readme_text s))\<rparr>)"

text \<open>The branch \<open>fault == crash_mode\<close>; the result says whether the input is kept.\<close>

definition queue_new_path :: "u8 list \<Rightarrow> 'a x_state_scheme \<Rightarrow> err + bool \<times> 'a x_state_scheme" where
  "queue_new_path mem s =
     (let (hnb, s) = has_new_bits VirginBits s in
      if hnb = 0 then
        Inr (False, if crash_mode s \<noteq> FAULT_NONE then s\<lparr>total_crashes := total_crashes s + 1\<rparr> else s)
      else
        bindE (describe_op hnb s) (\<lambda>op.
        let fn = out_dir s @ ''/queue/id:'' @ fmt06 (unat (queued_paths s)) @ '','' @ op;
            s = add_to_queue fn (of_nat (length mem)) False s
        in case queue_top s of
             None \<Rightarrow> Inl NullDeref
           | Some t \<Rightarrow>
               let s = (if hnb = 2 then (upd_q t (\<lambda>e. e\<lparr>has_new_cov := True\<rparr>) s)\<lparr>queued_with_cov := queued_with_cov s + 1\<rparr> else s);
                   s = upd_q t (\<lambda>e. e\<lparr>exec_cksum := hash32 (trace_bits s) HASH_CONST\<rparr>) s
               in bindE (calibrate_case t mem (ucast (queue_cycle s - 1)) False s) (\<lambda>(res, s).
                    if res = FAULT_ERROR then Inl (FATAL ''Unable to execute target application'')
                    else bindE (create_excl fn mem s) (\<lambda>s. Inr (True, s)))))"

text \<open>The uniqueness test of the crash and hang branches; \<open>False\<close> means \<open>return keeping\<close>.\<close>

definition unique_trace :: "virgin_map \<Rightarrow> 'a x_state_scheme \<Rightarrow> bool \<times> 'a x_state_scheme" where
  "unique_trace vm s =
     (if dumb_mode s \<noteq> 0 then (True, s)
      else
        let s = s\<lparr>trace_bits := simplify_trace (trace_bits s)\<rparr>;
            (hnb, s) = has_new_bits vm s
        in (hnb \<noteq> 0, s))"

definition name_crash :: "'a x_state_scheme \<Rightarrow> err + string option \<times> 'a x_state_scheme" where
  "name_crash s =
     (let s = (if unique_crashes s = 0 then write_crash_readme s else s) in
      bindE (describe_op 0 s) (\<lambda>op.
      let fn = out_dir s @ ''/crashes/id:'' @ fmt06 (unat (unique_crashes s)) @ '',sig:'' @ pad0 2 (dec (unat (kill_signal s))) @
               '','' @ op;
          s = s\<lparr>unique_crashes := unique_crashes s + 1\<rparr>;
          (t, s) = get_cur_time s
      in Inr (Some fn, s\<lparr>last_crash_time := t, last_crash_execs := total_execs s\<rparr>)))"

definition keep_as_crash :: "'a x_state_scheme \<Rightarrow> err + string option \<times> 'a x_state_scheme" where
  "keep_as_crash s =
     (let s = s\<lparr>total_crashes := total_crashes s + 1\<rparr> in
      if unique_crashes s \<ge> KEEP_UNIQUE_CRASH then Inr (None, s)
      else
        let (uniq, s) = unique_trace VirginCrash s in
        if \<not> uniq then Inr (None, s) else name_crash s)"

definition name_hang :: "'a x_state_scheme \<Rightarrow> err + string option \<times> 'a x_state_scheme" where
  "name_hang s =
     bindE (describe_op 0 s) (\<lambda>op.
     let fn = out_dir s @ ''/hangs/id:'' @ fmt06 (unat (unique_hangs s)) @ '','' @ op;
         s = s\<lparr>unique_hangs := unique_hangs s + 1\<rparr>;
         (t, s) = get_cur_time s
     in Inr (Some fn, s\<lparr>last_hang_time := t\<rparr>))"

definition keep_as_hang :: "u8 list \<Rightarrow> 'a x_state_scheme \<Rightarrow> err + string option \<times> 'a x_state_scheme" where
  "keep_as_hang mem s =
     (let s = s\<lparr>total_tmouts := total_tmouts s + 1\<rparr> in
      if unique_hangs s \<ge> KEEP_UNIQUE_HANG then Inr (None, s)
      else
        let (uniq, s) = unique_trace VirginTmout s in
        if \<not> uniq then Inr (None, s)
        else
          let s = s\<lparr>unique_tmouts := unique_tmouts s + 1\<rparr> in
          if exec_tmout s < hang_tmout s then
            bindE (write_to_testcase mem (length mem) s) (\<lambda>s.
            bindE (run_target (hang_tmout s) s) (\<lambda>(new_fault, s).
              if stop_soon s = 0 \<and> new_fault = FAULT_CRASH then keep_as_crash s
              else if stop_soon s \<noteq> 0 \<or> new_fault \<noteq> FAULT_TMOUT then Inr (None, s)
              else name_hang s))
          else name_hang s)"

definition save_if_interesting :: "u8 list \<Rightarrow> fault \<Rightarrow> 'a x_state_scheme \<Rightarrow> err + bool \<times> 'a x_state_scheme" where
  "save_if_interesting mem fault s =
     bindE (if fault = crash_mode s then queue_new_path mem s else Inr (False, s)) (\<lambda>(keeping, s).
       if fault = crash_mode s \<and> \<not> keeping then Inr (False, s)
       else
         bindE (case fault of
                  FAULT_TMOUT \<Rightarrow> keep_as_hang mem s
                | FAULT_CRASH \<Rightarrow> keep_as_crash s
                | FAULT_ERROR \<Rightarrow> Inl (FATAL ''Unable to execute target application'')
                | _ \<Rightarrow> Inr (None, s))
           (\<lambda>(fn, s).
             case fn of
               None \<Rightarrow> Inr (keeping, s)
             | Some fn \<Rightarrow> bindE (create_excl fn mem s) (\<lambda>s. Inr (keeping, s))))"

definition common_fuzz_stuff :: "u8 list \<Rightarrow> 'a x_state_scheme \<Rightarrow> err + bool \<times> 'a x_state_scheme" where
  "common_fuzz_stuff out_buf s =
     (let buf = (case post_handler s of None \<Rightarrow> Some out_buf | Some h \<Rightarrow> h out_buf) in
      case buf of
        None \<Rightarrow> Inr (False, s)
      | Some out_buf \<Rightarrow>
          if post_handler s \<noteq> None \<and> out_buf = [] then Inr (False, s)
          else
            bindE (write_to_testcase out_buf (length out_buf) s) (\<lambda>s.
            bindE (run_target (exec_tmout s) s) (\<lambda>(fault, s).
              if stop_soon s \<noteq> 0 then Inr (True, s)
              else if fault = FAULT_TMOUT \<and> subseq_tmouts s > TMOUT_LIMIT then
                Inr (True, s\<lparr>subseq_tmouts := subseq_tmouts s + 1, cur_skipped_paths := cur_skipped_paths s + 1\<rparr>)
              else
                let s = s\<lparr>subseq_tmouts := (if fault = FAULT_TMOUT then subseq_tmouts s + 1 else 0)\<rparr> in
                if skip_requested s then
                  Inr (True, s\<lparr>skip_requested := False, cur_skipped_paths := cur_skipped_paths s + 1\<rparr>)
                else
                  bindE (save_if_interesting out_buf fault s) (\<lambda>(kept, s).
                  let s = s\<lparr>queued_discovered := queued_discovered s + (if kept then 1 else 0)\<rparr> in
                  bindE (stats_tick (stage_cur s) (stage_cur s + 1 = stage_max s) s) (\<lambda>s. Inr (False, s))))))"

section \<open>What running and reporting leave alone\<close>

text \<open>
  The part of the state that only \<open>add_to_queue\<close> and \<open>trim_case\<close> change: the links, names and
  lengths of the entries and the queue pointers.
\<close>

definition entry_part :: "queue_entry \<Rightarrow> nat option \<times> nat option \<times> string \<times> u32" where
  "entry_part e = (q_next e, q_next_100 e, fname e, q_len e)"

definition qpart :: "'a x_state_scheme \<Rightarrow>
    (nat option \<times> nat option \<times> string \<times> u32) list \<times> nat option \<times> nat option \<times> nat option \<times> u32" where
  "qpart s = (map entry_part (qs s), queue s, queue_top s, q_prev100 s, queued_paths s)"

text \<open>And the settings no operation of this theory changes.\<close>

definition settings :: "'a x_state_scheme \<Rightarrow>
    fault \<times> u8 \<times> (u8 list \<Rightarrow> u8 list option) option \<times> string \<times> string option \<times> (err + int) \<times> extra_data list \<times>
    u64 \<times> u32 \<times> u32 \<times> (nat \<Rightarrow> nat) \<times> nat option" where
  "settings s = (crash_mode s, dumb_mode s, post_handler s, out_dir s, out_file s, forksrv_start s, extras s,
     queue_cycle s, havoc_div s, current_entry s, random_src s, queue_cur s)"

text \<open>What the dictionary stages rely on: tokens in the order of their lengths, none of them empty.\<close>

definition auto_ok :: "extra_data list \<Rightarrow> bool" where
  "auto_ok es \<longleftrightarrow> sorted (map (\<lambda>e. length (ed_data e)) (take USE_AUTO_EXTRAS es)) \<and>
     (\<forall>e\<in>set es. 0 < length (ed_data e) \<and> length (ed_data e) \<le> MAX_AUTO_EXTRA)"

definition dict_ok :: "extra_data list \<Rightarrow> bool" where
  "dict_ok es \<longleftrightarrow> sorted (map (\<lambda>e. length (ed_data e)) es) \<and> (\<forall>e\<in>set es. 0 < length (ed_data e) \<and> length (ed_data e) \<le> MAX_DICT_FILE)"

text \<open>Stage bookkeeping and the counter of executions.\<close>

definition progress :: "'a x_state_scheme \<Rightarrow> int \<times> int \<times> nat" where
  "progress s = (stage_cur s, stage_max s, exec_pos s)"

lemma qpart_queue_inv:
  assumes "qpart s' = qpart s"
  shows "queue_inv s' = queue_inv s" "length (qs s') = length (qs s)"
    "i < length (qs s) \<Longrightarrow> fname (qs s' ! i) = fname (qs s ! i)" "i < length (qs s) \<Longrightarrow> q_len (qs s' ! i) = q_len (qs s ! i)"
proof -
  have e: "map entry_part (qs s') = map entry_part (qs s)" using assms by (simp add: qpart_def)
  show l: "length (qs s') = length (qs s)" using e by (metis length_map)
  have en: "entry_part (qs s' ! i) = entry_part (qs s ! i)" if "i < length (qs s)" for i
    using e that l by (metis nth_map)
  then show "i < length (qs s) \<Longrightarrow> fname (qs s' ! i) = fname (qs s ! i)" "i < length (qs s) \<Longrightarrow> q_len (qs s' ! i) = q_len (qs s ! i)"
    by (auto simp: entry_part_def)
  show "queue_inv s' = queue_inv s"
    using assms l en by (auto simp: queue_inv_def qpart_def Let_def entry_part_def)
qed

text \<open>What keeps the text of \<open>describe_op\<close> within its buffer: short names of the stage and of the other fuzzer.\<close>

definition named :: "'a x_state_scheme \<Rightarrow> bool" where
  "named s \<longleftrightarrow> length (stage_short s) \<le> 16 \<and> (\<forall>p. syncing_party s = Some p \<longrightarrow> length p \<le> 230)"

lemmas part_defs = qpart_def settings_def progress_def rated_def named_def

lemma describe_op_fits: "named s \<Longrightarrow> describe_op hnb s = Inr (op_text hnb s)"
proof -
  assume n: "named s"
  have v: "length (signed_dec (sint (w :: u32))) \<le> 11" for w
  proof -
    have b: "- (2 ^ 31) \<le> sint w" "sint w < 2 ^ 31" using sint_greater_eq[of w] sint_less[of w] by simp_all
    then have "nat (- sint w) < 10 ^ 10" "nat (sint w) < 10 ^ 10" by simp_all
    then show ?thesis using dec_length[of 10 "nat (- sint w)"] dec_length[of 10 "nat (sint w)"] by (simp add: signed_dec_def)
  qed
  have l: "length (fmt06 (unat (w :: u32))) \<le> 10" "length (dec (unat (w :: u32))) \<le> 10" for w by (rule fmt06_u32_length dec_u32_length)+
  have "length (op_text hnb s) < OP_BUFFER"
  proof (cases "syncing_party s")
    case None
    then show ?thesis
      using n l(1)[of "current_entry s"] l(1)[of "of_int (splicing_with s)"] l(2)[of "of_int (stage_cur_byte s)"]
        l(2)[of "of_int (stage_cur_val s)"] v[of "of_int (stage_cur_val s)"]
      by (simp add: op_text_def OP_BUFFER_def named_def)
  next
    case (Some p)
    then show ?thesis using n l(1)[of "syncing_case s"] by (simp add: op_text_def OP_BUFFER_def named_def)
  qed
  then show ?thesis by (simp add: describe_op_def)
qed

definition frame :: "'a x_state_scheme \<Rightarrow> 'a x_state_scheme \<Rightarrow> bool" where
  "frame s s' \<longleftrightarrow> qpart s' = qpart s \<and> settings s' = settings s \<and> (stats_update_freq s \<noteq> 0 \<longrightarrow> stats_update_freq s' \<noteq> 0) \<and>
     (auto_ok (a_extras s) \<longrightarrow> auto_ok (a_extras s')) \<and> (rated s \<longrightarrow> rated s' \<and> length (trace_bits s') = length (trace_bits s)) \<and>
     (named s \<longrightarrow> named s')"

lemma frame_refl [simp, intro]: "frame s s"
  by (simp add: frame_def)

lemma frame_trans [trans]: "frame s t \<Longrightarrow> frame t u \<Longrightarrow> frame s u"
  by (auto simp: frame_def)

lemma fold_fs_other:
  assumes "\<And>i s. f (g i s) = f s"
  shows "f (fold g xs s) = f s"
  using assms by (induction xs arbitrary: s) auto

lemma save_auto_frame: "frame s (save_auto s)" "progress (save_auto s) = progress s"
  unfolding frame_def save_auto_def Let_def
  by (auto simp: part_defs fold_fs_other[of qs] fold_fs_other[of queue] fold_fs_other[of queue_top] fold_fs_other[of q_prev100]
      fold_fs_other[of queued_paths] fold_fs_other[of crash_mode] fold_fs_other[of dumb_mode] fold_fs_other[of post_handler]
      fold_fs_other[of out_dir] fold_fs_other[of out_file] fold_fs_other[of forksrv_start] fold_fs_other[of extras] fold_fs_other[of a_extras] fold_fs_other[of stats_update_freq]
      fold_fs_other[of queue_cycle] fold_fs_other[of havoc_div] fold_fs_other[of current_entry] fold_fs_other[of random_src] fold_fs_other[of queue_cur] fold_fs_other[of top_rated] fold_fs_other[of trace_bits]
      fold_fs_other[of stage_cur] fold_fs_other[of stage_max] fold_fs_other[of exec_pos] fold_fs_other[of syncing_party] fold_fs_other[of stage_short])

lemma write_bitmap_frame: "frame s (write_bitmap s)" "progress (write_bitmap s) = progress s"
  by (auto simp: frame_def write_bitmap_def part_defs)

lemma frame_update:
  assumes "frame s t" "qpart t' = qpart t" "settings t' = settings t" "stats_update_freq t' = stats_update_freq t" "a_extras t' = a_extras t"
    and "rated t \<longrightarrow> rated t' \<and> length (trace_bits t') = length (trace_bits t)" "named t' = named t"
  shows "frame s t'"
  using assms by (simp add: frame_def)

definition still :: "'a x_state_scheme \<Rightarrow> 'a x_state_scheme \<Rightarrow> bool" where
  "still s s' \<longleftrightarrow> frame s s' \<and> progress s' = progress s"

lemma still_refl [simp, intro]: "still s s"
  by (simp add: still_def)

lemma still_trans [trans]: "still s t \<Longrightarrow> still t u \<Longrightarrow> still s u"
  by (auto simp: still_def intro: frame_trans)

lemma still_if: "still s t \<Longrightarrow> still s u \<Longrightarrow> still s (if c then t else u)"
  by simp

lemma still_steps:
  "still s (s\<lparr>time_pos := x1\<rparr>)" "still s (s\<lparr>run_over10m := x2\<rparr>)" "still s (s\<lparr>last_ms := x3\<rparr>)"
  "still s (s\<lparr>freq_pos := x4, stats_update_freq := (if x5 = 0 then 1 else x5)\<rparr>)" "still s (s\<lparr>last_stats_ms := x6\<rparr>)"
  "still s (s\<lparr>stop_soon := x7\<rparr>)"
  by (simp_all add: still_def frame_def part_defs)

lemma show_stats_still: "still s (show_stats s)"
proof -
  have A: "still s (write_bitmap (save_auto s))" for s :: "'a x_state_scheme"
    using frame_trans[OF save_auto_frame(1) write_bitmap_frame(1)] save_auto_frame(2)[of s] write_bitmap_frame(2)[of "save_auto s"]
    by (simp add: still_def)
  show ?thesis
    unfolding show_stats_def get_cur_time_def Let_def prod.case
    by (intro still_if still_refl still_steps still_trans[OF _ A] still_trans[OF _ still_steps(1)] still_trans[OF _ still_steps(2)]
        still_trans[OF _ still_steps(3)] still_trans[OF _ still_steps(4)] still_trans[OF _ still_steps(5)] still_trans[OF _ still_steps(6)])
qed

lemma still_upd_q:
  assumes "\<And>e. entry_part (f e) = entry_part e" "\<And>e. tc_ref (f e) = tc_ref e" "\<And>e. trace_mini (f e) = trace_mini e"
  shows "still s (upd_q q f s)"
proof -
  have "rated (upd_q q f s)" if "rated s" using rate_ok_upd[of "qs s" "top_rated s" _ "f (qs s ! q)" q] assms(2,3) that by (simp add: rated_def)
  moreover have "map entry_part ((qs s)[q := f (qs s ! q)]) = map entry_part (qs s)"
    using assms(1) by (metis list_update_id map_update)
  ultimately show ?thesis by (simp add: still_def frame_def qpart_def settings_def progress_def named_def) (simp add: upd_q_def)
qed

lemma still_more_steps:
  "still s (s\<lparr>run_over10m := y1\<rparr>)" "still s (s\<lparr>score_changed := y2\<rparr>)" "still s (s\<lparr>fs := y3\<rparr>)"
  "still s (s\<lparr>out_fd_data := y4\<rparr>)" "length y5 = length (trace_bits s) \<Longrightarrow> still s (s\<lparr>trace_bits := y5\<rparr>)" "still s (s\<lparr>first_trace := y6\<rparr>)"
  "still s (s\<lparr>var_bytes := y7\<rparr>)" "still s (s\<lparr>queued_with_cov := y8\<rparr>)" "still s (s\<lparr>queued_variable := y9\<rparr>)"
  "still s (s\<lparr>var_byte_count := y10\<rparr>)" "still s (s\<lparr>forksrv_pid := y11\<rparr>)" "still s (s\<lparr>kill_signal := y12\<rparr>)"
  "still s (s\<lparr>total_execs := y13\<rparr>)" "still s (s\<lparr>child_pid := y14\<rparr>)" "still s (s\<lparr>prev_timed_out := y15\<rparr>)"
  "still s (s\<lparr>virgin_bits := y16, bitmap_changed := y17\<rparr>)" "still s (s\<lparr>virgin_tmout := y18\<rparr>)" "still s (s\<lparr>virgin_crash := y19\<rparr>)"
  "still s (s\<lparr>total_crashes := y20\<rparr>)" "still s (s\<lparr>unique_crashes := y21\<rparr>)" "still s (s\<lparr>total_tmouts := y22\<rparr>)"
  "still s (s\<lparr>unique_tmouts := y23\<rparr>)" "still s (s\<lparr>unique_hangs := y24\<rparr>)" "still s (s\<lparr>last_hang_time := y25\<rparr>)"
  "still s (s\<lparr>last_crash_time := y26, last_crash_execs := y27\<rparr>)" "still s (s\<lparr>subseq_tmouts := y28\<rparr>)"
  "still s (s\<lparr>subseq_tmouts := y28, cur_skipped_paths := y29\<rparr>)" "still s (s\<lparr>skip_requested := y30, cur_skipped_paths := y31\<rparr>)"
  "still s (s\<lparr>queued_discovered := y32\<rparr>)" "length y33 = length (trace_bits s) \<Longrightarrow> still s (s\<lparr>trace_bits := y33, child_timed_out := y34\<rparr>)"
  "length y36 = length (trace_bits s) \<Longrightarrow> still s (s\<lparr>child_timed_out := y35, trace_bits := y36\<rparr>)"
  "still s (s\<lparr>total_cal_us := y37, total_cal_cycles := y38\<rparr>)" "still s (s\<lparr>total_bitmap_size := y39, total_bitmap_entries := y40\<rparr>)"
  "still s (s\<lparr>trim_execs := y41\<rparr>)" "still s (s\<lparr>bytes_trim_in := y42\<rparr>)" "still s (s\<lparr>bytes_trim_out := y43\<rparr>)"
  by (simp_all add: still_def frame_def part_defs)

lemma update_score_at_parts:
  "qpart (update_score_at fav q trace i s) = qpart s" "settings (update_score_at fav q trace i s) = settings s"
  "progress (update_score_at fav q trace i s) = progress s" "stats_update_freq (update_score_at fav q trace i s) = stats_update_freq s"
  "a_extras (update_score_at fav q trace i s) = a_extras s" "trace_bits (update_score_at fav q trace i s) = trace_bits s"
  "named (update_score_at fav q trace i s) = named s"
proof -
  have e: "map entry_part (es[t := e]) = map entry_part es" if "entry_part e = entry_part (es ! t)" for es t e
    using that by (metis list_update_id map_update)
  have u: "qpart (upd_q t f s) = qpart s" if "\<And>e. entry_part (f e) = entry_part e" for t f and s :: "'a x_state_scheme"
    using e that by (simp add: qpart_def)
  have d: "qpart (drop_ref t s) = qpart s" for t and s :: "'a x_state_scheme"
    unfolding drop_ref_def by (rule u) (simp add: entry_part_def)
  have k: "qpart (take_slot q trace i s) = qpart s" for s :: "'a x_state_scheme"
  proof -
    let ?s1 = "upd_q q (\<lambda>e. e\<lparr>tc_ref := tc_ref e + 1\<rparr>) (s\<lparr>top_rated := (top_rated s)[i := Some q]\<rparr>)"
    let ?s2 = "upd_q q (\<lambda>e. case trace_mini e of None \<Rightarrow> e\<lparr>trace_mini := Some (minimize_bits (replicate (length trace div 8) 0) trace)\<rparr> | Some _ \<Rightarrow> e) ?s1"
    have "qpart ?s2 = qpart ?s1" by (rule u) (simp add: entry_part_def split: option.split)
    also have "\<dots> = qpart (s\<lparr>top_rated := (top_rated s)[i := Some q]\<rparr>)" by (rule u) (simp add: entry_part_def)
    finally show ?thesis by (simp add: take_slot_def Let_def qpart_def)
  qed
  show "qpart (update_score_at fav q trace i s) = qpart s" by (simp add: update_score_at_def d k split: option.split)
  show "settings (update_score_at fav q trace i s) = settings s" "progress (update_score_at fav q trace i s) = progress s"
    "stats_update_freq (update_score_at fav q trace i s) = stats_update_freq s" "a_extras (update_score_at fav q trace i s) = a_extras s"
    "trace_bits (update_score_at fav q trace i s) = trace_bits s" "named (update_score_at fav q trace i s) = named s"
    by (simp_all add: update_score_at_def drop_ref_def take_slot_def upd_q_def Let_def settings_def progress_def named_def split: option.split)
qed

lemma update_bitmap_score_still:
  assumes "q < length (qs s)"
  shows "still s (update_bitmap_score q s)"
proof -
  let ?F = "\<lambda>t. (qpart t, settings t, progress t, stats_update_freq t, a_extras t, trace_bits t, named t)"
  have "?F (fold (update_score_at fav q trace) xs s) = ?F s" for fav trace xs and s :: "'a x_state_scheme"
    by (induction xs arbitrary: s) (simp_all add: update_score_at_parts)
  then show ?thesis using update_bitmap_score_rated[OF _ assms] by (simp add: update_bitmap_score_def still_def frame_def)
qed

lemma has_new_bits_still: "still s (snd (has_new_bits vm s))"
  by (cases vm) (simp_all add: split_beta Let_def still_more_steps(16-18) del: if_split)

lemma get_cur_time_still: "still s (snd (get_cur_time s))" "still s (snd (get_cur_time_us s))"
  by (simp_all add: get_cur_time_def get_cur_time_us_def still_steps)

lemma culled_still: "culled s t \<Longrightarrow> still s t"
proof -
  assume c: "culled s t"
  have r: "t\<lparr>qs := qs s, fs := fs s, queued_favored := queued_favored s, pending_favored := pending_favored s, score_changed := score_changed s\<rparr> = s"
    using c by (simp add: culled_def)
  note e = culled_entry[OF c]
  have "map entry_part (qs t) = map entry_part (qs s)" by (rule nth_equalityI) (use e(1,2) in \<open>simp_all add: entry_part_def\<close>)
  moreover have "(queue_top t, q_prev100 t, queued_paths t) = (queue_top s, q_prev100 s, queued_paths s)"
    using arg_cong[OF r, of "\<lambda>x. (queue_top x, q_prev100 x, queued_paths x)"] by simp
  moreover have "settings t = settings s" using arg_cong[OF r, of settings] by (simp add: settings_def)
  moreover have "progress t = progress s" "stats_update_freq t = stats_update_freq s" "a_extras t = a_extras s" "named t = named s"
    using arg_cong[OF r, of progress] arg_cong[OF r, of stats_update_freq] arg_cong[OF r, of a_extras] arg_cong[OF r, of named]
    by (simp_all add: progress_def named_def)
  ultimately show ?thesis using culled_rated[OF c] e(4,5) by (simp add: still_def frame_def qpart_def)
qed

section \<open>Executions\<close>

definition ran :: "nat \<Rightarrow> 'a x_state_scheme \<Rightarrow> 'a x_state_scheme \<Rightarrow> bool" where
  "ran n s s' \<longleftrightarrow> frame s s' \<and> stage_cur s' = stage_cur s \<and> stage_max s' = stage_max s \<and>
     exec_pos s \<le> exec_pos s' \<and> exec_pos s' \<le> exec_pos s + n"

lemma still_ran: "still s t \<Longrightarrow> ran n s t"
  by (simp add: still_def ran_def progress_def)

lemma ran_trans: "ran m s t \<Longrightarrow> ran n t u \<Longrightarrow> ran (m + n) s u"
  by (auto simp: ran_def intro: frame_trans)

lemma ran_still: "ran n s t \<Longrightarrow> still t u \<Longrightarrow> ran n s u"
  using ran_trans[of n s t 0 u] still_ran[of t u 0] by simp

lemma still_then_ran: "still s t \<Longrightarrow> ran n t u \<Longrightarrow> ran n s u"
  using ran_trans[of 0 s t n u] still_ran[of s t 0] by simp

lemma ran_mono: "ran m s t \<Longrightarrow> m \<le> n \<Longrightarrow> ran n s t"
  by (auto simp: ran_def)

lemma stats_tick_ok: "stats_update_freq s \<noteq> 0 \<Longrightarrow> okE (still s) (stats_tick c b s)"
  by (simp add: stats_tick_def show_stats_still)

lemma put_testcase_still: "still s (put_testcase bs s)"
  by (auto simp: put_testcase_def intro: still_more_steps split: option.split)

lemma cur_input_put_testcase: "cur_input (put_testcase bs s) = bs"
  by (simp add: cur_input_def put_testcase_def split: option.split)

lemma trace_lengths:
  assumes "8 dvd length bs"
  shows "length (classify_counts tbl bs) = length bs" "length (simplify_trace bs) = length bs"
proof -
  have u: "length (unview 8 (ws :: u64 list)) = 8 * length ws" for ws by (induction ws) (simp_all add: unview_def le_store_def)
  obtain n where n: "length bs = 8 * n" using assms by (auto simp: dvd_def)
  have "length (view 8 xs :: u64 list) = n" if "length xs = 8 * n" for xs
    using that
  proof (induction n arbitrary: xs)
    case (Suc n)
    have "view 8 xs = (view 8 (take 8 xs @ drop 8 xs) :: u64 list)" by simp
    also have "\<dots> = le_load (take 8 xs) # view 8 (drop 8 xs)" by (rule view_append) (use Suc.prems in simp_all)
    finally show ?case using Suc.IH[of "drop 8 xs"] Suc.prems by simp
  qed (simp add: view_def chunks.simps)
  then show "length (classify_counts tbl bs) = length bs" "length (simplify_trace bs) = length bs"
    using n by (simp_all add: classify_counts_def simplify_trace_def classify_counts_loop_map simplify_trace_loop_map u)
qed

lemma run_child_ran: "ran 1 s (snd (run_child tm s))"
  by (simp add: run_child_def Let_def ran_def frame_def part_defs)

lemma collect_child_still: "still s (snd (collect_child oc s))"
proof -
  let ?t = "snd (collect_child oc s)"
  let ?tr = "shared_map oc (trace_bits s)"
  have tr: "trace_bits ?t = classify_counts (count_class_lookup16 s) ?tr" "length ?tr = length (trace_bits s)"
    by (auto simp: collect_child_def Let_def)
  have "rated s \<longrightarrow> rated ?t \<and> length (trace_bits ?t) = length (trace_bits s)"
  proof
    assume r: "rated s"
    then have l: "length (trace_bits ?t) = length (trace_bits s)"
      using trace_lengths(1)[of ?tr "count_class_lookup16 s"] by (simp only: tr) (simp add: rated_def rate_ok_def)
    moreover have "qs ?t = qs s" "top_rated ?t = top_rated s" by (simp_all add: collect_child_def Let_def)
    ultimately show "rated ?t \<and> length (trace_bits ?t) = length (trace_bits s)" using r l by (simp add: rated_def)
  qed
  moreover have "qpart ?t = qpart s" "settings ?t = settings s" "progress ?t = progress s" "stats_update_freq ?t = stats_update_freq s" "a_extras ?t = a_extras s"
      "named ?t = named s"
    by (simp_all add: collect_child_def Let_def qpart_def settings_def progress_def named_def)
  ultimately show ?thesis by (simp add: still_def frame_def)
qed

lemma report_outcome_still: "still s (snd (report_outcome d oc w s))"
  by (simp add: report_outcome_def Let_def still_more_steps)

lemma run_target_ok: "okE (\<lambda>(f, s'). ran 1 s s') (run_target tm s)"
proof -
  obtain oc s1 where c: "run_child tm s = (oc, s1)" by fastforce
  obtain w s2 where d: "collect_child oc s1 = (w, s2)" by fastforce
  have r1: "ran 1 s s1" using run_child_ran[of s tm] c by simp
  have r2: "ran 1 s (snd (report_outcome b oc w s2))" for b
    using r1 collect_child_still[of s1 oc] report_outcome_still d ran_still by (metis snd_conv)
  show ?thesis unfolding run_target_def c d Let_def prod.case using r1 r2 by (auto simp: split_beta simp del: insert_iff)
qed

lemma write_to_testcase_ok: "n \<le> length mem \<Longrightarrow> okE (still s) (write_to_testcase mem n s)"
  by (simp add: write_to_testcase_def put_testcase_still)

lemma write_with_gap_ok: "n \<le> length mem \<Longrightarrow> a + k \<le> n \<Longrightarrow> okE (still s) (write_with_gap mem n a k s)"
  by (simp add: write_with_gap_def put_testcase_still)

section \<open>Calibration\<close>

definition cal_frame :: "'a x_state_scheme \<Rightarrow> 'a x_state_scheme \<Rightarrow> bool" where
  "cal_frame s s' \<longleftrightarrow> frame s s' \<and> stage_cur s' = stage_cur s \<and> exec_pos s' = exec_pos s \<and>
     (stage_max s' = stage_max s \<or> stage_max s' = CAL_CYCLES_LONG)"

lemma still_cal_frame: "still s t \<Longrightarrow> cal_frame s t"
  by (simp add: still_def cal_frame_def progress_def)

lemma cal_frame_trans: "cal_frame s t \<Longrightarrow> cal_frame t u \<Longrightarrow> cal_frame s u"
  by (auto simp: cal_frame_def intro: frame_trans)

lemma calibrate_compare_frame: "cal_frame s (snd (calibrate_compare q nv s))"
proof -
  obtain hnb s1 where h: "has_new_bits VirginBits s = (hnb, s1)" by fastforce
  have c1: "cal_frame s s1" using has_new_bits_still[of s VirginBits] h still_cal_frame by (metis snd_conv)
  have c2: "cal_frame s1 (s1\<lparr>stage_max := CAL_CYCLES_LONG\<rparr>)" by (simp add: cal_frame_def frame_def part_defs)
  have c3: "cal_frame t (t\<lparr>var_bytes := v\<rparr>)" "cal_frame t (t\<lparr>first_trace := v\<rparr>)" for t :: "'a x_state_scheme" and v
    by (intro still_cal_frame still_more_steps)+
  have c4: "cal_frame s1 (upd_q q (\<lambda>e. e\<lparr>exec_cksum := c\<rparr>) s1)" for c
    by (intro still_cal_frame still_upd_q) (simp_all add: entry_part_def)
  show ?thesis
    unfolding calibrate_compare_def h Let_def
    using still_cal_frame[OF still_refl[of s]] c1 cal_frame_trans[OF c1 cal_frame_trans[OF c2 c3(1)]]
      cal_frame_trans[OF c1 c3(1)] cal_frame_trans[OF c1 cal_frame_trans[OF c4 c3(2)]]
    by (cases nv) simp
qed

text \<open>
  The loop never runs out of fuel, executes the target at most once per unit of fuel, and leaves
  queue and settings alone.
\<close>

lemma calibrate_loop_ok:
  fixes s :: "'a x_state_scheme"
  assumes "stats_update_freq s \<noteq> 0" "q < length (qs s)" "unat (q_len (qs s ! q)) \<le> length mem"
    and "stage_max s \<le> CAL_CYCLES_LONG" "CAL_CYCLES_LONG \<le> stage_cur s + int fuel"
  shows "okE (\<lambda>(r, s'). frame s s' \<and> exec_pos s \<le> exec_pos s' \<and> exec_pos s' \<le> exec_pos s + fuel)
    (calibrate_loop fuel q mem tm fr acc s)"
  using assms
proof (induction fuel arbitrary: s acc)
  case 0
  then show ?case by simp
next
  case (Suc fuel)
  obtain fault nb vd where acc: "acc = (fault, nb, vd)" by (cases acc)
  show ?case
  proof (cases "stage_cur s < stage_max s")
    case False
    then show ?thesis by (simp add: acc)
  next
    case True
    have t: "okE (still s) (if \<not> fr then stats_tick (stage_cur s) False s else Inr s)"
      using stats_tick_ok[OF Suc.prems(1)] by simp
    show ?thesis unfolding acc calibrate_loop.simps if_P[OF True]
    proof (rule okE_bind[OF t])
      fix s1 assume s1: "still s s1"
      then have q1: "qpart s1 = qpart s" by (simp add: still_def frame_def)
      have len: "unat (q_len (qs s1 ! q)) \<le> length mem" using qpart_queue_inv(4)[OF q1 Suc.prems(2)] Suc.prems(3) by simp
      show "okE (\<lambda>(r, s'). frame s s' \<and> exec_pos s \<le> exec_pos s' \<and> exec_pos s' \<le> exec_pos s + Suc fuel)
          (bindE (write_to_testcase mem (unat (q_len (qs s1 ! q))) s1) (\<lambda>s. bindE (run_target tm s) (\<lambda>(fault, s).
            if stop_soon s \<noteq> 0 \<or> fault \<noteq> crash_mode s then Inr ((True, fault, nb, vd), s)
            else if dumb_mode s = 0 \<and> stage_cur s = 0 \<and> count_bytes (trace_bits s) = 0 then Inr ((True, FAULT_NOINST, nb, vd), s)
            else let ((nb, vd), s) = calibrate_compare q (nb, vd) s in
              calibrate_loop fuel q mem tm fr (fault, nb, vd) (s\<lparr>stage_cur := stage_cur s + 1\<rparr>))))"
      proof (rule okE_bind[OF write_to_testcase_ok[OF len]], rule okE_bind[OF run_target_ok])
        fix s2 and x :: "fault \<times> 'a x_state_scheme" assume s2: "still s1 s2" and x: "case x of (f, s') \<Rightarrow> ran 1 s2 s'"
        obtain f s3 where xs: "x = (f, s3)" by (cases x)
        have r3: "ran 1 s s3" using still_then_ran[OF still_trans[OF s1 s2]] x xs by simp
        obtain nb' vd' s4 where c: "calibrate_compare q (nb, vd) s3 = ((nb', vd'), s4)" by (metis surj_pair)
        have c4: "cal_frame s3 s4" using calibrate_compare_frame[of s3 q "(nb, vd)"] c by simp
        define s5 where "s5 = s4\<lparr>stage_cur := stage_cur s4 + 1\<rparr>"
        have f5: "frame s4 s5" by (simp add: s5_def frame_def part_defs)
        have fr5: "frame s s5" using r3 c4 f5 by (meson cal_frame_def frame_trans ran_def)
        have e5: "exec_pos s5 = exec_pos s3" "stage_cur s5 = stage_cur s + 1" "stage_max s5 \<le> CAL_CYCLES_LONG"
          using c4 r3 Suc.prems(4) by (auto simp: s5_def cal_frame_def ran_def)
        have "okE (\<lambda>(r, s'). frame s5 s' \<and> exec_pos s5 \<le> exec_pos s' \<and> exec_pos s' \<le> exec_pos s5 + fuel)
            (calibrate_loop fuel q mem tm fr (f, nb', vd') s5)"
        proof (rule Suc.IH)
          have q5: "qpart s5 = qpart s" using fr5 by (simp add: frame_def)
          show "stats_update_freq s5 \<noteq> 0" using fr5 Suc.prems(1) by (simp add: frame_def)
          show "q < length (qs s5)" using qpart_queue_inv(2)[OF q5] Suc.prems(2) by simp
          show "unat (q_len (qs s5 ! q)) \<le> length mem" using qpart_queue_inv(4)[OF q5 Suc.prems(2)] Suc.prems(3) by simp
        qed (use e5 Suc.prems in auto)
        then have "okE (\<lambda>(r, s'). frame s s' \<and> exec_pos s \<le> exec_pos s' \<and> exec_pos s' \<le> exec_pos s + Suc fuel)
            (calibrate_loop fuel q mem tm fr (f, nb', vd') s5)"
          by (rule okE_mono) (use r3 e5(1) fr5 in \<open>auto simp: ran_def intro: frame_trans\<close>)
        then show "okE (\<lambda>(r, s'). frame s s' \<and> exec_pos s \<le> exec_pos s' \<and> exec_pos s' \<le> exec_pos s + Suc fuel)
            (case x of (fault, s) \<Rightarrow>
               if stop_soon s \<noteq> 0 \<or> fault \<noteq> crash_mode s then Inr ((True, fault, nb, vd), s)
            else if dumb_mode s = 0 \<and> stage_cur s = 0 \<and> count_bytes (trace_bits s) = 0 then Inr ((True, FAULT_NOINST, nb, vd), s)
            else let ((nb, vd), s) = calibrate_compare q (nb, vd) s in
              calibrate_loop fuel q mem tm fr (fault, nb, vd) (s\<lparr>stage_cur := stage_cur s + 1\<rparr>))"
          unfolding xs prod.case c Let_def s5_def using r3 by (auto simp: ran_def)
      qed
    qed
  qed
qed

lemma calibrate_stats_still: "q < length (qs s) \<Longrightarrow> still s (calibrate_stats q a b h s)"
  unfolding calibrate_stats_def Let_def
  by (rule still_trans[OF still_trans[OF still_trans[OF still_more_steps(32) still_upd_q] still_more_steps(33)] update_bitmap_score_still])
    (simp_all add: entry_part_def)

lemma mark_as_variable_ok:
  assumes "CHR ''/'' \<in> set (fname (qs s ! q))"
  shows "okE (still s) (mark_as_variable q s)"
proof -
  obtain fn where b: "base_name (fname (qs s ! q)) = Some fn" using assms by (simp add: base_name_def)
  have u: "still s (upd_q q (\<lambda>e. e\<lparr>var_behavior := True\<rparr>) (s\<lparr>fs := f\<rparr>))" for f
    by (rule still_trans[OF still_more_steps(3) still_upd_q]) (simp_all add: entry_part_def)
  define p where "p = out_dir s @ ''/queue/.state/variable_behavior/'' @ fn"
  show ?thesis
    unfolding mark_as_variable_def b option.case Let_def p_def[symmetric]
    by (cases "fs s p = None") (simp_all only: if_True if_False create_excl_def bindE_simps okE_simps fatal.simps u simp_thms)
qed

lemma still_qpart: "still s t \<Longrightarrow> qpart t = qpart s"
  by (simp add: still_def frame_def)

lemma calibrate_end_ok:
  assumes "CHR ''/'' \<in> set (fname (qs s ! q))" "q < length (qs s)"
  shows "okE (still s) (calibrate_end q nb vd s)"
proof -
  define s1 where "s1 = (if nb = 2 \<and> \<not> has_new_cov (qs s ! q)
       then (upd_q q (\<lambda>e. e\<lparr>has_new_cov := True\<rparr>) s)\<lparr>queued_with_cov := queued_with_cov s + 1\<rparr> else s)"
  have "still s (upd_q q (\<lambda>e. e\<lparr>has_new_cov := True\<rparr>) s)" by (rule still_upd_q) (simp_all add: entry_part_def)
  then have s1: "still s s1" unfolding s1_def by (rule still_if[OF still_trans[OF _ still_more_steps(8)] still_refl])
  define s2 where "s2 = s1\<lparr>var_byte_count := count_bytes (var_bytes s1)\<rparr>"
  have s2: "still s s2" unfolding s2_def by (rule still_trans[OF s1 still_more_steps(10)])
  have n: "CHR ''/'' \<in> set (fname (qs s2 ! q))" using qpart_queue_inv(3)[OF still_qpart[OF s2] assms(2)] assms(1) by simp
  have "okE (still s) (bindE (mark_as_variable q s2) (\<lambda>s. Inr (s\<lparr>queued_variable := queued_variable s + 1\<rparr>)))"
  proof (rule okE_bind[OF mark_as_variable_ok[OF n]])
    fix t assume "still s2 t"
    then show "okE (still s) (Inr (t\<lparr>queued_variable := queued_variable t + 1\<rparr>))"
      using s2 still_trans still_more_steps(9) unfolding okE_simps by blast
  qed
  then show ?thesis unfolding calibrate_end_def s1_def[symmetric] Let_def s2_def[symmetric] using s1 s2 by simp
qed

text \<open>The states between the start of the calibration and its end.\<close>

definition calibrating :: "'a x_state_scheme \<Rightarrow> 'a x_state_scheme \<Rightarrow> bool" where
  "calibrating s t \<longleftrightarrow> frame s t \<and> exec_pos t = exec_pos s \<and> stage_max t \<le> CAL_CYCLES_LONG"

lemma calibrating_still: "calibrating s t \<Longrightarrow> still t u \<Longrightarrow> calibrating s u"
  by (auto simp: calibrating_def still_def progress_def intro: frame_trans)

lemma calibrate_begin_ok:
  assumes "okE (\<lambda>_. True) (forksrv_start s)"
  shows "okE (calibrating s) (calibrate_begin q s)"
proof -
  define s1 where "s1 = upd_q q (\<lambda>e. e\<lparr>cal_failed := cal_failed e + 1\<rparr>) s"
  define s2 where "s2 = s1\<lparr>stage_max := (if fast_cal s1 then 3 else CAL_CYCLES)\<rparr>"
  have st: "still s s1" unfolding s1_def by (rule still_upd_q) (simp_all add: entry_part_def)
  have "frame s1 s2" "exec_pos s2 = exec_pos s1" "stage_max s2 \<le> CAL_CYCLES_LONG"
    by (simp_all add: s2_def frame_def part_defs cfg_simps)
  then have c2: "calibrating s s2" using st by (auto simp: calibrating_def still_def progress_def intro: frame_trans)
  have fk: "forksrv_start s2 = forksrv_start s" by (simp add: s2_def s1_def upd_q_def)
  have "okE (calibrating s) (bindE (forksrv_start s2) (\<lambda>pid. Inr (s2\<lparr>forksrv_pid := pid\<rparr>)))"
    using assms unfolding fk
    by (rule okE_bind) (use calibrating_still[OF c2 still_more_steps(11)] in simp)
  then have f: "okE (calibrating s) (if dumb_mode s2 \<noteq> 1 \<and> \<not> no_forkserver s2 \<and> forksrv_pid s2 = 0
       then bindE (forksrv_start s2) (\<lambda>pid. Inr (s2\<lparr>forksrv_pid := pid\<rparr>)) else Inr s2)" using c2 by simp
  show ?thesis unfolding calibrate_begin_def Let_def s1_def[symmetric] s2_def[symmetric]
  proof (rule okE_bind[OF f])
    fix t assume "calibrating s t"
    then show "okE (calibrating s) (Inr (if exec_cksum (qs t ! q) \<noteq> 0 then t\<lparr>first_trace := trace_bits t\<rparr> else t))"
      by (auto intro: calibrating_still still_more_steps(6))
  qed
qed

lemma calibrate_finish_ok:
  fixes s :: "'a x_state_scheme"
  assumes "frame s t" "exec_pos s \<le> exec_pos t" "exec_pos t \<le> exec_pos s + n"
    and "q < length (qs s)" "CHR ''/'' \<in> set (fname (qs s ! q))" "old = (stage_cur s, stage_max s)"
  shows "okE (\<lambda>(f, s'). ran n s s') (calibrate_finish q a h fr old (r, t))"
proof -
  obtain ab fa nb vd where r: "r = (ab, fa, nb, vd)" by (metis surj_pair)
  define u where "u = (if ab then (fa, t) else calibrate_judge q a h fr fa nb t)"
  have qt: "q < length (qs t)" using qpart_queue_inv(2)[of t s] assms(1,4) by (simp add: frame_def)
  have "still t (snd (calibrate_judge q a h fr fa nb t))"
    unfolding calibrate_judge_def Let_def snd_conv
    by (rule still_trans[OF get_cur_time_still(2) calibrate_stats_still]) (use qt in \<open>simp add: get_cur_time_us_def\<close>)
  then have su: "still t (snd u)" by (simp add: u_def)
  have q: "qpart (snd u) = qpart s" using still_qpart[OF su] assms(1) by (simp add: frame_def)
  have nm: "CHR ''/'' \<in> set (fname (qs (snd u) ! q))" "q < length (qs (snd u))"
    using qpart_queue_inv(2,3)[OF q] assms(4,5) by auto
  have "okE (\<lambda>(f, s'). ran n s s') (bindE (calibrate_end q nb vd (snd u)) (\<lambda>s.
          let s = s\<lparr>stage_cur := fst old, stage_max := snd old\<rparr> in Inr (fst u, if \<not> fr then show_stats s else s)))"
  proof (rule okE_bind[OF calibrate_end_ok[OF nm]])
    fix v assume "still (snd u) v"
    then have "still t v" using su still_trans by blast
    then have v: "frame s v" "exec_pos v = exec_pos t" using assms(1) frame_trans by (auto simp: still_def progress_def)
    have "frame v (v\<lparr>stage_cur := fst old, stage_max := snd old\<rparr>)" by (simp add: frame_def part_defs)
    then have "ran n s (v\<lparr>stage_cur := fst old, stage_max := snd old\<rparr>)"
      using assms(2,3,6) v frame_trans[OF v(1)] by (simp add: ran_def)
    then show "okE (\<lambda>(f, s'). ran n s s') (let s = v\<lparr>stage_cur := fst old, stage_max := snd old\<rparr> in Inr (fst u, if \<not> fr then show_stats s else s))"
      by (auto simp: Let_def intro: ran_still show_stats_still)
  qed
  then show ?thesis unfolding calibrate_finish_def r prod.case u_def[symmetric] Let_def .
qed

lemma calibrate_case_ok:
  fixes s :: "'a x_state_scheme"
  assumes "stats_update_freq s \<noteq> 0" "q < length (qs s)" "unat (q_len (qs s ! q)) \<le> length mem" "CHR ''/'' \<in> set (fname (qs s ! q))"
    and "okE (\<lambda>_. True) (forksrv_start s)"
  shows "okE (\<lambda>(f, s'). ran (nat CAL_CYCLES_LONG) s s') (calibrate_case q mem h fq s)"
  unfolding calibrate_case_def Let_def
proof (rule okE_bind[OF calibrate_begin_ok[OF assms(5)]])
  fix t assume "calibrating s t"
  then have "calibrating s (snd (get_cur_time_us t))" using calibrating_still get_cur_time_still(2) by blast
  moreover have "frame w (w\<lparr>stage_cur := 0\<rparr>)" for w :: "'a x_state_scheme" by (simp add: frame_def part_defs)
  ultimately have c: "calibrating s ((snd (get_cur_time_us t))\<lparr>stage_cur := 0\<rparr>)"
    unfolding calibrating_def by (auto intro: frame_trans)
  define u where "u = (snd (get_cur_time_us t))\<lparr>stage_cur := 0\<rparr>"
  have qu: "qpart u = qpart s" using c by (simp add: calibrating_def frame_def u_def)
  have pre: "stats_update_freq u \<noteq> 0" "q < length (qs u)" "unat (q_len (qs u ! q)) \<le> length mem"
      "stage_max u \<le> CAL_CYCLES_LONG" "CAL_CYCLES_LONG \<le> stage_cur u + int (nat CAL_CYCLES_LONG)"
    using c assms(1-3) qpart_queue_inv(2,4)[OF qu] by (auto simp: frame_def calibrating_def u_def[symmetric] cfg_simps) (simp_all add: u_def)
  show "okE (\<lambda>(f, s'). ran (nat CAL_CYCLES_LONG) s s')
     (bindE (calibrate_loop (nat CAL_CYCLES_LONG) q mem
         (if \<not> fq \<or> resuming_fuzz s then max (exec_tmout s + CAL_TMOUT_ADD) (exec_tmout s * CAL_TMOUT_PERC div 100) else exec_tmout s)
         (exec_cksum (qs s ! q) = 0) (FAULT_NONE, 0, False) ((snd (get_cur_time_us t))\<lparr>stage_cur := 0\<rparr>))
       (calibrate_finish q (fst (get_cur_time_us t)) h (exec_cksum (qs s ! q) = 0) (stage_cur s, stage_max s)))"
    unfolding u_def[symmetric]
  proof (rule okE_bind[OF calibrate_loop_ok[OF pre]])
    fix x :: "(bool \<times> fault \<times> u8 \<times> bool) \<times> 'a x_state_scheme"
    assume x: "case x of (r, s') \<Rightarrow> frame u s' \<and> exec_pos u \<le> exec_pos s' \<and> exec_pos s' \<le> exec_pos u + nat CAL_CYCLES_LONG"
    obtain r v where xs: "x = (r, v)" by (cases x)
    have "frame s v" "exec_pos s \<le> exec_pos v" "exec_pos v \<le> exec_pos s + nat CAL_CYCLES_LONG"
      using x xs c frame_trans[of s u v] by (auto simp: calibrating_def u_def[symmetric])
    then show "okE (\<lambda>(f, s'). ran (nat CAL_CYCLES_LONG) s s')
        (calibrate_finish q (fst (get_cur_time_us t)) h (exec_cksum (qs s ! q) = 0) (stage_cur s, stage_max s) x)"
      unfolding xs by (rule calibrate_finish_ok[OF _ _ _ assms(2,4)]) simp
  qed
qed

section \<open>Saving\<close>

text \<open>
  The invariant of the fuzzer's state between executions, with room for \<open>k\<close> more queue entries.
\<close>

definition x_inv :: "nat \<Rightarrow> 'a x_state_scheme \<Rightarrow> bool" where
  "x_inv k s \<longleftrightarrow> queue_inv s \<and> (\<forall>e\<in>set (qs s). CHR ''/'' \<in> set (fname e)) \<and> stats_update_freq s \<noteq> 0 \<and>
     length (qs s) + k < 2 ^ 32 \<and> dict_ok (extras s) \<and> auto_ok (a_extras s) \<and> okE (\<lambda>_. True) (forksrv_start s) \<and> rated s \<and> named s \<and> crash_mode s \<in> {FAULT_NONE, FAULT_CRASH} \<and>
     (\<forall>h b b'. post_handler s = Some h \<longrightarrow> length b < 2 ^ 32 \<longrightarrow> h b = Some b' \<longrightarrow> length b' < 2 ^ 32)"

lemma frame_names: "qpart s' = qpart s \<Longrightarrow> map fname (qs s') = map fname (qs s)" "qpart s' = qpart s \<Longrightarrow> map q_len (qs s') = map q_len (qs s)"
  using qpart_queue_inv(2,3,4)[of s' s] by (auto intro!: nth_equalityI)

lemma x_inv_frame: "frame s s' \<Longrightarrow> x_inv k s \<Longrightarrow> x_inv k s'"
proof -
  assume f: "frame s s'" and x: "x_inv k s"
  have q: "qpart s' = qpart s" using f by (simp add: frame_def)
  have eq: "fname ` set (qs s') = fname ` set (qs s)" using arg_cong[OF frame_names(1)[OF q], of set] by simp
  have "\<forall>f\<in>fname ` set (qs s'). CHR ''/'' \<in> set f" unfolding eq using x by (simp add: x_inv_def)
  then show "x_inv k s'"
    using f x qpart_queue_inv(1,2)[OF q] unfolding x_inv_def frame_def settings_def by simp
qed

lemma x_inv_still: "still s s' \<Longrightarrow> x_inv k s \<Longrightarrow> x_inv k s'"
  by (auto simp: still_def intro: x_inv_frame)

lemma x_inv_less: "x_inv (Suc k) s \<Longrightarrow> x_inv k s"
  by (simp add: x_inv_def)

definition calm :: "'a x_state_scheme \<Rightarrow> 'a x_state_scheme \<Rightarrow> bool" where
  "calm s t \<longleftrightarrow> settings t = settings s \<and> progress t = progress s \<and> stats_update_freq t = stats_update_freq s \<and> fs t = fs s \<and> a_extras t = a_extras s \<and>
     named t = named s"

lemma calm_trans: "calm s t \<Longrightarrow> calm t u \<Longrightarrow> calm s u"
  by (simp add: calm_def)

lemma calm_steps:
  "calm s s" "calm s (upd_q q f s)" "calm s (s\<lparr>qs := a1\<rparr>)" "calm s (s\<lparr>max_depth := a2\<rparr>)" "calm s (s\<lparr>queue_top := a3\<rparr>)"
  "calm s (s\<lparr>q_prev100 := a4, queue := a5, queue_top := a6\<rparr>)" "calm s (s\<lparr>queued_paths := a7, pending_not_fuzzed := a8, cycles_wo_finds := a9\<rparr>)"
  "calm s (s\<lparr>q_prev100 := a10\<rparr>)" "calm s (s\<lparr>time_pos := a11\<rparr>)" "calm s (s\<lparr>last_path_time := a12\<rparr>)"
  by (simp_all add: calm_def part_defs upd_q_def)

lemma calm_cases: "calm s t \<Longrightarrow> calm s u \<Longrightarrow> calm s (if c then t else u)"
  "(\<And>x. calm s (f x)) \<Longrightarrow> calm s t \<Longrightarrow> calm s (case p of Some x \<Rightarrow> f x | None \<Rightarrow> t)"
  by (auto split: option.split)

lemma add_to_queue_other: "calm s (add_to_queue fn l det s)"
  unfolding add_to_queue_def Let_def get_cur_time_def prod.case
  by (intro calm_cases calm_steps calm_trans[OF _ calm_steps(2)] calm_trans[OF _ calm_steps(3)] calm_trans[OF _ calm_steps(4)]
      calm_trans[OF _ calm_steps(5)] calm_trans[OF _ calm_steps(6)] calm_trans[OF _ calm_steps(7)] calm_trans[OF _ calm_steps(8)]
      calm_trans[OF _ calm_steps(9)] calm_trans[OF _ calm_steps(10)])

lemma add_to_queue_x_inv:
  assumes "x_inv (Suc k) s" "CHR ''/'' \<in> set fn"
  shows "x_inv k (add_to_queue fn l det s)" "queue_top (add_to_queue fn l det s) = Some (length (qs s))"
    "map fname (qs (add_to_queue fn l det s)) = map fname (qs s) @ [fn]"
    "map q_len (qs (add_to_queue fn l det s)) = map q_len (qs s) @ [l]"
proof -
  let ?t = "add_to_queue fn l det s"
  have q: "queue_inv s" "Suc (length (qs s)) < 2 ^ 32" using assms(1) by (auto simp: x_inv_def)
  note E = add_to_queue_entry[OF q, of _ fn l det]
  have "fname (qs ?t ! i) = (map fname (qs s) @ [fn]) ! i" "q_len (qs ?t ! i) = (map q_len (qs s) @ [l]) ! i" if "i \<le> length (qs s)" for i
    using E[OF that] that by (auto simp: nth_append new_entry_def)
  then show n: "map fname (qs ?t) = map fname (qs s) @ [fn]" and "map q_len (qs ?t) = map q_len (qs s) @ [l]"
    by (auto intro!: nth_equalityI)
  have eq: "fname ` set (qs ?t) = insert fn (fname ` set (qs s))" using arg_cong[OF n, of set] by simp
  have "\<forall>f\<in>fname ` set (qs ?t). CHR ''/'' \<in> set f" unfolding eq using assms by (auto simp: x_inv_def)
  then show "x_inv k ?t"
    using add_to_queue_queue_inv[OF q] add_to_queue_rated[OF q] assms(1) add_to_queue_other[of s fn l det] by (simp add: x_inv_def settings_def calm_def)
  show "queue_top ?t = Some (length (qs s))" by (rule add_to_queue_fields(3)[OF q])
qed

text \<open>What keeping an input may do: at most one new entry, with its file on disk.\<close>

definition keep_post :: "nat \<Rightarrow> nat \<Rightarrow> u8 list \<Rightarrow> 'a x_state_scheme \<Rightarrow> bool \<times> 'a x_state_scheme \<Rightarrow> bool" where
  "keep_post k n mem s r \<longleftrightarrow> (case r of (keep, s') \<Rightarrow>
     x_inv k s' \<and> settings s' = settings s \<and> stage_cur s' = stage_cur s \<and> stage_max s' = stage_max s \<and>
     exec_pos s \<le> exec_pos s' \<and> exec_pos s' \<le> exec_pos s + n \<and>
     (if keep then \<exists>fn. fs s' fn = Some (File mem) \<and> map fname (qs s') = map fname (qs s) @ [fn] \<and>
                        map q_len (qs s') = map q_len (qs s) @ [of_nat (length mem)]
      else qpart s' = qpart s))"

lemma keptI_ran: "x_inv k s \<Longrightarrow> ran n s s' \<Longrightarrow> keep_post k n mem s (False, s')"
  using x_inv_frame[of s s' k] by (simp add: keep_post_def ran_def frame_def)

lemma has_new_bits_still': "has_new_bits vm s = (h, t) \<Longrightarrow> still s t"
  using has_new_bits_still[of s vm] by simp

lemma queue_new_path_ok:
  fixes s :: "'a x_state_scheme"
  assumes x: "x_inv (Suc k) s" and len: "length mem < 2 ^ 32"
  shows "okE (keep_post k (nat CAL_CYCLES_LONG) mem s) (queue_new_path mem s)"
proof -
  let ?N = "nat CAL_CYCLES_LONG"
  obtain hnb s1 where h: "has_new_bits VirginBits s = (hnb, s1)" by fastforce
  have s1: "still s s1" using has_new_bits_still'[OF h] .
  show ?thesis
  proof (cases "hnb = 0")
    case True
    have "still s (if crash_mode s1 \<noteq> FAULT_NONE then s1\<lparr>total_crashes := total_crashes s1 + 1\<rparr> else s1)"
      by (rule still_if[OF still_trans[OF s1 still_more_steps(19)] s1])
    then show ?thesis unfolding queue_new_path_def h Let_def prod.case if_P[OF True]
      using keptI_ran[OF x_inv_less[OF x] still_ran] by simp
  next
    case False
    have x1: "x_inv (Suc k) s1" using x_inv_still[OF s1 x] .
    then have op: "describe_op hnb s1 = Inr (op_text hnb s1)" by (intro describe_op_fits) (simp add: x_inv_def)
    define fn where "fn = out_dir s1 @ ''/queue/id:'' @ fmt06 (unat (queued_paths s1)) @ '','' @ op_text hnb s1"
    define s2 where "s2 = add_to_queue fn (of_nat (length mem)) False s1"
    define t where "t = length (qs s1)"
    have slash: "CHR ''/'' \<in> set fn" by (simp add: fn_def)
    note A = add_to_queue_x_inv[OF x1 slash, of "of_nat (length mem)" False, folded s2_def t_def]
    define s3 where "s3 = (if hnb = 2 then (upd_q t (\<lambda>e. e\<lparr>has_new_cov := True\<rparr>) s2)\<lparr>queued_with_cov := queued_with_cov s2 + 1\<rparr> else s2)"
    define s4 where "s4 = upd_q t (\<lambda>e. e\<lparr>exec_cksum := hash32 (trace_bits s3) HASH_CONST\<rparr>) s3"
    have "still s2 (upd_q t (\<lambda>e. e\<lparr>has_new_cov := True\<rparr>) s2)" by (rule still_upd_q) (simp_all add: entry_part_def)
    then have "still s2 s3" unfolding s3_def by (rule still_if[OF still_trans[OF _ still_more_steps(8)] still_refl])
    moreover have "still s3 s4" unfolding s4_def by (rule still_upd_q) (simp_all add: entry_part_def)
    ultimately have s4: "still s2 s4" by (rule still_trans)
    have q4: "qpart s4 = qpart s2" using still_qpart[OF s4] .
    have x4: "x_inv k s4" using x_inv_still[OF s4 A(1)] .
    have t2: "t < length (qs s2)" using arg_cong[OF A(3), of length] by (simp add: t_def)
    have ql: "q_len (qs s2 ! t) = of_nat (length mem)" "fname (qs s2 ! t) = fn"
      using arg_cong[OF A(4), of "\<lambda>xs. xs ! t"] arg_cong[OF A(3), of "\<lambda>xs. xs ! t"] t2 by (simp_all add: t_def nth_append)
    have "unat (of_nat (length mem) :: u32) = length mem" using len by (simp add: unat_of_nat take_bit_nat_eq_self)
    then have pre: "stats_update_freq s4 \<noteq> 0" "t < length (qs s4)" "unat (q_len (qs s4 ! t)) \<le> length mem"
       "CHR ''/'' \<in> set (fname (qs s4 ! t))" "okE (\<lambda>_. True) (forksrv_start s4)"
      using x4 qpart_queue_inv(2,3,4)[OF q4] t2 ql slash by (auto simp: x_inv_def)
    have r: "okE (keep_post k ?N mem s) (bindE (calibrate_case t mem (ucast (queue_cycle s4 - 1)) False s4) (\<lambda>(res, s).
                    if res = FAULT_ERROR then Inl (FATAL ''Unable to execute target application'')
                    else bindE (create_excl fn mem s) (\<lambda>s. Inr (True, s))))"
    proof (rule okE_bind[OF calibrate_case_ok[OF pre]])
      fix y :: "fault \<times> 'a x_state_scheme" assume y: "case y of (f, s') \<Rightarrow> ran ?N s4 s'"
      obtain res s5 where ys: "y = (res, s5)" by (cases y)
      have r5: "ran ?N s4 s5" using y ys by simp
      define s6 where "s6 = s5\<lparr>fs := (fs s5)(fn \<mapsto> File mem)\<rparr>"
      have r6: "ran ?N s4 s6" unfolding s6_def by (rule ran_still[OF r5 still_more_steps(3)])
      have f6: "frame s4 s6" using r6 by (simp add: ran_def)
      then have q6: "qpart s6 = qpart s2" using q4 by (simp add: frame_def)
      have c2: "calm s1 s2" unfolding s2_def by (rule add_to_queue_other)
      have "settings s6 = settings s" using f6 s4 s1 c2 by (simp add: frame_def still_def calm_def)
      moreover have "stage_cur s6 = stage_cur s" "stage_max s6 = stage_max s" "exec_pos s \<le> exec_pos s6" "exec_pos s6 \<le> exec_pos s + ?N"
        using r6 s4 s1 c2 by (auto simp: ran_def still_def progress_def calm_def)
      moreover have "fs s6 fn = Some (File mem)" by (simp add: s6_def)
      moreover have "map fname (qs s6) = map fname (qs s) @ [fn]" "map q_len (qs s6) = map q_len (qs s) @ [of_nat (length mem)]"
        using frame_names[OF q6] A(3,4) frame_names[OF still_qpart[OF s1]] by simp_all
      ultimately have "keep_post k ?N mem s (True, s6)" using x_inv_frame[OF f6 x4] by (auto simp: keep_post_def)
      then show "okE (keep_post k ?N mem s) (case y of (res, s) \<Rightarrow> if res = FAULT_ERROR then Inl (FATAL ''Unable to execute target application'')
                    else bindE (create_excl fn mem s) (\<lambda>s. Inr (True, s)))"
        unfolding ys prod.case create_excl_def s6_def by simp
    qed
    then show ?thesis
      unfolding queue_new_path_def h Let_def prod.case if_not_P[OF False] op bindE_simps fn_def[symmetric] s2_def[symmetric] A(2) option.case
        s3_def[symmetric] s4_def[symmetric] by simp
  qed
qed

lemma unique_trace_still: "still s (snd (unique_trace vm s))"
proof -
  let ?s = "s\<lparr>trace_bits := simplify_trace (trace_bits s)\<rparr>"
  have "rated ?s \<and> length (trace_bits ?s) = length (trace_bits s)" if "rated s" using that trace_lengths(2)[of "trace_bits s"] by (simp add: rated_def rate_ok_def)
  then have "still s ?s" by (simp add: still_def frame_def qpart_def settings_def progress_def named_def)
  then have "still s (snd (has_new_bits vm ?s))" by (rule still_trans[OF _ has_new_bits_still])
  then show ?thesis by (simp add: unique_trace_def Let_def split_beta)
qed

lemma still_named: "still s t \<Longrightarrow> named s \<Longrightarrow> named t"
  by (simp add: still_def frame_def)

text \<open>
  Naming a crash or a hang changes counters only; the files that exist stay as they are. The name is
  \<open>None\<close> when the input is not to be saved.
\<close>

definition saver :: "'a x_state_scheme \<Rightarrow> string option \<times> 'a x_state_scheme \<Rightarrow> bool" where
  "saver s r \<longleftrightarrow> still s (snd r) \<and> (\<forall>f. fs s f \<noteq> None \<longrightarrow> fs (snd r) f = fs s f)"

lemma has_new_bits_fs: "fs (snd (has_new_bits vm s)) = fs s"
  by (cases vm) (simp_all add: split_beta Let_def)

lemma unique_trace_fs: "fs (snd (unique_trace vm s)) = fs s"
  by (simp add: unique_trace_def Let_def split_beta has_new_bits_fs)

lemma write_crash_readme_saver: "still s (write_crash_readme s)" "fs s f \<noteq> None \<Longrightarrow> fs (write_crash_readme s) f = fs s f"
  by (auto simp: write_crash_readme_def Let_def still_more_steps)

lemma name_crash_saver:
  assumes "named s"
  shows "okE (saver s) (name_crash s)"
proof -
  define s3 where "s3 = (if unique_crashes s = 0 then write_crash_readme s else s)"
  have st3: "still s s3" unfolding s3_def by (rule still_if[OF write_crash_readme_saver(1) still_refl])
  have fs3: "fs s f \<noteq> None \<longrightarrow> fs s3 f = fs s f" for f
    using write_crash_readme_saver(2)[of s f] by (simp add: s3_def)
  have op: "describe_op 0 s3 = Inr (op_text 0 s3)" using still_named[OF st3 assms] by (rule describe_op_fits)
  define s4 where "s4 = snd (get_cur_time (s3\<lparr>unique_crashes := unique_crashes s3 + 1\<rparr>))"
  have st4: "still s (s4\<lparr>last_crash_time := a, last_crash_execs := b\<rparr>)" for a b
    unfolding s4_def
    by (rule still_trans[OF still_trans[OF still_trans[OF st3 still_more_steps(20)] get_cur_time_still(1)] still_more_steps(25)])
  have fs4: "fs s4 = fs s3" by (simp add: s4_def get_cur_time_def)
  show ?thesis unfolding saver_def name_crash_def s3_def[symmetric] Let_def split_beta s4_def[symmetric] snd_conv op bindE_simps okE_simps
    using st4 fs3 fs4 by simp
qed

lemma saver_trans: "still s t \<Longrightarrow> fs t = fs s \<Longrightarrow> saver t r \<Longrightarrow> saver s r"
  by (auto simp: saver_def intro: still_trans)

lemma saver_None: "still s t \<Longrightarrow> fs t = fs s \<Longrightarrow> saver s (None, t)"
  by (simp add: saver_def)

lemma keep_as_crash_saver:
  assumes "named s"
  shows "okE (saver s) (keep_as_crash s)"
proof -
  define s1 where "s1 = s\<lparr>total_crashes := total_crashes s + 1\<rparr>"
  have st1: "still s s1" "fs s1 = fs s" by (simp_all add: s1_def still_more_steps)
  obtain u s2 where u: "unique_trace VirginCrash s1 = (u, s2)" by fastforce
  have st2: "still s s2" using st1 unique_trace_still[of s1 VirginCrash] u still_trans by (metis snd_conv)
  have fs2: "fs s2 = fs s" using unique_trace_fs[of VirginCrash s1] u st1(2) by simp
  show ?thesis
    unfolding keep_as_crash_def Let_def s1_def[symmetric] u prod.case
    using saver_None[OF st1] saver_None[OF st2 fs2] okE_mono[OF name_crash_saver[OF still_named[OF st2 assms]] saver_trans[OF st2 fs2]] by simp
qed

lemma name_hang_saver:
  assumes "named s"
  shows "okE (saver s) (name_hang s)"
proof -
  have "still s ((snd (get_cur_time (s\<lparr>unique_hangs := a\<rparr>)))\<lparr>last_hang_time := b\<rparr>)" for a b
    by (rule still_trans[OF still_trans[OF still_more_steps(23) get_cur_time_still(1)] still_more_steps(24)])
  then show ?thesis
    by (simp add: saver_def name_hang_def describe_op_fits[OF assms] Let_def split_beta) (simp add: get_cur_time_def)
qed

text \<open>The hang branch may run the target once more, on the longer time limit.\<close>

definition hang_saver :: "'a x_state_scheme \<Rightarrow> string option \<times> 'a x_state_scheme \<Rightarrow> bool" where
  "hang_saver s r \<longleftrightarrow> ran 1 s (snd r)"

lemma saver_hang: "still s t \<Longrightarrow> saver t r \<Longrightarrow> hang_saver s r"
  by (auto simp: saver_def hang_saver_def intro: still_ran still_trans)

lemma keep_as_hang_ok:
  fixes s :: "'a x_state_scheme"
  assumes n: "named s"
  shows "okE (hang_saver s) (keep_as_hang mem s)"
proof -
  define s1 where "s1 = s\<lparr>total_tmouts := total_tmouts s + 1\<rparr>"
  have st1: "still s s1" by (simp add: s1_def still_more_steps)
  obtain u s2 where u: "unique_trace VirginTmout s1 = (u, s2)" by fastforce
  have st2: "still s s2" using st1 unique_trace_still[of s1 VirginTmout] u still_trans by (metis snd_conv)
  define s3 where "s3 = s2\<lparr>unique_tmouts := unique_tmouts s2 + 1\<rparr>"
  have st3: "still s s3" unfolding s3_def by (rule still_trans[OF st2 still_more_steps(22)])
  have rerun: "okE (hang_saver s) (bindE (write_to_testcase mem (length mem) s3) (\<lambda>s.
            bindE (run_target (hang_tmout s) s) (\<lambda>(new_fault, s).
              if stop_soon s = 0 \<and> new_fault = FAULT_CRASH then keep_as_crash s
              else if stop_soon s \<noteq> 0 \<or> new_fault \<noteq> FAULT_TMOUT then Inr (None, s)
              else name_hang s)))"
  proof (rule okE_bind[OF write_to_testcase_ok[OF order_refl]], rule okE_bind[OF run_target_ok])
    fix s4 and x :: "fault \<times> 'a x_state_scheme" assume s4: "still s3 s4" and x: "case x of (f, s') \<Rightarrow> ran 1 s4 s'"
    obtain f s5 where xs: "x = (f, s5)" by (cases x)
    have r5: "ran 1 s s5" using still_then_ran[OF still_trans[OF st3 s4]] x xs by simp
    have n5: "named s5" using r5 n by (simp add: ran_def frame_def)
    have hs: "saver s5 r \<Longrightarrow> hang_saver s r" for r using ran_still[OF r5] by (auto simp: hang_saver_def saver_def)
    have "okE (hang_saver s) (keep_as_crash s5)" by (rule okE_mono[OF keep_as_crash_saver[OF n5] hs])
    moreover have "okE (hang_saver s) (name_hang s5)" by (rule okE_mono[OF name_hang_saver[OF n5] hs])
    moreover have "hang_saver s (None, s5)" using r5 by (simp add: hang_saver_def)
    ultimately show "okE (hang_saver s) (case x of (new_fault, s) \<Rightarrow>
              if stop_soon s = 0 \<and> new_fault = FAULT_CRASH then keep_as_crash s
              else if stop_soon s \<noteq> 0 \<or> new_fault \<noteq> FAULT_TMOUT then Inr (None, s)
              else name_hang s)" by (simp add: xs)
  qed
  have m: "hang_saver s (None, s1)" "hang_saver s (None, s2)" using st1 st2 by (auto simp: hang_saver_def intro: still_ran)
  have h: "okE (hang_saver s) (name_hang s3)" by (rule okE_mono[OF name_hang_saver[OF still_named[OF st3 n]] saver_hang[OF st3]])
  show ?thesis
    unfolding keep_as_hang_def Let_def s1_def[symmetric] u prod.case s3_def[symmetric]
    using rerun m h by (simp only: if_splits okE_simps split: if_split) simp
qed

lemma create_excl_still: "okE (still s) (create_excl fn mem s)"
  by (simp add: create_excl_def still_more_steps)

text \<open>The second half of \<open>save_if_interesting\<close>: naming the file, then creating it.\<close>

lemma save_rest_ok:
  assumes "x_inv k s" "saver s r"
  shows "okE (\<lambda>(b, t). b = keep \<and> still s t \<and> (\<forall>f. fs s f \<noteq> None \<longrightarrow> fs t f = fs s f))
    (case fst r of None \<Rightarrow> Inr (keep, snd r) | Some fn \<Rightarrow> bindE (create_excl fn mem (snd r)) (\<lambda>s. Inr (keep, s)))"
proof (cases "fst r")
  case None
  then show ?thesis using assms by (simp add: saver_def)
next
  case (Some fn)
  have st: "still s ((snd r)\<lparr>fs := (fs (snd r))(fn \<mapsto> File mem)\<rparr>)"
    using assms(2) still_trans still_more_steps(3) unfolding saver_def by blast
  show ?thesis
  proof (cases "fs (snd r) fn = None")
    case True
    then show ?thesis using Some st assms(2) by (auto simp: create_excl_def saver_def)
  next
    case False
    then show ?thesis using Some by (auto simp: create_excl_def)
  qed
qed

lemma kept_still:
  assumes "keep_post k n mem s (keep, t)" "still t u" "\<forall>f. fs t f \<noteq> None \<longrightarrow> fs u f = fs t f"
  shows "keep_post k n mem s (keep, u)"
proof -
  have q: "qpart u = qpart t" "settings u = settings t" "progress u = progress t" using assms(2) by (auto simp: still_def frame_def)
  then show ?thesis
    using assms(1) x_inv_still[OF assms(2)] frame_names[OF q(1)] assms(3) unfolding keep_post_def progress_def by (auto split: if_splits)
qed

lemma save_if_interesting_ok:
  fixes s :: "'a x_state_scheme"
  assumes x: "x_inv (Suc k) s" and len: "length mem < 2 ^ 32"
  shows "okE (keep_post k (nat CAL_CYCLES_LONG) mem s) (save_if_interesting mem fault s)"
proof -
  let ?N = "nat CAL_CYCLES_LONG"
  have x': "x_inv k s" using x_inv_less[OF x] .
  have cm: "crash_mode s \<in> {FAULT_NONE, FAULT_CRASH}" using x by (simp add: x_inv_def)
  have fst: "okE (\<lambda>r. keep_post k ?N mem s r \<and> (fault \<noteq> crash_mode s \<longrightarrow> r = (False, s)))
      (if fault = crash_mode s then queue_new_path mem s else Inr (False, s))"
    using okE_conj[OF queue_new_path_ok[OF x len], of "\<lambda>_. True"] keptI_ran[OF x' still_ran[OF still_refl]]
    by (auto intro: okE_mono[OF queue_new_path_ok[OF x len]])
  show ?thesis unfolding save_if_interesting_def
  proof (rule okE_bind[OF fst])
    fix r assume r: "keep_post k ?N mem s r \<and> (fault \<noteq> crash_mode s \<longrightarrow> r = (False, s))"
    obtain keep t where rt: "r = (keep, t)" by (cases r)
    have kt: "keep_post k ?N mem s (keep, t)" using r rt by simp
    have xt: "x_inv k t" "crash_mode t = crash_mode s" "named t" using kt by (auto simp: keep_post_def settings_def x_inv_def)
    have kf: "fault \<noteq> crash_mode s \<Longrightarrow> keep = False \<and> t = s" using r rt by simp
    have by_saver: "okE (keep_post k ?N mem s) (bindE m (\<lambda>(fn, s). case fn of None \<Rightarrow> Inr (keep, s)
             | Some fn \<Rightarrow> bindE (create_excl fn mem s) (\<lambda>s. Inr (keep, s))))" if "okE (saver t) m" for m
    proof (rule okE_bind[OF that])
      fix p assume p: "saver t p"
      show "okE (keep_post k ?N mem s) (case p of (fn, s) \<Rightarrow> case fn of None \<Rightarrow> Inr (keep, s)
             | Some fn \<Rightarrow> bindE (create_excl fn mem s) (\<lambda>s. Inr (keep, s)))"
        unfolding split_beta by (rule okE_mono[OF save_rest_ok[OF xt(1) p]]) (use kept_still[OF kt] in auto)
    qed
    have by_hang: "okE (keep_post k ?N mem s) (bindE (keep_as_hang mem t) (\<lambda>(fn, s). case fn of None \<Rightarrow> Inr (keep, s)
             | Some fn \<Rightarrow> bindE (create_excl fn mem s) (\<lambda>s. Inr (keep, s))))" if "fault \<noteq> crash_mode s"
    proof (rule okE_bind[OF keep_as_hang_ok[OF xt(3)]])
      fix p assume "hang_saver t p"
      then have rn: "ran ?N s (snd p)" using kf[OF that] ran_mono[of 1 s "snd p" ?N] by (simp add: hang_saver_def cfg_simps)
      have keep: "keep = False" using kf[OF that] by simp
      have "okE (keep_post k ?N mem s) (bindE (create_excl fn mem (snd p)) (\<lambda>s. Inr (False, s)))" for fn
        by (rule okE_bind[OF create_excl_still]) (use keptI_ran[OF x'] ran_still[OF rn] in auto)
      then show "okE (keep_post k ?N mem s) (case p of (fn, s) \<Rightarrow> case fn of None \<Rightarrow> Inr (keep, s)
             | Some fn \<Rightarrow> bindE (create_excl fn mem s) (\<lambda>s. Inr (keep, s)))"
        using keptI_ran[OF x' rn] unfolding keep by (auto simp: split_beta split: option.split)
    qed
    have none: "okE (saver t) (Inr (None, t))" using saver_None[OF still_refl refl] by simp
    show "okE (keep_post k ?N mem s) (case r of (keeping, s) \<Rightarrow> if fault = crash_mode s \<and> \<not> keeping then Inr (False, s)
       else bindE (case fault of FAULT_TMOUT \<Rightarrow> keep_as_hang mem s | FAULT_CRASH \<Rightarrow> keep_as_crash s
                | FAULT_ERROR \<Rightarrow> Inl (FATAL ''Unable to execute target application'') | _ \<Rightarrow> Inr (None, s))
           (\<lambda>(fn, s). case fn of None \<Rightarrow> Inr (keeping, s) | Some fn \<Rightarrow> bindE (create_excl fn mem s) (\<lambda>s. Inr (keeping, s))))"
    proof (cases "fault = crash_mode t \<and> \<not> keep")
      case True
      then show ?thesis using kt by (simp add: rt)
    next
      case False
      show ?thesis unfolding rt prod.case if_not_P[OF False]
        using by_saver[OF keep_as_crash_saver[OF xt(3)]] by_saver[OF none] by_hang cm by (cases fault) auto
    qed
  qed
qed

lemma kept_pre:
  assumes "ran n s t" "keep_post k m mem t r"
  shows "keep_post k (n + m) mem s r"
proof -
  have q: "qpart t = qpart s" "settings t = settings s" using assms(1) by (auto simp: ran_def frame_def)
  then show ?thesis using assms frame_names[OF q(1)] unfolding keep_post_def ran_def by (auto split: if_splits)
qed

text \<open>
  The contract of \<open>common_fuzz_stuff\<close> towards the fuzzing stages: it never runs into undefined
  behaviour, keeps the invariant, adds at most one entry and leaves the stage variables alone.
\<close>

definition fuzzed :: "nat \<Rightarrow> 'a x_state_scheme \<Rightarrow> 'a x_state_scheme \<Rightarrow> bool" where
  "fuzzed k s s' \<longleftrightarrow> x_inv k s' \<and> settings s' = settings s \<and> stage_cur s' = stage_cur s \<and> stage_max s' = stage_max s \<and>
     exec_pos s \<le> exec_pos s' \<and> exec_pos s' \<le> exec_pos s + 41 \<and>
     length (qs s) \<le> length (qs s') \<and> length (qs s') \<le> Suc (length (qs s)) \<and>
     take (length (qs s)) (map fname (qs s')) = map fname (qs s) \<and> take (length (qs s)) (map q_len (qs s')) = map q_len (qs s)"

lemma kept_fuzzed: "keep_post k n mem s (b, t) \<Longrightarrow> n \<le> 41 \<Longrightarrow> fuzzed k s t"
proof -
  assume a: "keep_post k n mem s (b, t)" and n: "n \<le> 41"
  have "map fname (qs t) = map fname (qs s) \<and> map q_len (qs t) = map q_len (qs s) \<or>
      (\<exists>f l. map fname (qs t) = map fname (qs s) @ [f] \<and> map q_len (qs t) = map q_len (qs s) @ [l])"
    using a frame_names[of t s] by (auto simp: keep_post_def split: if_splits)
  then show ?thesis
  proof
    assume e: "map fname (qs t) = map fname (qs s) \<and> map q_len (qs t) = map q_len (qs s)"
    then have "length (qs t) = length (qs s)" by (metis length_map)
    then show ?thesis using a e n by (simp add: keep_post_def fuzzed_def)
  next
    assume "\<exists>f l. map fname (qs t) = map fname (qs s) @ [f] \<and> map q_len (qs t) = map q_len (qs s) @ [l]"
    then obtain f l where e: "map fname (qs t) = map fname (qs s) @ [f]" "map q_len (qs t) = map q_len (qs s) @ [l]" by blast
    have "length (qs t) = Suc (length (qs s))" using arg_cong[OF e(1), of length] by simp
    then show ?thesis using a e n by (simp add: keep_post_def fuzzed_def)
  qed
qed

lemma fuzzed_still: "fuzzed k s t \<Longrightarrow> still t u \<Longrightarrow> fuzzed k s u"
proof -
  assume a: "fuzzed k s t" "still t u"
  have q: "qpart u = qpart t" using still_qpart[OF a(2)] .
  show ?thesis using a x_inv_still[OF a(2)] qpart_queue_inv(2)[OF q] frame_names[OF q]
    by (simp add: fuzzed_def still_def frame_def progress_def)
qed

lemma fuzzed_ran: "x_inv k s \<Longrightarrow> ran n s t \<Longrightarrow> n \<le> 41 \<Longrightarrow> fuzzed k s t"
  using kept_fuzzed[OF keptI_ran] .

lemma common_fuzz_stuff_ok:
  fixes s :: "'a x_state_scheme"
  assumes x: "x_inv (Suc k) s" and len: "length buf < 2 ^ 32"
  shows "okE (\<lambda>(stop, s'). fuzzed k s s') (common_fuzz_stuff buf s)"
proof -
  have x': "x_inv k s" using x_inv_less[OF x] .
  have refl: "fuzzed k s s" by (rule fuzzed_ran[OF x' still_ran[OF still_refl, of 0]]) simp
  define buf' where "buf' = (case post_handler s of None \<Rightarrow> Some buf | Some h \<Rightarrow> h buf)"
  show ?thesis
  proof (cases buf')
    case None
    then show ?thesis unfolding common_fuzz_stuff_def buf'_def[symmetric] Let_def using refl by simp
  next
    case (Some b)
    have lb: "length b < 2 ^ 32" using x len Some by (auto simp: buf'_def x_inv_def split: option.splits)
    have main: "okE (\<lambda>(stop, s'). fuzzed k s s') (bindE (write_to_testcase b (length b) s) (\<lambda>s.
            bindE (run_target (exec_tmout s) s) (\<lambda>(fault, s).
              if stop_soon s \<noteq> 0 then Inr (True, s)
              else if fault = FAULT_TMOUT \<and> subseq_tmouts s > TMOUT_LIMIT then
                Inr (True, s\<lparr>subseq_tmouts := subseq_tmouts s + 1, cur_skipped_paths := cur_skipped_paths s + 1\<rparr>)
              else
                let s = s\<lparr>subseq_tmouts := (if fault = FAULT_TMOUT then subseq_tmouts s + 1 else 0)\<rparr> in
                if skip_requested s then
                  Inr (True, s\<lparr>skip_requested := False, cur_skipped_paths := cur_skipped_paths s + 1\<rparr>)
                else
                  bindE (save_if_interesting b fault s) (\<lambda>(kept, s).
                  let s = s\<lparr>queued_discovered := queued_discovered s + (if kept then 1 else 0)\<rparr> in
                  bindE (stats_tick (stage_cur s) (stage_cur s + 1 = stage_max s) s) (\<lambda>s. Inr (False, s))))))"
    proof (rule okE_bind[OF write_to_testcase_ok[OF order_refl]], rule okE_bind[OF run_target_ok])
      fix s1 and y :: "fault \<times> 'a x_state_scheme" assume s1: "still s s1" and y: "case y of (f, s') \<Rightarrow> ran 1 s1 s'"
      obtain f s2 where ys: "y = (f, s2)" by (cases y)
      have r2: "ran 1 s s2" using still_then_ran[OF s1] y ys by simp
      define s3 where "s3 = s2\<lparr>subseq_tmouts := (if f = FAULT_TMOUT then subseq_tmouts s2 + 1 else 0)\<rparr>"
      have r3: "ran 1 s s3" unfolding s3_def by (rule ran_still[OF r2 still_more_steps(26)])
      have x3: "x_inv (Suc k) s3" using x x_inv_frame r3 by (auto simp: ran_def)
      have stops: "fuzzed k s s2" "fuzzed k s (s2\<lparr>subseq_tmouts := a, cur_skipped_paths := c\<rparr>)"
         "fuzzed k s (s3\<lparr>skip_requested := d, cur_skipped_paths := c\<rparr>)" for a c d
        using fuzzed_ran[OF x' _, of 1] r2 ran_still[OF r2 still_more_steps(27)] ran_still[OF r3 still_more_steps(28)] by simp_all
      have save: "okE (\<lambda>(stop, s'). fuzzed k s s') (bindE (save_if_interesting b f s3) (\<lambda>(kept, s).
                  let s = s\<lparr>queued_discovered := queued_discovered s + (if kept then 1 else 0)\<rparr> in
                  bindE (stats_tick (stage_cur s) (stage_cur s + 1 = stage_max s) s) (\<lambda>s. Inr (False, s))))"
      proof (rule okE_bind[OF save_if_interesting_ok[OF x3 lb]])
        fix r assume "keep_post k (nat CAL_CYCLES_LONG) b s3 r"
        then obtain kp s4 where r4: "r = (kp, s4)" "keep_post k (1 + nat CAL_CYCLES_LONG) b s (kp, s4)" using kept_pre[OF r3] by (metis surj_pair)
        define s5 where "s5 = s4\<lparr>queued_discovered := queued_discovered s4 + (if kp then 1 else 0)\<rparr>"
        have f5: "fuzzed k s s5" unfolding s5_def by (rule fuzzed_still[OF kept_fuzzed[OF r4(2)] still_more_steps(29)]) (simp add: cfg_simps)
        have fq: "stats_update_freq s5 \<noteq> 0" using f5 by (simp add: fuzzed_def x_inv_def)
        have "okE (\<lambda>(stop, s'). fuzzed k s s') (bindE (stats_tick (stage_cur s5) (stage_cur s5 + 1 = stage_max s5) s5) (\<lambda>s. Inr (False, s)))"
          by (rule okE_bind[OF stats_tick_ok[OF fq]]) (use fuzzed_still[OF f5] in auto)
        then show "okE (\<lambda>(stop, s'). fuzzed k s s') (case r of (kept, s) \<Rightarrow>
                  let s = s\<lparr>queued_discovered := queued_discovered s + (if kept then 1 else 0)\<rparr> in
                  bindE (stats_tick (stage_cur s) (stage_cur s + 1 = stage_max s) s) (\<lambda>s. Inr (False, s)))"
          unfolding r4(1) prod.case Let_def s5_def .
      qed
      show "okE (\<lambda>(stop, s'). fuzzed k s s') (case y of (fault, s) \<Rightarrow>
              if stop_soon s \<noteq> 0 then Inr (True, s)
              else if fault = FAULT_TMOUT \<and> subseq_tmouts s > TMOUT_LIMIT then
                Inr (True, s\<lparr>subseq_tmouts := subseq_tmouts s + 1, cur_skipped_paths := cur_skipped_paths s + 1\<rparr>)
              else
                let s = s\<lparr>subseq_tmouts := (if fault = FAULT_TMOUT then subseq_tmouts s + 1 else 0)\<rparr> in
                if skip_requested s then
                  Inr (True, s\<lparr>skip_requested := False, cur_skipped_paths := cur_skipped_paths s + 1\<rparr>)
                else
                  bindE (save_if_interesting b fault s) (\<lambda>(kept, s).
                  let s = s\<lparr>queued_discovered := queued_discovered s + (if kept then 1 else 0)\<rparr> in
                  bindE (stats_tick (stage_cur s) (stage_cur s + 1 = stage_max s) s) (\<lambda>s. Inr (False, s))))"
        unfolding ys prod.case Let_def s3_def[symmetric]
        using stops save[unfolded Let_def] by (simp only: okE_simps prod.case split: if_split) blast
    qed
    then show ?thesis unfolding common_fuzz_stuff_def buf'_def[symmetric] Let_def Some option.case using refl by simp
  qed
qed

section \<open>The contracts of executing and keeping\<close>

definition example_target :: "nat \<Rightarrow> u8 list \<Rightarrow> u32 \<Rightarrow> outcome" where
  "example_target n input tm =
     \<lparr>oc_sys = SysOk, oc_pid = 7, oc_trace = (\<lambda>m. if input = [] then m else m[3 := m ! 3 + 2, 4 := m ! 4 + 5]),
      oc_status = (if input = [9] then 11 else 0), oc_timed_out = False, oc_stop = False, oc_skip = False\<rparr>"

definition example_x :: x_state where
  "example_x = ex_state.extend example_ex
     \<lparr>target = example_target, exec_pos = 0, forksrv_start = Inr 5, forksrv_pid = 5, child_pid = 0, no_forkserver = False,
      out_file = Some ''o/.cur_input'', out_fd_data = [], count_class_lookup16 = init_count_class16 (\<lambda>_. 0), stop_soon = 0,
      child_timed_out = False, prev_timed_out = False, skip_requested = False, kill_signal = 0, uses_asan = False,
      crash_mode = FAULT_NONE, exec_tmout = 1000, hang_tmout = 1000, resuming_fuzz = False, fast_cal = False, total_execs = 0,
      first_trace = replicate 8 0, total_cal_us = 0, total_cal_cycles = 0, total_bitmap_size = 0, total_bitmap_entries = 0,
      queued_with_cov = 0, queued_variable = 0, queued_discovered = 0, var_byte_count = 0, cur_skipped_paths = 0,
      subseq_tmouts = 0, total_crashes = 0, unique_crashes = 0, total_tmouts = 0, unique_tmouts = 0, unique_hangs = 0,
      last_hang_time = 0, last_crash_time = 0, last_crash_execs = 0, trim_execs = 0, bytes_trim_in = 0, bytes_trim_out = 0,
      stage_short = ''havoc'', stage_cur = 0, stage_max = 100, stage_cur_byte = -1, stage_cur_val = 0, stage_val_type = STAGE_VAL_NONE,
      syncing_party = None, syncing_case = 0, current_entry = 0, splicing_with = -1, post_handler = None, start_time = 0,
      stats_update_freq = 1, freq_src = (\<lambda>_. 0), freq_pos = 0, last_ms = 0, last_stats_ms = 0, exit_when_done = False,
      bench_until_crash = False, skip_deterministic = False, use_splicing = False, no_arith = False, master_id = 0, master_max = 0,
      havoc_div = 1, stage_finds = (\<lambda>_. 0), stage_cycles = (\<lambda>_. 0), blocks_eff_total = 0, blocks_eff_select = 0, readme_text = []\<rparr>"

lemma example_x_queue:
  "qs example_x = qs example_q" "trace_bits example_x = trace_bits example_q" "queue_inv example_x = queue_inv example_q"
  "dumb_mode example_x = dumb_mode example_q" "rated example_x = rated example_q"
  by (simp_all add: example_x_def example_ex_def ex_state.extend_def q_state.extend_def queue_inv_def rated_def)

lemma example_x_fields:
  "stats_update_freq example_x = 1" "target example_x = example_target" "out_file example_x = Some ''o/.cur_input''"
  "forksrv_start example_x = Inr 5" "crash_mode example_x = FAULT_NONE" "post_handler example_x = None"
  "count_class_lookup16 example_x = init_count_class16 (\<lambda>_. 0)" "stop_soon example_x = 0" "dumb_mode example_x = 0"
  "no_forkserver example_x = False" "uses_asan example_x = False" "exec_tmout example_x = 1000" "exec_pos example_x = 0"
  using example_q_fields by (simp_all add: example_x_def example_ex_def ex_state.extend_def q_state.extend_def)

lemma example_entry:
  "fname (qs example_x ! 0) = ''q/a''" "q_len (qs example_x ! 0) = 4" "exec_cksum (qs example_x ! 0) = 0"
  "length (qs example_x) = 2" "trace_bits example_x = [0, 1, 0, 1, 0, 0, 0, 0]" "map fname (qs example_x) = [''q/a'', ''q/b'']"
proof -
  have u: "map unscored (qs example_q) = map unscored (qs example_q0)"
    and r: "example_q\<lparr>qs := qs example_q0, top_rated := top_rated example_q0, score_changed := score_changed example_q0\<rparr> = example_q0"
    using example_q_run by blast+
  have "trace_bits example_q = trace_bits example_q0" using arg_cong[OF r, of trace_bits] by simp
  moreover have "map unscored (qs example_q) ! 0 = map unscored (qs example_q0) ! 0" using u by simp
  then have e: "unscored (qs example_q ! 0) = unscored (qs example_q0 ! 0)"
    using example_q_fields(5) by (simp add: example_q0_fields)
  have U: "fname (unscored d) = fname d" "q_len (unscored d) = q_len d" "exec_cksum (unscored d) = exec_cksum d" for d
    by (simp_all add: unscored_def)
  have "fname (qs example_q ! 0) = ''q/a''" "q_len (qs example_q ! 0) = 4" "exec_cksum (qs example_q ! 0) = 0"
    using arg_cong[OF e, of fname] arg_cong[OF e, of q_len] arg_cong[OF e, of exec_cksum]
    by (simp_all add: U example_q0_fields new_entry_def)
  ultimately show "fname (qs example_x ! 0) = ''q/a''" "q_len (qs example_x ! 0) = 4" "exec_cksum (qs example_x ! 0) = 0"
    "length (qs example_x) = 2" "trace_bits example_x = [0, 1, 0, 1, 0, 0, 0, 0]" "map fname (qs example_x) = [''q/a'', ''q/b'']"
    by (simp_all add: example_q0_fields example_x_queue example_q_fields)
qed

lemma example_entry_1: "q_len (qs example_x ! 1) = 5"
proof -
  have "map unscored (qs example_q) ! 1 = map unscored (qs example_q0) ! 1" using example_q_run by simp
  then have "q_len (unscored (qs example_q ! 1)) = q_len (unscored (qs example_q0 ! 1))"
    using example_q_fields(5) by (simp add: example_q0_fields)
  then show ?thesis by (simp add: unscored_def example_q0_fields example_x_queue new_entry_def)
qed

lemma example_x_inv: "x_inv 5 example_x"
proof -
  have "\<forall>f\<in>set (map fname (qs example_x)). CHR ''/'' \<in> set f" unfolding example_entry(6) by simp
  moreover have "dict_ok (extras example_x)" "auto_ok (a_extras example_x)"
    by (simp_all add: example_x_def example_ex_def ex_state.extend_def q_state.extend_def dict_ok_def auto_ok_def bytes_of_def cfg_simps)
  moreover have "named example_x" by (simp add: example_x_def ex_state.extend_def named_def)
  ultimately show ?thesis using example_q_invs(1) score_inv_rated[OF example_q_invs(2)] example_entry(4)
    by (simp add: x_inv_def example_x_fields example_x_queue(3,5))
qed

text \<open>
  What \<open>write_to_testcase\<close> and \<open>write_with_gap\<close> hand to the target is exactly the first \<open>len\<close>
  bytes of the buffer, respectively those bytes without the gap, whatever the previous test case was
  and whether it is passed by file or on standard input.
\<close>

lemma testcase_delivered:
  assumes "len \<le> length mem" "skip_at + skip_len \<le> len"
  shows "(\<exists>s'. write_to_testcase mem len s = Inr s' \<and> cur_input s' = take len mem) \<and>
    (\<exists>s'. write_with_gap mem len skip_at skip_len s = Inr s' \<and>
      cur_input s' = take skip_at mem @ take (len - skip_at - skip_len) (drop (skip_at + skip_len) mem))"
  using assms by (simp_all add: write_to_testcase_def write_with_gap_def cur_input_put_testcase)

lemma testcase_delivered_witness:
  "\<exists>s'. write_with_gap [1, 2, 3, 4, 5] 4 1 2 example_x = Inr s' \<and> cur_input s' = [1, 4]"
  using testcase_delivered[of 4 "[1, 2, 3, 4, 5]" 1 2 example_x] by (simp add: numeral_eq_Suc)

text \<open>
  C9. When the child runs, \<open>run_target\<close> returns the classified trace of this run alone: the child, which may read and
  write the shared map in any way, finds it cleared, so that the trace does not depend on what an earlier run left
  there. It reports a time-out exactly for a child killed by signal 9 after its time was up, and a crash for any other
  deadly signal and for the exit code of a sanitizer.
\<close>

theorem run_target_spec:
  assumes oc: "target s (exec_pos s) (cur_input s) timeout = oc" "oc_sys oc = SysOk" "oc_pid oc > 0" "\<not> oc_stop oc" "stop_soon s = 0"
    and srv: "dumb_mode s \<noteq> 1" "\<not> no_forkserver s"
    and map: "length (oc_trace oc (replicate (length (trace_bits s)) 0)) = length (trace_bits s)" "8 dvd length (trace_bits s)" "count_class_lookup16 s = init_count_class16 tbl"
  shows "\<exists>s'. run_target timeout s =
      Inr (if WIFSIGNALED (oc_status oc) then if oc_timed_out oc \<and> WTERMSIG (oc_status oc) = 9 then FAULT_TMOUT else FAULT_CRASH
           else if uses_asan s \<and> WEXITSTATUS (oc_status oc) = MSAN_ERROR then FAULT_CRASH else FAULT_NONE, s') \<and>
      trace_bits s' = map count_class_lookup8 (oc_trace oc (replicate (length (trace_bits s)) 0)) \<and> total_execs s' = total_execs s + 1 \<and> stop_soon s' = 0"
proof -
  define s1 where "s1 = snd (run_child timeout s)"
  have inp: "cur_input (s\<lparr>child_timed_out := a, trace_bits := b\<rparr>) = cur_input s" for a b by (cases "out_file s") (simp_all add: cur_input_def)
  have c: "run_child timeout s = (oc, s1)" using oc(1) by (simp add: s1_def run_child_def Let_def inp)
  have s1: "stop_soon s1 = 0" "child_pid s1 = oc_pid oc" "trace_bits s1 = replicate (length (trace_bits s)) 0" "dumb_mode s1 = dumb_mode s"
      "no_forkserver s1 = no_forkserver s" "uses_asan s1 = uses_asan s" "count_class_lookup16 s1 = init_count_class16 tbl" "total_execs s1 = total_execs s"
    using oc map(3) by (simp_all add: s1_def run_child_def Let_def inp)
  obtain w s2 where d: "collect_child oc s1 = (w, s2)" by fastforce
  define m where "m = oc_trace oc (replicate (length (trace_bits s)) 0)"
  have m: "length m = length (trace_bits s)" "shared_map oc (replicate (length (trace_bits s)) 0) = m"
    using map(1) by (simp_all add: m_def shared_map_def)
  have s2: "trace_bits s2 = map count_class_lookup8 m" "stop_soon s2 = 0" "child_timed_out s2 = oc_timed_out oc"
      "uses_asan s2 = uses_asan s" "total_execs s2 = total_execs s + 1"
    using d s1 m map(2) classify_counts_loop_eq[where 'w=64, of 8 m tbl] by (atomize (full), cases "WIFSTOPPED (oc_status oc)") (auto simp: collect_child_def Let_def classify_counts_def)
  have r: "run_target timeout s = Inr (report_outcome False oc w s2)"
    unfolding run_target_def c Let_def prod.case using s1 srv oc d by simp
  have o: "trace_bits (snd (report_outcome b oc w s2)) = trace_bits s2" "total_execs (snd (report_outcome b oc w s2)) = total_execs s2"
     "stop_soon (snd (report_outcome b oc w s2)) = stop_soon s2" for b by (simp_all add: report_outcome_def Let_def)
  have f: "fst (report_outcome False oc w s2) =
      (if WIFSIGNALED (oc_status oc) then if oc_timed_out oc \<and> WTERMSIG (oc_status oc) = 9 then FAULT_TMOUT else FAULT_CRASH
       else if uses_asan s \<and> WEXITSTATUS (oc_status oc) = MSAN_ERROR then FAULT_CRASH else FAULT_NONE)"
    using s2 by (simp add: report_outcome_def Let_def)
  show ?thesis unfolding m_def[symmetric] using r o[of False] f s2 by (intro exI[of _ "snd (report_outcome False oc w s2)"]) (simp add: prod_eq_iff)
qed

theorem run_target_spec_witness:
  "\<exists>s'. run_target 10 (put_testcase [9] example_x) = Inr (FAULT_CRASH, s') \<and> trace_bits s' = [0, 0, 0, 2, 8, 0, 0, 0]"
proof -
  have "target (put_testcase [9] example_x) = example_target" "stop_soon (put_testcase [9] example_x) = 0"
    "dumb_mode (put_testcase [9] example_x) = 0" "\<not> no_forkserver (put_testcase [9] example_x)"
    "trace_bits (put_testcase [9] example_x) = [0, 1, 0, 1, 0, 0, 0, 0]"
    "8 dvd length (trace_bits (put_testcase [9] example_x))"
    "count_class_lookup16 (put_testcase [9] example_x) = init_count_class16 (\<lambda>_. 0)" "uses_asan (put_testcase [9] example_x) = False"
    by (simp_all add: put_testcase_def example_x_fields example_entry numeral_eq_Suc)
  then show ?thesis
    using run_target_spec[of "put_testcase [9] example_x" 10, OF refl, where tbl = "\<lambda>_. 0"]
    by (auto simp add: cur_input_put_testcase example_target_def WIFSIGNALED_def WTERMSIG_def count_class_lookup8_def)
qed

text \<open>
  C26. Calibration ends: it runs the target at most \<open>CAL_CYCLES_LONG\<close> times, gives the stage
  variables their old values back and changes neither the links, the names nor the lengths of the
  queue entries; it never reads past the test case or divides by zero.
\<close>

theorem calibrate_case_terminates:
  assumes "stats_update_freq s \<noteq> 0" "q < length (qs s)" "unat (q_len (qs s ! q)) \<le> length mem" "CHR ''/'' \<in> set (fname (qs s ! q))"
    and "okE (\<lambda>_. True) (forksrv_start s)"
  shows "okE (\<lambda>(f, s'). exec_pos s' \<le> exec_pos s + 40 \<and> stage_cur s' = stage_cur s \<and> stage_max s' = stage_max s \<and>
       map fname (qs s') = map fname (qs s) \<and> map q_len (qs s') = map q_len (qs s) \<and> map q_next (qs s') = map q_next (qs s))
     (calibrate_case q mem h fq s)"
proof (rule okE_mono[OF calibrate_case_ok[OF assms]])
  fix x assume "case x of (f, s') \<Rightarrow> ran (nat CAL_CYCLES_LONG) s s'"
  then obtain f s' where x: "x = (f, s')" "ran 40 s s'" by (cases x) (simp add: cfg_simps)
  then have q: "qpart s' = qpart s" by (simp add: ran_def frame_def)
  have "map q_next (qs s') = map (fst \<circ> entry_part) (qs s')" "map q_next (qs s) = map (fst \<circ> entry_part) (qs s)" by (simp_all add: entry_part_def)
  moreover have "map entry_part (qs s') = map entry_part (qs s)" using q by (simp add: qpart_def)
  ultimately have "map q_next (qs s') = map q_next (qs s)" by (metis map_map)
  then show "case x of (f, s') \<Rightarrow> exec_pos s' \<le> exec_pos s + 40 \<and> stage_cur s' = stage_cur s \<and> stage_max s' = stage_max s \<and>
       map fname (qs s') = map fname (qs s) \<and> map q_len (qs s') = map q_len (qs s) \<and> map q_next (qs s') = map q_next (qs s)"
    using x frame_names[OF q] by (simp add: ran_def)
qed

theorem calibrate_case_terminates_witness:
  "okE (\<lambda>(f, s'). exec_pos s' \<le> exec_pos example_x + 40 \<and> stage_max s' = stage_max example_x) (calibrate_case 0 [1, 2, 3, 4] 0 True example_x)"
  by (rule okE_mono[OF calibrate_case_terminates]) (simp_all add: example_x_fields example_entry numeral_eq_Suc split_beta)

text \<open>
  C8. \<open>save_if_interesting\<close> reports that it kept the input exactly when one entry has been appended
  to the queue, with the length of the input, and the input is on disk under the name of that entry;
  otherwise the queue is as before. The queue invariant holds again in both cases.
\<close>

theorem save_if_interesting_keeps:
  assumes "x_inv (Suc k) s" "length mem < 2 ^ 32"
  shows "okE (\<lambda>(keep, s'). queue_inv s' \<and> stage_cur s' = stage_cur s \<and> stage_max s' = stage_max s \<and>
      (if keep then \<exists>fn. fs s' fn = Some (File mem) \<and> map fname (qs s') = map fname (qs s) @ [fn] \<and>
           map (unat \<circ> q_len) (qs s') = map (unat \<circ> q_len) (qs s) @ [length mem]
       else map fname (qs s') = map fname (qs s) \<and> map q_len (qs s') = map q_len (qs s)))
    (save_if_interesting mem fault s)"
proof (rule okE_mono[OF save_if_interesting_ok[OF assms]])
  fix x assume k: "keep_post k (nat CAL_CYCLES_LONG) mem s x"
  obtain keep s' where x: "x = (keep, s')" by (cases x)
  have u: "unat (of_nat (length mem) :: u32) = length mem" using assms(2) by (simp add: unat_of_nat take_bit_nat_eq_self)
  have "map (unat \<circ> q_len) (qs s') = map (unat \<circ> q_len) (qs s) @ [length mem]" if "map q_len (qs s') = map q_len (qs s) @ [of_nat (length mem)]"
    using arg_cong[OF that, of "map unat"] u by simp
  then show "case x of (keep, s') \<Rightarrow> queue_inv s' \<and> stage_cur s' = stage_cur s \<and> stage_max s' = stage_max s \<and>
      (if keep then \<exists>fn. fs s' fn = Some (File mem) \<and> map fname (qs s') = map fname (qs s) @ [fn] \<and>
           map (unat \<circ> q_len) (qs s') = map (unat \<circ> q_len) (qs s) @ [length mem]
       else map fname (qs s') = map fname (qs s) \<and> map q_len (qs s') = map q_len (qs s))"
    using k frame_names[of s' s] unfolding x keep_post_def prod.case x_inv_def by (auto split: if_splits)
qed

theorem save_if_interesting_keeps_witness:
  "okE (\<lambda>(keep, s'). queue_inv s' \<and> (keep \<longrightarrow> (\<exists>fn. fs s' fn = Some (File [1, 2, 3]))) \<and> length (qs s') = (if keep then 3 else 2))
     (save_if_interesting [1, 2, 3] FAULT_NONE example_x)"
proof -
  have "x_inv (Suc 4) example_x" using example_x_inv by (simp add: numeral_eq_Suc)
  then show ?thesis
    using map_eq_imp_length_eq by (intro okE_mono[OF save_if_interesting_keeps[of 4 example_x "[1, 2, 3]" FAULT_NONE]])
      (auto simp: example_entry dest!: arg_cong[of _ _ length] split: if_splits)
qed

text \<open>
  C5. One fuzzing round is safe: from a state with the fuzzer's invariant and room in the queue,
  \<open>common_fuzz_stuff\<close> ends for every behaviour of the target, in a state with the invariant, with the
  stage variables and the earlier queue entries as they were and at most one entry more, or it leaves
  through one of the fatal error messages; it never runs into undefined behaviour.
\<close>

theorem common_fuzz_stuff_safe:
  assumes "x_inv (Suc k) s" "length out_buf < 2 ^ 32"
  shows "okE (\<lambda>(stop, s'). x_inv k s' \<and> stage_cur s' = stage_cur s \<and> stage_max s' = stage_max s \<and>
      length (qs s') \<in> {length (qs s), Suc (length (qs s))} \<and> take (length (qs s)) (map fname (qs s')) = map fname (qs s) \<and>
      take (length (qs s)) (map q_len (qs s')) = map q_len (qs s))
    (common_fuzz_stuff out_buf s)"
  by (rule okE_mono[OF common_fuzz_stuff_ok[OF assms]]) (auto simp: fuzzed_def)

theorem common_fuzz_stuff_safe_witness:
  "okE (\<lambda>(stop, s'). x_inv 4 s' \<and> length (qs s') \<in> {2, 3}) (common_fuzz_stuff [1, 2, 3] example_x)"
proof -
  have "x_inv (Suc 4) example_x" using example_x_inv by (simp add: numeral_eq_Suc)
  then show ?thesis
    by (intro okE_mono[OF common_fuzz_stuff_safe[of 4 example_x "[1, 2, 3]"]]) (auto simp: example_entry)
qed

text \<open>
  C36. The buffer of \<open>describe_op\<close> is too small: while a test case of another fuzzer is being judged, whose directory has a name of
  240 characters or more, an input that brings something new makes \<open>save_if_interesting\<close> write past the end of the 256 bytes.
  (Directory names on Linux may have 255 characters.)
\<close>

theorem describe_op_overflows:
  assumes "syncing_party s = Some party" "240 \<le> length party" "fst (has_new_bits VirginBits s) \<noteq> 0"
  shows "save_if_interesting mem (crash_mode s) s = Inl OutOfBounds"
proof -
  obtain hnb t where h: "has_new_bits VirginBits s = (hnb, t)" by fastforce
  have p: "syncing_party t = Some party" using arg_cong[OF h, of "\<lambda>x. syncing_party (snd x)"] assms(1) by (simp add: split_beta Let_def)
  have "6 \<le> length (fmt06 (unat (syncing_case t)))" by (simp add: fmt06_def pad0_def)
  then have "246 \<le> length party + length (fmt06 (unat (syncing_case t)))" using assms(2) by linarith
  then have "256 \<le> length (op_text hnb t)" by (simp add: op_text_def p)
  then have "describe_op hnb t = Inl OutOfBounds" by (simp add: describe_op_def Let_def OP_BUFFER_def)
  moreover have "hnb \<noteq> 0" using assms(3) h by (metis fst_conv)
  ultimately have "queue_new_path mem s = Inl OutOfBounds"
    unfolding queue_new_path_def h Let_def prod.case by simp
  then show ?thesis by (simp add: save_if_interesting_def)
qed

theorem describe_op_overflows_witness:
  "save_if_interesting [1] FAULT_NONE (example_x\<lparr>syncing_party := Some (replicate 240 (CHR ''f'')), trace_bits := replicate 8 1, virgin_bits := replicate 8 255\<rparr>)
     = Inl OutOfBounds"
proof -
  let ?s = "example_x\<lparr>syncing_party := Some (replicate 240 (CHR ''f'')), trace_bits := replicate 8 1, virgin_bits := replicate 8 255\<rparr>"
  have "crash_mode ?s = FAULT_NONE" by (simp add: example_x_fields)
  moreover have "byte_news (replicate 8 1) (replicate 8 255) 0 \<noteq> 0"
  proof
    assume "byte_news (replicate 8 1) (replicate 8 255) 0 = 0"
    then have "\<forall>i<8. (replicate 8 1 :: u8 list) ! i AND replicate 8 255 ! i = 0" by (subst (asm) byte_news_0_iff) simp_all
    then show False by (auto dest: spec[of _ 0])
  qed
  then have "fst (has_new_bits VirginBits ?s) \<noteq> 0" by (simp add: has_new_bits_map_eq)
  ultimately show ?thesis using describe_op_overflows[of ?s "replicate 240 (CHR ''f'')" "[1]"] by simp
qed

end
