(* ===== verification/Afl_Trim.thy ===== *)
theory Afl_Trim
  imports Afl_Exec "HOL-Library.Sublist"
begin

text \<open>
  Trimming a queue entry, from \<open>trim_case\<close> of \<open>afl-fuzz.c\<close>: the loops over step size and position,
  and that the entry only ever loses bytes that do not change its trace.
\<close>

section \<open>Trimming\<close>

text \<open>
  Trimming one entry. \<open>in_buf\<close> is changed in place by \<open>memmove\<close>: the bytes beyond the new
  length stay as they were. The loops have fuel: the inner one either shortens the input or
  advances, the outer one halves the step.
\<close>

definition memmove_down :: "u8 list \<Rightarrow> nat \<Rightarrow> nat \<Rightarrow> nat \<Rightarrow> u8 list" where
  "memmove_down b dst src n = take dst b @ take n (drop src b) @ drop (dst + n) b"

record trim_local =
  tl_buf :: "u8 list"
  tl_len_p2 :: nat
  tl_clean :: "u8 list option"   \<comment> \<open>\<open>needs_write\<close> with \<open>clean_trace\<close>\<close>
  tl_fault :: fault
  tl_exec :: int

text \<open>The deletion did not change the trace: make it permanent.\<close>

definition trim_accept :: "nat \<Rightarrow> nat \<Rightarrow> nat \<Rightarrow> trim_local \<Rightarrow> 'a x_state_scheme \<Rightarrow> err + trim_local \<times> 'a x_state_scheme" where
  "trim_accept q remove_pos trim_avail l s =
     (let move_tail = unat (q_len (qs s ! q)) - remove_pos - trim_avail;
          s = upd_q q (\<lambda>e. e\<lparr>q_len := q_len e - of_nat trim_avail\<rparr>) s
      in case next_p2 (q_len (qs s ! q)) of
           None \<Rightarrow> Inl OutOfFuel
         | Some p2 \<Rightarrow>
             Inr (l\<lparr>tl_len_p2 := unat p2,
                    tl_buf := memmove_down (tl_buf l) remove_pos (remove_pos + trim_avail) move_tail,
                    tl_clean := (case tl_clean l of None \<Rightarrow> Some (trace_bits s) | Some c \<Rightarrow> Some c)\<rparr>, s))"

text \<open>Result: \<open>True\<close> when the loop was left through \<open>abort_trimming\<close>.\<close>

fun trim_inner :: "nat \<Rightarrow> nat \<Rightarrow> nat \<Rightarrow> nat \<Rightarrow> trim_local \<Rightarrow> 'a x_state_scheme \<Rightarrow> err + bool \<times> trim_local \<times> 'a x_state_scheme" where
  "trim_inner 0 q remove_len remove_pos l s =
     (if remove_pos < unat (q_len (qs s ! q)) then Inl OutOfFuel else Inr (False, l, s))"
| "trim_inner (Suc fuel) q remove_len remove_pos l s =
     (let qlen = unat (q_len (qs s ! q)) in
      if remove_pos < qlen then
        let trim_avail = min remove_len (qlen - remove_pos) in
        bindE (write_with_gap (tl_buf l) qlen remove_pos trim_avail s) (\<lambda>s.
        bindE (run_target (exec_tmout s) s) (\<lambda>(fault, s).
          let s = s\<lparr>trim_execs := trim_execs s + 1\<rparr>; l = l\<lparr>tl_fault := fault\<rparr> in
          if stop_soon s \<noteq> 0 \<or> fault = FAULT_ERROR then Inr (True, l, s)
          else
            let same = (hash32 (trace_bits s) HASH_CONST = exec_cksum (qs s ! q));
                remove_pos' = (if same then remove_pos else remove_pos + remove_len)
            in bindE (if same then trim_accept q remove_pos trim_avail l s else Inr (l, s)) (\<lambda>(l, s).
               bindE (stats_tick (tl_exec l) False s) (\<lambda>s.
                  trim_inner fuel q remove_len remove_pos' (l\<lparr>tl_exec := tl_exec l + 1\<rparr>)
                    (s\<lparr>stage_cur := stage_cur s + 1\<rparr>)))))
      else Inr (False, l, s))"

fun trim_outer :: "nat \<Rightarrow> nat \<Rightarrow> nat \<Rightarrow> trim_local \<Rightarrow> 'a x_state_scheme \<Rightarrow> err + bool \<times> trim_local \<times> 'a x_state_scheme" where
  "trim_outer 0 q remove_len l s = Inl OutOfFuel"
| "trim_outer (Suc fuel) q remove_len l s =
     (if remove_len \<ge> max (tl_len_p2 l div TRIM_END_STEPS) TRIM_MIN_BYTES then
        let s = s\<lparr>stage_cur := 0, stage_max := int (unat (q_len (qs s ! q)) div remove_len)\<rparr> in
        bindE (trim_inner (unat (q_len (qs s ! q))) q remove_len remove_len l s) (\<lambda>(aborted, l, s).
          if aborted then Inr (True, l, s) else trim_outer fuel q (remove_len div 2) l s)
      else Inr (False, l, s))"

definition trim_case :: "nat \<Rightarrow> u8 list \<Rightarrow> 'a x_state_scheme \<Rightarrow> err + fault \<times> u8 list \<times> 'a x_state_scheme" where
  "trim_case q in_buf s =
     (if q_len (qs s ! q) < 5 then Inr (FAULT_NONE, in_buf, s)
      else
        let s = s\<lparr>bytes_trim_in := bytes_trim_in s + ucast (q_len (qs s ! q))\<rparr> in
        case next_p2 (q_len (qs s ! q)) of
          None \<Rightarrow> Inl OutOfFuel
        | Some p2 \<Rightarrow>
            let len_p2 = unat p2;
                l = \<lparr>tl_buf = in_buf, tl_len_p2 = len_p2, tl_clean = None, tl_fault = FAULT_NONE, tl_exec = 0\<rparr>
            in bindE (trim_outer 33 q (max (len_p2 div TRIM_START_STEPS) TRIM_MIN_BYTES) l s) (\<lambda>(aborted, l, s).
                 let s = (case tl_clean l of
                            Some clean \<Rightarrow>
                              if aborted then s
                              else
                                let f = fname (qs s ! q);
                                    s = s\<lparr>fs := (fs s)(f := None, f \<mapsto> File (take (unat (q_len (qs s ! q))) (tl_buf l)))\<rparr>;
                                    s = s\<lparr>trace_bits := clean\<rparr>
                                in update_bitmap_score q s
                          | None \<Rightarrow> s)
                 in Inr (tl_fault l, tl_buf l, s\<lparr>bytes_trim_out := bytes_trim_out s + ucast (q_len (qs s ! q))\<rparr>)))"

section \<open>What a trimming round keeps\<close>

text \<open>
  The classified trace of the \<open>i\<close>-th execution, if it gets the input \<open>inp\<close> and the time limit \<open>tm\<close>; it depends on
  settings that stay as they are while an entry is trimmed.
\<close>

definition run_trace :: "'a x_state_scheme \<Rightarrow> nat \<Rightarrow> u8 list \<Rightarrow> u32 \<Rightarrow> u8 list" where
  "run_trace s i inp tm =
     classify_counts (count_class_lookup16 s) (shared_map (target s i inp tm) (replicate (length (trace_bits s)) 0))"

definition tally :: "'a x_state_scheme \<Rightarrow> u64 \<times> u64" where
  "tally s = (total_cal_cycles s, total_bitmap_entries s)"

definition runner :: "'a x_state_scheme \<Rightarrow> (nat \<Rightarrow> u8 list \<Rightarrow> u32 \<Rightarrow> outcome) \<times> u32 \<times> (nat \<Rightarrow> u16) \<times> u64 \<times> u64" where
  "runner s = (target s, exec_tmout s, count_class_lookup16 s, tally s)"

lemma runner_tally: "runner t = runner s \<Longrightarrow> tally t = tally s"
  by (simp add: runner_def)

definition onward :: "'a x_state_scheme \<Rightarrow> 'a x_state_scheme \<Rightarrow> bool" where
  "onward s t \<longleftrightarrow> runner t = runner s \<and> exec_pos s \<le> exec_pos t \<and>
     (8 dvd length (trace_bits s) \<longrightarrow> length (trace_bits t) = length (trace_bits s))"

lemma onward_refl [simp]: "onward s s"
  by (simp add: onward_def)

lemma onward_trans: "onward s t \<Longrightarrow> onward t u \<Longrightarrow> onward s u"
  by (auto simp: onward_def)

text \<open>Some execution since \<open>s0\<close> on exactly the input \<open>bs\<close> had the trace checksum of the entry.\<close>

definition approved :: "nat \<Rightarrow> 'a x_state_scheme \<Rightarrow> 'a x_state_scheme \<Rightarrow> u8 list \<Rightarrow> bool" where
  "approved q s0 s bs \<longleftrightarrow>
     (\<exists>i. exec_pos s0 \<le> i \<and> i < exec_pos s \<and> hash32 (run_trace s0 i bs (exec_tmout s0)) HASH_CONST = exec_cksum (qs s0 ! q))"

lemma approved_onward: "approved q s0 s bs \<Longrightarrow> exec_pos s \<le> exec_pos t \<Longrightarrow> approved q s0 t bs"
  unfolding approved_def by (meson less_le_trans)

text \<open>Drawing the screen leaves the entries and the trace as they are, and running the target the entries.\<close>

definition qsame :: "'a x_state_scheme \<Rightarrow> 'a x_state_scheme \<Rightarrow> bool" where
  "qsame s t \<longleftrightarrow> qs t = qs s \<and> runner t = runner s \<and> trace_bits t = trace_bits s \<and> exec_pos t = exec_pos s"

lemma qsame_trans: "qsame s t \<Longrightarrow> qsame t u \<Longrightarrow> qsame s u"
  by (simp add: qsame_def)

lemma qsame_onward: "qsame s t \<Longrightarrow> onward s t"
  by (simp add: qsame_def onward_def)

lemma qsame_steps:
  "qsame s s" "qsame s (s\<lparr>time_pos := x1\<rparr>)" "qsame s (s\<lparr>run_over10m := x2\<rparr>)" "qsame s (s\<lparr>last_ms := x3\<rparr>)"
  "qsame s (s\<lparr>freq_pos := x4, stats_update_freq := x5\<rparr>)" "qsame s (s\<lparr>last_stats_ms := x6\<rparr>)"
  "qsame s (s\<lparr>stop_soon := x7\<rparr>)" "qsame s (write_bitmap s)" "qsame s (save_auto s)"
  by (simp_all add: qsame_def runner_def tally_def write_bitmap_def save_auto_def Let_def fold_fs_other[of qs] fold_fs_other[of target]
      fold_fs_other[of exec_tmout] fold_fs_other[of total_cal_cycles] fold_fs_other[of total_bitmap_entries] fold_fs_other[of count_class_lookup16] fold_fs_other[of trace_bits] fold_fs_other[of exec_pos])

lemma qsame_if: "qsame s t \<Longrightarrow> qsame s u \<Longrightarrow> qsame s (if c then t else u)"
  by simp

lemma show_stats_qsame: "qsame s (show_stats s)"
  unfolding show_stats_def get_cur_time_def Let_def prod.case
  by (intro qsame_if qsame_steps qsame_trans[OF _ qsame_steps(2)] qsame_trans[OF _ qsame_steps(3)] qsame_trans[OF _ qsame_steps(4)]
      qsame_trans[OF _ qsame_steps(5)] qsame_trans[OF _ qsame_steps(6)] qsame_trans[OF _ qsame_steps(7)]
      qsame_trans[OF _ qsame_steps(8)] qsame_trans[OF _ qsame_steps(9)])

lemma put_testcase_qsame: "qsame s (put_testcase bs s)"
  by (simp add: qsame_def runner_def tally_def put_testcase_def split: option.split)

text \<open>One run: the trace it leaves is that of this execution on what the target reads.\<close>

definition one_run :: "u32 \<Rightarrow> 'a x_state_scheme \<Rightarrow> 'a x_state_scheme \<Rightarrow> bool" where
  "one_run tm s t \<longleftrightarrow> qs t = qs s \<and> runner t = runner s \<and> exec_pos t = Suc (exec_pos s) \<and>
     (8 dvd length (trace_bits s) \<longrightarrow> length (trace_bits t) = length (trace_bits s)) \<and>
     (stop_soon t = 0 \<longrightarrow> trace_bits t = run_trace s (exec_pos s) (cur_input s) tm)"

lemma run_target_one: "okE (\<lambda>(f, t). one_run tm s t) (run_target tm s)"
proof -
  obtain oc s1 where c: "run_child tm s = (oc, s1)" by fastforce
  obtain w s2 where d: "collect_child oc s1 = (w, s2)" by fastforce
  have inp: "cur_input (s\<lparr>child_timed_out := a, trace_bits := b\<rparr>) = cur_input s" for a b by (cases "out_file s") (simp_all add: cur_input_def)
  have s1: "qs s1 = qs s" "runner s1 = runner s" "exec_pos s1 = Suc (exec_pos s)" "trace_bits s1 = replicate (length (trace_bits s)) 0"
     "oc = target s (exec_pos s) (cur_input s) tm" "count_class_lookup16 s1 = count_class_lookup16 s"
    using c by (auto simp: run_child_def Let_def runner_def tally_def inp)
  have s2: "qs s2 = qs s" "runner s2 = runner s" "exec_pos s2 = Suc (exec_pos s)" "trace_bits s2 = run_trace s (exec_pos s) (cur_input s) tm"
    using d s1 by (auto simp: collect_child_def Let_def runner_def tally_def run_trace_def split: if_splits)
  have l2: "8 dvd length (trace_bits s) \<longrightarrow> length (trace_bits s2) = length (trace_bits s)"
    unfolding s2(4) run_trace_def using trace_lengths(1)[where bs = "shared_map oc (replicate (length (trace_bits s)) 0)"] s1(5) by simp
  have "one_run tm s (snd (report_outcome b oc w s2))" for b
    using s2 l2 by (simp add: one_run_def report_outcome_def Let_def runner_def tally_def)
  moreover have "stop_soon s1 \<noteq> 0 \<longrightarrow> one_run tm s s1" using s1 by (simp add: one_run_def)
  ultimately show ?thesis unfolding run_target_def c d Let_def prod.case by (auto simp: split_beta simp del: insert_iff)
qed

text \<open>The bytes one accepted deletion leaves.\<close>

lemma take_memmove_down:
  assumes "pos + avail \<le> n" "n \<le> length b"
  shows "take (n - avail) (memmove_down b pos (pos + avail) (n - pos - avail)) =
    take pos b @ take (n - pos - avail) (drop (pos + avail) b)" "length (memmove_down b pos (pos + avail) (n - pos - avail)) = length b"
  using assms by (auto simp: memmove_down_def add.commute)

lemma subseq_gap:
  assumes "pos + avail \<le> n" "n \<le> length b"
  shows "subseq (take pos b @ take (n - pos - avail) (drop (pos + avail) b)) (take n b)"
proof -
  have "take n b = take pos b @ take (n - pos) (drop pos b)" using assms by (metis append_take_drop_id le_add_diff_inverse2 add_leD1 take_add add.commute)
  moreover have "take (n - pos) (drop pos b) = take avail (drop pos b) @ take (n - pos - avail) (drop (pos + avail) b)"
    using assms by (metis add.commute add_diff_inverse_nat add_le_imp_le_diff drop_drop le_add_diff_inverse not_less take_add)
  ultimately show ?thesis by (metis list_emb_append_mono list_emb_prefix prefixI subseq_append_iff subseq_order.order_refl suffix_imp_subseq suffixI)
qed

lemma next_p2_total: "val \<le> 2 ^ 31 \<Longrightarrow> \<exists>m\<le>31. next_p2 val = Some (2 ^ m)"
  using next_p2_loop_spec[of 0 val] by (auto simp: next_p2_def)

definition trim_frame :: "nat \<Rightarrow> 'a x_state_scheme \<Rightarrow> 'a x_state_scheme \<Rightarrow> bool" where
  "trim_frame q s s' \<longleftrightarrow> settings s' = settings s \<and> (stats_update_freq s \<noteq> 0 \<longrightarrow> stats_update_freq s' \<noteq> 0) \<and> (named s \<longrightarrow> named s') \<and>
     (auto_ok (a_extras s) \<longrightarrow> auto_ok (a_extras s')) \<and> queue s' = queue s \<and> queue_top s' = queue_top s \<and> q_prev100 s' = q_prev100 s \<and> queued_paths s' = queued_paths s \<and>
     (rated s \<longrightarrow> rated s' \<and> length (trace_bits s') = length (trace_bits s)) \<and>
     (\<exists>l. qs s' = (qs s)[q := (qs s ! q)\<lparr>q_len := l\<rparr>])"

lemma trim_frame_refl: "trim_frame q s s"
proof -
  have "(qs s)[q := (qs s ! q)\<lparr>q_len := q_len (qs s ! q)\<rparr>] = qs s" by simp
  then show ?thesis unfolding trim_frame_def by (metis list_update_id)
qed

lemma trim_frame_still:
  assumes "trim_frame q s t" "frame t u" "qs u = qs t"
  shows "trim_frame q s u"
  using assms by (auto simp: trim_frame_def frame_def qpart_def)

lemma trim_frame_x_inv:
  assumes "trim_frame q s t" "x_inv k s" "q < length (qs s)"
  shows "x_inv k t"
proof -
  obtain l where qs: "qs t = (qs s)[q := (qs s ! q)\<lparr>q_len := l\<rparr>]" using assms(1) by (auto simp: trim_frame_def)
  have n: "q_next (qs t ! i) = q_next (qs s ! i)" "q_next_100 (qs t ! i) = q_next_100 (qs s ! i)" "fname (qs t ! i) = fname (qs s ! i)"
    if "i < length (qs s)" for i using that assms(3) by (cases "i = q"; simp add: qs)+
  have "map fname (qs t) = map fname (qs s)" using n(3) by (intro nth_equalityI) (simp_all add: qs)
  then have eq: "fname ` set (qs t) = fname ` set (qs s)" by (metis list.set_map)
  have "\<forall>f\<in>fname ` set (qs t). CHR ''/'' \<in> set f" unfolding eq using assms(2) by (simp add: x_inv_def)
  then have "\<forall>e\<in>set (qs t). CHR ''/'' \<in> set (fname e)" by blast
  moreover have "queue_inv t" using assms(1,2) n by (simp add: trim_frame_def x_inv_def queue_inv_def Let_def qs)
  ultimately show ?thesis using assms(1,2) by (simp add: trim_frame_def x_inv_def settings_def qs)
qed

text \<open>What holds between two rounds, for an entry that had the buffer \<open>b0\<close> in state \<open>s0\<close>.\<close>

definition trim_inv :: "nat \<Rightarrow> 'a x_state_scheme \<Rightarrow> u8 list \<Rightarrow> trim_local \<Rightarrow> 'a x_state_scheme \<Rightarrow> bool" where
  "trim_inv q s0 b0 l s \<longleftrightarrow>
     (let n0 = unat (q_len (qs s0 ! q)); n = unat (q_len (qs s ! q)) in
      trim_frame q s0 s \<and> onward s0 s \<and> q < length (qs s0) \<and> stats_update_freq s \<noteq> 0 \<and> n \<le> n0 \<and> n0 \<le> length b0 \<and> n0 \<le> 2 ^ 31 \<and> 4 \<le> n \<and>
      length (tl_buf l) = length b0 \<and> subseq (take n (tl_buf l)) (take n0 b0) \<and> take 4 (tl_buf l) = take 4 b0 \<and>
      (case tl_clean l of None \<Rightarrow> n = n0 \<and> tl_buf l = b0 | Some c \<Rightarrow> hash32 c HASH_CONST = exec_cksum (qs s0 ! q) \<and> (rated s0 \<longrightarrow> length c = length (trace_bits s0)) \<and>
         (8 dvd length (trace_bits s0) \<longrightarrow> approved q s0 s (take n (tl_buf l)))))"

lemma trim_inv_still:
  assumes "trim_inv q s0 b0 l s" "frame s t" "qs t = qs s" "onward s t"
  shows "trim_inv q s0 b0 (l\<lparr>tl_fault := f, tl_exec := e\<rparr>) t"
proof -
  have "exec_pos s \<le> exec_pos t" using assms(4) by (simp add: onward_def)
  then have "approved q s0 s bs \<longrightarrow> approved q s0 t bs" for bs using approved_onward by blast
  then show ?thesis
    using assms(1-3) trim_frame_still[of q s0 s t] onward_trans[OF _ assms(4), of s0]
    by (auto simp: trim_inv_def Let_def frame_def split: option.splits)
qed

lemma trim_accept_ok:
  assumes inv: "trim_inv q s0 b0 l s" and pos: "4 \<le> pos" "pos < unat (q_len (qs s ! q))"
    and avail: "0 < avail" "pos + avail \<le> unat (q_len (qs s ! q))" and same: "hash32 (trace_bits s) HASH_CONST = exec_cksum (qs s ! q)"
    and run: "8 dvd length (trace_bits s0) \<Longrightarrow>
      approved q s0 s (take pos (tl_buf l) @ take (unat (q_len (qs s ! q)) - pos - avail) (drop (pos + avail) (tl_buf l)))"
  shows "\<exists>l' s'. trim_accept q pos avail l s = Inr (l', s') \<and> trim_inv q s0 b0 l' s' \<and>
     unat (q_len (qs s' ! q)) = unat (q_len (qs s ! q)) - avail \<and> tl_fault l' = tl_fault l"
proof -
  define n where "n = unat (q_len (qs s ! q))"
  define s' where "s' = upd_q q (\<lambda>e. e\<lparr>q_len := q_len e - of_nat avail\<rparr>) s"
  obtain len where tf: "qs s = (qs s0)[q := (qs s0 ! q)\<lparr>q_len := len\<rparr>]" and ql: "q < length (qs s0)"
    using inv by (auto simp: trim_inv_def trim_frame_def Let_def)
  have q: "q < length (qs s)" using ql tf by simp
  have n31: "n \<le> 2 ^ 31" "n \<le> length (tl_buf l)" using inv by (auto simp: trim_inv_def Let_def n_def)
  have ua: "unat (of_nat avail :: u32) = avail" using avail(2) n31 by (simp add: unat_of_nat take_bit_nat_eq_self n_def[symmetric])
  have nl: "unat (q_len (qs s' ! q)) = n - avail"
    using q avail(2) ua unat_sub[of "of_nat avail" "q_len (qs s ! q)"] by (simp add: s'_def n_def word_le_nat_alt)
  have "q_len (qs s' ! q) \<le> 2 ^ 31" using nl n31 by (simp add: word_le_nat_alt)
  then obtain p2 where p2: "next_p2 (q_len (qs s' ! q)) = Some p2" using next_p2_total by blast
  define b' where "b' = memmove_down (tl_buf l) pos (pos + avail) (n - pos - avail)"
  define l' where "l' = l\<lparr>tl_len_p2 := unat p2, tl_buf := b', tl_clean := (case tl_clean l of None \<Rightarrow> Some (trace_bits s') | Some c \<Rightarrow> Some c)\<rparr>"
  have step: "trim_accept q pos avail l s = Inr (l', s')"
    unfolding trim_accept_def Let_def s'_def[symmetric] p2 option.case l'_def b'_def n_def ..
  have av: "pos + avail \<le> n" using avail(2) by (simp add: n_def)
  note M = take_memmove_down[OF av n31(2), folded b'_def]
  have "subseq (take (n - avail) b') (take n (tl_buf l))" unfolding M(1) by (rule subseq_gap[OF av n31(2)])
  then have sub: "subseq (take (n - avail) b') (take (unat (q_len (qs s0 ! q))) b0)"
    using inv subseq_order.order_trans by (fastforce simp: trim_inv_def Let_def n_def[symmetric])
  have t4: "take 4 b' = take 4 (tl_buf l)" using pos(1) av n31(2) by (simp add: b'_def memmove_down_def)
  have rs: "rated s'" if "rated s" using rate_ok_upd[of "qs s" "top_rated s" _ "(qs s ! q)\<lparr>q_len := q_len (qs s ! q) - of_nat avail\<rparr>" q] that
    by (simp add: rated_def s'_def)
  have "named (s\<lparr>qs := x\<rparr>) = named s" for x by (simp add: named_def)
  then have "trim_frame q s0 s'"
    using inv tf ql rs by (auto simp: trim_inv_def trim_frame_def Let_def s'_def upd_q_def settings_def)
  moreover have "exec_cksum (qs s ! q) = exec_cksum (qs s0 ! q)" using tf ql by simp
  moreover have "trace_bits s' = trace_bits s" "stats_update_freq s' = stats_update_freq s" by (simp_all add: s'_def upd_q_def)
  moreover have "length (trace_bits s) = length (trace_bits s0)" if "rated s0" using inv that by (simp add: trim_inv_def trim_frame_def Let_def)
  moreover have on: "onward s0 s'" using inv by (simp add: trim_inv_def Let_def onward_def runner_def tally_def s'_def upd_q_def)
  moreover have "8 dvd length (trace_bits s0) \<longrightarrow> approved q s0 s' (take (n - avail) b')"
    using run unfolding M(1) n_def[symmetric] by (simp add: approved_def s'_def upd_q_def)
  ultimately have "trim_inv q s0 b0 l' s'"
    using inv sub nl M(2) same pos(1) av t4 unfolding trim_inv_def Let_def
    by (auto simp: l'_def n_def[symmetric] split: option.splits)
  then show ?thesis using step nl by (auto simp: n_def l'_def)
qed

definition trim_post :: "nat \<Rightarrow> 'a x_state_scheme \<Rightarrow> u8 list \<Rightarrow> bool \<times> trim_local \<times> 'a x_state_scheme \<Rightarrow> bool" where
  "trim_post q s0 b0 = (\<lambda>(aborted, l, s). trim_inv q s0 b0 l s \<and> (aborted \<longrightarrow> stop_soon s \<noteq> 0 \<or> tl_fault l = FAULT_ERROR))"

lemma trim_inner_ok:
  fixes s :: "'a x_state_scheme"
  assumes "trim_inv q s0 b0 l s" "4 \<le> remove_len" "remove_len \<le> pos" "unat (q_len (qs s ! q)) - pos \<le> fuel"
  shows "okE (trim_post q s0 b0) (trim_inner fuel q remove_len pos l s)"
  using assms
proof (induction fuel arbitrary: pos l s)
  case 0
  then show ?case by (simp add: trim_post_def)
next
  case (Suc fuel)
  define n where "n = unat (q_len (qs s ! q))"
  show ?case
  proof (cases "pos < n")
    case False
    then show ?thesis using Suc.prems by (simp add: Let_def n_def trim_post_def)
  next
    case True
    define av where "av = min remove_len (n - pos)"
    define inp where "inp = take pos (tl_buf l) @ take (n - pos - av) (drop (pos + av) (tl_buf l))"
    have av: "0 < av" "pos + av \<le> n" "n \<le> length (tl_buf l)"
      using True Suc.prems(1,2) by (auto simp: av_def trim_inv_def Let_def n_def)
    have fq: "stats_update_freq s \<noteq> 0" using Suc.prems(1) by (simp add: trim_inv_def Let_def)
    let ?P = "trim_post q s0 b0"
    show ?thesis unfolding trim_inner.simps Let_def n_def[symmetric] if_P[OF True] av_def[symmetric]
    proof (rule okE_bind[of "\<lambda>t. still s t \<and> qsame s t \<and> cur_input t = inp"])
      show "okE (\<lambda>t. still s t \<and> qsame s t \<and> cur_input t = inp) (write_with_gap (tl_buf l) n pos av s)"
        using av by (simp add: write_with_gap_def put_testcase_still put_testcase_qsame cur_input_put_testcase inp_def)
    next
      fix s1 assume s1: "still s s1 \<and> qsame s s1 \<and> cur_input s1 = inp"
      show "okE ?P (bindE (run_target (exec_tmout s1) s1) (\<lambda>(fault, s).
          if stop_soon (s\<lparr>trim_execs := trim_execs s + 1\<rparr>) \<noteq> 0 \<or> fault = FAULT_ERROR
          then Inr (True, l\<lparr>tl_fault := fault\<rparr>, s\<lparr>trim_execs := trim_execs s + 1\<rparr>)
          else bindE (if hash32 (trace_bits (s\<lparr>trim_execs := trim_execs s + 1\<rparr>)) HASH_CONST = exec_cksum (qs (s\<lparr>trim_execs := trim_execs s + 1\<rparr>) ! q)
                      then trim_accept q pos av (l\<lparr>tl_fault := fault\<rparr>) (s\<lparr>trim_execs := trim_execs s + 1\<rparr>)
                      else Inr (l\<lparr>tl_fault := fault\<rparr>, s\<lparr>trim_execs := trim_execs s + 1\<rparr>)) (\<lambda>(l, sa).
               bindE (stats_tick (tl_exec l) False sa) (\<lambda>sa.
                  trim_inner fuel q remove_len
                    (if hash32 (trace_bits (s\<lparr>trim_execs := trim_execs s + 1\<rparr>)) HASH_CONST = exec_cksum (qs (s\<lparr>trim_execs := trim_execs s + 1\<rparr>) ! q)
                     then pos else pos + remove_len) (l\<lparr>tl_exec := tl_exec l + 1\<rparr>) (sa\<lparr>stage_cur := stage_cur sa + 1\<rparr>)))))"
      proof (rule okE_bind[OF okE_conj[OF run_target_ok run_target_one]])
        fix y :: "fault \<times> 'a x_state_scheme"
        assume y: "(case y of (f, s') \<Rightarrow> ran 1 s1 s') \<and> (case y of (f, s') \<Rightarrow> one_run (exec_tmout s1) s1 s')"
        obtain f s2 where ys: "y = (f, s2)" by (cases y)
        define s3 where "s3 = s2\<lparr>trim_execs := trim_execs s2 + 1\<rparr>"
        have "ran 1 s s3" unfolding s3_def
          by (rule ran_still[OF still_then_ran[OF conjunct1[OF s1]] still_more_steps(34)]) (use y ys in simp)
        then have f3: "frame s s3" "qs s3 = qs s" using y ys s1 by (auto simp: ran_def s3_def one_run_def qsame_def)
        have one: "runner s3 = runner s" "exec_pos s3 = Suc (exec_pos s)" "8 dvd length (trace_bits s) \<longrightarrow> length (trace_bits s3) = length (trace_bits s)"
            "stop_soon s3 = 0 \<longrightarrow> trace_bits s3 = run_trace s (exec_pos s) inp (exec_tmout s)"
          using y ys s1 by (auto simp: one_run_def qsame_def s3_def runner_def tally_def run_trace_def)
        have on3: "onward s s3" using one by (simp add: onward_def)
        define l3 where "l3 = l\<lparr>tl_fault := f\<rparr>"
        have "l3 = l\<lparr>tl_fault := f, tl_exec := tl_exec l\<rparr>" by (simp add: l3_def)
        then have i3: "trim_inv q s0 b0 l3 s3" using trim_inv_still[OF Suc.prems(1) f3 on3] by metis
        define same where "same = (hash32 (trace_bits s3) HASH_CONST = exec_cksum (qs s3 ! q))"
        let ?pos = "if same then pos else pos + remove_len"
        have appr: "approved q s0 s3 inp" if same "stop_soon s3 = 0" "8 dvd length (trace_bits s0)"
        proof -
          have os: "onward s0 s" using Suc.prems(1) by (simp add: trim_inv_def Let_def)
          then have "run_trace s (exec_pos s) inp (exec_tmout s) = run_trace s0 (exec_pos s) inp (exec_tmout s0)" using that(3)
            by (simp add: onward_def runner_def tally_def run_trace_def)
          moreover have "exec_cksum (qs s3 ! q) = exec_cksum (qs s0 ! q)" using i3 by (auto simp: trim_inv_def trim_frame_def Let_def)
          ultimately show ?thesis unfolding approved_def using os one that by (intro exI[of _ "exec_pos s"]) (auto simp: onward_def same_def)
        qed
        have acc: "okE (\<lambda>(l', t). trim_inv q s0 b0 l' t \<and> unat (q_len (qs t ! q)) - ?pos \<le> fuel)
            (if same then trim_accept q pos av l3 s3 else Inr (l3, s3))" if run: "stop_soon s3 = 0"
        proof (cases same)
          case True
          have n3: "unat (q_len (qs s3 ! q)) = n" using f3(2) by (simp add: n_def)
          obtain l' t where "trim_accept q pos av l3 s3 = Inr (l', t)" "trim_inv q s0 b0 l' t" "unat (q_len (qs t ! q)) = n - av"
            using trim_accept_ok[OF i3, of pos av] True Suc.prems(2,3) av \<open>pos < n\<close> n3 appr[OF True run] by (auto simp: same_def inp_def l3_def)
          then show ?thesis using True Suc.prems(4) av(1) by (simp add: n_def)
        next
          case False
          then show ?thesis using i3 f3(2) Suc.prems(2,4) by (simp add: n_def)
        qed
        have rest: "okE ?P (bindE (if same then trim_accept q pos av l3 s3 else Inr (l3, s3)) (\<lambda>(l, sa).
               bindE (stats_tick (tl_exec l) False sa) (\<lambda>sa.
                  trim_inner fuel q remove_len ?pos (l\<lparr>tl_exec := tl_exec l + 1\<rparr>) (sa\<lparr>stage_cur := stage_cur sa + 1\<rparr>))))" if run: "stop_soon s3 = 0"
        proof (rule okE_bind[OF acc[OF run]])
          fix z assume z: "case z of (l', t) \<Rightarrow> trim_inv q s0 b0 l' t \<and> unat (q_len (qs t ! q)) - ?pos \<le> fuel"
          obtain l' t where zs: "z = (l', t)" by (cases z)
          have it: "trim_inv q s0 b0 l' t" and ft: "unat (q_len (qs t ! q)) - ?pos \<le> fuel" using z zs by auto
          have fq: "stats_update_freq t \<noteq> 0" using it by (simp add: trim_inv_def Let_def)
          have tick: "okE (\<lambda>u. still t u \<and> qsame t u) (stats_tick (tl_exec l') False t)"
            using fq by (simp add: stats_tick_def show_stats_still show_stats_qsame qsame_steps(1))
          have "okE ?P (bindE (stats_tick (tl_exec l') False t) (\<lambda>sa.
                  trim_inner fuel q remove_len ?pos (l'\<lparr>tl_exec := tl_exec l' + 1\<rparr>) (sa\<lparr>stage_cur := stage_cur sa + 1\<rparr>)))"
          proof (rule okE_bind[OF tick], rule Suc.IH)
            fix u assume u: "still t u \<and> qsame t u"
            have "frame u (u\<lparr>stage_cur := c\<rparr>)" for c by (simp add: frame_def part_defs)
            then have "frame t (u\<lparr>stage_cur := c\<rparr>)" for c using u frame_trans by (auto simp: still_def)
            moreover have "onward t (u\<lparr>stage_cur := c\<rparr>)" "qs (u\<lparr>stage_cur := c\<rparr>) = qs t" for c using u by (simp_all add: qsame_def onward_def runner_def tally_def)
            moreover have "l'\<lparr>tl_exec := e\<rparr> = l'\<lparr>tl_fault := tl_fault l', tl_exec := e\<rparr>" for e by simp
            ultimately show "trim_inv q s0 b0 (l'\<lparr>tl_exec := tl_exec l' + 1\<rparr>) (u\<lparr>stage_cur := stage_cur u + 1\<rparr>)"
              using trim_inv_still[OF it, where t = "u\<lparr>stage_cur := stage_cur u + 1\<rparr>" and f = "tl_fault l'" and e = "tl_exec l' + 1"] u by simp
            show "unat (q_len (qs (u\<lparr>stage_cur := stage_cur u + 1\<rparr>) ! q)) - ?pos \<le> fuel" using ft u by (simp add: qsame_def)
          qed (use Suc.prems in auto)
          then show "okE ?P (case z of (l, sa) \<Rightarrow> bindE (stats_tick (tl_exec l) False sa) (\<lambda>sa.
                  trim_inner fuel q remove_len ?pos (l\<lparr>tl_exec := tl_exec l + 1\<rparr>) (sa\<lparr>stage_cur := stage_cur sa + 1\<rparr>)))"
            unfolding zs prod.case .
        qed
        show "okE ?P (case y of (fault, s) \<Rightarrow>
          if stop_soon (s\<lparr>trim_execs := trim_execs s + 1\<rparr>) \<noteq> 0 \<or> fault = FAULT_ERROR
          then Inr (True, l\<lparr>tl_fault := fault\<rparr>, s\<lparr>trim_execs := trim_execs s + 1\<rparr>)
          else bindE (if hash32 (trace_bits (s\<lparr>trim_execs := trim_execs s + 1\<rparr>)) HASH_CONST = exec_cksum (qs (s\<lparr>trim_execs := trim_execs s + 1\<rparr>) ! q)
                      then trim_accept q pos av (l\<lparr>tl_fault := fault\<rparr>) (s\<lparr>trim_execs := trim_execs s + 1\<rparr>)
                      else Inr (l\<lparr>tl_fault := fault\<rparr>, s\<lparr>trim_execs := trim_execs s + 1\<rparr>)) (\<lambda>(l, sa).
               bindE (stats_tick (tl_exec l) False sa) (\<lambda>sa.
                  trim_inner fuel q remove_len
                    (if hash32 (trace_bits (s\<lparr>trim_execs := trim_execs s + 1\<rparr>)) HASH_CONST = exec_cksum (qs (s\<lparr>trim_execs := trim_execs s + 1\<rparr>) ! q)
                     then pos else pos + remove_len) (l\<lparr>tl_exec := tl_exec l + 1\<rparr>) (sa\<lparr>stage_cur := stage_cur sa + 1\<rparr>))))"
          unfolding ys prod.case s3_def[symmetric] l3_def[symmetric] same_def[symmetric]
          using rest i3 by (cases "stop_soon s3 = 0"; cases "f = FAULT_ERROR") (auto simp: trim_post_def l3_def)
      qed
    qed
  qed
qed

lemma trim_outer_ok:
  fixes s :: "'a x_state_scheme"
  assumes "trim_inv q s0 b0 l s" "remove_len < 2 ^ (fuel + 2)"
  shows "okE (trim_post q s0 b0) (trim_outer (Suc fuel) q remove_len l s)"
  using assms
proof (induction fuel arbitrary: remove_len l s)
  case 0
  then show ?case by (simp add: trim_post_def cfg_simps)
next
  case (Suc fuel)
  show ?case
  proof (cases "remove_len \<ge> max (tl_len_p2 l div TRIM_END_STEPS) TRIM_MIN_BYTES")
    case False
    then show ?thesis unfolding trim_outer.simps(2)[of "Suc fuel"] if_not_P[OF False] using Suc.prems(1) by (simp add: trim_post_def)
  next
    case True
    define s1 where "s1 = s\<lparr>stage_cur := 0, stage_max := int (unat (q_len (qs s ! q)) div remove_len)\<rparr>"
    have f1: "frame s s1" "qs s1 = qs s" and o1: "onward s s1" by (simp_all add: s1_def frame_def part_defs onward_def runner_def tally_def)
    have "l = l\<lparr>tl_fault := tl_fault l, tl_exec := tl_exec l\<rparr>" by simp
    then have i1: "trim_inv q s0 b0 l s1" using trim_inv_still[OF Suc.prems(1) f1 o1] by metis
    have inner: "okE (trim_post q s0 b0) (trim_inner (unat (q_len (qs s1 ! q))) q remove_len remove_len l s1)"
      by (rule trim_inner_ok[OF i1]) (use True in \<open>simp_all add: cfg_simps\<close>)
    have "okE (trim_post q s0 b0) (bindE (trim_inner (unat (q_len (qs s1 ! q))) q remove_len remove_len l s1) (\<lambda>(aborted, l, s).
          if aborted then Inr (True, l, s) else trim_outer (Suc fuel) q (remove_len div 2) l s))"
    proof (rule okE_bind[OF inner])
      fix y assume y: "trim_post q s0 b0 y"
      obtain ab l2 s2 where ys: "y = (ab, l2, s2)" by (cases y)
      have "okE (trim_post q s0 b0) (trim_outer (Suc fuel) q (remove_len div 2) l2 s2)"
        using Suc.IH[of l2 s2 "remove_len div 2"] y ys Suc.prems(2) by (simp add: trim_post_def)
      then show "okE (trim_post q s0 b0) (case y of (aborted, l, s) \<Rightarrow>
          if aborted then Inr (True, l, s) else trim_outer (Suc fuel) q (remove_len div 2) l s)"
        using y unfolding ys prod.case by auto
    qed
    then show ?thesis unfolding trim_outer.simps(2)[of "Suc fuel"] if_P[OF True] Let_def s1_def .
  qed
qed

lemma update_bitmap_score_other:
  "fs (update_bitmap_score q s) = fs s" "trace_bits (update_bitmap_score q s) = trace_bits s"
  "stop_soon (update_bitmap_score q s) = stop_soon s"
proof -
  have at: "fs (update_score_at fav q tr i s) = fs s" "trace_bits (update_score_at fav q tr i s) = trace_bits s"
     "stop_soon (update_score_at fav q tr i s) = stop_soon s" for fav tr i and s :: "'a x_state_scheme"
    by (simp_all add: update_score_at_def take_slot_def drop_ref_def upd_q_def Let_def split: option.split)
  show "fs (update_bitmap_score q s) = fs s" "trace_bits (update_bitmap_score q s) = trace_bits s"
    "stop_soon (update_bitmap_score q s) = stop_soon s"
    unfolding update_bitmap_score_def by (simp_all add: fold_fs_other at)
qed

text \<open>What trimming an entry promises.\<close>

definition trimmed :: "nat \<Rightarrow> u8 list \<Rightarrow> 'a x_state_scheme \<Rightarrow> fault \<times> u8 list \<times> 'a x_state_scheme \<Rightarrow> bool" where
  "trimmed q b s = (\<lambda>(f, b', s').
     let n = unat (q_len (qs s ! q)); n' = unat (q_len (qs s' ! q)) in
     n' \<le> n \<and> min n 4 \<le> n' \<and> length b' = length b \<and> take 4 b' = take 4 b \<and> subseq (take n' b') (take n b) \<and>
     map fname (qs s') = map fname (qs s) \<and> map q_len (qs s') = (map q_len (qs s))[q := q_len (qs s' ! q)] \<and>
     (n' = n \<and> b' = b \<or> stop_soon s' \<noteq> 0 \<or> f = FAULT_ERROR \<or>
      fs s' (fname (qs s ! q)) = Some (File (take n' b')) \<and> hash32 (trace_bits s') HASH_CONST = exec_cksum (qs s ! q)) \<and>
     (8 dvd length (trace_bits s) \<longrightarrow> n' = n \<and> b' = b \<or> approved q s s' (take n' b')) \<and>
     settings s' = settings s \<and> (\<forall>k. x_inv k s \<longrightarrow> x_inv k s'))"

lemma trim_inv_trimmed:
  assumes inv: "trim_inv q s0 b0 l s" and qp: "qpart t = qpart s" "settings t = settings s" and fr: "rated s0 \<Longrightarrow> frame s t" and ex: "exec_pos s \<le> exec_pos t"
    and wr: "tl_clean l = None \<or> stop_soon t \<noteq> 0 \<or> tl_fault l = FAULT_ERROR \<or>
      fs t (fname (qs s0 ! q)) = Some (File (take (unat (q_len (qs t ! q))) (tl_buf l))) \<and> Some (trace_bits t) = tl_clean l"
  shows "trimmed q b0 s0 (tl_fault l, tl_buf l, t)"
proof -
  obtain len where qs: "qs s = (qs s0)[q := (qs s0 ! q)\<lparr>q_len := len\<rparr>]" and ql: "q < length (qs s0)"
    using inv by (auto simp: trim_inv_def trim_frame_def Let_def)
  have len: "q_len (qs t ! q) = q_len (qs s ! q)" "q_len (qs s ! q) = len" using qpart_queue_inv(4)[OF qp(1), of q] qs ql by simp_all
  have "map fname (qs t) = map fname (qs s0)" using frame_names(1)[OF qp(1)] qs ql by (simp add: map_update list_update_same_conv)
  moreover have "map q_len (qs t) = (map q_len (qs s0))[q := q_len (qs t ! q)]" using frame_names(2)[OF qp(1)] qs ql len by (simp add: map_update)
  moreover have tf: "trim_frame q s0 s" using inv by (simp_all add: trim_inv_def Let_def)
  moreover have "settings t = settings s0" using tf qp(2) by (simp add: trim_frame_def)
  moreover have "x_inv k t" if x: "x_inv k s0" for k
  proof -
    have "rated s0" using x by (simp add: x_inv_def)
    then show ?thesis by (rule x_inv_frame[OF fr trim_frame_x_inv[OF tf x ql]])
  qed
  moreover have "approved q s0 s bs \<longrightarrow> approved q s0 t bs" for bs using approved_onward[OF _ ex] by blast
  ultimately show ?thesis using inv wr len unfolding trim_inv_def trimmed_def Let_def prod.case
    by (cases "tl_clean l") auto
qed

lemma trim_case_run:
  fixes s :: "'a x_state_scheme"
  assumes q: "q < length (qs s)" and fq: "stats_update_freq s \<noteq> 0" and len: "unat (q_len (qs s ! q)) \<le> length b" "q_len (qs s ! q) \<le> 2 ^ 31"
  shows "okE (trimmed q b s) (trim_case q b s)"
proof (cases "q_len (qs s ! q) < 5")
  case True
  moreover have "(map q_len (qs s))[q := q_len (qs s ! q)] = map q_len (qs s)" using q by (simp add: list_update_same_conv)
  ultimately show ?thesis using q by (simp add: trim_case_def trimmed_def Let_def)
next
  case False
  define s1 where "s1 = s\<lparr>bytes_trim_in := bytes_trim_in s + ucast (q_len (qs s ! q))\<rparr>"
  have f1: "frame s s1" "qs s1 = qs s" and o1: "onward s s1" by (simp_all add: s1_def frame_def part_defs onward_def runner_def tally_def)
  obtain m where p2: "m \<le> 31" "next_p2 (q_len (qs s1 ! q)) = Some (2 ^ m)" using next_p2_total[OF len(2)] f1(2) by auto
  define l where "l = \<lparr>tl_buf = b, tl_len_p2 = unat (2 ^ m :: u32), tl_clean = None, tl_fault = FAULT_NONE, tl_exec = 0\<rparr>"
  have n: "5 \<le> unat (q_len (qs s ! q))" "unat (q_len (qs s ! q)) \<le> 2 ^ 31" using False len(2) by (auto simp: word_less_nat_alt word_le_nat_alt)
  have i0: "trim_inv q s b l s" using trim_frame_refl[of q s] q fq len(1) n by (simp add: trim_inv_def l_def)
  have "l = l\<lparr>tl_fault := tl_fault l, tl_exec := tl_exec l\<rparr>" by simp
  then have i1: "trim_inv q s b l s1" using trim_inv_still[OF i0 f1 o1] by metis
  define rl where "rl = max (unat (2 ^ m :: u32) div TRIM_START_STEPS) TRIM_MIN_BYTES"
  have "unat (2 ^ m :: u32) < 2 ^ 32" using unsigned_less[of "2 ^ m :: u32"] by simp
  then have rl: "rl < 2 ^ (32 + 2)" by (simp add: rl_def cfg_simps)
  have outer: "okE (trim_post q s b) (trim_outer 33 q rl l s1)"
    using trim_outer_ok[OF i1 rl] by (simp only: Suc_numeral semiring_norm)
  have "okE (trimmed q b s) (bindE (trim_outer 33 q rl l s1) (\<lambda>(aborted, l, s).
                 let s = (case tl_clean l of
                            Some clean \<Rightarrow>
                              if aborted then s
                              else
                                let f = fname (qs s ! q);
                                    s = s\<lparr>fs := (fs s)(f := None, f \<mapsto> File (take (unat (q_len (qs s ! q))) (tl_buf l)))\<rparr>;
                                    s = s\<lparr>trace_bits := clean\<rparr>
                                in update_bitmap_score q s
                          | None \<Rightarrow> s)
                 in Inr (tl_fault l, tl_buf l, s\<lparr>bytes_trim_out := bytes_trim_out s + ucast (q_len (qs s ! q))\<rparr>)))"
  proof (rule okE_bind[OF outer])
    fix y assume "trim_post q s b y"
    then obtain ab l2 s2 where y: "y = (ab, l2, s2)" "trim_inv q s b l2 s2" "ab \<longrightarrow> stop_soon s2 \<noteq> 0 \<or> tl_fault l2 = FAULT_ERROR"
      by (cases y) (auto simp: trim_post_def)
    show "okE (trimmed q b s) (case y of (aborted, l, s) \<Rightarrow>
                 let s = (case tl_clean l of
                            Some clean \<Rightarrow>
                              if aborted then s
                              else
                                let f = fname (qs s ! q);
                                    s = s\<lparr>fs := (fs s)(f := None, f \<mapsto> File (take (unat (q_len (qs s ! q))) (tl_buf l)))\<rparr>;
                                    s = s\<lparr>trace_bits := clean\<rparr>
                                in update_bitmap_score q s
                          | None \<Rightarrow> s)
                 in Inr (tl_fault l, tl_buf l, s\<lparr>bytes_trim_out := bytes_trim_out s + ucast (q_len (qs s ! q))\<rparr>))"
    proof (cases "tl_clean l2 = None \<or> ab")
      case True
      have "qpart (s2\<lparr>bytes_trim_out := c\<rparr>) = qpart s2" "settings (s2\<lparr>bytes_trim_out := c\<rparr>) = settings s2" "frame s2 (s2\<lparr>bytes_trim_out := c\<rparr>)"
          "exec_pos s2 \<le> exec_pos (s2\<lparr>bytes_trim_out := c\<rparr>)" for c
        by (simp_all add: frame_def part_defs)
      then have "trimmed q b s (tl_fault l2, tl_buf l2, s2\<lparr>bytes_trim_out := c\<rparr>)" for c
        by (rule trim_inv_trimmed[OF y(2)]) (use True y(3) in auto)
      then show ?thesis using True unfolding y(1) prod.case Let_def by (auto split: option.split)
    next
      case False
      then obtain clean where cl: "tl_clean l2 = Some clean" "\<not> ab" by auto
      define f where "f = fname (qs s2 ! q)"
      define s3 where "s3 = s2\<lparr>fs := (fs s2)(f := None, f \<mapsto> File (take (unat (q_len (qs s2 ! q))) (tl_buf l2))), trace_bits := clean\<rparr>"
      define s4 where "s4 = update_bitmap_score q s3"
      define s5 where "s5 = s4\<lparr>bytes_trim_out := bytes_trim_out s4 + ucast (q_len (qs s4 ! q))\<rparr>"
      have ql: "q < length (qs s2)" using y(2) by (auto simp: trim_inv_def trim_frame_def Let_def)
      have ps: "qpart s5 = qpart s2" "settings s5 = settings s2" and ex: "exec_pos s2 \<le> exec_pos s5"
        using update_bitmap_score_still[of q s3] ql by (simp_all add: s5_def s4_def s3_def still_def frame_def qpart_def settings_def progress_def)
      have fr: "frame s2 s5" if "rated s"
      proof -
        have "length clean = length (trace_bits s2)" using y(2) cl that by (auto simp: trim_inv_def trim_frame_def Let_def)
        then have "frame s2 s3" by (simp add: s3_def frame_def part_defs)
        moreover have "frame s3 s4" using update_bitmap_score_still[of q s3] ql by (simp add: s4_def s3_def still_def)
        moreover have "frame s4 s5" by (simp add: s5_def frame_def part_defs)
        ultimately show ?thesis using frame_trans by blast
      qed
      have nf: "fname (qs s2 ! q) = fname (qs s ! q)" using y(2) by (auto simp: trim_inv_def trim_frame_def Let_def)
      have nq: "q_len (qs s5 ! q) = q_len (qs s2 ! q)"
        using qpart_queue_inv(4)[OF ps(1), of q] y(2) by (auto simp: trim_inv_def trim_frame_def Let_def)
      have "fs s5 f = Some (File (take (unat (q_len (qs s2 ! q))) (tl_buf l2)))" "trace_bits s5 = clean"
        by (simp_all add: s5_def s4_def s3_def update_bitmap_score_other)
      then have "trimmed q b s (tl_fault l2, tl_buf l2, s5)"
        by (intro trim_inv_trimmed[OF y(2) ps fr ex]) (simp_all add: cl nq nf[symmetric] f_def)
      then show ?thesis using cl unfolding y(1) prod.case Let_def s5_def s4_def s3_def f_def by simp
    qed
  qed
  then show ?thesis using False unfolding trim_case_def Let_def s1_def[symmetric] p2(2) option.case l_def[symmetric] rl_def[symmetric] by simp
qed

section \<open>Correctness of trimming\<close>



end
