(* ===== verification/Afl_Alloc.thy ===== *)
theory Afl_Alloc
  imports Afl_Words
begin

text \<open>
  The allocation wrappers of \<open>alloc-inl.h\<close> (without \<open>DEBUG_BUILD\<close>): every buffer carries its size and a
  canary in front and a canary byte behind, which are checked when it is freed or resized. The memory is
  an explicit array of bytes. \<open>malloc\<close>, \<open>realloc\<close> and \<open>free\<close> of the C library are not determined by the
  program: where a block is placed and what \<open>free\<close> leaves behind in a block are arbitrary functions of
  the state, and the theorems only need that a new block does not overlap the live ones.
\<close>

section \<open>State\<close>

type_synonym ptr = "nat option"   \<comment> \<open>\<open>None\<close> is \<open>NULL\<close>\<close>

record ck_heap =
  heap_mem :: "nat \<Rightarrow> u8"
  heap_blocks :: "(nat \<times> nat) list"                   \<comment> \<open>start and size of the blocks of \<open>malloc\<close>\<close>
  malloc_at :: "(nat \<times> nat) list \<Rightarrow> nat \<Rightarrow> nat option"  \<comment> \<open>the place of a new block\<close>
  free_fill :: "nat \<Rightarrow> nat \<Rightarrow> u8"                      \<comment> \<open>what \<open>free\<close> leaves in a block\<close>

definition MAX_ALLOC :: u32 where "MAX_ALLOC = 0x40000000"
definition ALLOC_MAGIC_C1 :: u32 where "ALLOC_MAGIC_C1 = 0xFF00FF00"
definition ALLOC_MAGIC_F :: u32 where "ALLOC_MAGIC_F = 0xFE00FE00"
definition ALLOC_MAGIC_C2 :: u8 where "ALLOC_MAGIC_C2 = 0xF0"
definition ALLOC_OFF_HEAD :: nat where "ALLOC_OFF_HEAD = 8"
definition ALLOC_OFF_TOTAL :: nat where "ALLOC_OFF_TOTAL = ALLOC_OFF_HEAD + 1"
definition ALLOC_BLK_INC :: u32 where "ALLOC_BLK_INC = 256"

lemmas alloc_consts = MAX_ALLOC_def ALLOC_MAGIC_C1_def ALLOC_MAGIC_F_def ALLOC_MAGIC_C2_def ALLOC_OFF_TOTAL_def ALLOC_OFF_HEAD_def ALLOC_BLK_INC_def

section \<open>Memory\<close>

definition read_bytes :: "nat \<Rightarrow> nat \<Rightarrow> ck_heap \<Rightarrow> u8 list" where
  "read_bytes a n h = map (heap_mem h) [a..<a + n]"

definition write_bytes :: "nat \<Rightarrow> u8 list \<Rightarrow> ck_heap \<Rightarrow> ck_heap" where
  "write_bytes a bs h = h\<lparr>heap_mem := (\<lambda>x. if a \<le> x \<and> x < a + length bs then bs ! (x - a) else heap_mem h x)\<rparr>"

definition load32 :: "nat \<Rightarrow> ck_heap \<Rightarrow> u32" where
  "load32 a h = le_load (read_bytes a 4 h)"

definition store32 :: "nat \<Rightarrow> u32 \<Rightarrow> ck_heap \<Rightarrow> ck_heap" where
  "store32 a w h = write_bytes a (le_store 4 w) h"

text \<open>The C library.\<close>

definition C_malloc :: "nat \<Rightarrow> ck_heap \<Rightarrow> ptr \<times> ck_heap" where
  "C_malloc n h = (case malloc_at h (heap_blocks h) n of None \<Rightarrow> (None, h) | Some a \<Rightarrow> (Some a, h\<lparr>heap_blocks := (a, n) # heap_blocks h\<rparr>))"

definition C_free :: "nat \<Rightarrow> ck_heap \<Rightarrow> err + ck_heap" where
  "C_free a h = (case map_of (heap_blocks h) a of
       None \<Rightarrow> Inl OutOfBounds
     | Some n \<Rightarrow> Inr (write_bytes a (map (free_fill h a) [0..<n]) (h\<lparr>heap_blocks := filter (\<lambda>b. fst b \<noteq> a) (heap_blocks h)\<rparr>)))"

definition C_realloc :: "ptr \<Rightarrow> nat \<Rightarrow> ck_heap \<Rightarrow> err + ptr \<times> ck_heap" where
  "C_realloc p n h = (case p of
       None \<Rightarrow> Inr (C_malloc n h)
     | Some a \<Rightarrow> (case map_of (heap_blocks h) a of
           None \<Rightarrow> Inl OutOfBounds
         | Some k \<Rightarrow> (let others = filter (\<lambda>b. fst b \<noteq> a) (heap_blocks h) in
             case malloc_at h others n of
               None \<Rightarrow> Inr (None, h)
             | Some b \<Rightarrow> Inr (Some b, write_bytes b (read_bytes a (min k n) h)
                            (write_bytes a (map (free_fill h a) [0..<k]) (h\<lparr>heap_blocks := (b, n) # others\<rparr>))))))"

section \<open>Canaries\<close>

definition ALLOC_C1 :: "nat \<Rightarrow> ck_heap \<Rightarrow> u32" where "ALLOC_C1 p h = load32 (p - 8) h"
definition ALLOC_S :: "nat \<Rightarrow> ck_heap \<Rightarrow> u32" where "ALLOC_S p h = load32 (p - 4) h"
definition ALLOC_C2 :: "nat \<Rightarrow> ck_heap \<Rightarrow> u8" where "ALLOC_C2 p h = heap_mem h (p + unat (ALLOC_S p h))"

definition CHECK_PTR :: "ptr \<Rightarrow> ck_heap \<Rightarrow> err + unit" where
  "CHECK_PTR q h = (case q of
       None \<Rightarrow> Inr ()
     | Some p \<Rightarrow>
         if ALLOC_C1 p h \<noteq> ALLOC_MAGIC_C1 then
           (if ALLOC_C1 p h = ALLOC_MAGIC_F then Inl (ABORT ''Use after free.'') else Inl (ABORT ''Corrupted head alloc canary.''))
         else if ALLOC_C2 p h \<noteq> ALLOC_MAGIC_C2 then Inl (ABORT ''Corrupted tail alloc canary.'')
         else Inr ())"

definition ALLOC_CHECK_SIZE :: "u32 \<Rightarrow> err + unit" where
  "ALLOC_CHECK_SIZE s = (if s > MAX_ALLOC then Inl (ABORT (''Bad alloc request: '' @ dec (unat s) @ '' bytes'')) else Inr ())"

definition ALLOC_CHECK_RESULT :: "ptr \<Rightarrow> u32 \<Rightarrow> err + nat" where
  "ALLOC_CHECK_RESULT r s =
     (case r of None \<Rightarrow> Inl (ABORT (''Out of memory: can't allocate '' @ dec (unat s) @ '' bytes'')) | Some a \<Rightarrow> Inr a)"

text \<open>\<open>ALLOC_C1(ret) = ALLOC_MAGIC_C1; ALLOC_S(ret) = size; ALLOC_C2(ret) = ALLOC_MAGIC_C2\<close>\<close>

definition set_guards :: "nat \<Rightarrow> u32 \<Rightarrow> ck_heap \<Rightarrow> ck_heap" where
  "set_guards ret sz h =
     (let h = store32 (ret - 8) ALLOC_MAGIC_C1 h; h = store32 (ret - 4) sz h
      in write_bytes (ret + unat (ALLOC_S ret h)) [ALLOC_MAGIC_C2] h)"

section \<open>Operations\<close>

definition DFL_ck_alloc_nozero :: "u32 \<Rightarrow> ck_heap \<Rightarrow> err + ptr \<times> ck_heap" where
  "DFL_ck_alloc_nozero sz h =
     (if sz = 0 then Inr (None, h)
      else
        bindE (ALLOC_CHECK_SIZE sz) (\<lambda>_.
        let (r, h) = C_malloc (unat sz + ALLOC_OFF_TOTAL) h in
        bindE (ALLOC_CHECK_RESULT r sz) (\<lambda>a.
        let ret = a + ALLOC_OFF_HEAD in Inr (Some ret, set_guards ret sz h))))"

definition DFL_ck_alloc :: "u32 \<Rightarrow> ck_heap \<Rightarrow> err + ptr \<times> ck_heap" where
  "DFL_ck_alloc sz h =
     bindE (DFL_ck_alloc_nozero sz h) (\<lambda>(r, h). case r of
         None \<Rightarrow> Inr (None, h)
       | Some p \<Rightarrow> Inr (Some p, write_bytes p (replicate (unat sz) 0) h))"

definition DFL_ck_free :: "ptr \<Rightarrow> ck_heap \<Rightarrow> err + ck_heap" where
  "DFL_ck_free q h = (case q of
       None \<Rightarrow> Inr h
     | Some p \<Rightarrow> bindE (CHECK_PTR q h) (\<lambda>_. C_free (p - ALLOC_OFF_HEAD) (store32 (p - 8) ALLOC_MAGIC_F h)))"

definition DFL_ck_realloc :: "ptr \<Rightarrow> u32 \<Rightarrow> ck_heap \<Rightarrow> err + ptr \<times> ck_heap" where
  "DFL_ck_realloc orig sz h =
     (if sz = 0 then bindE (DFL_ck_free orig h) (\<lambda>h. Inr (None, h))
      else
        bindE (case orig of
                 None \<Rightarrow> Inr (None, 0, h)
               | Some p \<Rightarrow>
                   bindE (CHECK_PTR orig h) (\<lambda>_.
                   let h = store32 (p - 8) ALLOC_MAGIC_F h; old_size = ALLOC_S p h in
                   bindE (ALLOC_CHECK_SIZE old_size) (\<lambda>_. Inr (Some (p - ALLOC_OFF_HEAD), old_size, h)))) (\<lambda>(orig, old_size, h).
        bindE (ALLOC_CHECK_SIZE sz) (\<lambda>_.
        bindE (C_realloc orig (unat sz + ALLOC_OFF_TOTAL) h) (\<lambda>(r, h).
        bindE (ALLOC_CHECK_RESULT r sz) (\<lambda>a.
        let ret = a + ALLOC_OFF_HEAD; h = set_guards ret sz h in
        Inr (Some ret, if sz > old_size then write_bytes (ret + unat old_size) (replicate (unat (sz - old_size)) 0) h else h))))))"

definition DFL_ck_realloc_block :: "ptr \<Rightarrow> u32 \<Rightarrow> ck_heap \<Rightarrow> err + ptr \<times> ck_heap" where
  "DFL_ck_realloc_block orig sz h = (case orig of
       None \<Rightarrow> DFL_ck_realloc None sz h
     | Some p \<Rightarrow>
         bindE (CHECK_PTR orig h) (\<lambda>_.
           if ALLOC_S p h \<ge> sz then Inr (orig, h) else DFL_ck_realloc orig (sz + ALLOC_BLK_INC) h))"

text \<open>The copying functions; the source is given by its bytes, a string without its terminator.\<close>

definition copy_new :: "nat \<Rightarrow> u8 list \<Rightarrow> u32 \<Rightarrow> ck_heap \<Rightarrow> err + ptr \<times> ck_heap" where
  "copy_new slack src sz h =
     bindE (ALLOC_CHECK_SIZE sz) (\<lambda>_.
     let (r, h) = C_malloc (unat sz + ALLOC_OFF_TOTAL + slack) h in
     bindE (ALLOC_CHECK_RESULT r sz) (\<lambda>a.
     let ret = a + ALLOC_OFF_HEAD; h = set_guards ret sz h in
     if length src < unat sz then Inl OutOfBounds
     else Inr (Some ret, write_bytes ret (take (unat sz) src) h)))"

definition DFL_ck_strdup :: "u8 list option \<Rightarrow> ck_heap \<Rightarrow> err + ptr \<times> ck_heap" where
  "DFL_ck_strdup s h = (case s of None \<Rightarrow> Inr (None, h) | Some str \<Rightarrow> copy_new 0 (str @ [0]) (of_nat (length str + 1)) h)"

definition DFL_ck_memdup :: "u8 list option \<Rightarrow> u32 \<Rightarrow> ck_heap \<Rightarrow> err + ptr \<times> ck_heap" where
  "DFL_ck_memdup m sz h = (case m of None \<Rightarrow> Inr (None, h) | Some src \<Rightarrow> if sz = 0 then Inr (None, h) else copy_new 0 src sz h)"

definition DFL_ck_memdup_str :: "u8 list option \<Rightarrow> u32 \<Rightarrow> ck_heap \<Rightarrow> err + ptr \<times> ck_heap" where
  "DFL_ck_memdup_str m sz h = (case m of
       None \<Rightarrow> Inr (None, h)
     | Some src \<Rightarrow>
         if sz = 0 then Inr (None, h)
         else
           bindE (copy_new 1 src sz h) (\<lambda>(r, h). case r of
               None \<Rightarrow> Inr (None, h)
             | Some ret \<Rightarrow> Inr (Some ret, write_bytes (ret + unat sz) [0] h)))"

section \<open>Reading what was written\<close>

lemma write_bytes_mem: "heap_mem (write_bytes a bs h) x = (if a \<le> x \<and> x < a + length bs then bs ! (x - a) else heap_mem h x)"
  by (simp add: write_bytes_def)

lemma write_bytes_other [simp]:
  "heap_blocks (write_bytes a bs h) = heap_blocks h" "malloc_at (write_bytes a bs h) = malloc_at h" "free_fill (write_bytes a bs h) = free_fill h"
  by (simp_all add: write_bytes_def)

lemma store32_other [simp]:
  "heap_blocks (store32 a w h) = heap_blocks h" "malloc_at (store32 a w h) = malloc_at h" "free_fill (store32 a w h) = free_fill h"
  by (simp_all add: store32_def)

lemma length_read_bytes [simp]: "length (read_bytes a n h) = n"
  by (simp add: read_bytes_def)

lemma read_bytes_nth [simp]: "i < n \<Longrightarrow> read_bytes a n h ! i = heap_mem h (a + i)"
  by (simp add: read_bytes_def)

definition same :: "nat \<Rightarrow> nat \<Rightarrow> ck_heap \<Rightarrow> ck_heap \<Rightarrow> bool" where
  "same a n h h' \<longleftrightarrow> (\<forall>x. a \<le> x \<and> x < a + n \<longrightarrow> heap_mem h' x = heap_mem h x)"

lemma same_refl [simp]: "same a n h h"
  by (simp add: same_def)

lemma same_trans [trans]: "same a n h h' \<Longrightarrow> same a n h' h'' \<Longrightarrow> same a n h h''"
  by (simp add: same_def)

lemma same_sub: "same a n h h' \<Longrightarrow> a \<le> b \<Longrightarrow> b + k \<le> a + n \<Longrightarrow> same b k h h'"
  by (auto simp: same_def)

lemma same_write: "a + n \<le> b \<or> b + length bs \<le> a \<Longrightarrow> same a n h (write_bytes b bs h)"
  by (auto simp: same_def write_bytes_mem)

lemma same_store: "a + n \<le> b \<or> b + 4 \<le> a \<Longrightarrow> same a n h (store32 b w h)"
  unfolding store32_def by (rule same_write) simp

lemma read_bytes_same: "same a n h h' \<Longrightarrow> read_bytes a n h' = read_bytes a n h"
  by (simp add: same_def read_bytes_def)

lemma load32_same: "same a 4 h h' \<Longrightarrow> load32 a h' = load32 a h"
  by (simp add: load32_def read_bytes_same)

lemma read_write: "read_bytes a (length bs) (write_bytes a bs h) = bs"
  by (rule nth_equalityI) (simp_all add: write_bytes_mem)

lemma load_store: "load32 a (store32 a w h) = w"
  using read_write[of a "le_store 4 w" h] by (simp add: load32_def store32_def le_load_store)

section \<open>Well-formed heaps\<close>

text \<open>A block with its two canaries; all blocks have them, and no two of them overlap.\<close>

definition chunk_ok :: "nat \<Rightarrow> nat \<Rightarrow> ck_heap \<Rightarrow> bool" where
  "chunk_ok a n h \<longleftrightarrow> load32 a h = ALLOC_MAGIC_C1 \<and> load32 (a + 4) h \<le> MAX_ALLOC \<and> n = unat (load32 (a + 4) h) + 9 \<and>
     heap_mem h (a + 8 + unat (load32 (a + 4) h)) = ALLOC_MAGIC_C2"

definition apart :: "nat \<times> nat \<Rightarrow> nat \<times> nat \<Rightarrow> bool" where
  "apart = (\<lambda>(a, n) (b, k). a + n \<le> b \<or> b + k \<le> a)"

definition heap_ok :: "ck_heap \<Rightarrow> bool" where
  "heap_ok h \<longleftrightarrow> distinct (map fst (heap_blocks h)) \<and> (\<forall>(a, n)\<in>set (heap_blocks h). chunk_ok a n h) \<and>
     (\<forall>x\<in>set (heap_blocks h). \<forall>y\<in>set (heap_blocks h). x \<noteq> y \<longrightarrow> apart x y)"

text \<open>What is asked of the C library: new blocks do not overlap live ones.\<close>

definition malloc_fresh :: "ck_heap \<Rightarrow> bool" where
  "malloc_fresh h \<longleftrightarrow> (\<forall>bs n a. malloc_at h bs n = Some a \<longrightarrow> (\<forall>x\<in>set bs. apart (a, n) x))"

lemma apart_sym: "apart x y = apart y x"
  by (auto simp: apart_def split: prod.splits)

lemma chunk_ok_size: "chunk_ok a n h \<Longrightarrow> 9 \<le> n"
  by (simp add: chunk_ok_def)

lemma chunk_ok_cong:
  assumes "chunk_ok a n h" "same a 8 h h'" "heap_mem h' (a + n - 1) = heap_mem h (a + n - 1)"
  shows "chunk_ok a n h'"
proof -
  have "same a 4 h h'" "same (a + 4) 4 h h'" using assms(2) by (auto intro: same_sub)
  moreover have "a + n - 1 = a + 8 + unat (load32 (a + 4) h)" using assms(1) by (simp add: chunk_ok_def)
  ultimately show ?thesis using assms(1,3) by (simp only: chunk_ok_def load32_same)
qed

lemma chunk_ok_same: "chunk_ok a n h \<Longrightarrow> same a n h h' \<Longrightarrow> chunk_ok a n h'"
  using chunk_ok_size[of a n h] by (intro chunk_ok_cong[of a n h h']) (auto intro: same_sub simp: same_def)

lemma heap_ok_drop:
  assumes "heap_ok h" "heap_blocks h' = filter (\<lambda>b. fst b \<noteq> a) (heap_blocks h)"
    "\<And>b k. (b, k) \<in> set (heap_blocks h) \<Longrightarrow> b \<noteq> a \<Longrightarrow> same b k h h'"
  shows "heap_ok h'"
  using assms(1) chunk_ok_same[OF _ assms(3)] unfolding heap_ok_def assms(2) by (fastforce simp: distinct_map_filter)

lemma heap_ok_add:
  assumes "heap_ok h" "\<forall>x\<in>set (heap_blocks h). apart (b, m) x" "heap_blocks h' = (b, m) # heap_blocks h" "chunk_ok b m h'"
    "\<And>a n. (a, n) \<in> set (heap_blocks h) \<Longrightarrow> same a n h h'"
  shows "heap_ok h'"
proof -
  have m: "0 < m" using chunk_ok_size[OF assms(4)] by simp
  have ne: "a \<noteq> b" if x: "(a, n) \<in> set (heap_blocks h)" for a n
  proof -
    have "chunk_ok a n h" "apart (b, m) (a, n)" using assms(1,2) x by (auto simp: heap_ok_def)
    then show ?thesis using m chunk_ok_size[of a n h] by (auto simp: apart_def)
  qed
  have "b \<notin> fst ` set (heap_blocks h)" using ne by (auto dest: ne)
  then have "distinct (map fst (heap_blocks h'))" using assms(1) by (simp add: heap_ok_def assms(3))
  moreover have "\<forall>(a, n)\<in>set (heap_blocks h'). chunk_ok a n h'"
    using assms(1,4) chunk_ok_same[OF _ assms(5)] by (auto simp: heap_ok_def assms(3))
  moreover have "\<forall>x\<in>set (heap_blocks h'). \<forall>y\<in>set (heap_blocks h'). x \<noteq> y \<longrightarrow> apart x y"
    using assms(1,2) apart_sym unfolding heap_ok_def assms(3) list.set by blast
  ultimately show ?thesis by (simp add: heap_ok_def)
qed

lemma set_guards_eq:
  "set_guards (a + 8) s h = write_bytes (a + 8 + unat s) [ALLOC_MAGIC_C2] (store32 (a + 4) s (store32 a ALLOC_MAGIC_C1 h))"
proof -
  have e: "a + 8 - 8 = a" "a + 8 - 4 = a + 4" by simp_all
  show ?thesis unfolding set_guards_def Let_def ALLOC_S_def e load_store by simp
qed

lemma set_guards_mem:
  "a + 8 + unat s \<noteq> x \<Longrightarrow> \<not> (a \<le> x \<and> x < a + 8) \<Longrightarrow> heap_mem (set_guards (a + 8) s h) x = heap_mem h x"
  by (auto simp: set_guards_eq store32_def write_bytes_mem)

lemma set_guards_chunk:
  assumes "s \<le> MAX_ALLOC"
  shows "chunk_ok a (unat s + 9) (set_guards (a + 8) s h)"
proof -
  define h1 where "h1 = store32 a ALLOC_MAGIC_C1 h"
  define h2 where "h2 = store32 (a + 4) s h1"
  define h3 where "h3 = write_bytes (a + 8 + unat s) [ALLOC_MAGIC_C2] h2"
  have g: "set_guards (a + 8) s h = h3" by (simp add: set_guards_eq h3_def h2_def h1_def)
  have "same a 4 h1 h3" unfolding h3_def h2_def by (rule same_trans[OF same_store same_write]) auto
  then have c: "load32 a h3 = ALLOC_MAGIC_C1" using load32_same[of a h1 h3] by (simp add: h1_def load_store)
  have "same (a + 4) 4 h2 h3" unfolding h3_def by (rule same_write) auto
  then have s: "load32 (a + 4) h3 = s" using load32_same[of "a + 4" h2 h3] by (simp add: h2_def load_store)
  show ?thesis using assms by (simp add: g chunk_ok_def c s) (simp add: h3_def write_bytes_mem)
qed

lemma set_guards_other [simp]:
  "heap_blocks (set_guards p s h) = heap_blocks h" "malloc_at (set_guards p s h) = malloc_at h" "free_fill (set_guards p s h) = free_fill h"
  by (simp_all add: set_guards_def Let_def)

lemma same_set_guards: "apart (a, unat s + 9) (b, k) \<Longrightarrow> same b k h (set_guards (a + 8) s h)"
  by (auto simp: same_def apart_def intro!: set_guards_mem)

section \<open>Buffers\<close>

definition live_ptr :: "nat \<Rightarrow> ck_heap \<Rightarrow> bool" where
  "live_ptr p h \<longleftrightarrow> 8 \<le> p \<and> p - 8 \<in> fst ` set (heap_blocks h)"

definition contents :: "nat \<Rightarrow> ck_heap \<Rightarrow> u8 list" where
  "contents p h = read_bytes p (unat (ALLOC_S p h)) h"

text \<open>Every buffer but \<open>q\<close> is still there with its bytes.\<close>

definition others_kept :: "ptr \<Rightarrow> ck_heap \<Rightarrow> ck_heap \<Rightarrow> bool" where
  "others_kept q h h' \<longleftrightarrow> (\<forall>r. live_ptr r h \<longrightarrow> Some r \<noteq> q \<longrightarrow> live_ptr r h' \<and> contents r h' = contents r h)"

text \<open>The heap after an operation, and the buffer it returns.\<close>

definition gives :: "ptr \<Rightarrow> (u8 list \<Rightarrow> bool) \<Rightarrow> ck_heap \<Rightarrow> ptr \<times> ck_heap \<Rightarrow> bool" where
  "gives q P h = (\<lambda>(r, h'). heap_ok h' \<and> malloc_fresh h' \<and> others_kept q h h' \<and>
     (\<exists>p. r = Some p \<and> live_ptr p h' \<and> (\<forall>r. live_ptr r h \<longrightarrow> Some r \<noteq> q \<longrightarrow> r \<noteq> p) \<and> P (contents p h')))"

lemma live_ptrE:
  assumes "heap_ok h" "live_ptr p h"
  obtains a n where "p = a + 8" "(a, n) \<in> set (heap_blocks h)" "chunk_ok a n h" "map_of (heap_blocks h) a = Some n" "n = unat (ALLOC_S p h) + 9"
proof -
  obtain a n where a: "p = a + 8" "(a, n) \<in> set (heap_blocks h)" using assms(2) by (auto simp: live_ptr_def) (metis le_add_diff_inverse2)
  moreover have c: "chunk_ok a n h" using assms(1) a(2) by (auto simp: heap_ok_def)
  moreover have "map_of (heap_blocks h) a = Some n" using assms(1) a(2) by (simp add: heap_ok_def)
  moreover have "n = unat (ALLOC_S p h) + 9" using c by (simp add: a(1) ALLOC_S_def chunk_ok_def add.commute)
  ultimately show ?thesis by (rule that)
qed

lemma live_ptrI: "(a, n) \<in> set (heap_blocks h) \<Longrightarrow> live_ptr (a + 8) h"
  by (force simp: live_ptr_def)

lemma ALLOC_S_chunk: "chunk_ok a n h \<Longrightarrow> unat (ALLOC_S (a + 8) h) = n - 9"
  by (simp add: ALLOC_S_def chunk_ok_def add.commute)

lemma contents_same:
  assumes "chunk_ok a n h" "same a n h h'"
  shows "contents (a + 8) h' = contents (a + 8) h"
proof -
  have "unat (ALLOC_S (a + 8) h) = n - 9" "unat (ALLOC_S (a + 8) h') = n - 9" using ALLOC_S_chunk assms chunk_ok_same by auto
  moreover have "same (a + 8) (n - 9) h h'" by (rule same_sub[OF assms(2)]) (use chunk_ok_size[OF assms(1)] in auto)
  ultimately show ?thesis by (simp add: contents_def read_bytes_same)
qed

lemma others_keptI:
  assumes "heap_ok h" "\<And>a n. (a, n) \<in> set (heap_blocks h) \<Longrightarrow> Some (a + 8) \<noteq> q \<Longrightarrow> (a, n) \<in> set (heap_blocks h') \<and> same a n h h'"
  shows "others_kept q h h'"
  unfolding others_kept_def
proof (intro allI impI)
  fix r assume r: "live_ptr r h" "Some r \<noteq> q"
  obtain a n where a: "r = a + 8" "(a, n) \<in> set (heap_blocks h)" "chunk_ok a n h" by (rule live_ptrE[OF assms(1) r(1)])
  have b: "(a, n) \<in> set (heap_blocks h')" "same a n h h'" using assms(2)[OF a(2)] r(2) a(1) by auto
  show "live_ptr r h' \<and> contents r h' = contents r h" unfolding a(1) using live_ptrI[OF b(1)] contents_same[OF a(3) b(2)] by blast
qed

lemma others_kept_trans: "others_kept q h h1 \<Longrightarrow> (\<forall>r. live_ptr r h \<longrightarrow> Some r \<noteq> q \<longrightarrow> Some r \<noteq> q') \<Longrightarrow> others_kept q' h1 h' \<Longrightarrow> others_kept q h h'"
  by (simp add: others_kept_def)

lemma CHECK_PTR_live: "heap_ok h \<Longrightarrow> live_ptr p h \<Longrightarrow> CHECK_PTR (Some p) h = Inr ()"
  by (erule live_ptrE, assumption) (simp add: CHECK_PTR_def ALLOC_C1_def ALLOC_C2_def ALLOC_S_def chunk_ok_def add.commute)

text \<open>Writing inside a buffer: the canaries and the other buffers stay.\<close>

lemma body_write:
  assumes h: "heap_ok h" and p: "live_ptr p h" and b: "i + length bs \<le> unat (ALLOC_S p h)"
  defines "h' \<equiv> write_bytes (p + i) bs h"
  shows "heap_ok h'" "others_kept (Some p) h h'" "live_ptr p h'" "ALLOC_S p h' = ALLOC_S p h"
    "contents p h' = take i (contents p h) @ bs @ drop (i + length bs) (contents p h)"
proof -
  obtain a n where a: "p = a + 8" "(a, n) \<in> set (heap_blocks h)" "chunk_ok a n h" "n = unat (ALLOC_S p h) + 9" by (rule live_ptrE[OF h p])
  have blk: "heap_blocks h' = heap_blocks h" by (simp add: h'_def)
  have s8: "same a 8 h h'" unfolding h'_def a(1) by (rule same_write) simp
  have c: "chunk_ok a n h'" by (rule chunk_ok_cong[OF a(3) s8]) (use b a(1,4) in \<open>simp add: h'_def write_bytes_mem\<close>)
  have oth: "same x k h h'" if "(x, k) \<in> set (heap_blocks h)" "x \<noteq> a" for x k
  proof -
    have "apart (a, n) (x, k)" using h a(2) that by (auto simp: heap_ok_def)
    then show ?thesis unfolding h'_def using b a by (intro same_write) (auto simp: apart_def)
  qed
  have all: "chunk_ok x k h'" if "(x, k) \<in> set (heap_blocks h)" for x k
  proof (cases "x = a")
    case True
    then have "k = n" using eq_key_imp_eq_value[of "heap_blocks h" a k n] h a(2) that by (simp add: heap_ok_def)
    then show ?thesis using c True by simp
  next
    case False
    then show ?thesis using oth[OF that] h that by (auto simp: heap_ok_def intro: chunk_ok_same)
  qed
  show "heap_ok h'" using h all by (auto simp: heap_ok_def blk)
  show "others_kept (Some p) h h'" by (rule others_keptI[OF h]) (use oth a(1) blk in auto)
  show "live_ptr p h'" using live_ptrI[of a n h'] a(1,2) blk by simp
  show S: "ALLOC_S p h' = ALLOC_S p h" using ALLOC_S_chunk[OF a(3)] ALLOC_S_chunk[OF c] by (simp add: a(1) word_unat_eq_iff)
  show "contents p h' = take i (contents p h) @ bs @ drop (i + length bs) (contents p h)"
    unfolding contents_def S by (rule nth_equalityI) (use b in \<open>auto simp: h'_def write_bytes_mem nth_append add.commute\<close>)
qed

text \<open>A new block with its canaries.\<close>

lemma new_chunk:
  assumes h: "heap_ok h" and f: "malloc_fresh h" and s: "s \<le> MAX_ALLOC" and m: "C_malloc (unat s + 9) h = (Some a, h1)"
  defines "h' \<equiv> set_guards (a + 8) s h1"
  shows "heap_ok h'" "malloc_fresh h'" "others_kept None h h'" "live_ptr (a + 8) h'" "ALLOC_S (a + 8) h' = s" "\<not> live_ptr (a + 8) h"
proof -
  have at: "malloc_at h (heap_blocks h) (unat s + 9) = Some a" and h1: "h1 = h\<lparr>heap_blocks := (a, unat s + 9) # heap_blocks h\<rparr>"
    using m by (auto simp: C_malloc_def split: option.splits)
  have fr: "\<forall>x\<in>set (heap_blocks h). apart (a, unat s + 9) x" using f at by (simp add: malloc_fresh_def)
  have blk: "heap_blocks h' = (a, unat s + 9) # heap_blocks h" by (simp add: h'_def h1)
  have c: "chunk_ok a (unat s + 9) h'" unfolding h'_def by (rule set_guards_chunk[OF s])
  have sm: "same b k h h'" if "(b, k) \<in> set (heap_blocks h)" for b k
    using same_set_guards[of a s b k h1] fr that by (auto simp: h'_def same_def h1)
  show ok: "heap_ok h'" by (rule heap_ok_add[OF h fr blk c sm])
  show "malloc_fresh h'" using f by (simp add: malloc_fresh_def h'_def h1)
  show "others_kept None h h'" by (rule others_keptI[OF h]) (use sm blk in auto)
  show "live_ptr (a + 8) h'" using live_ptrI[of a "unat s + 9" h'] blk by simp
  show "ALLOC_S (a + 8) h' = s" using ALLOC_S_chunk[OF c] by (simp add: word_unat_eq_iff)
  show "\<not> live_ptr (a + 8) h" using ok by (auto simp: live_ptr_def heap_ok_def blk)
qed

section \<open>What the operations do\<close>

lemma ALLOC_CHECK_SIZE_ok: "okE (\<lambda>_. s \<le> MAX_ALLOC) (ALLOC_CHECK_SIZE s)"
  by (simp add: ALLOC_CHECK_SIZE_def not_less)

lemma ALLOC_CHECK_RESULT_ok: "okE (\<lambda>a. r = Some a) (ALLOC_CHECK_RESULT r s)"
  by (simp add: ALLOC_CHECK_RESULT_def split: option.split)

lemma ALLOC_OFFS [simp]: "ALLOC_OFF_HEAD = 8" "ALLOC_OFF_TOTAL = 9"
  by (simp_all add: ALLOC_OFF_HEAD_def ALLOC_OFF_TOTAL_def)

lemma gives_mono: "gives q P h x \<Longrightarrow> (\<And>c. P c \<Longrightarrow> Q c) \<Longrightarrow> gives q Q h x"
  by (auto simp: gives_def split: prod.splits)

text \<open>The common beginning of all functions that make a buffer.\<close>

lemma malloc_ok:
  assumes h: "heap_ok h" "malloc_fresh h" and s: "sz \<le> MAX_ALLOC" and k: "\<And>a h1. C_malloc (unat sz + 9) h = (Some a, h1) \<Longrightarrow>
      gives None (\<lambda>c. length c = unat sz) h (Some (a + 8), set_guards (a + 8) sz h1) \<Longrightarrow> okE P (f a h1)"
  shows "okE P (case C_malloc (unat sz + 9) h of (r, h) \<Rightarrow> bindE (ALLOC_CHECK_RESULT r sz) (\<lambda>a. f a h))"
proof -
  obtain r h1 where m: "C_malloc (unat sz + 9) h = (r, h1)" by force
  have "okE P (bindE (ALLOC_CHECK_RESULT r sz) (\<lambda>a. f a h1))"
  proof (rule okE_bind[OF ALLOC_CHECK_RESULT_ok])
    fix a assume r: "r = Some a"
    show "okE P (f a h1)"
      by (rule k) (use m r new_chunk[OF h s, of a h1] in \<open>auto simp: gives_def contents_def\<close>)
  qed
  then show ?thesis by (simp add: m)
qed

lemma alloc_nozero_ok:
  assumes h: "heap_ok h" "malloc_fresh h" and s: "sz \<noteq> 0"
  shows "okE (gives None (\<lambda>c. length c = unat sz) h) (DFL_ck_alloc_nozero sz h)"
  unfolding DFL_ck_alloc_nozero_def ALLOC_OFFS Let_def using s
  by (auto intro!: okE_bind[OF ALLOC_CHECK_SIZE_ok] malloc_ok[OF h])

lemma gives_write:
  assumes "gives q (\<lambda>c. length c = n) h (Some p, h1)" "length bs = n"
  shows "gives q (\<lambda>c. c = bs) h (Some p, write_bytes p bs h1)"
proof -
  have g: "heap_ok h1" "malloc_fresh h1" "others_kept q h h1" "live_ptr p h1" "unat (ALLOC_S p h1) = n" "length (contents p h1) = n"
    "\<forall>r. live_ptr r h \<longrightarrow> Some r \<noteq> q \<longrightarrow> r \<noteq> p"
    using assms(1) by (auto simp: gives_def contents_def)
  have b: "0 + length bs \<le> unat (ALLOC_S p h1)" using g(5) assms(2) by simp
  note w = body_write[OF g(1,4) b, simplified]
  have "others_kept q h (write_bytes p bs h1)" by (rule others_kept_trans[OF g(3) _ w(2)]) (use g(7) in auto)
  then show ?thesis using w g assms(2) by (simp add: gives_def malloc_fresh_def)
qed

lemma alloc_ok:
  assumes "heap_ok h" "malloc_fresh h" "sz \<noteq> 0"
  shows "okE (gives None (\<lambda>c. c = replicate (unat sz) 0) h) (DFL_ck_alloc sz h)"
  unfolding DFL_ck_alloc_def
  by (rule okE_bind[OF alloc_nozero_ok[OF assms]]) (auto simp: gives_def[of _ "\<lambda>c. length c = _"] intro!: gives_write simp flip: gives_def)

lemma copy_new_ok:
  assumes h: "heap_ok h" "malloc_fresh h" and s: "unat sz \<le> length src"
  shows "okE (gives None (\<lambda>c. c = take (unat sz) src) h) (copy_new 0 src sz h)"
  unfolding copy_new_def ALLOC_OFFS Let_def add_0_right
  by (auto intro!: okE_bind[OF ALLOC_CHECK_SIZE_ok] malloc_ok[OF h] gives_write simp: s not_less)

lemma memdup_ok:
  assumes "heap_ok h" "malloc_fresh h" "sz \<noteq> 0" "unat sz \<le> length src"
  shows "okE (gives None (\<lambda>c. c = take (unat sz) src) h) (DFL_ck_memdup (Some src) sz h)"
  using copy_new_ok[OF assms(1,2,4)] assms(3) by (simp add: DFL_ck_memdup_def)

lemma strdup_ok:
  assumes "heap_ok h" "malloc_fresh h" "length str + 1 < 2 ^ 32"
  shows "okE (gives None (\<lambda>c. c = str @ [0]) h) (DFL_ck_strdup (Some str) h)"
proof -
  have u: "unat (of_nat (length str + 1) :: u32) = length str + 1" using assms(3) by (simp add: unsigned_of_nat take_bit_nat_eq_self del: of_nat_add of_nat_Suc)
  have "unat (of_nat (length str + 1) :: u32) \<le> length (str @ [0])" unfolding u by simp
  from copy_new_ok[OF assms(1,2) this, unfolded u] show ?thesis by (simp add: DFL_ck_strdup_def)
qed

text \<open>Releasing a block: the marks on it, and whatever \<open>free\<close> leaves in it, do not touch the others.\<close>

lemma block_apart:
  assumes "heap_ok h" "(a, n) \<in> set (heap_blocks h)" "(b, k) \<in> set (heap_blocks h)" "b \<noteq> a"
  shows "apart (a, n) (b, k)"
  using assms by (fastforce simp: heap_ok_def)

lemma free_ok:
  assumes h: "heap_ok h" "malloc_fresh h" and p: "live_ptr p h"
  shows "\<exists>h'. DFL_ck_free (Some p) h = Inr h' \<and> heap_ok h' \<and> malloc_fresh h' \<and> others_kept (Some p) h h' \<and> \<not> live_ptr p h'"
proof -
  obtain a n where a: "p = a + 8" "(a, n) \<in> set (heap_blocks h)" "chunk_ok a n h" "map_of (heap_blocks h) a = Some n" by (rule live_ptrE[OF h(1) p])
  define h' where "h' = write_bytes a (map (free_fill h a) [0..<n]) ((store32 a ALLOC_MAGIC_F h)\<lparr>heap_blocks := filter (\<lambda>b. fst b \<noteq> a) (heap_blocks h)\<rparr>)"
  have e: "DFL_ck_free (Some p) h = Inr h'"
    using CHECK_PTR_live[OF h(1) p] a(1,4) by (simp add: DFL_ck_free_def C_free_def h'_def)
  have blk: "heap_blocks h' = filter (\<lambda>b. fst b \<noteq> a) (heap_blocks h)" by (simp add: h'_def)
  have sm: "same b k h h'" if "(b, k) \<in> set (heap_blocks h)" "b \<noteq> a" for b k
    using block_apart[OF h(1) a(2) that] chunk_ok_size[OF a(3)] by (auto simp: same_def apart_def h'_def write_bytes_mem store32_def)
  have "heap_ok h'" by (rule heap_ok_drop[OF h(1) blk sm])
  moreover have "malloc_fresh h'" using h(2) by (simp add: malloc_fresh_def h'_def)
  moreover have "others_kept (Some p) h h'" by (rule others_keptI[OF h(1)]) (use sm a(1) blk in auto)
  moreover have "\<not> live_ptr p h'" by (auto simp: live_ptr_def blk a(1))
  ultimately show ?thesis using e by blast
qed

text \<open>\<open>realloc\<close> of a live buffer: the block it moves to, and what of the contents goes along.\<close>

lemma realloc_chunk:
  assumes h: "heap_ok h" "malloc_fresh h" and p: "live_ptr p h" and s: "sz \<le> MAX_ALLOC"
    and r: "C_realloc (Some (p - 8)) (unat sz + 9) (store32 (p - 8) ALLOC_MAGIC_F h) = Inr (Some b, h2)"
  defines "old \<equiv> unat (ALLOC_S p h)"
  shows "gives (Some p) (\<lambda>c. length c = unat sz \<and> take (min old (unat sz)) c = take (min old (unat sz)) (contents p h)) h (Some (b + 8), set_guards (b + 8) sz h2)"
proof -
  obtain a n where a: "p = a + 8" "(a, n) \<in> set (heap_blocks h)" "chunk_ok a n h" "map_of (heap_blocks h) a = Some n" "n = old + 9"
    unfolding old_def by (rule live_ptrE[OF h(1) p])
  define m where "m = unat sz + 9"
  define others where "others = filter (\<lambda>x. fst x \<noteq> a) (heap_blocks h)"
  define h1 where "h1 = store32 a ALLOC_MAGIC_F h"
  have at: "malloc_at h others m = Some b"
    and h2: "h2 = write_bytes b (read_bytes a (min n m) h1) (write_bytes a (map (free_fill h a) [0..<n]) (h1\<lparr>heap_blocks := (b, m) # others\<rparr>))"
    using r a(1,4) by (auto simp: C_realloc_def Let_def h1_def others_def m_def split: option.splits)
  define hd where "hd = h\<lparr>heap_blocks := others\<rparr>"
  define h' where "h' = set_guards (b + 8) sz h2"
  have okd: "heap_ok hd" by (rule heap_ok_drop[OF h(1)]) (auto simp: hd_def others_def same_def)
  have fr: "\<forall>x\<in>set (heap_blocks hd). apart (b, m) x" using h(2) at by (simp add: malloc_fresh_def hd_def)
  have blk: "heap_blocks h' = (b, m) # heap_blocks hd" by (simp add: h'_def h2 hd_def)
  have c: "chunk_ok b m h'" unfolding h'_def m_def by (rule set_guards_chunk[OF s])
  have sm: "same x k h h'" if x: "(x, k) \<in> set others" for x k
  proof -
    have xa: "apart (a, n) (x, k)" "apart (b, m) (x, k)" using block_apart[OF h(1) a(2), of x k] x fr by (auto simp: others_def hd_def)
    then have "same x k h h2" using chunk_ok_size[OF a(3)] by (auto simp: same_def apart_def h2 h1_def write_bytes_mem store32_def)
    then show ?thesis unfolding h'_def by (rule same_trans[OF _ same_set_guards]) (use xa(2) in \<open>simp add: m_def\<close>)
  qed
  have ok: "heap_ok h'" by (rule heap_ok_add[OF okd fr blk c]) (use sm in \<open>auto simp: hd_def same_def\<close>)
  have kept: "others_kept (Some p) h h'" by (rule others_keptI[OF h(1)]) (use sm a(1) blk in \<open>auto simp: others_def hd_def\<close>)
  have nb: "b \<notin> fst ` set others" using ok by (simp add: heap_ok_def blk hd_def)
  have fresh: "\<forall>r. live_ptr r h \<longrightarrow> Some r \<noteq> Some p \<longrightarrow> r \<noteq> b + 8"
    using nb a(1) by (force simp: live_ptr_def others_def)
  have S: "ALLOC_S (b + 8) h' = sz" using ALLOC_S_chunk[OF c] by (simp add: word_unat_eq_iff m_def)
  have by_: "heap_mem h' (b + 8 + i) = heap_mem h (p + i)" if i: "i < min old (unat sz)" for i
  proof -
    have "heap_mem h' (b + 8 + i) = heap_mem h2 (b + 8 + i)" unfolding h'_def by (rule set_guards_mem) (use i in auto)
    also have "\<dots> = heap_mem h1 (a + (8 + i))" using i a(5) by (simp add: h2 write_bytes_mem m_def)
    also have "\<dots> = heap_mem h (p + i)" by (simp add: h1_def store32_def write_bytes_mem a(1) add.assoc)
    finally show ?thesis .
  qed
  have "take (min old (unat sz)) (contents (b + 8) h') = take (min old (unat sz)) (contents p h)"
    by (rule nth_equalityI) (use by_ in \<open>auto simp: contents_def S old_def\<close>)
  then show ?thesis using ok kept fresh h(2) live_ptrI[of b m h'] blk S
    unfolding h'_def[symmetric] by (simp add: gives_def malloc_fresh_def h'_def h2 h1_def contents_def)
qed

text \<open>Resizing, seen on the bytes of the buffer: cut off or filled up with zeros.\<close>

definition ck_realloc :: "u8 list \<Rightarrow> nat \<Rightarrow> u8 list" where
  "ck_realloc b n = take n b @ replicate (n - length b) 0"

lemma ck_realloc_length [simp]: "length (ck_realloc b n) = n"
  by (simp add: ck_realloc_def)

lemma zero_tail:
  assumes g: "gives q (\<lambda>c. length c = unat sz \<and> take (min (length c0) (unat sz)) c = take (min (length c0) (unat sz)) c0) h (Some ret, h1)"
    and o: "unat old = length c0"
  shows "gives q (\<lambda>c. c = ck_realloc c0 (unat sz)) h (Some ret, if sz > old then write_bytes (ret + unat old) (replicate (unat (sz - old)) 0) h1 else h1)"
proof (cases "sz > old")
  case True
  have d: "unat (sz - old) = unat sz - unat old" using True by (simp add: unat_sub word_less_nat_alt word_le_nat_alt)
  have lt: "length c0 < unat sz" using True o by (simp add: word_less_nat_alt)
  define bs where "bs = replicate (unat (sz - old)) (0 :: u8)"
  have p: "heap_ok h1" "malloc_fresh h1" "others_kept q h h1" "live_ptr ret h1" "unat (ALLOC_S ret h1) = unat sz" "\<forall>r. live_ptr r h \<longrightarrow> Some r \<noteq> q \<longrightarrow> r \<noteq> ret"
    and c: "take (length c0) (contents ret h1) = c0"
    using g lt by (auto simp: gives_def contents_def)
  have b: "unat old + length bs \<le> unat (ALLOC_S ret h1)" using lt o by (simp add: bs_def d p(5))
  note w = body_write[OF p(1,4) b]
  have k: "others_kept q h (write_bytes (ret + unat old) bs h1)" by (rule others_kept_trans[OF p(3) _ w(2)]) (use p(6) in auto)
  have "length (contents ret h1) = unat sz" using p(5) by (simp add: contents_def)
  then have "contents ret (write_bytes (ret + unat old) bs h1) = ck_realloc c0 (unat sz)"
    using w(5) c lt o by (simp add: bs_def d ck_realloc_def)
  then show ?thesis using True w(1,3) k p(2,6) by (simp add: gives_def malloc_fresh_def bs_def)
next
  case False
  then have "unat sz \<le> length c0" using o by (simp add: word_less_nat_alt not_less)
  then show ?thesis using False g by (auto simp: gives_def ck_realloc_def min_def)
qed

definition old_contents :: "ptr \<Rightarrow> ck_heap \<Rightarrow> u8 list" where
  "old_contents q h = (case q of None \<Rightarrow> [] | Some p \<Rightarrow> contents p h)"

definition valid_ptr :: "ptr \<Rightarrow> ck_heap \<Rightarrow> bool" where
  "valid_ptr q h \<longleftrightarrow> (case q of None \<Rightarrow> True | Some p \<Rightarrow> live_ptr p h)"

lemma bindE_assoc: "bindE (bindE m f) g = bindE m (\<lambda>x. bindE (f x) g)"
  by (cases m) simp_all

lemma realloc_ok:
  assumes h: "heap_ok h" "malloc_fresh h" and q: "valid_ptr q h" and s: "sz \<noteq> 0"
  shows "okE (gives q (\<lambda>c. c = ck_realloc (old_contents q h) (unat sz)) h) (DFL_ck_realloc q sz h)"
proof (cases q)
  case None
  have "okE (gives None (\<lambda>c. c = ck_realloc [] (unat sz)) h) (bindE (ALLOC_CHECK_SIZE sz) (\<lambda>_. case C_malloc (unat sz + 9) h of (r, h) \<Rightarrow> bindE (ALLOC_CHECK_RESULT r sz) (\<lambda>a.
        Inr (Some (a + 8), if sz > 0 then write_bytes (a + 8 + unat (0 :: u32)) (replicate (unat (sz - 0)) 0) (set_guards (a + 8) sz h) else set_guards (a + 8) sz h))))"
    by (rule okE_bind[OF ALLOC_CHECK_SIZE_ok], rule malloc_ok[OF h], assumption, simp only: okE_simps, rule zero_tail)
      (auto simp: gives_def)
  then show ?thesis using s unfolding None by (simp add: DFL_ck_realloc_def C_realloc_def Let_def old_contents_def split: prod.splits)
next
  case (Some p)
  have p: "live_ptr p h" using q by (simp add: Some valid_ptr_def)
  define h1 where "h1 = store32 (p - 8) ALLOC_MAGIC_F h"
  have S: "ALLOC_S p h1 = ALLOC_S p h" using load32_same[OF same_store[of "p - 4" 4 "p - 8" h ALLOC_MAGIC_F]] p
    by (simp add: ALLOC_S_def h1_def live_ptr_def)
  have o: "unat (ALLOC_S p h) = length (contents p h)" by (simp add: contents_def)
  obtain a n where a: "p = a + 8" "map_of (heap_blocks h) a = Some n" by (rule live_ptrE[OF h(1) p])
  define R where "R = C_realloc (Some (p - 8)) (unat sz + 9) h1"
  have step: "okE (\<lambda>(r, h2). \<forall>b. r = Some b \<longrightarrow> R = Inr (Some b, h2)) R" using a
    by (cases R) (auto simp: R_def C_realloc_def h1_def Let_def split: option.splits)
  have "okE (gives (Some p) (\<lambda>c. c = ck_realloc (contents p h) (unat sz)) h) (bindE (ALLOC_CHECK_SIZE (ALLOC_S p h)) (\<lambda>_.
     bindE (ALLOC_CHECK_SIZE sz) (\<lambda>_. bindE R (\<lambda>(r, h3). bindE (ALLOC_CHECK_RESULT r sz) (\<lambda>a.
        Inr (Some (a + 8), if sz > ALLOC_S p h then write_bytes (a + 8 + unat (ALLOC_S p h)) (replicate (unat (sz - ALLOC_S p h)) 0) (set_guards (a + 8) sz h3)
           else set_guards (a + 8) sz h3))))))"
  proof (rule okE_bind[OF ALLOC_CHECK_SIZE_ok], rule okE_bind[OF ALLOC_CHECK_SIZE_ok], rule okE_bind[OF step])
    fix x assume sz: "sz \<le> MAX_ALLOC" and x: "case x of (r, h2) \<Rightarrow> \<forall>b. r = Some b \<longrightarrow> R = Inr (Some b, h2)"
    obtain r h2 where xs: "x = (r, h2)" by (cases x)
    show "okE (gives (Some p) (\<lambda>c. c = ck_realloc (contents p h) (unat sz)) h) (case x of (r, h3) \<Rightarrow> bindE (ALLOC_CHECK_RESULT r sz) (\<lambda>a.
        Inr (Some (a + 8), if sz > ALLOC_S p h then write_bytes (a + 8 + unat (ALLOC_S p h)) (replicate (unat (sz - ALLOC_S p h)) 0) (set_guards (a + 8) sz h3)
           else set_guards (a + 8) sz h3)))" unfolding xs prod.case
    proof (rule okE_bind[OF ALLOC_CHECK_RESULT_ok])
      fix b assume "r = Some b"
      then have "C_realloc (Some (p - 8)) (unat sz + 9) (store32 (p - 8) ALLOC_MAGIC_F h) = Inr (Some b, h2)" using x by (simp add: xs R_def h1_def)
      from zero_tail[OF realloc_chunk[OF h p sz this, unfolded o] o]
      show "okE (gives (Some p) (\<lambda>c. c = ck_realloc (contents p h) (unat sz)) h)
        (Inr (Some (b + 8), if sz > ALLOC_S p h then write_bytes (b + 8 + unat (ALLOC_S p h)) (replicate (unat (sz - ALLOC_S p h)) 0) (set_guards (b + 8) sz h2)
           else set_guards (b + 8) sz h2))" by simp
    qed
  qed
  then show ?thesis using s CHECK_PTR_live[OF h(1) p] S unfolding Some
    by (simp add: DFL_ck_realloc_def Let_def old_contents_def h1_def[symmetric] R_def bindE_assoc)
qed

lemma realloc_block_ok:
  assumes h: "heap_ok h" "malloc_fresh h" and q: "valid_ptr q h" and s: "sz \<noteq> 0" "sz \<le> MAX_ALLOC"
  shows "okE (gives q (\<lambda>c. unat sz \<le> length c \<and> take (length (old_contents q h)) c = old_contents q h) h) (DFL_ck_realloc_block q sz h)"
proof (cases q)
  case None
  then show ?thesis using realloc_ok[OF h q s(1)] by (auto simp: DFL_ck_realloc_block_def old_contents_def elim!: okE_mono gives_mono)
next
  case (Some p)
  have p: "live_ptr p h" using q by (simp add: Some valid_ptr_def)
  have m: "unat sz \<le> 2 ^ 30" using s(2) by (simp add: MAX_ALLOC_def word_le_nat_alt)
  then have u: "unat (sz + 256) = unat sz + 256" by (simp add: unat_word_ariths)
  then have n: "sz + 256 \<noteq> 0" by (metis add_is_0 unat_0 zero_neq_numeral)
  show ?thesis
  proof (cases "ALLOC_S p h \<ge> sz")
    case True
    then have "unat sz \<le> length (contents p h)" by (simp add: contents_def word_le_nat_alt)
    then show ?thesis using True CHECK_PTR_live[OF h(1) p] h p by (auto simp: Some DFL_ck_realloc_block_def gives_def others_kept_def old_contents_def)
  next
    case False
    then have "length (contents p h) < unat sz" by (simp add: contents_def word_le_nat_alt not_le)
    then show ?thesis using realloc_ok[OF h q n] False CHECK_PTR_live[OF h(1) p] u
      by (auto simp: Some DFL_ck_realloc_block_def ALLOC_BLK_INC_def old_contents_def ck_realloc_def elim!: okE_mono gives_mono)
  qed
qed

section \<open>Sequences of operations\<close>

text \<open>
  A program that uses the allocator: it allocates, resizes, duplicates and frees buffers, and writes
  inside the buffers it holds. \<open>ck_memdup_str\<close> is not among the steps, see below.
\<close>

inductive ck_step :: "ck_heap \<Rightarrow> ck_heap \<Rightarrow> bool" where
  step_nozero: "DFL_ck_alloc_nozero sz h = Inr (r, h') \<Longrightarrow> ck_step h h'"
| step_alloc: "DFL_ck_alloc sz h = Inr (r, h') \<Longrightarrow> ck_step h h'"
| step_free: "valid_ptr q h \<Longrightarrow> DFL_ck_free q h = Inr h' \<Longrightarrow> ck_step h h'"
| step_realloc: "valid_ptr q h \<Longrightarrow> DFL_ck_realloc q sz h = Inr (r, h') \<Longrightarrow> ck_step h h'"
| step_realloc_block: "valid_ptr q h \<Longrightarrow> DFL_ck_realloc_block q sz h = Inr (r, h') \<Longrightarrow> ck_step h h'"
| step_strdup: "length str + 1 < 2 ^ 32 \<Longrightarrow> DFL_ck_strdup (Some str) h = Inr (r, h') \<Longrightarrow> ck_step h h'"
| step_memdup: "DFL_ck_memdup m sz h = Inr (r, h') \<Longrightarrow> ck_step h h'"
| step_write: "live_ptr p h \<Longrightarrow> i + length bs \<le> unat (ALLOC_S p h) \<Longrightarrow> ck_step h (write_bytes (p + i) bs h)"

definition good_heap :: "ck_heap \<Rightarrow> bool" where
  "good_heap h \<longleftrightarrow> heap_ok h \<and> malloc_fresh h"

lemma gives_good: "okE (gives q P h) m \<Longrightarrow> m = Inr (r, h') \<Longrightarrow> good_heap h'"
  by (auto simp: good_heap_def gives_def)

lemma free_good: "good_heap h \<Longrightarrow> valid_ptr q h \<Longrightarrow> DFL_ck_free q h = Inr h' \<Longrightarrow> good_heap h'"
  using free_ok[of h] by (cases q) (fastforce simp: good_heap_def valid_ptr_def DFL_ck_free_def)+

lemma realloc_good:
  assumes "good_heap h" "valid_ptr q h" "DFL_ck_realloc q sz h = Inr (r, h')"
  shows "good_heap h'"
proof (cases "sz = 0")
  case True
  then have "DFL_ck_free q h = Inr h'" using assms(3) by (cases "DFL_ck_free q h") (auto simp: DFL_ck_realloc_def)
  then show ?thesis using free_good assms(1,2) by blast
next
  case False
  then show ?thesis using gives_good[OF realloc_ok assms(3)] assms by (simp add: good_heap_def)
qed

lemma ck_step_good: "ck_step h h' \<Longrightarrow> good_heap h \<Longrightarrow> good_heap h'"
proof (induction rule: ck_step.induct)
  case (step_nozero sz h r h')
  then show ?case using gives_good[OF alloc_nozero_ok step_nozero(1)] by (cases "sz = 0") (auto simp: good_heap_def DFL_ck_alloc_nozero_def)
next
  case (step_alloc sz h r h')
  then show ?case using gives_good[OF alloc_ok step_alloc(1)] by (cases "sz = 0") (auto simp: good_heap_def DFL_ck_alloc_def DFL_ck_alloc_nozero_def)
next
  case (step_free q h h')
  then show ?case using free_good by blast
next
  case (step_realloc q h sz r h')
  then show ?case using realloc_good by blast
next
  case (step_realloc_block q h sz r h')
  have "valid_ptr q h" "good_heap h" by fact+
  then show ?case using step_realloc_block(2) realloc_good[of h q]
    by (auto simp: DFL_ck_realloc_block_def CHECK_PTR_live good_heap_def valid_ptr_def split: option.splits if_splits)
next
  case (step_strdup str h r h')
  then show ?case using gives_good[OF strdup_ok step_strdup(2)] by (simp add: good_heap_def)
next
  case (step_memdup m sz h r h')
  show ?case
  proof (cases "m = None \<or> sz = 0")
    case True
    then show ?thesis using step_memdup by (auto simp: DFL_ck_memdup_def split: option.splits)
  next
    case False
    then obtain src where m: "m = Some src" "sz \<noteq> 0" by auto
    have "unat sz \<le> length src" using step_memdup(1) m
      by (cases "ALLOC_CHECK_SIZE sz") (auto simp: DFL_ck_memdup_def copy_new_def Let_def ALLOC_CHECK_RESULT_def split: option.splits if_splits prod.splits)
    then show ?thesis using gives_good[OF memdup_ok step_memdup(1)[unfolded m(1)]] m step_memdup(2) by (simp add: good_heap_def)
  qed
next
  case (step_write p h i bs)
  then show ?case using body_write(1)[of h p i bs] by (simp add: good_heap_def malloc_fresh_def)
qed

lemma ck_steps_good: "ck_step\<^sup>*\<^sup>* h h' \<Longrightarrow> good_heap h \<Longrightarrow> good_heap h'"
  by (induction rule: rtranclp_induct) (auto intro: ck_step_good)

section \<open>Properties\<close>

definition example_heap :: ck_heap where
  "example_heap = \<lparr>heap_mem = (\<lambda>_. 0), heap_blocks = [], malloc_at = (\<lambda>bs n. Some (16 + sum_list (map (\<lambda>(a, k). a + k) bs))), free_fill = (\<lambda>_ _. 7)\<rparr>"

lemma example_heap_fresh: "malloc_fresh example_heap"
proof -
  have "b + k \<le> sum_list (map (\<lambda>(a, k). a + k) bs)" if "(b, k) \<in> set bs" for b k and bs :: "(nat \<times> nat) list"
    using that by (induction bs) auto
  then show ?thesis by (fastforce simp: malloc_fresh_def example_heap_def apart_def)
qed

lemma example_heap_ok: "heap_blocks example_heap = []" "heap_ok example_heap"
  by (simp_all add: heap_ok_def example_heap_def)

definition example_heap4 :: ck_heap where
  "example_heap4 = set_guards 24 4 (example_heap\<lparr>heap_blocks := [(16, 13)]\<rparr>)"

lemma example_alloc: "DFL_ck_alloc_nozero 4 example_heap = Inr (Some 24, example_heap4)"
  by (simp add: DFL_ck_alloc_nozero_def ALLOC_CHECK_SIZE_def MAX_ALLOC_def C_malloc_def ALLOC_CHECK_RESULT_def example_heap4_def) (simp add: example_heap_def)

lemma example_live: "live_ptr 24 example_heap4"
  by (simp add: live_ptr_def example_heap4_def)

text \<open>
  C15. Starting from an empty heap, whatever sequence of \<open>ck_alloc\<close>, \<open>ck_alloc_nozero\<close>, \<open>ck_realloc\<close>, \<open>ck_realloc_block\<close>,
  \<open>ck_strdup\<close>, \<open>ck_memdup\<close>, \<open>ck_free\<close> and writes inside the buffers is carried out, and wherever the C library places the
  blocks, but without \<open>ck_memdup_str\<close>, which destroys a canary itself as shown below: the
  canaries of every live buffer are intact, so no check ever stops a program that stays inside its
  buffers, and releasing a buffer succeeds and leaves every other buffer as it was.
\<close>

theorem canaries_intact:
  assumes "heap_blocks h0 = []" "malloc_fresh h0" "ck_step\<^sup>*\<^sup>* h0 h" "live_ptr p h"
  shows "CHECK_PTR (Some p) h = Inr () \<and> (\<exists>h'. DFL_ck_free (Some p) h = Inr h' \<and> others_kept (Some p) h h' \<and> \<not> live_ptr p h')"
proof -
  have "good_heap h0" using assms(1,2) by (simp add: good_heap_def heap_ok_def)
  then have "heap_ok h" "malloc_fresh h" using ck_steps_good[OF assms(3)] by (simp_all add: good_heap_def)
  then show ?thesis using CHECK_PTR_live free_ok assms(4) by blast
qed

theorem canaries_intact_witness:
  "CHECK_PTR (Some 24) example_heap4 = Inr () \<and> (\<exists>h'. DFL_ck_free (Some 24) example_heap4 = Inr h' \<and> \<not> live_ptr 24 h')"
  using canaries_intact[OF example_heap_ok(1) example_heap_fresh r_into_rtranclp[of ck_step, OF step_nozero[OF example_alloc]] example_live] by blast

text \<open>
  C21. \<open>ck_realloc\<close> on the memory with its headers and canaries implements resizing of byte strings: the
  returned buffer holds the old contents cut off or filled up with zeros to the new size, every other
  buffer keeps its bytes and the heap is well-formed again; otherwise the request was too large or the
  memory exhausted, and the program stops with a message.
\<close>

theorem ck_realloc_refines:
  assumes "heap_ok h" "malloc_fresh h" "valid_ptr q h" "sz \<noteq> 0"
  shows "okE (\<lambda>(r, h'). \<exists>p. r = Some p \<and> live_ptr p h' \<and> contents p h' = ck_realloc (old_contents q h) (unat sz) \<and>
       others_kept q h h' \<and> heap_ok h')
     (DFL_ck_realloc q sz h)"
  by (rule okE_mono[OF realloc_ok[OF assms]]) (auto simp: gives_def)

theorem ck_realloc_refines_witness:
  "okE (\<lambda>(r, h'). \<exists>p. r = Some p \<and> live_ptr p h' \<and> contents p h' = ck_realloc (contents 24 example_heap4) 300 \<and>
       others_kept (Some 24) example_heap4 h' \<and> heap_ok h')
     (DFL_ck_realloc (Some 24) 300 example_heap4)"
proof -
  have "good_heap example_heap4" using ck_step_good[OF step_nozero[OF example_alloc]] example_heap_ok example_heap_fresh by (simp add: good_heap_def)
  then show ?thesis using ck_realloc_refines[of example_heap4 "Some 24" 300] example_live by (simp add: good_heap_def valid_ptr_def old_contents_def)
qed

text \<open>
  C37. A buffer made by \<open>ck_memdup_str\<close> cannot be released: the terminator is written to the byte of the
  canary, although one more byte was allocated for it, so the next check stops the program.
\<close>

theorem memdup_str_breaks_canary:
  assumes "DFL_ck_memdup_str (Some src) sz h = Inr (Some p, h')"
  shows "DFL_ck_free (Some p) h' = Inl (ABORT ''Corrupted tail alloc canary.'')"
proof -
  obtain a h1 where s: "sz \<le> MAX_ALLOC" and p: "p = a + 8" and l: "unat sz \<le> length src"
    and h': "h' = write_bytes (a + 8 + unat sz) [0] (write_bytes (a + 8) (take (unat sz) src) (set_guards (a + 8) sz h1))"
    using assms by (auto simp: DFL_ck_memdup_str_def copy_new_def Let_def ALLOC_CHECK_SIZE_def ALLOC_CHECK_RESULT_def
      split: if_splits option.splits prod.splits)
  define g where "g = set_guards (a + 8) sz h1"
  have c: "chunk_ok a (unat sz + 9) g" unfolding g_def by (rule set_guards_chunk[OF s])
  have "same a 8 g h'" unfolding h' g_def[symmetric] by (rule same_trans[OF same_write same_write]) auto
  then have "same a 4 g h'" "same (a + 4) 4 g h'" by (auto intro: same_sub)
  then have "load32 a h' = ALLOC_MAGIC_C1" "load32 (a + 4) h' = sz" using c by (simp_all add: load32_same chunk_ok_def word_unat_eq_iff)
  moreover have "a + 8 - 4 = a + 4" by simp
  moreover have "heap_mem h' (a + 8 + unat sz) = 0" by (simp add: h' write_bytes_mem)
  ultimately have "ALLOC_C1 p h' = ALLOC_MAGIC_C1" "ALLOC_C2 p h' \<noteq> ALLOC_MAGIC_C2"
    unfolding p ALLOC_C1_def ALLOC_C2_def ALLOC_S_def by (simp_all add: ALLOC_MAGIC_C2_def add.commute[of 4 a])
  then show ?thesis by (simp add: DFL_ck_free_def CHECK_PTR_def)
qed

theorem memdup_str_breaks_canary_witness:
  "\<exists>p h'. DFL_ck_memdup_str (Some [65, 66]) 2 example_heap = Inr (Some p, h') \<and> DFL_ck_free (Some p) h' = Inl (ABORT ''Corrupted tail alloc canary.'')"
proof -
  have "\<exists>p h'. DFL_ck_memdup_str (Some [65, 66]) 2 example_heap = Inr (Some p, h')"
    by (simp add: DFL_ck_memdup_str_def copy_new_def Let_def ALLOC_CHECK_SIZE_def MAX_ALLOC_def C_malloc_def ALLOC_CHECK_RESULT_def)
      (simp add: example_heap_def)
  then show ?thesis using memdup_str_breaks_canary by blast
qed

end
