(* ===== verification/Afl_Stages.thy ===== *)
theory Afl_Stages
  imports Afl_Trim Afl_Alloc
begin

unbundle bit_operations_syntax

text \<open>
  The deterministic stages of \<open>fuzz_one\<close> in \<open>afl-fuzz.c\<close>, which change the buffer \<open>out_buf\<close> in place,
  run the target through \<open>common_fuzz_stuff\<close> and change the buffer back: walking bit and byte flips
  with the effector map and the collection of syntax tokens, arithmetic, interesting values and
  dictionary tokens. \<open>len\<close> is the length of the buffer. A stage is written as the sequence of its
  statements, each of which may leave with \<open>True\<close> (\<open>goto abandon_entry\<close>).
\<close>

section \<open>Statements\<close>

definition block :: "('s \<Rightarrow> err + bool \<times> 's) list \<Rightarrow> 's \<Rightarrow> err + bool \<times> 's" where
  "block ps = for_each ps (\<lambda>f. f)"

text \<open>A statement on the globals, one on the buffer, and the guarded call of \<open>common_fuzz_stuff\<close>.\<close>

definition glob :: "('s \<Rightarrow> 's) \<Rightarrow> 'b \<times> 's \<Rightarrow> err + bool \<times> 'b \<times> 's" where
  "glob f = (\<lambda>(b, s). Inr (False, b, f s))"

definition edit :: "('b \<Rightarrow> err + 'b) \<Rightarrow> 'b \<times> 's \<Rightarrow> err + bool \<times> 'b \<times> 's" where
  "edit f = (\<lambda>(b, s). bindE (f b) (\<lambda>b. Inr (False, b, s)))"

definition run_out :: "u8 list \<times> 'a x_state_scheme \<Rightarrow> err + bool \<times> u8 list \<times> 'a x_state_scheme" where
  "run_out = (\<lambda>(b, s). bindE (common_fuzz_stuff b s) (\<lambda>(stop, s). Inr (stop, b, s)))"

definition skip :: "'s \<Rightarrow> err + bool \<times> 's" where
  "skip st = Inr (False, st)"

text \<open>Access to the buffer through a pointer to bytes, \<open>u16\<close> or \<open>u32\<close> (\<open>k\<close> bytes).\<close>

definition peek :: "nat \<Rightarrow> nat \<Rightarrow> u8 list \<Rightarrow> err + 'w::len word" where
  "peek k i b = (if i + k \<le> length b then Inr (le_load (take k (drop i b))) else Inl OutOfBounds)"

definition poke :: "nat \<Rightarrow> nat \<Rightarrow> 'w::len word \<Rightarrow> u8 list \<Rightarrow> err + u8 list" where
  "poke k i w b = (if i + k \<le> length b then Inr (take i b @ le_store k w @ drop (i + k) b) else Inl OutOfBounds)"

definition flip :: "nat \<Rightarrow> u8 list \<Rightarrow> err + u8 list" where
  "flip i b = (if i div 8 < length b then Inr (FLIP_BIT b i) else Inl OutOfBounds)"

definition memcpy_in :: "nat \<Rightarrow> u8 list \<Rightarrow> u8 list \<Rightarrow> err + u8 list" where
  "memcpy_in i src b = (if i + length src \<le> length b then Inr (take i b @ src @ drop (i + length src) b) else Inl OutOfBounds)"

section \<open>Stage bookkeeping\<close>

definition STAGE_FLIP1 :: nat where "STAGE_FLIP1 = 0"
definition STAGE_FLIP2 :: nat where "STAGE_FLIP2 = 1"
definition STAGE_FLIP4 :: nat where "STAGE_FLIP4 = 2"
definition STAGE_FLIP8 :: nat where "STAGE_FLIP8 = 3"
definition STAGE_FLIP16 :: nat where "STAGE_FLIP16 = 4"
definition STAGE_FLIP32 :: nat where "STAGE_FLIP32 = 5"
definition STAGE_ARITH8 :: nat where "STAGE_ARITH8 = 6"
definition STAGE_ARITH16 :: nat where "STAGE_ARITH16 = 7"
definition STAGE_ARITH32 :: nat where "STAGE_ARITH32 = 8"
definition STAGE_INTEREST8 :: nat where "STAGE_INTEREST8 = 9"
definition STAGE_INTEREST16 :: nat where "STAGE_INTEREST16 = 10"
definition STAGE_INTEREST32 :: nat where "STAGE_INTEREST32 = 11"
definition STAGE_EXTRAS_UO :: nat where "STAGE_EXTRAS_UO = 12"
definition STAGE_EXTRAS_UI :: nat where "STAGE_EXTRAS_UI = 13"
definition STAGE_EXTRAS_AO :: nat where "STAGE_EXTRAS_AO = 14"

definition EFF_MAP_SCALE2 :: nat where "EFF_MAP_SCALE2 = 3"
definition EFF_MIN_LEN :: nat where "EFF_MIN_LEN = 128"
definition EFF_MAX_PERC :: nat where "EFF_MAX_PERC = 90"
definition MAX_FILE :: nat where "MAX_FILE = 1024 * 1024"

declare EFF_MAP_SCALE2_def [cfg_simps] EFF_MIN_LEN_def [cfg_simps] EFF_MAX_PERC_def [cfg_simps] MAX_FILE_def [cfg_simps]

definition hit_cnt :: "'a x_state_scheme \<Rightarrow> u64" where
  "hit_cnt s = ucast (queued_paths s) + unique_crashes s"

text \<open>\<open>stage_short\<close>, \<open>stage_cur = 0\<close> and \<open>stage_max\<close>, the loop, then the two statistics.\<close>

definition begin_stage :: "string \<Rightarrow> int \<Rightarrow> 'a x_state_scheme \<Rightarrow> 'a x_state_scheme" where
  "begin_stage short mx s = s\<lparr>stage_short := short, stage_cur := 0, stage_max := mx\<rparr>"

definition end_stage :: "nat \<Rightarrow> u64 \<Rightarrow> 'a x_state_scheme \<Rightarrow> u64 \<times> 'a x_state_scheme" where
  "end_stage k orig_hit_cnt s =
     (let new_hit_cnt = hit_cnt s in
      (new_hit_cnt, s\<lparr>stage_finds := (stage_finds s)(k := stage_finds s k + (new_hit_cnt - orig_hit_cnt)),
                      stage_cycles := (stage_cycles s)(k := stage_cycles s k + of_int (stage_max s))\<rparr>))"

type_synonym 'a det_state = "u64 \<times> u8 list \<times> 'a x_state_scheme"

definition run_stage ::
  "nat \<Rightarrow> string \<Rightarrow> int \<Rightarrow> (u8 list \<times> 'a x_state_scheme \<Rightarrow> err + bool \<times> u8 list \<times> 'a x_state_scheme) \<Rightarrow>
   'a det_state \<Rightarrow> err + bool \<times> 'a det_state" where
  "run_stage k short mx loop = (\<lambda>(orig_hit_cnt, b, s).
     bindE (loop (b, begin_stage short mx s)) (\<lambda>(leave, b, s).
       if leave then Inr (True, orig_hit_cnt, b, s)
       else let (new_hit_cnt, s) = end_stage k orig_hit_cnt s in Inr (False, new_hit_cnt, b, s)))"

definition set_val_type :: "stage_val \<Rightarrow> 'b \<times> 'a x_state_scheme \<Rightarrow> err + bool \<times> 'b \<times> 'a x_state_scheme" where
  "set_val_type v = glob (\<lambda>s. s\<lparr>stage_val_type := v\<rparr>)"

text \<open>\<open>for (stage_cur = 0; stage_cur < n; stage_cur++)\<close>; the rounds leave \<open>stage_cur\<close> alone.\<close>

definition for_stage_cur ::
  "nat \<Rightarrow> (nat \<Rightarrow> u8 list \<times> 'a x_state_scheme \<Rightarrow> err + bool \<times> u8 list \<times> 'a x_state_scheme) \<Rightarrow>
   u8 list \<times> 'a x_state_scheme \<Rightarrow> err + bool \<times> u8 list \<times> 'a x_state_scheme" where
  "for_stage_cur n body = block
     [for_each [0..<n] (\<lambda>i. block [glob (\<lambda>s. s\<lparr>stage_cur := int i\<rparr>), body i]), glob (\<lambda>s. s\<lparr>stage_cur := int n\<rparr>)]"

section \<open>Bit flips\<close>

text \<open>Flipping \<open>k\<close> adjacent bits from bit \<open>i\<close> on, as \<open>k\<close> times \<open>FLIP_BIT\<close>.\<close>

definition flips :: "nat \<Rightarrow> nat \<Rightarrow> (u8 list \<times> 's \<Rightarrow> err + bool \<times> u8 list \<times> 's) list" where
  "flips k i = map (\<lambda>m. edit (flip (i + m))) [0..<k]"

definition flip2_stage :: "'a det_state \<Rightarrow> err + bool \<times> 'a det_state" where
  "flip2_stage = (\<lambda>(h, b, s).
     run_stage STAGE_FLIP2 ''flip2'' (int (8 * length b) - 1)
       (for_stage_cur (8 * length b - 1) (\<lambda>i. block
          ([glob (\<lambda>s. s\<lparr>stage_cur_byte := int (i div 8)\<rparr>)] @ flips 2 i @ [run_out] @ flips 2 i)))
       (h, b, s))"

definition flip4_stage :: "'a det_state \<Rightarrow> err + bool \<times> 'a det_state" where
  "flip4_stage = (\<lambda>(h, b, s).
     run_stage STAGE_FLIP4 ''flip4'' (int (8 * length b) - 3)
       (for_stage_cur (8 * length b - 3) (\<lambda>i. block
          ([glob (\<lambda>s. s\<lparr>stage_cur_byte := int (i div 8)\<rparr>)] @ flips 4 i @ [run_out] @ flips 4 i)))
       (h, b, s))"

text \<open>The locals of the token collection: \<open>a_collect\<close>, \<open>a_len\<close> and \<open>prev_cksum\<close>.\<close>

record tokens =
  a_collect :: "u8 list"
  a_len :: u32
  prev_cksum :: u32

definition grab :: "u8 \<Rightarrow> tokens \<Rightarrow> tokens" where
  "grab c t = t\<lparr>a_collect := (if a_len t < of_nat MAX_AUTO_EXTRA then (a_collect t)[unat (a_len t) := c] else a_collect t),
                a_len := a_len t + 1\<rparr>"

definition offer :: "tokens \<Rightarrow> 'a x_state_scheme \<Rightarrow> err + 'a x_state_scheme" where
  "offer t s =
     (if a_len t \<ge> of_nat MIN_AUTO_EXTRA \<and> a_len t \<le> of_nat MAX_AUTO_EXTRA
      then maybe_add_auto (take (unat (a_len t)) (a_collect t)) s else Inr s)"

definition collect_token :: "nat \<Rightarrow> nat \<Rightarrow> u8 list \<Rightarrow> tokens \<times> 'a x_state_scheme \<Rightarrow> err + tokens \<times> 'a x_state_scheme" where
  "collect_token q i b = (\<lambda>(t, s).
     if dumb_mode s = 0 \<and> i mod 8 = 7 then
       bindE (peek 1 (i div 8) b) (\<lambda>c :: u8.
       let cksum = hash32 (trace_bits s) HASH_CONST in
       bindE
         (if stage_cur s = stage_max s - 1 \<and> cksum = prev_cksum t then
            bindE (offer (grab c t) s) (\<lambda>s. Inr (grab c t, s))
          else if cksum \<noteq> prev_cksum t then
            bindE (offer t s) (\<lambda>s. Inr (t\<lparr>a_len := 0, prev_cksum := cksum\<rparr>, s))
          else Inr (t, s))
         (\<lambda>(t, s). Inr (if cksum \<noteq> exec_cksum (qs s ! q) then grab c t else t, s)))
     else Inr (t, s))"

definition flip1_round :: "nat \<Rightarrow> nat \<Rightarrow> u8 list \<times> tokens \<times> 'a x_state_scheme \<Rightarrow> err + bool \<times> u8 list \<times> tokens \<times> 'a x_state_scheme" where
  "flip1_round q i = (\<lambda>(b, t, s).
     bindE (block ([glob (\<lambda>s. s\<lparr>stage_cur := int i, stage_cur_byte := int (i div 8)\<rparr>)] @ flips 1 i @ [run_out] @ flips 1 i) (b, s))
       (\<lambda>(leave, b, s).
          if leave then Inr (True, b, t, s)
          else bindE (collect_token q i b (t, s)) (\<lambda>(t, s). Inr (False, b, t, s))))"

definition flip1_loop :: "nat \<Rightarrow> u8 list \<times> 'a x_state_scheme \<Rightarrow> err + bool \<times> u8 list \<times> 'a x_state_scheme" where
  "flip1_loop q = (\<lambda>(b, s).
     bindE (for_each [0..<8 * length b] (flip1_round q)
              (b, \<lparr>a_collect = replicate MAX_AUTO_EXTRA 0, a_len = 0, prev_cksum = exec_cksum (qs s ! q)\<rparr>, s))
       (\<lambda>(leave, b, t, s). Inr (leave, b, if leave then s else s\<lparr>stage_cur := int (8 * length b)\<rparr>)))"

definition flip1_stage :: "nat \<Rightarrow> u8 list \<times> 'a x_state_scheme \<Rightarrow> err + bool \<times> 'a det_state" where
  "flip1_stage q = (\<lambda>(b, s).
     let s = s\<lparr>stage_val_type := STAGE_VAL_NONE\<rparr> in
     run_stage STAGE_FLIP1 ''flip1'' (int (8 * length b)) (flip1_loop q) (hit_cnt s, b, s))"

section \<open>Effector map and byte flips\<close>

definition EFF_APOS :: "nat \<Rightarrow> nat" where
  "EFF_APOS p = p div 2 ^ EFF_MAP_SCALE2"

definition EFF_REM :: "nat \<Rightarrow> nat" where
  "EFF_REM x = x mod 2 ^ EFF_MAP_SCALE2"

definition EFF_ALEN :: "nat \<Rightarrow> nat" where
  "EFF_ALEN l = EFF_APOS l + (if EFF_REM l \<noteq> 0 then 1 else 0)"

definition EFF_SPAN_ALEN :: "nat \<Rightarrow> nat \<Rightarrow> nat" where
  "EFF_SPAN_ALEN p l = EFF_APOS (p + l - 1) - EFF_APOS p + 1"

type_synonym effector = "u8 list \<times> u32"

definition eff_init :: "nat \<Rightarrow> effector" where
  "eff_init len =
     (let m = (replicate (EFF_ALEN len) 0)[0 := 1] in
      if EFF_APOS (len - 1) \<noteq> 0 then (m[EFF_APOS (len - 1) := 1], 2) else (m, 1))"

definition mark_eff :: "nat \<Rightarrow> nat \<Rightarrow> nat \<Rightarrow> 'a x_state_scheme \<Rightarrow> effector \<Rightarrow> err + effector" where
  "mark_eff q len i s = (\<lambda>(eff, cnt).
     if EFF_APOS i \<ge> length eff then Inl OutOfBounds
     else if eff ! EFF_APOS i = 0 then
       let cksum = (if dumb_mode s = 0 \<and> len \<ge> EFF_MIN_LEN then hash32 (trace_bits s) HASH_CONST else NOT (exec_cksum (qs s ! q)))
       in if cksum \<noteq> exec_cksum (qs s ! q) then Inr (eff[EFF_APOS i := 1], cnt + 1) else Inr (eff, cnt)
     else Inr (eff, cnt))"

definition flip_byte :: "nat \<Rightarrow> u8 list \<Rightarrow> err + u8 list" where
  "flip_byte i b = bindE (peek 1 i b) (\<lambda>c :: u8. poke 1 i (c XOR 0xFF) b)"

definition flip8_round :: "nat \<Rightarrow> nat \<Rightarrow> u8 list \<times> effector \<times> 'a x_state_scheme \<Rightarrow> err + bool \<times> u8 list \<times> effector \<times> 'a x_state_scheme" where
  "flip8_round q i = (\<lambda>(b, e, s).
     bindE (block [glob (\<lambda>s. s\<lparr>stage_cur := int i, stage_cur_byte := int i\<rparr>), edit (flip_byte i), run_out] (b, s)) (\<lambda>(leave, b, s).
       if leave then Inr (True, b, e, s)
       else bindE (mark_eff q (length b) i s e) (\<lambda>e. bindE (flip_byte i b) (\<lambda>b. Inr (False, b, e, s)))))"

text \<open>A map that is dense enough is filled up.\<close>

definition eff_finish :: "nat \<Rightarrow> effector \<Rightarrow> 'a x_state_scheme \<Rightarrow> u8 list \<times> 'a x_state_scheme" where
  "eff_finish len = (\<lambda>(eff, cnt) s.
     let alen = EFF_ALEN len;
         dense = (unat cnt \<noteq> alen \<and> unat (cnt * 100) div alen > EFF_MAX_PERC)
     in (if dense then replicate alen 1 else eff,
         s\<lparr>blocks_eff_select := blocks_eff_select s + (if dense then of_nat alen else ucast cnt),
           blocks_eff_total := blocks_eff_total s + of_nat alen\<rparr>))"

definition flip8_stage :: "nat \<Rightarrow> 'a det_state \<Rightarrow> err + (bool \<times> u8 list) \<times> 'a det_state" where
  "flip8_stage q = (\<lambda>(h, b, s).
     bindE (for_each [0..<length b] (flip8_round q) (b, eff_init (length b), begin_stage ''flip8'' (int (length b)) s))
       (\<lambda>(leave, b, e, s).
          if leave then Inr ((True, fst e), h, b, s)
          else
            let (eff, s) = eff_finish (length b) e (s\<lparr>stage_cur := int (length b)\<rparr>);
                (h, s) = end_stage STAGE_FLIP8 h s
            in Inr ((False, eff), h, b, s)))"

text \<open>\<open>!eff_map[EFF_APOS(i)] && ... && !eff_map[EFF_APOS(i + k - 1)]\<close>\<close>

definition eff_none :: "nat \<Rightarrow> u8 list \<Rightarrow> nat \<Rightarrow> err + bool" where
  "eff_none k eff i =
     (if list_all (\<lambda>m. EFF_APOS (i + m) < length eff) [0..<k]
      then Inr (list_all (\<lambda>m. eff ! EFF_APOS (i + m) = 0) [0..<k]) else Inl OutOfBounds)"

definition consult ::
  "nat \<Rightarrow> u8 list \<Rightarrow> nat \<Rightarrow> int \<Rightarrow> (u8 list \<times> 'a x_state_scheme \<Rightarrow> err + bool \<times> u8 list \<times> 'a x_state_scheme) \<Rightarrow>
   u8 list \<times> 'a x_state_scheme \<Rightarrow> err + bool \<times> u8 list \<times> 'a x_state_scheme" where
  "consult k eff i cost body st =
     bindE (eff_none k eff i) (\<lambda>none.
       if none then glob (\<lambda>s. s\<lparr>stage_max := stage_max s - cost\<rparr>) st
       else block [glob (\<lambda>s. s\<lparr>stage_cur_byte := int i\<rparr>), body] st)"

definition next_cur :: "'b \<times> 'a x_state_scheme \<Rightarrow> err + bool \<times> 'b \<times> 'a x_state_scheme" where
  "next_cur = glob (\<lambda>s. s\<lparr>stage_cur := stage_cur s + 1\<rparr>)"

definition flip_16 :: "nat \<Rightarrow> u8 list \<Rightarrow> err + u8 list" where
  "flip_16 i b = bindE (peek 2 i b) (\<lambda>c :: u16. poke 2 i (c XOR 0xFFFF) b)"

definition flip16_stage :: "u8 list \<Rightarrow> 'a det_state \<Rightarrow> err + bool \<times> 'a det_state" where
  "flip16_stage eff = (\<lambda>(h, b, s).
     run_stage STAGE_FLIP16 ''flip16'' (int (length b) - 1)
       (for_each [0..<length b - 1] (\<lambda>i. consult 2 eff i 1
          (block [edit (flip_16 i), run_out, next_cur, edit (flip_16 i)])))
       (h, b, s))"

definition flip_32 :: "nat \<Rightarrow> u8 list \<Rightarrow> err + u8 list" where
  "flip_32 i b = bindE (peek 4 i b) (\<lambda>c :: u32. poke 4 i (c XOR 0xFFFFFFFF) b)"

definition flip32_stage :: "u8 list \<Rightarrow> 'a det_state \<Rightarrow> err + bool \<times> 'a det_state" where
  "flip32_stage eff = (\<lambda>(h, b, s).
     run_stage STAGE_FLIP32 ''flip32'' (int (length b) - 3)
       (for_each [0..<length b - 3] (\<lambda>i. consult 4 eff i 1
          (block [edit (flip_32 i), run_out, next_cur, edit (flip_32 i)])))
       (h, b, s))"

section \<open>Arithmetic\<close>

text \<open>
  One value: when it is worth a run, it is stored and run, otherwise one run less is expected. The
  8-, 16- and 32-bit stages share the loop over the positions and, at each, over the summands.
\<close>

definition attempt :: "nat \<Rightarrow> nat \<Rightarrow> bool \<Rightarrow> int \<Rightarrow> 'w::len word \<Rightarrow>
    u8 list \<times> 'a x_state_scheme \<Rightarrow> err + bool \<times> u8 list \<times> 'a x_state_scheme" where
  "attempt k i worth val w =
     (if worth then block [glob (\<lambda>s. s\<lparr>stage_cur_val := val\<rparr>), edit (poke k i w), run_out, next_cur]
      else glob (\<lambda>s. s\<lparr>stage_max := stage_max s - 1\<rparr>))"

definition arith8_at :: "nat \<Rightarrow> u8 \<Rightarrow> nat \<Rightarrow> u8 list \<times> 'a x_state_scheme \<Rightarrow> err + bool \<times> u8 list \<times> 'a x_state_scheme" where
  "arith8_at i orig j = block
     [attempt 1 i (\<not> could_be_bitflip (ucast (orig XOR (orig + of_nat j)))) (int j) (orig + of_nat j),
      attempt 1 i (\<not> could_be_bitflip (ucast (orig XOR (orig - of_nat j)))) (- int j) (orig - of_nat j),
      edit (poke 1 i orig)]"

definition arith16_at :: "nat \<Rightarrow> u16 \<Rightarrow> nat \<Rightarrow> u8 list \<times> 'a x_state_scheme \<Rightarrow> err + bool \<times> u8 list \<times> 'a x_state_scheme" where
  "arith16_at i orig j =
     (let v1 = orig + of_nat j; v2 = orig - of_nat j;
          v3 = SWAP16 (SWAP16 orig + of_nat j); v4 = SWAP16 (SWAP16 orig - of_nat j)
      in block
     [set_val_type STAGE_VAL_LE,
      attempt 2 i (unat (orig AND 0xff) + j > 0xff \<and> \<not> could_be_bitflip (ucast (orig XOR v1))) (int j) v1,
      attempt 2 i (unat (orig AND 0xff) < j \<and> \<not> could_be_bitflip (ucast (orig XOR v2))) (- int j) v2,
      set_val_type STAGE_VAL_BE,
      attempt 2 i (unat (drop_bit 8 orig) + j > 0xff \<and> \<not> could_be_bitflip (ucast (orig XOR v3))) (int j) v3,
      attempt 2 i (unat (drop_bit 8 orig) < j \<and> \<not> could_be_bitflip (ucast (orig XOR v4))) (- int j) v4,
      edit (poke 2 i orig)])"

definition arith32_at :: "nat \<Rightarrow> u32 \<Rightarrow> nat \<Rightarrow> u8 list \<times> 'a x_state_scheme \<Rightarrow> err + bool \<times> u8 list \<times> 'a x_state_scheme" where
  "arith32_at i orig j =
     (let v1 = orig + of_nat j; v2 = orig - of_nat j;
          v3 = SWAP32 (SWAP32 orig + of_nat j); v4 = SWAP32 (SWAP32 orig - of_nat j)
      in block
     [set_val_type STAGE_VAL_LE,
      attempt 4 i (unat (orig AND 0xffff) + j > 0xffff \<and> \<not> could_be_bitflip (orig XOR v1)) (int j) v1,
      attempt 4 i (unat (orig AND 0xffff) < j \<and> \<not> could_be_bitflip (orig XOR v2)) (- int j) v2,
      set_val_type STAGE_VAL_BE,
      attempt 4 i (unat (SWAP32 orig AND 0xffff) + j > 0xffff \<and> \<not> could_be_bitflip (orig XOR v3)) (int j) v3,
      attempt 4 i (unat (SWAP32 orig AND 0xffff) < j \<and> \<not> could_be_bitflip (orig XOR v4)) (- int j) v4,
      edit (poke 4 i orig)])"

text \<open>The loop over the positions: the value there is read first, then the effector map consulted.\<close>

definition positions ::
  "nat \<Rightarrow> u8 list \<Rightarrow> int \<Rightarrow> (nat \<Rightarrow> 'w::len word \<Rightarrow> u8 list \<times> 'a x_state_scheme \<Rightarrow> err + bool \<times> u8 list \<times> 'a x_state_scheme) \<Rightarrow>
   u8 list \<times> 'a x_state_scheme \<Rightarrow> err + bool \<times> u8 list \<times> 'a x_state_scheme" where
  "positions k eff cost body = (\<lambda>(b, s).
     for_each [0..<length b - (k - 1)] (\<lambda>i (b, s).
       bindE (peek k i b) (\<lambda>orig. consult k eff i cost (body i orig) (b, s))) (b, s))"

definition arith8_stage :: "u8 list \<Rightarrow> 'a det_state \<Rightarrow> err + bool \<times> 'a det_state" where
  "arith8_stage eff = (\<lambda>(h, b, s).
     run_stage STAGE_ARITH8 ''arith8'' (2 * int (length b) * int ARITH_MAX)
       (block [set_val_type STAGE_VAL_LE,
          positions 1 eff (2 * int ARITH_MAX) (\<lambda>i orig. for_each [1..<ARITH_MAX + 1] (arith8_at i orig))])
       (h, b, s))"

definition arith16_stage :: "u8 list \<Rightarrow> 'a det_state \<Rightarrow> err + bool \<times> 'a det_state" where
  "arith16_stage eff = (\<lambda>(h, b, s).
     run_stage STAGE_ARITH16 ''arith16'' (4 * (int (length b) - 1) * int ARITH_MAX)
       (positions 2 eff (4 * int ARITH_MAX) (\<lambda>i orig. for_each [1..<ARITH_MAX + 1] (arith16_at i orig)))
       (h, b, s))"

definition arith32_stage :: "u8 list \<Rightarrow> 'a det_state \<Rightarrow> err + bool \<times> 'a det_state" where
  "arith32_stage eff = (\<lambda>(h, b, s).
     run_stage STAGE_ARITH32 ''arith32'' (4 * (int (length b) - 3) * int ARITH_MAX)
       (positions 4 eff (4 * int ARITH_MAX) (\<lambda>i orig. for_each [1..<ARITH_MAX + 1] (arith32_at i orig)))
       (h, b, s))"

section \<open>Interesting values\<close>

definition interest8_at :: "nat \<Rightarrow> u8 \<Rightarrow> int \<Rightarrow> u8 list \<times> 'a x_state_scheme \<Rightarrow> err + bool \<times> u8 list \<times> 'a x_state_scheme" where
  "interest8_at i orig v =
     (if could_be_bitflip (ucast (orig XOR word_of_int v)) \<or> could_be_arith (ucast orig) (ucast (word_of_int v :: u8)) 1
      then glob (\<lambda>s. s\<lparr>stage_max := stage_max s - 1\<rparr>)
      else block [glob (\<lambda>s. s\<lparr>stage_cur_val := v\<rparr>), edit (poke 1 i (word_of_int v :: u8)), run_out, edit (poke 1 i orig), next_cur])"

text \<open>One of the two byte orders of an interesting value.\<close>

definition insert_value :: "nat \<Rightarrow> nat \<Rightarrow> bool \<Rightarrow> stage_val \<Rightarrow> 'w::len word \<Rightarrow>
    u8 list \<times> 'a x_state_scheme \<Rightarrow> err + bool \<times> u8 list \<times> 'a x_state_scheme" where
  "insert_value k i worth vt w =
     (if worth then block [set_val_type vt, edit (poke k i w), run_out, next_cur]
      else glob (\<lambda>s. s\<lparr>stage_max := stage_max s - 1\<rparr>))"

definition interest16_at :: "nat \<Rightarrow> u16 \<Rightarrow> int \<Rightarrow> u8 list \<times> 'a x_state_scheme \<Rightarrow> err + bool \<times> u8 list \<times> 'a x_state_scheme" where
  "interest16_at i orig v =
     (let le = word_of_int v :: u16; be = SWAP16 (word_of_int v) in
      block
        [glob (\<lambda>s. s\<lparr>stage_cur_val := v\<rparr>),
         insert_value 2 i (\<not> could_be_bitflip (ucast (orig XOR le)) \<and> \<not> could_be_arith (ucast orig) (ucast le) 2 \<and>
             \<not> could_be_interest (ucast orig) (ucast le) 2 False) STAGE_VAL_LE le,
         insert_value 2 i (le \<noteq> be \<and> \<not> could_be_bitflip (ucast (orig XOR be)) \<and> \<not> could_be_arith (ucast orig) (ucast be) 2 \<and>
             \<not> could_be_interest (ucast orig) (ucast be) 2 True) STAGE_VAL_BE be])"

definition interest32_at :: "nat \<Rightarrow> u32 \<Rightarrow> int \<Rightarrow> u8 list \<times> 'a x_state_scheme \<Rightarrow> err + bool \<times> u8 list \<times> 'a x_state_scheme" where
  "interest32_at i orig v =
     (let le = word_of_int v :: u32; be = SWAP32 (word_of_int v) in
      block
        [glob (\<lambda>s. s\<lparr>stage_cur_val := v\<rparr>),
         insert_value 4 i (\<not> could_be_bitflip (orig XOR le) \<and> \<not> could_be_arith orig le 4 \<and>
             \<not> could_be_interest orig le 4 False) STAGE_VAL_LE le,
         insert_value 4 i (le \<noteq> be \<and> \<not> could_be_bitflip (orig XOR be) \<and> \<not> could_be_arith orig be 4 \<and>
             \<not> could_be_interest orig be 4 True) STAGE_VAL_BE be])"

definition interest8_stage :: "u8 list \<Rightarrow> 'a det_state \<Rightarrow> err + bool \<times> 'a det_state" where
  "interest8_stage eff = (\<lambda>(h, b, s).
     run_stage STAGE_INTEREST8 ''int8'' (int (length b * length interesting_8))
       (block [set_val_type STAGE_VAL_LE,
          positions 1 eff (int (length interesting_8)) (\<lambda>i orig. for_each interesting_8 (interest8_at i orig))])
       (h, b, s))"

text \<open>\<open>sizeof(interesting_16)\<close> and \<open>sizeof(interesting_32) >> 1\<close> count every value twice.\<close>

definition interest16_stage :: "u8 list \<Rightarrow> 'a det_state \<Rightarrow> err + bool \<times> 'a det_state" where
  "interest16_stage eff = (\<lambda>(h, b, s).
     run_stage STAGE_INTEREST16 ''int16'' (2 * (int (length b) - 1) * int (length interesting_16))
       (positions 2 eff (2 * int (length interesting_16))
          (\<lambda>i orig. block [for_each interesting_16 (interest16_at i orig), edit (poke 2 i orig)]))
       (h, b, s))"

definition interest32_stage :: "u8 list \<Rightarrow> 'a det_state \<Rightarrow> err + bool \<times> 'a det_state" where
  "interest32_stage eff = (\<lambda>(h, b, s).
     run_stage STAGE_INTEREST32 ''int32'' (2 * (int (length b) - 3) * int (length interesting_32))
       (positions 4 eff (2 * int (length interesting_32))
          (\<lambda>i orig. block [for_each interesting_32 (interest32_at i orig), edit (poke 4 i orig)]))
       (h, b, s))"

section \<open>Dictionary tokens\<close>

text \<open>\<open>memchr(eff_map + EFF_APOS(i), 1, EFF_SPAN_ALEN(i, l))\<close>\<close>

definition eff_span :: "u8 list \<Rightarrow> nat \<Rightarrow> nat \<Rightarrow> err + bool" where
  "eff_span eff i l =
     (if EFF_APOS i + EFF_SPAN_ALEN i l \<le> length eff
      then Inr (1 \<in> set (take (EFF_SPAN_ALEN i l) (drop (EFF_APOS i) eff))) else Inl OutOfBounds)"

text \<open>
  Overwriting with one token at position \<open>i\<close>, with the local \<open>last_len\<close>; the user's tokens may be
  skipped at random (\<open>pick\<close>), the automatic ones are not.
\<close>

definition over_token ::
  "('a x_state_scheme \<Rightarrow> err + bool \<times> 'a x_state_scheme) \<Rightarrow> u8 list \<Rightarrow> nat \<Rightarrow> u8 list \<Rightarrow>
   u8 list \<times> nat \<times> 'a x_state_scheme \<Rightarrow> err + bool \<times> u8 list \<times> nat \<times> 'a x_state_scheme" where
  "over_token pick eff i tok = (\<lambda>(b, last_len, s).
     bindE (pick s) (\<lambda>(drop_it, s).
     bindE (if drop_it \<or> length tok > length b - i \<or> tok = take (length tok) (drop i b) then Inr False
            else eff_span eff i (length tok)) (\<lambda>worth.
       if \<not> worth then Inr (False, b, last_len, s\<lparr>stage_max := stage_max s - 1\<rparr>)
       else
         bindE (block [edit (memcpy_in i tok), run_out, next_cur] (b, s)) (\<lambda>(leave, b, s).
           Inr (leave, b, length tok, s)))))"

definition over_at ::
  "('a x_state_scheme \<Rightarrow> err + bool \<times> 'a x_state_scheme) \<Rightarrow> u8 list \<Rightarrow> u8 list \<Rightarrow> extra_data list \<Rightarrow> nat \<Rightarrow>
   u8 list \<times> 'a x_state_scheme \<Rightarrow> err + bool \<times> u8 list \<times> 'a x_state_scheme" where
  "over_at pick eff in_buf toks i = (\<lambda>(b, s).
     bindE (for_each toks (\<lambda>e. over_token pick eff i (ed_data e)) (b, 0, s\<lparr>stage_cur_byte := int i\<rparr>)) (\<lambda>(leave, b, last_len, s).
       if leave then Inr (True, b, s)
       else bindE (memcpy_in i (take last_len (drop i in_buf)) b) (\<lambda>b. Inr (False, b, s))))"

definition pick_extra :: "nat \<Rightarrow> 'a x_state_scheme \<Rightarrow> err + bool \<times> 'a x_state_scheme" where
  "pick_extra extras_cnt s =
     (if extras_cnt > MAX_DET_EXTRAS then bindE (UR extras_cnt s) (\<lambda>(r, s). Inr (r \<ge> MAX_DET_EXTRAS, s)) else Inr (False, s))"

definition extras_UO_stage :: "u8 list \<Rightarrow> u8 list \<Rightarrow> 'a det_state \<Rightarrow> err + bool \<times> 'a det_state" where
  "extras_UO_stage eff in_buf = (\<lambda>(h, b, s).
     let toks = extras s in
     run_stage STAGE_EXTRAS_UO ''ext_UO'' (int (length toks * length b))
       (block [set_val_type STAGE_VAL_NONE,
          for_each [0..<length b] (over_at (pick_extra (length toks)) eff in_buf toks)])
       (h, b, s))"

text \<open>
  Insertion works on the second buffer \<open>ex_tmp\<close>. At the last position the byte copied into it lies
  behind the input: it is the guard byte the allocator keeps there, or a left-over byte when the input
  was trimmed before. Nothing reads it afterwards.
\<close>

definition insert_token :: "u8 list \<Rightarrow> nat \<Rightarrow> u8 list \<Rightarrow> u8 list \<times> 'a x_state_scheme \<Rightarrow> err + bool \<times> u8 list \<times> 'a x_state_scheme" where
  "insert_token out_buf i tok = (\<lambda>(ex_tmp, s).
     let len = length out_buf in
     if len + length tok > MAX_FILE then Inr (False, ex_tmp, s\<lparr>stage_max := stage_max s - 1\<rparr>)
     else
       bindE (memcpy_in i tok ex_tmp) (\<lambda>ex_tmp.
       bindE (memcpy_in (i + length tok) (drop i out_buf) ex_tmp) (\<lambda>ex_tmp.
       bindE (common_fuzz_stuff (take (len + length tok) ex_tmp) s) (\<lambda>(stop, s).
         Inr (stop, ex_tmp, if stop then s else s\<lparr>stage_cur := stage_cur s + 1\<rparr>)))))"

definition extras_UI_loop :: "extra_data list \<Rightarrow> u8 list \<times> 'a x_state_scheme \<Rightarrow> err + bool \<times> u8 list \<times> 'a x_state_scheme" where
  "extras_UI_loop toks = (\<lambda>(b, s).
     bindE (for_each [0..<length b + 1] (\<lambda>i. block
              [glob (\<lambda>s. s\<lparr>stage_cur_byte := int i\<rparr>),
               for_each toks (\<lambda>e. insert_token b i (ed_data e)),
               edit (poke 1 i (if i < length b then b ! i else ALLOC_MAGIC_C2))])
            (replicate (length b + MAX_DICT_FILE) 0, s))
       (\<lambda>(leave, ex_tmp, s). Inr (leave, b, s)))"

definition extras_UI_stage :: "'a det_state \<Rightarrow> err + bool \<times> 'a det_state" where
  "extras_UI_stage = (\<lambda>(h, b, s).
     run_stage STAGE_EXTRAS_UI ''ext_UI'' (int (length (extras s) * length b)) (extras_UI_loop (extras s)) (h, b, s))"

definition extras_AO_stage :: "u8 list \<Rightarrow> u8 list \<Rightarrow> 'a det_state \<Rightarrow> err + bool \<times> 'a det_state" where
  "extras_AO_stage eff in_buf = (\<lambda>(h, b, s).
     let toks = take USE_AUTO_EXTRAS (a_extras s) in
     run_stage STAGE_EXTRAS_AO ''ext_AO'' (int (length toks * length b))
       (block [set_val_type STAGE_VAL_NONE,
          for_each [0..<length b] (over_at (\<lambda>s. Inr (False, s)) eff in_buf toks)])
       (h, b, s))"

section \<open>All deterministic stages\<close>

definition byte_stages :: "u8 list \<Rightarrow> u8 list \<Rightarrow> 'a det_state \<Rightarrow> err + bool \<times> 'a det_state" where
  "byte_stages eff in_buf st =
     (let len = length (fst (snd st)); arith = (\<not> no_arith (snd (snd st))) in
      block
        [if len < 2 then skip else block [flip16_stage eff, if len < 4 then skip else flip32_stage eff],
         if \<not> arith then skip
         else block [arith8_stage eff, if len < 2 then skip else block [arith16_stage eff, if len < 4 then skip else arith32_stage eff]],
         interest8_stage eff,
         if \<not> arith \<or> len < 2 then skip else block [interest16_stage eff, if len < 4 then skip else interest32_stage eff],
         \<lambda>(h, b, s). if extras s = [] then skip (h, b, s) else block [extras_UO_stage eff in_buf, extras_UI_stage] (h, b, s),
         \<lambda>(h, b, s). if a_extras s = [] then skip (h, b, s) else extras_AO_stage eff in_buf (h, b, s)] st)"

definition deterministic_stages :: "nat \<Rightarrow> u8 list \<Rightarrow> u8 list \<times> 'a x_state_scheme \<Rightarrow> err + bool \<times> 'a det_state" where
  "deterministic_stages q in_buf bs =
     bindE (flip1_stage q bs) (\<lambda>(leave, st).
     if leave then Inr (True, st)
     else bindE (block [flip2_stage, flip4_stage] st) (\<lambda>(leave, st).
     if leave then Inr (True, st)
     else bindE (flip8_stage q st) (\<lambda>((leave, eff), st).
     if leave then Inr (True, st)
     else bindE (byte_stages eff in_buf st) (\<lambda>(leave, h, b, s).
     if leave then Inr (True, h, b, s)
     else if passed_det (qs s ! q) then Inr (False, h, b, s)
     else bindE (mark_as_det_done q s) (\<lambda>s. Inr (False, h, b, s))))))"

end
