(* ===== verification/Afl_Plans.thy ===== *)
theory Afl_Plans
  imports Afl_Stages
begin

unbundle bit_operations_syntax

text \<open>
  What the deterministic stages do, as plans: a stage that changes \<open>out_buf\<close> in place and changes it
  back behaves as a fixed sequence of runs on inputs computed from the unchanged buffer. The rules
  below derive, statement by statement, the plan of a stage with the exact set of the inputs it runs.
\<close>

section \<open>Plans\<close>

datatype 's step = Upd "'s \<Rightarrow> 's" | Try "u8 list"

fun run_step :: "'a x_state_scheme step \<Rightarrow> 'a x_state_scheme \<Rightarrow> err + bool \<times> 'a x_state_scheme" where
  "run_step (Upd f) s = Inr (False, f s)"
| "run_step (Try c) s = common_fuzz_stuff c s"

definition run_plan :: "'a x_state_scheme step list \<Rightarrow> 'a x_state_scheme \<Rightarrow> err + bool \<times> 'a x_state_scheme" where
  "run_plan p = for_each p run_step"

fun tries :: "'s step list \<Rightarrow> u8 list list" where
  "tries [] = []"
| "tries (Upd f # p) = tries p"
| "tries (Try c # p) = c # tries p"

lemma tries_append [simp]: "tries (p @ p') = tries p @ tries p'"
  by (induction p rule: tries.induct) simp_all

lemma for_each_append:
  "for_each (xs @ ys) f s = bindE (for_each xs f s) (\<lambda>(l, s). if l then Inr (True, s) else for_each ys f s)"
proof (induction xs arbitrary: s)
  case (Cons x xs)
  then show ?case by (cases "f x s") (auto split: prod.split)
qed simp

lemma run_plan_append: "run_plan (p @ p') s = bindE (run_plan p s) (\<lambda>(l, s). if l then Inr (True, s) else run_plan p' s)"
  unfolding run_plan_def by (rule for_each_append)

lemma run_plan_simps [simp]:
  "run_plan [] s = Inr (False, s)" "run_plan [Upd f] s = Inr (False, f s)" "run_plan [Try c] s = common_fuzz_stuff c s"
  by (auto simp: run_plan_def bindE_def split: sum.split)

text \<open>The runs a stage still expects, and how many of them a plan takes off.\<close>

definition to_go :: "'a x_state_scheme \<Rightarrow> int" where
  "to_go s = stage_max s - stage_cur s"

inductive costs :: "'a x_state_scheme step list \<Rightarrow> int \<Rightarrow> bool" where
  "costs [] 0"
| "(\<And>s. to_go (f s) = to_go s - c) \<Longrightarrow> costs p d \<Longrightarrow> costs (Upd f # p) (c + d)"
| "costs p d \<Longrightarrow> costs (Try b # p) d"

inductive_cases costs_UpdE: "costs (Upd f # p) c"
inductive_cases costs_TryE: "costs (Try b # p) c"

lemma costs_append: "costs p c \<Longrightarrow> costs p' d \<Longrightarrow> costs (p @ p') (c + d)"
proof (induction rule: costs.induct)
  case (2 f c p e)
  then show ?case using costs.intros(2)[of f c "p @ p'" "e + d"] by (simp add: add.assoc)
qed (auto intro: costs.intros)

definition benign :: "'a x_state_scheme step list \<Rightarrow> bool" where
  "benign p \<longleftrightarrow> (\<forall>f s. Upd f \<in> set p \<longrightarrow> frame s (f s))"

lemma benign_simps [simp]:
  "benign []" "benign (Try c # p) \<longleftrightarrow> benign p" "benign (Upd f # p) \<longleftrightarrow> (\<forall>s. frame s (f s)) \<and> benign p"
  "benign (p @ p') \<longleftrightarrow> benign p \<and> benign p'"
  by (auto simp: benign_def)

section \<open>Statements and their plans\<close>

definition sim :: "(u8 list \<Rightarrow> bool) \<Rightarrow> (u8 list \<Rightarrow> bool) \<Rightarrow>
    (u8 list \<times> 'a x_state_scheme \<Rightarrow> err + bool \<times> u8 list \<times> 'a x_state_scheme) \<Rightarrow> 'a x_state_scheme step list \<Rightarrow> bool" where
  "sim P Q f p \<longleftrightarrow> (\<forall>b s. P b \<longrightarrow>
     (case run_plan p s of Inl e \<Rightarrow> f (b, s) = Inl e
      | Inr (l, s') \<Rightarrow> \<exists>b'. f (b, s) = Inr (l, b', s') \<and> (\<not> l \<longrightarrow> Q b')))"

lemma sim_seq:
  assumes "sim P Q f p" "sim Q R g p'"
  shows "sim P R (\<lambda>st. bindE (f st) (\<lambda>(l, st). if l then Inr (True, st) else g st)) (p @ p')"
  unfolding sim_def
proof (intro allI impI)
  fix b s assume b: "P b"
  show "case run_plan (p @ p') s of Inl e \<Rightarrow> bindE (f (b, s)) (\<lambda>(l, st). if l then Inr (True, st) else g st) = Inl e
      | Inr (l, s') \<Rightarrow> \<exists>b'. bindE (f (b, s)) (\<lambda>(l, st). if l then Inr (True, st) else g st) = Inr (l, b', s') \<and> (\<not> l \<longrightarrow> R b')"
  proof (cases "run_plan p s")
    case (Inl e)
    then show ?thesis using assms(1) b by (simp add: sim_def run_plan_append split: sum.splits)
  next
    case (Inr r)
    obtain l s1 where r: "r = (l, s1)" by (cases r)
    obtain b1 where b1: "f (b, s) = Inr (l, b1, s1)" "\<not> l \<longrightarrow> Q b1" using assms(1)[unfolded sim_def, rule_format, OF b, of s] Inr r by auto
    show ?thesis
    proof (cases l)
      case True
      then show ?thesis using b1 Inr r by (simp add: run_plan_append)
    next
      case False
      then have "case run_plan p' s1 of Inl e \<Rightarrow> g (b1, s1) = Inl e
         | Inr (l, s') \<Rightarrow> \<exists>b'. g (b1, s1) = Inr (l, b', s') \<and> (\<not> l \<longrightarrow> R b')"
        using assms(2) b1(2) by (simp add: sim_def)
      then show ?thesis using False b1(1) Inr r by (cases "run_plan p' s1") (auto simp: run_plan_append)
    qed
  qed
qed

lemma block_simps: "block [] st = Inr (False, st)" "block (f # ps) st = bindE (f st) (\<lambda>(l, st). if l then Inr (True, st) else block ps st)"
  unfolding block_def by (simp, rule for_each.simps(2))

text \<open>
  \<open>does acc P Q f M n c\<close>: started on a buffer with \<open>P\<close>, the statement \<open>f\<close> runs a plan whose inputs are
  exactly those of \<open>M\<close>, at most \<open>n\<close> of them, and leaves a buffer with \<open>Q\<close>; with \<open>acc\<close>, \<open>c\<close> is what it
  takes off the runs still expected.
\<close>

definition does :: "bool \<Rightarrow> (u8 list \<Rightarrow> bool) \<Rightarrow> (u8 list \<Rightarrow> bool) \<Rightarrow>
    (u8 list \<times> 'a x_state_scheme \<Rightarrow> err + bool \<times> u8 list \<times> 'a x_state_scheme) \<Rightarrow> u8 list set \<Rightarrow> nat \<Rightarrow> int \<Rightarrow> bool" where
  "does acc P Q f M n c \<longleftrightarrow> (\<exists>p. sim P Q f p \<and> set (tries p) = M \<and> length (tries p) \<le> n \<and> benign p \<and> (acc \<longrightarrow> costs p c))"

lemma sim_mono: "sim P Q f p \<Longrightarrow> (\<And>b. P' b \<Longrightarrow> P b) \<Longrightarrow> (\<And>b. Q b \<Longrightarrow> Q' b) \<Longrightarrow> sim P' Q' f p"
  unfolding sim_def by (fastforce split: sum.splits)

lemma does_mono: "does acc P Q f M n c \<Longrightarrow> (\<And>b. P' b \<Longrightarrow> P b) \<Longrightarrow> (\<And>b. Q b \<Longrightarrow> Q' b) \<Longrightarrow> does acc P' Q' f M n c"
  unfolding does_def using sim_mono by metis

lemma does_nil: "does acc P P (block []) {} 0 0"
  by (auto simp: does_def sim_def block_simps intro!: exI[of _ "[]"] costs.intros)

lemma does_cons:
  assumes "does acc P Q f M m c" "does acc Q R (block ps) N n d"
  shows "does acc P R (block (f # ps)) (M \<union> N) (m + n) (c + d)"
proof -
  obtain p p' where p: "sim P Q f p" "set (tries p) = M" "length (tries p) \<le> m" "benign p" "acc \<longrightarrow> costs p c"
    and p': "sim Q R (block ps) p'" "set (tries p') = N" "length (tries p') \<le> n" "benign p'" "acc \<longrightarrow> costs p' d"
    using assms unfolding does_def by blast
  have "sim P R (block (f # ps)) (p @ p')" using sim_seq[OF p(1) p'(1)] unfolding sim_def block_simps .
  then show ?thesis unfolding does_def
    using p p' costs_append[of p c p' d] by (intro exI[of _ "p @ p'"]) auto
qed

lemma does_glob:
  assumes "\<And>s. frame s (f s)" "acc \<Longrightarrow> \<forall>s. to_go (f s) = to_go s - c"
  shows "does acc P P (glob f) {} 0 c"
proof -
  have "costs [Upd f] c" if acc using costs.intros(2)[of f c "[]" 0] costs.intros(1) assms(2) that by simp
  then show ?thesis using assms(1) by (auto simp: does_def sim_def glob_def intro!: exI[of _ "[Upd f]"])
qed

lemma does_edit:
  assumes "\<And>b. P b \<Longrightarrow> \<exists>b'. f b = Inr b' \<and> Q b'"
  shows "does acc P Q (edit f) {} 0 0"
proof -
  have "sim P Q (edit f) []" using assms by (fastforce simp: sim_def edit_def)
  then show ?thesis by (auto simp: does_def intro!: exI[of _ "[]"] costs.intros)
qed

lemma does_run:
  assumes "\<And>b. P b \<Longrightarrow> b = c"
  shows "does acc P P run_out {c} 1 0"
proof -
  have "sim P P run_out [Try c]" using assms by (fastforce simp: sim_def run_out_def bindE_def split: sum.split)
  then show ?thesis by (auto simp: does_def intro!: exI[of _ "[Try c]"] costs.intros)
qed

lemma does_if: "(w \<Longrightarrow> does acc P Q f M m c) \<Longrightarrow> (\<not> w \<Longrightarrow> does acc P Q g N n d) \<Longrightarrow>
    does acc P Q (if w then f else g) (if w then M else N) (if w then m else n) (if w then c else d)"
  by simp

lemma does_bound: "does acc P Q f M m c \<Longrightarrow> m \<le> n \<Longrightarrow> does acc P Q f M n c"
  unfolding does_def using order_trans by blast

lemma does_for_each:
  assumes "\<And>i. i \<in> set is \<Longrightarrow> does acc P P (f i) (M i) n c"
  shows "does acc P P (for_each is f) (\<Union>i\<in>set is. M i) (length is * n) (int (length is) * c)"
  using assms
proof (induction "is")
  case Nil
  have "for_each [] f = block []" by (rule ext) (simp add: block_simps)
  then show ?case using does_nil[of acc P] by simp
next
  case (Cons i js)
  have e: "for_each (i # js) f = block [f i, for_each js f]"
    by (rule ext) (auto simp: block_simps bindE_def split: sum.split prod.split)
  have "does acc P P (block [f i, for_each js f]) (M i \<union> ((\<Union>i\<in>set js. M i) \<union> {})) (n + (length js * n + 0)) (c + (int (length js) * c + 0))"
    by (rule does_cons[OF _ does_cons[OF _ does_nil]]) (use Cons in auto)
  then show ?case unfolding e by (simp add: algebra_simps)
qed

lemma does_append:
  assumes "does acc P Q (block ps) M m c" "does acc Q R (block ps') N n d"
  shows "does acc P R (block (ps @ ps')) (M \<union> N) (m + n) (c + d)"
proof -
  obtain p p' where p: "sim P Q (block ps) p" "set (tries p) = M" "length (tries p) \<le> m" "benign p" "acc \<longrightarrow> costs p c"
    and p': "sim Q R (block ps') p'" "set (tries p') = N" "length (tries p') \<le> n" "benign p'" "acc \<longrightarrow> costs p' d"
    using assms unfolding does_def by blast
  have "sim P R (block (ps @ ps')) (p @ p')"
    using sim_seq[OF p(1) p'(1)] unfolding sim_def block_def for_each_append .
  then show ?thesis unfolding does_def
    using p p' costs_append[of p c p' d] by (intro exI[of _ "p @ p'"]) auto
qed

lemma does_single: "does acc P Q f M m c \<Longrightarrow> does acc P Q (block [f]) M m c"
  using does_cons[OF _ does_nil, of acc P Q f M m c] by simp

lemma sim_eq:
  assumes "sim P Q f p" "\<And>b s. P b \<Longrightarrow> f (b, s) = g (b, s)"
  shows "sim P Q g p"
  unfolding sim_def
proof (intro allI impI)
  fix b s assume b: "P b"
  show "case run_plan p s of Inl e \<Rightarrow> g (b, s) = Inl e | Inr (l, s') \<Rightarrow> \<exists>b'. g (b, s) = Inr (l, b', s') \<and> (\<not> l \<longrightarrow> Q b')"
    using assms(1)[unfolded sim_def, rule_format, OF b, of s] unfolding assms(2)[OF b] .
qed

lemma does_eq: "does acc P Q f M m c \<Longrightarrow> (\<And>b s. P b \<Longrightarrow> f (b, s) = g (b, s)) \<Longrightarrow> does acc P Q g M m c"
  unfolding does_def using sim_eq by blast

section \<open>Windows of a buffer\<close>

definition put :: "nat \<Rightarrow> nat \<Rightarrow> 'w::len word \<Rightarrow> u8 list \<Rightarrow> u8 list" where
  "put k i w b = take i b @ le_store k w @ drop (i + k) b"

definition win :: "nat \<Rightarrow> nat \<Rightarrow> u8 list \<Rightarrow> u8 list \<Rightarrow> bool" where
  "win k i b b' \<longleftrightarrow> length b' = length b \<and> take i b' = take i b \<and> drop (i + k) b' = drop (i + k) b"

lemma win_refl [simp]: "win k i b b"
  by (simp add: win_def)

lemma win_put [simp]: "i + k \<le> length b \<Longrightarrow> win k i b (put k i w b)"
  by (simp add: win_def put_def)

lemma length_put_word [simp]: "i + k \<le> length b \<Longrightarrow> length (put k i w b) = length b"
  by (simp add: put_def)

lemma poke_win: "i + k \<le> length b \<Longrightarrow> win k i b b' \<Longrightarrow> poke k i w b' = Inr (put k i w b)"
  by (simp add: poke_def put_def win_def)

lemma peek_eq: "i + k \<le> length b \<Longrightarrow> peek k i b = Inr (le_load (take k (drop i b)))"
  by (simp add: peek_def)

lemma put_peek: "i + k \<le> length b \<Longrightarrow> 8 * k \<le> LENGTH('w) \<Longrightarrow> put k i (le_load (take k (drop i b)) :: 'w::len word) b = b"
proof -
  assume a: "i + k \<le> length b" "8 * k \<le> LENGTH('w)"
  have "le_store k (le_load (take k (drop i b)) :: 'w word) = take k (drop i b)"
    using le_store_load[of "take k (drop i b)", where 'a='w] a by simp
  then have "put k i (le_load (take k (drop i b)) :: 'w word) b = take (i + k) b @ drop (i + k) b"
    unfolding put_def by (simp add: take_add)
  then show ?thesis by simp
qed

lemma does_poke: "i + k \<le> length b \<Longrightarrow> does acc (win k i b) (\<lambda>b'. b' = put k i w b) (edit (poke k i w)) {} 0 0"
  by (rule does_edit) (simp add: poke_win)

lemma does_poke_back:
  "i + k \<le> length b \<Longrightarrow> 8 * k \<le> LENGTH('w) \<Longrightarrow>
   does acc (win k i b) (\<lambda>b'. b' = b) (edit (poke k i (le_load (take k (drop i b)) :: 'w::len word))) {} 0 0"
  by (rule does_edit) (simp add: poke_win put_peek)

named_theorems stage_frames

lemma frame_stage [stage_frames]:
  "frame s (s\<lparr>stage_cur := a\<rparr>)" "frame s (s\<lparr>stage_max := b\<rparr>)" "frame s (s\<lparr>stage_cur_byte := c\<rparr>)" "frame s (s\<lparr>stage_cur_val := d\<rparr>)"
  "frame s (s\<lparr>stage_val_type := e\<rparr>)" "frame s (s\<lparr>stage_cur := a, stage_cur_byte := c\<rparr>)"
  "length g \<le> 16 \<Longrightarrow> frame s (s\<lparr>stage_short := g, stage_cur := a, stage_max := b\<rparr>)"
  by (simp_all add: frame_def part_defs)

lemma does_next_cur: "does acc P P next_cur {} 0 1"
  unfolding next_cur_def by (rule does_glob) (simp_all add: stage_frames to_go_def)

lemma does_lower: "does acc P P (glob (\<lambda>s. s\<lparr>stage_max := stage_max s - c\<rparr>)) {} 0 c"
  by (rule does_glob) (simp_all add: stage_frames to_go_def)

lemma does_set_val_type: "does acc P P (set_val_type v) {} 0 0"
  unfolding set_val_type_def by (rule does_glob) (simp_all add: stage_frames to_go_def)

lemma does_cur_val: "does acc P P (glob (\<lambda>s. s\<lparr>stage_cur_val := v\<rparr>)) {} 0 0"
  by (rule does_glob) (simp_all add: stage_frames to_go_def)

lemma does_cur_byte: "does acc P P (glob (\<lambda>s. s\<lparr>stage_cur_byte := v\<rparr>)) {} 0 0"
  by (rule does_glob) (simp_all add: stage_frames to_go_def)

lemma does_run_eq: "does acc (\<lambda>b. b = c) (\<lambda>b. b = c) run_out {c} 1 0"
  by (rule does_run)

lemma does_attempt:
  assumes "i + k \<le> length b"
  shows "does acc (win k i b) (win k i b) (attempt k i worth v w) (if worth then {put k i w b} else {}) 1 1"
proof (cases worth)
  case True
  have "does acc (win k i b) (\<lambda>b'. b' = put k i w b)
      (block [glob (\<lambda>s. s\<lparr>stage_cur_val := v\<rparr>), edit (poke k i w), run_out, next_cur]) ({} \<union> ({} \<union> ({put k i w b} \<union> ({} \<union> {})))) (0 + (0 + (1 + (0 + 0)))) (0 + (0 + (0 + (1 + 0))))"
    by (rule does_cons[OF does_cur_val does_cons[OF does_poke[OF assms] does_cons[OF does_run_eq does_cons[OF does_next_cur does_nil]]]])
  then have "does acc (win k i b) (win k i b)
      (block [glob (\<lambda>s. s\<lparr>stage_cur_val := v\<rparr>), edit (poke k i w), run_out, next_cur]) {put k i w b} 1 1"
    using assms by (auto elim!: does_mono)
  then show ?thesis using True by (simp add: attempt_def)
next
  case False
  then show ?thesis using does_bound[OF does_lower[of acc "win k i b" 1], of 1] by (simp add: attempt_def)
qed

lemma does_insert_value:
  assumes "i + k \<le> length b"
  shows "does acc (win k i b) (win k i b) (insert_value k i worth vt w) (if worth then {put k i w b} else {}) 1 1"
proof (cases worth)
  case True
  have "does acc (win k i b) (\<lambda>b'. b' = put k i w b)
      (block [set_val_type vt, edit (poke k i w), run_out, next_cur]) ({} \<union> ({} \<union> ({put k i w b} \<union> ({} \<union> {})))) (0 + (0 + (1 + (0 + 0)))) (0 + (0 + (0 + (1 + 0))))"
    by (rule does_cons[OF does_set_val_type does_cons[OF does_poke[OF assms] does_cons[OF does_run_eq does_cons[OF does_next_cur does_nil]]]])
  then have "does acc (win k i b) (win k i b) (block [set_val_type vt, edit (poke k i w), run_out, next_cur]) {put k i w b} 1 1"
    using assms by (auto elim!: does_mono)
  then show ?thesis using True by (simp add: insert_value_def)
next
  case False
  then show ?thesis using does_bound[OF does_lower[of acc "win k i b" 1], of 1] by (simp add: insert_value_def)
qed

section \<open>Consulting the effector map\<close>

definition effective :: "nat \<Rightarrow> u8 list \<Rightarrow> nat \<Rightarrow> bool" where
  "effective k eff i \<longleftrightarrow> (\<exists>m<k. eff ! EFF_APOS (i + m) \<noteq> 0)"

lemma EFF_APOS_less: "p < len \<Longrightarrow> EFF_APOS p < EFF_ALEN len"
  by (auto simp: EFF_APOS_def EFF_ALEN_def EFF_REM_def cfg_simps)

lemma eff_none_eq:
  assumes "length eff = EFF_ALEN len" "i + k \<le> len"
  shows "eff_none k eff i = Inr (\<not> effective k eff i)"
  using assms EFF_APOS_less[of _ len] by (auto simp: eff_none_def list_all_iff effective_def)

lemma does_consult:
  assumes "length eff = EFF_ALEN len" "i + k \<le> len" "does acc P P body M n cost"
  shows "does acc P P (consult k eff i cost body) (if effective k eff i then M else {}) n cost"
proof (cases "effective k eff i")
  case True
  have "does acc P P (block [glob (\<lambda>s. s\<lparr>stage_cur_byte := int i\<rparr>), body]) M n cost"
    using does_cons[OF does_cur_byte does_cons[OF assms(3) does_nil]] by simp
  then have "does acc P P (consult k eff i cost body) M n cost"
    by (rule does_eq) (simp add: consult_def True eff_none_eq[OF assms(1,2)])
  then show ?thesis using True by simp
next
  case False
  have "does acc P P (consult k eff i cost body) {} n cost"
    by (rule does_eq[OF does_bound[OF does_lower[of acc P cost], of n]]) (simp_all add: consult_def False eff_none_eq[OF assms(1,2)])
  then show ?thesis using False by simp
qed

lemma does_positions:
  fixes body :: "nat \<Rightarrow> 'w::len word \<Rightarrow> u8 list \<times> 'a x_state_scheme \<Rightarrow> err + bool \<times> u8 list \<times> 'a x_state_scheme"
  assumes eff: "length eff = EFF_ALEN (length b)" and k: "0 < k"
    and body: "\<And>i. i + k \<le> length b \<Longrightarrow>
      does acc (\<lambda>b'. b' = b) (\<lambda>b'. b' = b) (body i (le_load (take k (drop i b)))) (M i) n cost"
  shows "does acc (\<lambda>b'. b' = b) (\<lambda>b'. b' = b) (positions k eff cost body)
     (\<Union>i\<in>{i. i + k \<le> length b \<and> effective k eff i}. M i) ((length b - (k - 1)) * n) (int (length b - (k - 1)) * cost)"
proof -
  let ?f = "\<lambda>i bs. bindE (peek k i (fst bs)) (\<lambda>orig. consult k eff i cost (body i orig) bs)"
  have one: "does acc (\<lambda>b'. b' = b) (\<lambda>b'. b' = b) (?f i) (if effective k eff i then M i else {}) n cost"
    if "i \<in> set [0..<length b - (k - 1)]" for i
  proof -
    have i: "i + k \<le> length b" using that k by auto
    show ?thesis by (rule does_eq[OF does_consult[OF eff i body[OF i]]]) (simp add: peek_eq[OF i])
  qed
  have "does acc (\<lambda>b'. b' = b) (\<lambda>b'. b' = b) (for_each [0..<length b - (k - 1)] ?f)
     (\<Union>i\<in>set [0..<length b - (k - 1)]. if effective k eff i then M i else {})
     (length [0..<length b - (k - 1)] * n) (int (length [0..<length b - (k - 1)]) * cost)"
    by (rule does_for_each[OF one])
  moreover have "(\<Union>i\<in>set [0..<length b - (k - 1)]. if effective k eff i then M i else {}) = (\<Union>i\<in>{i. i + k \<le> length b \<and> effective k eff i}. M i)"
  proof -
    have "set [0..<length b - (k - 1)] = {i. i + k \<le> length b}" using k by auto
    moreover have "(\<Union>i\<in>A. if effective k eff i then M i else {}) = (\<Union>i\<in>{i \<in> A. effective k eff i}. M i)" for A by auto
    ultimately show ?thesis by simp
  qed
  moreover have "?f i bs = (case bs of (b, s) \<Rightarrow> bindE (peek k i b) (\<lambda>orig. consult k eff i cost (body i orig) (b, s)))" for i bs
    by (cases bs) simp
  then have "positions k eff cost body (b, s) = for_each [0..<length b - (k - 1)] ?f (b, s)" for s
    by (simp add: positions_def)
  ultimately show ?thesis by (auto intro: does_eq)
qed

section \<open>Arithmetic and interesting values\<close>

definition arith8_vals :: "u8 \<Rightarrow> nat \<Rightarrow> u8 set" where
  "arith8_vals orig j = {w. \<not> could_be_bitflip (ucast (orig XOR w)) \<and> (w = orig + of_nat j \<or> w = orig - of_nat j)}"

definition arith16_vals :: "u16 \<Rightarrow> nat \<Rightarrow> u16 set" where
  "arith16_vals orig j = {w. \<not> could_be_bitflip (ucast (orig XOR w)) \<and>
     (w = orig + of_nat j \<and> unat (orig AND 0xff) + j > 0xff \<or> w = orig - of_nat j \<and> unat (orig AND 0xff) < j \<or>
      w = SWAP16 (SWAP16 orig + of_nat j) \<and> unat (drop_bit 8 orig) + j > 0xff \<or>
      w = SWAP16 (SWAP16 orig - of_nat j) \<and> unat (drop_bit 8 orig) < j)}"

definition arith32_vals :: "u32 \<Rightarrow> nat \<Rightarrow> u32 set" where
  "arith32_vals orig j = {w. \<not> could_be_bitflip (orig XOR w) \<and>
     (w = orig + of_nat j \<and> unat (orig AND 0xffff) + j > 0xffff \<or> w = orig - of_nat j \<and> unat (orig AND 0xffff) < j \<or>
      w = SWAP32 (SWAP32 orig + of_nat j) \<and> unat (SWAP32 orig AND 0xffff) + j > 0xffff \<or>
      w = SWAP32 (SWAP32 orig - of_nat j) \<and> unat (SWAP32 orig AND 0xffff) < j)}"

lemma does_restore:
  fixes w :: "'w::len word"
  assumes "i + k \<le> length b" "8 * k \<le> LENGTH('w)" "w = le_load (take k (drop i b))"
  shows "does acc (win k i b) (\<lambda>b'. b' = b) (edit (poke k i w)) {} 0 0"
  unfolding assms(3) by (rule does_poke_back[OF assms(1,2)])

lemma does_start: "does acc (win k i b) Q f M m c \<Longrightarrow> m \<le> n \<Longrightarrow> c = d \<Longrightarrow> does acc (\<lambda>b'. b' = b) Q f M n d"
  using does_mono[of acc "win k i b" Q f M n d "\<lambda>b'. b' = b" Q] does_bound[of acc "win k i b" Q f M m c n] by simp

lemma does_arith8_at:
  assumes "i + 1 \<le> length b" "orig = le_load (take 1 (drop i b))"
  shows "does acc (\<lambda>b'. b' = b) (\<lambda>b'. b' = b) (arith8_at i orig j) ((\<lambda>w. put 1 i w b) ` arith8_vals orig j) 2 2"
proof -
  note A = does_attempt[OF assms(1), of acc]
  have R: "does acc (win 1 i b) (\<lambda>b'. b' = b) (edit (poke 1 i orig)) {} 0 0" by (rule does_restore[OF assms(1) _ assms(2)]) simp
  have "does acc (win 1 i b) (\<lambda>b'. b' = b) (arith8_at i orig j) ((\<lambda>w. put 1 i w b) ` arith8_vals orig j) (1 + (1 + (0 + 0))) (1 + (1 + (0 + 0)))"
    unfolding arith8_at_def
    by (rule back_subst[of "\<lambda>M. does acc _ _ _ M _ _", OF does_cons[OF A does_cons[OF A does_cons[OF R does_nil]]]])
      (auto simp: arith8_vals_def)
  then show ?thesis by (rule does_start) simp_all
qed

lemma does_arith16_at:
  assumes "i + 2 \<le> length b" "orig = le_load (take 2 (drop i b))"
  shows "does acc (\<lambda>b'. b' = b) (\<lambda>b'. b' = b) (arith16_at i orig j) ((\<lambda>w. put 2 i w b) ` arith16_vals orig j) 4 4"
proof -
  note A = does_attempt[OF assms(1), of acc]
  have R: "does acc (win 2 i b) (\<lambda>b'. b' = b) (edit (poke 2 i orig)) {} 0 0" by (rule does_restore[OF assms(1) _ assms(2)]) simp
  note V = does_set_val_type[of acc "win 2 i b"]
  have "does acc (win 2 i b) (\<lambda>b'. b' = b) (arith16_at i orig j) ((\<lambda>w. put 2 i w b) ` arith16_vals orig j)
      (0 + (1 + (1 + (0 + (1 + (1 + (0 + 0))))))) (0 + (1 + (1 + (0 + (1 + (1 + (0 + 0)))))))"
    unfolding arith16_at_def Let_def
    by (rule back_subst[of "\<lambda>M. does acc _ _ _ M _ _",
          OF does_cons[OF V does_cons[OF A does_cons[OF A does_cons[OF V does_cons[OF A does_cons[OF A does_cons[OF R does_nil]]]]]]]])
      (auto simp: arith16_vals_def)
  then show ?thesis by (rule does_start) simp_all
qed

lemma does_arith32_at:
  assumes "i + 4 \<le> length b" "orig = le_load (take 4 (drop i b))"
  shows "does acc (\<lambda>b'. b' = b) (\<lambda>b'. b' = b) (arith32_at i orig j) ((\<lambda>w. put 4 i w b) ` arith32_vals orig j) 4 4"
proof -
  note A = does_attempt[OF assms(1), of acc]
  have R: "does acc (win 4 i b) (\<lambda>b'. b' = b) (edit (poke 4 i orig)) {} 0 0" by (rule does_restore[OF assms(1) _ assms(2)]) simp
  note V = does_set_val_type[of acc "win 4 i b"]
  have "does acc (win 4 i b) (\<lambda>b'. b' = b) (arith32_at i orig j) ((\<lambda>w. put 4 i w b) ` arith32_vals orig j)
      (0 + (1 + (1 + (0 + (1 + (1 + (0 + 0))))))) (0 + (1 + (1 + (0 + (1 + (1 + (0 + 0)))))))"
    unfolding arith32_at_def Let_def
    by (rule back_subst[of "\<lambda>M. does acc _ _ _ M _ _",
          OF does_cons[OF V does_cons[OF A does_cons[OF A does_cons[OF V does_cons[OF A does_cons[OF A does_cons[OF R does_nil]]]]]]]])
      (auto simp: arith32_vals_def)
  then show ?thesis by (rule does_start) simp_all
qed

definition interest8_vals :: "u8 \<Rightarrow> u8 set" where
  "interest8_vals orig = {w. (\<exists>v\<in>set interesting_8. w = word_of_int v) \<and>
     \<not> could_be_bitflip (ucast (orig XOR w)) \<and> \<not> could_be_arith (ucast orig) (ucast w) 1}"

definition interest16_vals :: "u16 \<Rightarrow> u16 set" where
  "interest16_vals orig = {w. \<not> could_be_bitflip (ucast (orig XOR w)) \<and> \<not> could_be_arith (ucast orig) (ucast w) 2 \<and>
     (\<exists>v\<in>set interesting_16. w = word_of_int v \<and> \<not> could_be_interest (ucast orig) (ucast w) 2 False \<or>
        w = SWAP16 (word_of_int v) \<and> w \<noteq> word_of_int v \<and> \<not> could_be_interest (ucast orig) (ucast w) 2 True)}"

definition interest32_vals :: "u32 \<Rightarrow> u32 set" where
  "interest32_vals orig = {w. \<not> could_be_bitflip (orig XOR w) \<and> \<not> could_be_arith orig w 4 \<and>
     (\<exists>v\<in>set interesting_32. w = word_of_int v \<and> \<not> could_be_interest orig w 4 False \<or>
        w = SWAP32 (word_of_int v) \<and> w \<noteq> word_of_int v \<and> \<not> could_be_interest orig w 4 True)}"

lemma does_interest8_at:
  assumes "i + 1 \<le> length b" "orig = le_load (take 1 (drop i b))"
  shows "does acc (\<lambda>b'. b' = b) (\<lambda>b'. b' = b) (interest8_at i orig v)
     ((\<lambda>w. put 1 i w b) ` {w. w = word_of_int v \<and> \<not> could_be_bitflip (ucast (orig XOR w)) \<and> \<not> could_be_arith (ucast orig) (ucast w) 1}) 1 1"
proof (cases "could_be_bitflip (ucast (orig XOR word_of_int v)) \<or> could_be_arith (ucast orig) (ucast (word_of_int v :: u8)) 1")
  case True
  then show ?thesis using does_bound[OF does_lower[of acc "\<lambda>b'. b' = b" 1], of 1]
    by (auto simp: interest8_at_def image_def)
next
  case False
  let ?w = "word_of_int v :: u8"
  have R: "does acc (\<lambda>b'. b' = put 1 i ?w b) (\<lambda>b'. b' = b) (edit (poke 1 i orig)) {} 0 0"
    by (rule does_mono[OF does_restore[OF assms(1) _ assms(2)]]) (use assms(1) in simp_all)
  have "does acc (win 1 i b) (\<lambda>b'. b' = b)
     (block [glob (\<lambda>s. s\<lparr>stage_cur_val := v\<rparr>), edit (poke 1 i ?w), run_out, edit (poke 1 i orig), next_cur])
     ({} \<union> ({} \<union> ({put 1 i ?w b} \<union> ({} \<union> ({} \<union> {}))))) (0 + (0 + (1 + (0 + (0 + 0))))) (0 + (0 + (0 + (0 + (1 + 0)))))"
    by (rule does_cons[OF does_cur_val does_cons[OF does_poke[OF assms(1)] does_cons[OF does_run_eq
          does_cons[OF R does_cons[OF does_next_cur does_nil]]]]])
  then have D: "does acc (\<lambda>b'. b' = b) (\<lambda>b'. b' = b)
     (block [glob (\<lambda>s. s\<lparr>stage_cur_val := v\<rparr>), edit (poke 1 i ?w), run_out, edit (poke 1 i orig), next_cur]) {put 1 i ?w b} 1 1"
    using does_start by fastforce
  have "(\<lambda>w. put 1 i w b) ` {w. w = ?w \<and> \<not> could_be_bitflip (ucast (orig XOR w)) \<and> \<not> could_be_arith (ucast orig) (ucast w) 1} = {put 1 i ?w b}"
    using False by auto
  then show ?thesis using D False by (simp add: interest8_at_def)
qed

lemma does_interest8:
  assumes "i + 1 \<le> length b"
  shows "does acc (\<lambda>b'. b' = b) (\<lambda>b'. b' = b) (for_each interesting_8 (interest8_at i (le_load (take 1 (drop i b)))))
     ((\<lambda>w. put 1 i w b) ` interest8_vals (le_load (take 1 (drop i b)))) (length interesting_8) (int (length interesting_8))"
proof -
  have "does acc (\<lambda>b'. b' = b) (\<lambda>b'. b' = b) (for_each interesting_8 (interest8_at i (le_load (take 1 (drop i b)))))
     ((\<lambda>w. put 1 i w b) ` interest8_vals (le_load (take 1 (drop i b)))) (length interesting_8 * 1) (int (length interesting_8) * 1)"
    by (rule back_subst[of "\<lambda>M. does acc _ _ _ M _ _", OF does_for_each[OF does_interest8_at[OF assms refl]]])
      (auto simp: interest8_vals_def)
  then show ?thesis by simp
qed

lemma does_interest_value:
  assumes "i + k \<le> length b" "0 < k"
  shows "does acc (win k i b) (win k i b) (block [glob (\<lambda>s. s\<lparr>stage_cur_val := v\<rparr>), insert_value k i c1 STAGE_VAL_LE w1, insert_value k i c2 STAGE_VAL_BE w2])
     ((\<lambda>w. put k i w b) ` {w. c1 \<and> w = w1 \<or> c2 \<and> w = w2}) 2 2"
proof -
  note I = does_insert_value[OF assms(1), of acc]
  have "does acc (win k i b) (win k i b) (block [glob (\<lambda>s. s\<lparr>stage_cur_val := v\<rparr>), insert_value k i c1 STAGE_VAL_LE w1, insert_value k i c2 STAGE_VAL_BE w2])
     ((\<lambda>w. put k i w b) ` {w. c1 \<and> w = w1 \<or> c2 \<and> w = w2}) (0 + (1 + (1 + 0))) (0 + (1 + (1 + 0)))"
    by (rule back_subst[of "\<lambda>M. does acc _ _ _ M _ _", OF does_cons[OF does_cur_val does_cons[OF I does_cons[OF I does_nil]]]]) auto
  then show ?thesis by (simp add: numeral_eq_Suc)
qed

lemma does_interest16:
  assumes "i + 2 \<le> length b"
  shows "does acc (\<lambda>b'. b' = b) (\<lambda>b'. b' = b)
     (block [for_each interesting_16 (interest16_at i (le_load (take 2 (drop i b)))), edit (poke 2 i (le_load (take 2 (drop i b)) :: u16))])
     ((\<lambda>w. put 2 i w b) ` interest16_vals (le_load (take 2 (drop i b)))) (2 * length interesting_16) (2 * int (length interesting_16))"
proof -
  define orig :: u16 where "orig = le_load (take 2 (drop i b))"
  have A: "does acc (win 2 i b) (win 2 i b) (interest16_at i orig v)
     ((\<lambda>w. put 2 i w b) ` {w. \<not> could_be_bitflip (ucast (orig XOR w)) \<and> \<not> could_be_arith (ucast orig) (ucast w) 2 \<and>
        (w = word_of_int v \<and> \<not> could_be_interest (ucast orig) (ucast w) 2 False \<or>
         w = SWAP16 (word_of_int v) \<and> w \<noteq> word_of_int v \<and> \<not> could_be_interest (ucast orig) (ucast w) 2 True)}) 2 2" for v
    unfolding interest16_at_def Let_def
    by (rule back_subst[of "\<lambda>M. does acc _ _ _ M _ _", OF does_interest_value[OF assms]]) auto
  have R: "does acc (win 2 i b) (\<lambda>b'. b' = b) (edit (poke 2 i orig)) {} 0 0" by (rule does_restore[OF assms _ orig_def]) simp
  have "does acc (win 2 i b) (\<lambda>b'. b' = b) (block [for_each interesting_16 (interest16_at i orig), edit (poke 2 i orig)])
     ((\<lambda>w. put 2 i w b) ` interest16_vals orig) (length interesting_16 * 2 + (0 + 0)) (int (length interesting_16) * 2 + (0 + 0))"
    by (rule back_subst[of "\<lambda>M. does acc _ _ _ M _ _", OF does_cons[OF does_for_each[OF A] does_cons[OF R does_nil]]])
      (auto simp: interest16_vals_def)
  then show ?thesis unfolding orig_def[symmetric] by (rule does_start) simp_all
qed

lemma does_interest32:
  assumes "i + 4 \<le> length b"
  shows "does acc (\<lambda>b'. b' = b) (\<lambda>b'. b' = b)
     (block [for_each interesting_32 (interest32_at i (le_load (take 4 (drop i b)))), edit (poke 4 i (le_load (take 4 (drop i b)) :: u32))])
     ((\<lambda>w. put 4 i w b) ` interest32_vals (le_load (take 4 (drop i b)))) (2 * length interesting_32) (2 * int (length interesting_32))"
proof -
  define orig :: u32 where "orig = le_load (take 4 (drop i b))"
  have A: "does acc (win 4 i b) (win 4 i b) (interest32_at i orig v)
     ((\<lambda>w. put 4 i w b) ` {w. \<not> could_be_bitflip (orig XOR w) \<and> \<not> could_be_arith orig w 4 \<and>
        (w = word_of_int v \<and> \<not> could_be_interest orig w 4 False \<or>
         w = SWAP32 (word_of_int v) \<and> w \<noteq> word_of_int v \<and> \<not> could_be_interest orig w 4 True)}) 2 2" for v
    unfolding interest32_at_def Let_def
    by (rule back_subst[of "\<lambda>M. does acc _ _ _ M _ _", OF does_interest_value[OF assms]]) auto
  have R: "does acc (win 4 i b) (\<lambda>b'. b' = b) (edit (poke 4 i orig)) {} 0 0" by (rule does_restore[OF assms _ orig_def]) simp
  have "does acc (win 4 i b) (\<lambda>b'. b' = b) (block [for_each interesting_32 (interest32_at i orig), edit (poke 4 i orig)])
     ((\<lambda>w. put 4 i w b) ` interest32_vals orig) (length interesting_32 * 2 + (0 + 0)) (int (length interesting_32) * 2 + (0 + 0))"
    by (rule back_subst[of "\<lambda>M. does acc _ _ _ M _ _", OF does_cons[OF does_for_each[OF A] does_cons[OF R does_nil]]])
      (auto simp: interest32_vals_def)
  then show ?thesis unfolding orig_def[symmetric] by (rule does_start) simp_all
qed

section \<open>Flips\<close>

definition flip_bits :: "nat \<Rightarrow> nat \<Rightarrow> u8 list \<Rightarrow> u8 list" where
  "flip_bits k i b = fold (\<lambda>m b. FLIP_BIT b (i + m)) [0..<k] b"

lemma flip_bits_simps: "flip_bits 0 i b = b" "flip_bits (Suc k) i b = FLIP_BIT (flip_bits k i b) (i + k)"
  by (simp_all add: flip_bits_def)

lemma FLIP_BIT_commute: "FLIP_BIT (FLIP_BIT b i) j = FLIP_BIT (FLIP_BIT b j) i"
proof (cases "i div 8 = j div 8")
  case True
  then show ?thesis by (cases "i div 8 < length b") (simp_all add: FLIP_BIT_def ac_simps list_update_beyond)
next
  case False
  then show ?thesis by (simp add: FLIP_BIT_def list_update_swap)
qed

lemma length_flip_bits [simp]: "length (flip_bits k i b) = length b"
  by (induction k) (simp_all add: flip_bits_simps)

lemma flip_bits_commute: "flip_bits k i (FLIP_BIT b j) = FLIP_BIT (flip_bits k i b) j"
  by (induction k) (simp_all add: flip_bits_simps FLIP_BIT_commute)

lemma flip_bits_twice: "i + k \<le> 8 * length b \<Longrightarrow> flip_bits k i (flip_bits k i b) = b"
proof (induction k)
  case (Suc k)
  then show ?case by (simp add: flip_bits_simps flip_bits_commute)
qed (simp add: flip_bits_simps)

lemma does_flips:
  assumes "i + k \<le> 8 * length b"
  shows "does acc (\<lambda>b'. b' = b) (\<lambda>b'. b' = flip_bits k i b) (block (flips k i) :: u8 list \<times> 'a x_state_scheme \<Rightarrow> _) {} 0 0"
  using assms
proof (induction k)
  case 0
  then show ?case using does_nil by (simp add: flips_def flip_bits_simps)
next
  case (Suc k)
  have "does acc (\<lambda>b'. b' = flip_bits k i b) (\<lambda>b'. b' = flip_bits (Suc k) i b) (edit (flip (i + k)) :: u8 list \<times> 'a x_state_scheme \<Rightarrow> _) {} 0 0"
    by (rule does_edit) (use Suc.prems in \<open>simp add: flip_def flip_bits_simps\<close>)
  from does_append[OF Suc.IH does_single[OF this]] show ?case using Suc.prems by (simp add: flips_def)
qed

lemma does_flip_round:
  assumes "i + k \<le> 8 * length b"
  shows "does acc (\<lambda>b'. b' = b) (\<lambda>b'. b' = b) (block (flips k i @ [run_out] @ flips k i)) {flip_bits k i b} 1 0"
proof -
  have undo: "does acc (\<lambda>b'. b' = flip_bits k i b) (\<lambda>b'. b' = b) (block (flips k i)) {} 0 0"
    using does_flips[of i k "flip_bits k i b" acc] assms by (simp add: flip_bits_twice)
  show ?thesis using does_append[OF does_flips[OF assms] does_append[OF does_single[OF does_run_eq] undo]] by simp
qed

section \<open>Running a plan is safe\<close>

text \<open>
  The state after any number of rounds: the invariant, with room left for \<open>k\<close> entries, the settings and
  the entries that were there.
\<close>

definition after :: "nat \<Rightarrow> 'a x_state_scheme \<Rightarrow> 'a x_state_scheme \<Rightarrow> bool" where
  "after k s s' \<longleftrightarrow> x_inv k s' \<and> settings s' = settings s \<and>
     prefix (map fname (qs s)) (map fname (qs s')) \<and> prefix (map q_len (qs s)) (map q_len (qs s'))"

lemma x_inv_mono: "x_inv k s \<Longrightarrow> j \<le> k \<Longrightarrow> x_inv j s"
  by (auto simp: x_inv_def)

lemma after_frame: "frame s s' \<Longrightarrow> x_inv k s \<Longrightarrow> after k s s'"
  using x_inv_frame[of s s' k] frame_names[of s' s] by (simp add: after_def frame_def)

lemma after_trans: "after j s t \<Longrightarrow> after k t u \<Longrightarrow> after k s u"
  by (auto simp: after_def intro: prefix_order.order_trans)

lemma fuzzed_after: "fuzzed k s t \<Longrightarrow> after k s t"
  unfolding fuzzed_def after_def by (metis take_is_prefix)

lemma run_plan_ok:
  fixes s :: "'a x_state_scheme"
  assumes "benign p" "x_inv (k + length (tries p)) s" "\<forall>c\<in>set (tries p). length c < 2 ^ 32"
  shows "okE (\<lambda>(l, s'). after k s s' \<and> (\<forall>c. \<not> l \<longrightarrow> costs p c \<longrightarrow> to_go s' = to_go s - c)) (run_plan p s)"
  using assms
proof (induction p arbitrary: s)
  case Nil
  then show ?case using after_frame[OF frame_refl] by (auto elim: costs.cases)
next
  case (Cons x p)
  show ?case
  proof (cases x)
    case (Upd f)
    have f: "frame s (f s)" and b: "benign p" using Cons.prems(1) Upd by auto
    have x: "x_inv (k + length (tries p)) (f s)" using x_inv_frame[OF f] Cons.prems(2) Upd by simp
    have e: "run_plan (x # p) s = run_plan p (f s)" by (simp add: run_plan_def Upd)
    show ?thesis unfolding e
    proof (rule okE_mono[OF Cons.IH[OF b x]])
      fix y assume y: "case y of (l, s') \<Rightarrow> after k (f s) s' \<and> (\<forall>c. \<not> l \<longrightarrow> costs p c \<longrightarrow> to_go s' = to_go (f s) - c)"
      obtain l s' where ys: "y = (l, s')" by (cases y)
      have "after k s s'" using after_trans[OF after_frame[OF f]] y ys Cons.prems(2) by auto
      moreover have "to_go s' = to_go s - c" if l: "\<not> l" and c: "costs (x # p) c" for c
        using c[unfolded Upd] y l unfolding ys by (cases rule: costs_UpdE) auto
      ultimately show "case y of (l, s') \<Rightarrow> after k s s' \<and> (\<forall>c. \<not> l \<longrightarrow> costs (x # p) c \<longrightarrow> to_go s' = to_go s - c)"
        unfolding ys by simp
    qed (use Cons.prems Upd in auto)
  next
    case (Try c)
    have lc: "length c < 2 ^ 32" and b: "benign p" using Cons.prems Try by auto
    have x: "x_inv (Suc (k + length (tries p))) s" using Cons.prems(2) Try by simp
    have e: "run_plan (x # p) s = bindE (common_fuzz_stuff c s) (\<lambda>(l, s). if l then Inr (True, s) else run_plan p s)"
      unfolding run_plan_def Try by simp
    show ?thesis unfolding e
    proof (rule okE_bind[OF common_fuzz_stuff_ok[OF x lc]])
      fix y :: "bool \<times> 'a x_state_scheme" assume y: "case y of (stop, s') \<Rightarrow> fuzzed (k + length (tries p)) s s'"
      obtain l t where ys: "y = (l, t)" by (cases y)
      have ft: "fuzzed (k + length (tries p)) s t" using y ys by simp
      then have xt: "x_inv (k + length (tries p)) t" and go: "to_go t = to_go s" by (auto simp: fuzzed_def to_go_def)
      have stop: "after k s t" using fuzzed_after[OF ft] x_inv_mono[of _ t k] by (auto simp: after_def)
      have "okE (\<lambda>(l, s'). after k s s' \<and> (\<forall>c. \<not> l \<longrightarrow> costs (x # p) c \<longrightarrow> to_go s' = to_go s - c)) (run_plan p t)"
      proof (rule okE_mono[OF Cons.IH[OF b xt]])
        fix z assume z: "case z of (l, s') \<Rightarrow> after k t s' \<and> (\<forall>c. \<not> l \<longrightarrow> costs p c \<longrightarrow> to_go s' = to_go t - c)"
        obtain l' s' where zs: "z = (l', s')" by (cases z)
        have "after k s s'" using after_trans[OF fuzzed_after[OF ft]] z zs by auto
        moreover have "to_go s' = to_go s - d" if l: "\<not> l'" and c: "costs (x # p) d" for d
          using c[unfolded Try] z l go unfolding zs by (cases rule: costs_TryE) auto
        ultimately show "case z of (l, s') \<Rightarrow> after k s s' \<and> (\<forall>c. \<not> l \<longrightarrow> costs (x # p) c \<longrightarrow> to_go s' = to_go s - c)"
          unfolding zs by simp
      qed (use Cons.prems Try in auto)
      then show "okE (\<lambda>(l, s'). after k s s' \<and> (\<forall>c. \<not> l \<longrightarrow> costs (x # p) c \<longrightarrow> to_go s' = to_go s - c))
          (case y of (l, s) \<Rightarrow> if l then Inr (True, s) else run_plan p s)"
        unfolding ys using stop by (cases l) simp_all
    qed
  qed
qed

lemma does_ok:
  assumes d: "does acc P Q f M n c" and P: "P b" and x: "x_inv (k + n) s" and M: "\<forall>i\<in>M. length i < 2 ^ 32"
  shows "okE (\<lambda>(l, b', s'). after k s s' \<and> (\<not> l \<longrightarrow> Q b' \<and> (acc \<longrightarrow> to_go s' = to_go s - c))) (f (b, s))"
proof -
  obtain p where p: "sim P Q f p" "set (tries p) = M" "length (tries p) \<le> n" "benign p" "acc \<longrightarrow> costs p c"
    using d unfolding does_def by blast
  have ok: "okE (\<lambda>(l, s'). after k s s' \<and> (\<forall>c. \<not> l \<longrightarrow> costs p c \<longrightarrow> to_go s' = to_go s - c)) (run_plan p s)"
    by (rule run_plan_ok[OF p(4)]) (use x_inv_mono[OF x] p M in auto)
  show ?thesis
  proof (cases "run_plan p s")
    case (Inl e)
    then show ?thesis using ok p(1)[unfolded sim_def, rule_format, OF P, of s] by simp
  next
    case (Inr r)
    then show ?thesis using ok p(1)[unfolded sim_def, rule_format, OF P, of s] p(5) by (cases r) auto
  qed
qed

lemma after_end_stage: "after k s t \<Longrightarrow> after k s (snd (end_stage j h t))"
  using after_trans[OF _ after_frame, of k s t "snd (end_stage j h t)" k]
  by (simp add: end_stage_def Let_def frame_def part_defs after_def)

lemma run_stage_ok:
  assumes d: "does acc (\<lambda>b'. b' = b) (\<lambda>b'. b' = b) loop M n mx" and x: "x_inv (k + n) s" and M: "\<forall>i\<in>M. length i < 2 ^ 32"
    and short: "length short \<le> 16"
  shows "okE (\<lambda>(l, h', b', s'). after k s s' \<and> (\<not> l \<longrightarrow> b' = b \<and> (acc \<longrightarrow> stage_cur s' = stage_max s'))) (run_stage j short mx loop (h, b, s))"
proof -
  define s0 where "s0 = begin_stage short mx s"
  have f0: "frame s s0" "to_go s0 = mx" by (simp_all add: s0_def begin_stage_def stage_frames to_go_def short)
  have x0: "x_inv (k + n) s0" by (rule x_inv_frame[OF f0(1) x])
  have a0: "after (k + n) s s0" by (rule after_frame[OF f0(1) x])
  show ?thesis unfolding run_stage_def prod.case s0_def[symmetric]
  proof (rule okE_bind[OF does_ok[OF d refl x0 M]])
    fix y assume y: "case y of (l, b', s') \<Rightarrow> after k s0 s' \<and> (\<not> l \<longrightarrow> b' = b \<and> (acc \<longrightarrow> to_go s' = to_go s0 - mx))"
    obtain l b1 s1 where ys: "y = (l, b1, s1)" by (cases y)
    have a1: "after k s s1" using after_trans[OF a0] y ys by simp
    obtain h' s2 where e: "end_stage j h s1 = (h', s2)" by fastforce
    have a2: "after k s s2" using after_end_stage[OF a1, of j h] e by simp
    have "stage_cur s2 = stage_cur s1" "stage_max s2 = stage_max s1" using e by (auto simp: end_stage_def Let_def)
    then show "okE (\<lambda>(l, h', b', s'). after k s s' \<and> (\<not> l \<longrightarrow> b' = b \<and> (acc \<longrightarrow> stage_cur s' = stage_max s')))
        (case y of (leave, b, s) \<Rightarrow> if leave then Inr (True, h, b, s) else let (new_hit_cnt, s) = end_stage j h s in Inr (False, new_hit_cnt, b, s))"
      using a1 a2 y f0(2) unfolding ys prod.case e Let_def by (auto simp: to_go_def)
  qed
qed

section \<open>The stages\<close>

lemma does_cast: "does acc P Q f M n c \<Longrightarrow> M = M' \<Longrightarrow> n = n' \<Longrightarrow> c = c' \<Longrightarrow> does acc P Q f M' n' c'"
  by simp

lemma UN_positions: "0 < k \<Longrightarrow> (\<Union>i\<in>set [0..<n - (k - 1)]. if E i then {f i} else {}) = f ` {i. i + k \<le> n \<and> E i}"
proof -
  assume "0 < k"
  then have "set [0..<n - (k - 1)] = {i. i + k \<le> n}" by auto
  then show ?thesis by auto
qed

lemma set_upt_Suc: "set [1..<n + 1] = {1..n}"
  by auto

lemma does_stage_cur: "does False P P (glob (\<lambda>s. s\<lparr>stage_cur := c\<rparr>)) {} 0 0"
  by (rule does_glob) (simp_all add: stage_frames)

lemma does_for_stage_cur:
  assumes "\<And>i. i < n \<Longrightarrow> does False P P (body i) {f i} 1 0"
  shows "does False P P (for_stage_cur n body) (f ` {..<n}) n 0"
proof -
  have 1: "does False P P (block [glob (\<lambda>s. s\<lparr>stage_cur := int i\<rparr>), body i]) {f i} 1 0" if "i \<in> set [0..<n]" for i
    using does_cons[OF does_stage_cur does_single[OF assms]] that by simp
  have "does False P P (for_stage_cur n body) ((\<Union>i\<in>set [0..<n]. {f i}) \<union> {}) (length [0..<n] * 1 + 0) (int (length [0..<n]) * 0 + 0)"
    unfolding for_stage_cur_def by (rule does_cons[OF does_for_each[OF 1] does_single[OF does_stage_cur]])
  moreover have "(\<Union>i\<in>set [0..<n]. {f i}) \<union> {} = f ` {..<n}" by auto
  ultimately show ?thesis by simp
qed

lemma does_walk:
  assumes "0 < k" "k \<le> 8 * length b"
  shows "does False (\<lambda>b'. b' = b) (\<lambda>b'. b' = b) (for_stage_cur (8 * length b - (k - 1)) (\<lambda>i. block
          ([glob (\<lambda>s. s\<lparr>stage_cur_byte := int (i div 8)\<rparr>)] @ flips k i @ [run_out] @ flips k i)))
     ((\<lambda>i. flip_bits k i b) ` {i. i + k \<le> 8 * length b}) (8 * length b - (k - 1)) 0"
proof -
  have "does False (\<lambda>b'. b' = b) (\<lambda>b'. b' = b) (block ([glob (\<lambda>s. s\<lparr>stage_cur_byte := int (i div 8)\<rparr>)] @ flips k i @ [run_out] @ flips k i))
      {flip_bits k i b} 1 0" if "i < 8 * length b - (k - 1)" for i
    by (rule does_cast[OF does_append[OF does_single[OF does_cur_byte] does_flip_round[of i k b False]]]) (use that assms in auto)
  note D = this
  have "{..<8 * length b - (k - 1)} = {i. i + k \<le> 8 * length b}" using assms by auto
  then show ?thesis by (intro does_cast[OF does_for_stage_cur[OF D]]) simp_all
qed

text \<open>Flipping bytes, words and double words, done and undone in place.\<close>

lemma flip_word_twice:
  assumes "i + k \<le> length b" "8 * k = LENGTH('w)"
  shows "put k i (le_load (take k (drop i (put k i w b))) :: 'w::len word) b = put k i w b" "take k (drop i (put k i w b)) = le_store k w"
    "(le_load (le_store k w) :: 'w word) = w"
proof -
  show t: "take k (drop i (put k i w b)) = le_store k w" using assms(1) by (simp add: put_def)
  show l: "(le_load (le_store k w) :: 'w word) = w" by (rule le_load_store) (simp add: assms(2))
  show "put k i (le_load (take k (drop i (put k i w b))) :: 'w::len word) b = put k i w b" unfolding t l ..
qed

lemma put_put: "i + k \<le> length b \<Longrightarrow> put k i w (put k i v b) = put k i w b"
  by (simp add: put_def)

lemma does_flip_word:
  fixes m :: "'w::len word"
  assumes "i + k \<le> length b" "8 * k = LENGTH('w)"
    and "\<And>c. f c = bindE (peek k i c) (\<lambda>w :: 'w word. poke k i (w XOR m) c)"
  shows "does acc (\<lambda>b'. b' = b) (\<lambda>b'. b' = b) (block [edit f, run_out, next_cur, edit f])
     {put k i ((le_load (take k (drop i b)) :: 'w word) XOR m) b} 1 1"
proof -
  let ?o = "le_load (take k (drop i b)) :: 'w word"
  let ?c = "put k i (?o XOR m) b"
  have 1: "does acc (\<lambda>b'. b' = b) (\<lambda>b'. b' = ?c) (edit f) {} 0 0"
    by (rule does_edit) (use assms in \<open>simp add: peek_eq poke_win\<close>)
  have "f ?c = Inr b"
    using assms by (simp add: peek_eq poke_win[of i k ?c] flip_word_twice[OF assms(1,2)] put_put put_peek xor.assoc)
  then have 2: "does acc (\<lambda>b'. b' = ?c) (\<lambda>b'. b' = b) (edit f) {} 0 0" by (intro does_edit) simp
  show ?thesis
    using does_cons[OF 1 does_cons[OF does_run_eq does_cons[OF does_next_cur does_cons[OF 2 does_nil]]]] by simp
qed

lemma does_flip16_loop:
  assumes "length eff = EFF_ALEN (length b)"
  shows "does acc (\<lambda>b'. b' = b) (\<lambda>b'. b' = b) (for_each [0..<length b - 1] (\<lambda>i. consult 2 eff i 1 (block [edit (flip_16 i), run_out, next_cur, edit (flip_16 i)])))
     ((\<lambda>i. put 2 i ((le_load (take 2 (drop i b)) :: u16) XOR 0xFFFF) b) ` {i. i + 2 \<le> length b \<and> effective 2 eff i}) (length b - 1) (int (length b - 1))"
proof -
  have "does acc (\<lambda>b'. b' = b) (\<lambda>b'. b' = b) (consult 2 eff i 1 (block [edit (flip_16 i), run_out, next_cur, edit (flip_16 i)]))
      (if effective 2 eff i then {put 2 i ((le_load (take 2 (drop i b)) :: u16) XOR 0xFFFF) b} else {}) 1 1" if "i \<in> set [0..<length b - 1]" for i
    by (rule does_consult[OF assms(1) _ does_flip_word]) (use that in \<open>auto simp: flip_16_def\<close>)
  note D = does_for_each[OF this]
  show ?thesis by (rule does_cast[OF D]) (use UN_positions[where k = 2 and n = "length b"] in simp_all)
qed

lemma does_flip32_loop:
  assumes "length eff = EFF_ALEN (length b)"
  shows "does acc (\<lambda>b'. b' = b) (\<lambda>b'. b' = b) (for_each [0..<length b - 3] (\<lambda>i. consult 4 eff i 1 (block [edit (flip_32 i), run_out, next_cur, edit (flip_32 i)])))
     ((\<lambda>i. put 4 i ((le_load (take 4 (drop i b)) :: u32) XOR 0xFFFFFFFF) b) ` {i. i + 4 \<le> length b \<and> effective 4 eff i}) (length b - 3) (int (length b - 3))"
proof -
  have "does acc (\<lambda>b'. b' = b) (\<lambda>b'. b' = b) (consult 4 eff i 1 (block [edit (flip_32 i), run_out, next_cur, edit (flip_32 i)]))
      (if effective 4 eff i then {put 4 i ((le_load (take 4 (drop i b)) :: u32) XOR 0xFFFFFFFF) b} else {}) 1 1" if "i \<in> set [0..<length b - 3]" for i
    by (rule does_consult[OF assms(1) _ does_flip_word]) (use that in \<open>auto simp: flip_32_def\<close>)
  note D = does_for_each[OF this]
  show ?thesis by (rule does_cast[OF D]) (use UN_positions[where k = 4 and n = "length b"] in simp_all)
qed

lemma does_arith_positions:
  fixes at :: "nat \<Rightarrow> 'w::len word \<Rightarrow> nat \<Rightarrow> u8 list \<times> 'a x_state_scheme \<Rightarrow> err + bool \<times> u8 list \<times> 'a x_state_scheme"
  assumes "length eff = EFF_ALEN (length b)" "0 < k"
    and at: "\<And>i j. i + k \<le> length b \<Longrightarrow>
      does acc (\<lambda>b'. b' = b) (\<lambda>b'. b' = b) (at i (le_load (take k (drop i b))) j) ((\<lambda>w. put k i w b) ` vals (le_load (take k (drop i b))) j) c (int c)"
  shows "does acc (\<lambda>b'. b' = b) (\<lambda>b'. b' = b) (positions k eff (int c * int ARITH_MAX) (\<lambda>i orig. for_each [1..<ARITH_MAX + 1] (at i orig)))
     (\<Union>i\<in>{i. i + k \<le> length b \<and> effective k eff i}. \<Union>j\<in>{1..ARITH_MAX}. (\<lambda>w. put k i w b) ` vals (le_load (take k (drop i b))) j)
     (c * (length b - (k - 1)) * ARITH_MAX) (int c * int (length b - (k - 1)) * int ARITH_MAX)"
proof -
  have "does acc (\<lambda>b'. b' = b) (\<lambda>b'. b' = b) (for_each [1..<ARITH_MAX + 1] (at i (le_load (take k (drop i b)))))
     (\<Union>j\<in>{1..ARITH_MAX}. (\<lambda>w. put k i w b) ` vals (le_load (take k (drop i b))) j) (c * ARITH_MAX) (int c * int ARITH_MAX)" if "i + k \<le> length b" for i
    by (rule does_cast[OF does_for_each[OF at[OF that]]]) (simp_all only: set_upt_Suc, simp_all)
  then show ?thesis
    by (intro does_cast[OF does_positions[OF assms(1,2), where n = "c * ARITH_MAX" and
          M = "\<lambda>i. \<Union>j\<in>{1..ARITH_MAX}. (\<lambda>w. put k i w b) ` vals (le_load (take k (drop i b))) j"]]) simp_all
qed

lemma does_arith8_loop:
  assumes "length eff = EFF_ALEN (length b)"
  shows "does acc (\<lambda>b'. b' = b) (\<lambda>b'. b' = b)
      (block [set_val_type STAGE_VAL_LE, positions 1 eff (2 * int ARITH_MAX) (\<lambda>i orig. for_each [1..<ARITH_MAX + 1] (arith8_at i orig))])
     (\<Union>i\<in>{i. i + 1 \<le> length b \<and> effective 1 eff i}. \<Union>j\<in>{1..ARITH_MAX}. (\<lambda>w. put 1 i w b) ` arith8_vals (le_load (take 1 (drop i b))) j)
     (2 * length b * ARITH_MAX) (2 * int (length b) * int ARITH_MAX)"
proof -
  note P = does_arith_positions[OF assms, of 1 acc arith8_at arith8_vals 2, OF _ does_cast[OF does_arith8_at[OF _ refl]]]
  show ?thesis by (rule does_cast[OF does_cons[OF does_set_val_type does_single[OF P[simplified of_nat_numeral]]]]) simp_all
qed

lemma does_arith16_loop:
  assumes "length eff = EFF_ALEN (length b)"
  shows "does acc (\<lambda>b'. b' = b) (\<lambda>b'. b' = b) (positions 2 eff (4 * int ARITH_MAX) (\<lambda>i orig. for_each [1..<ARITH_MAX + 1] (arith16_at i orig)))
     (\<Union>i\<in>{i. i + 2 \<le> length b \<and> effective 2 eff i}. \<Union>j\<in>{1..ARITH_MAX}. (\<lambda>w. put 2 i w b) ` arith16_vals (le_load (take 2 (drop i b))) j)
     (4 * (length b - 1) * ARITH_MAX) (4 * int (length b - 1) * int ARITH_MAX)"
proof -
  note P = does_arith_positions[OF assms, of 2 acc arith16_at arith16_vals 4, OF _ does_cast[OF does_arith16_at[OF _ refl]]]
  show ?thesis by (rule does_cast[OF P[simplified of_nat_numeral]]) simp_all
qed

lemma does_arith32_loop:
  assumes "length eff = EFF_ALEN (length b)"
  shows "does acc (\<lambda>b'. b' = b) (\<lambda>b'. b' = b) (positions 4 eff (4 * int ARITH_MAX) (\<lambda>i orig. for_each [1..<ARITH_MAX + 1] (arith32_at i orig)))
     (\<Union>i\<in>{i. i + 4 \<le> length b \<and> effective 4 eff i}. \<Union>j\<in>{1..ARITH_MAX}. (\<lambda>w. put 4 i w b) ` arith32_vals (le_load (take 4 (drop i b))) j)
     (4 * (length b - 3) * ARITH_MAX) (4 * int (length b - 3) * int ARITH_MAX)"
proof -
  note P = does_arith_positions[OF assms, of 4 acc arith32_at arith32_vals 4, OF _ does_cast[OF does_arith32_at[OF _ refl]]]
  show ?thesis by (rule does_cast[OF P[simplified of_nat_numeral]]) simp_all
qed

lemma does_interest8_loop:
  assumes "length eff = EFF_ALEN (length b)"
  shows "does acc (\<lambda>b'. b' = b) (\<lambda>b'. b' = b)
      (block [set_val_type STAGE_VAL_LE, positions 1 eff (int (length interesting_8)) (\<lambda>i orig. for_each interesting_8 (interest8_at i orig))])
     (\<Union>i\<in>{i. i + 1 \<le> length b \<and> effective 1 eff i}. (\<lambda>w. put 1 i w b) ` interest8_vals (le_load (take 1 (drop i b))))
     (length b * length interesting_8) (int (length b * length interesting_8))"
proof -
  note P = does_positions[OF assms, of 1 acc "\<lambda>i orig. for_each interesting_8 (interest8_at i orig)", OF _ does_interest8]
  show ?thesis by (rule does_cast[OF does_cons[OF does_set_val_type does_single[OF P]]]) simp_all
qed

lemma does_interest16_loop:
  assumes "length eff = EFF_ALEN (length b)"
  shows "does acc (\<lambda>b'. b' = b) (\<lambda>b'. b' = b) (positions 2 eff (2 * int (length interesting_16))
          (\<lambda>i orig. block [for_each interesting_16 (interest16_at i orig), edit (poke 2 i orig)]))
     (\<Union>i\<in>{i. i + 2 \<le> length b \<and> effective 2 eff i}. (\<lambda>w. put 2 i w b) ` interest16_vals (le_load (take 2 (drop i b))))
     (2 * (length b - 1) * length interesting_16) (2 * int (length b - 1) * int (length interesting_16))"
proof -
  note P = does_positions[OF assms, of 2 acc "\<lambda>i orig. block [for_each interesting_16 (interest16_at i orig), edit (poke 2 i orig)]", OF _ does_interest16]
  show ?thesis by (rule does_cast[OF P]) simp_all
qed

lemma does_interest32_loop:
  assumes "length eff = EFF_ALEN (length b)"
  shows "does acc (\<lambda>b'. b' = b) (\<lambda>b'. b' = b) (positions 4 eff (2 * int (length interesting_32))
          (\<lambda>i orig. block [for_each interesting_32 (interest32_at i orig), edit (poke 4 i orig)]))
     (\<Union>i\<in>{i. i + 4 \<le> length b \<and> effective 4 eff i}. (\<lambda>w. put 4 i w b) ` interest32_vals (le_load (take 4 (drop i b))))
     (2 * (length b - 3) * length interesting_32) (2 * int (length b - 3) * int (length interesting_32))"
proof -
  note P = does_positions[OF assms, of 4 acc "\<lambda>i orig. block [for_each interesting_32 (interest32_at i orig), edit (poke 4 i orig)]", OF _ does_interest32]
  show ?thesis by (rule does_cast[OF P]) simp_all
qed

end
