(* ===== verification/Afl_Det.thy ===== *)
theory Afl_Det
  imports Afl_Plans
begin

unbundle bit_operations_syntax

text \<open>
  Safety of the deterministic stages as a whole, and the properties of the single stages: the inputs
  they run, the effector map, the buffer they leave and the count of runs they announce.
\<close>

section \<open>Loops with a budget of queue entries\<close>

lemma for_each_down:
  assumes "\<And>i j st. i \<in> set is \<Longrightarrow> k \<le> j \<Longrightarrow> I (j + m) st \<Longrightarrow> okE (\<lambda>(l, st). if l then L st else I j st) (body i st)" "I (k + m * length is) st"
  shows "okE (\<lambda>(l, st). if l then L st else I k st) (for_each is body st)"
  using assms
proof (induction "is" arbitrary: st)
  case (Cons i js)
  have step: "okE (\<lambda>(l, st). if l then L st else I (k + m * length js) st) (body i st)"
    using Cons.prems(1)[of i "k + m * length js" st] Cons.prems(2) by (simp add: algebra_simps)
  show ?case unfolding for_each.simps
  proof (rule okE_bind[OF step])
    fix x assume x: "case x of (l, st) \<Rightarrow> if l then L st else I (k + m * length js) st"
    obtain l t where xs: "x = (l, t)" by (cases x)
    have "\<not> l \<Longrightarrow> okE (\<lambda>(l, st). if l then L st else I k st) (for_each js body t)"
      using Cons.IH[of t] Cons.prems(1) x xs by simp
    then show "okE (\<lambda>(l, st). if l then L st else I k st) (case x of (l, s) \<Rightarrow> if l then Inr (True, s) else for_each js body s)"
      using x xs by (cases l) simp_all
  qed
qed simp

lemma for_each_upt:
  assumes "\<And>i st. i < n \<Longrightarrow> I i st \<Longrightarrow> okE (\<lambda>(l, st). if l then L st else I (Suc i) st) (body i st)" "I 0 st"
  shows "okE (\<lambda>(l, st). if l then L st else I n st) (for_each [0..<n] body st)"
  using assms(1)
proof (induction n)
  case (Suc n)
  have IH: "okE (\<lambda>(l, st). if l then L st else I n st) (for_each [0..<n] body st)" using Suc by simp
  have "for_each [0..<Suc n] body st = bindE (for_each [0..<n] body st) (\<lambda>(l, s). if l then Inr (True, s) else for_each [n] body s)"
    by (simp add: for_each_append)
  moreover have "okE (\<lambda>(l, st). if l then L st else I (Suc n) st) \<dots>"
  proof (rule okE_bind[OF IH])
    fix x assume x: "case x of (l, st) \<Rightarrow> if l then L st else I n st"
    obtain l t where xs: "x = (l, t)" by (cases x)
    have "okE (\<lambda>(l, st). if l then L st else I (Suc n) st) (for_each [n] body t)" if "\<not> l"
      unfolding for_each.simps by (rule okE_bind[OF Suc.prems]) (use x xs that in \<open>auto split: if_splits\<close>)
    then show "okE (\<lambda>(l, st). if l then L st else I (Suc n) st) (case x of (l, s) \<Rightarrow> if l then Inr (True, s) else for_each [n] body s)"
      using x unfolding xs prod.case by (cases l) (simp_all only: if_True if_False okE_simps prod.case not_False_eq_True)
  qed
  ultimately show ?case by simp
qed (use assms(2) in simp)

lemma after_x_inv: "after k s t \<Longrightarrow> x_inv k t"
  by (simp add: after_def)

lemma after_frame': "after k s t \<Longrightarrow> frame t u \<Longrightarrow> after k s u"
  by (rule after_trans[OF _ after_frame[OF _ after_x_inv]])

lemma after_still: "after k s t \<Longrightarrow> still t u \<Longrightarrow> after k s u"
  using after_frame'[of k s t u] by (simp add: still_def)

lemma after_stage [intro]:
  assumes "after k s t"
  shows "after k s (t\<lparr>stage_cur := a\<rparr>)" "after k s (t\<lparr>stage_max := b\<rparr>)" "after k s (t\<lparr>stage_cur_byte := c\<rparr>)"
    "after k s (t\<lparr>stage_cur := a, stage_cur_byte := c\<rparr>)" "after k s (t\<lparr>stage_val_type := e\<rparr>)"
  by (rule after_frame'[OF assms], simp add: stage_frames)+

lemma after_mono: "after k s t \<Longrightarrow> j \<le> k \<Longrightarrow> after j s t"
  by (auto simp: after_def intro: x_inv_mono)

lemma after_refl: "x_inv k s \<Longrightarrow> after k s s"
  by (simp add: after_def)

lemma after_cfs:
  fixes s :: "'a x_state_scheme"
  assumes "after (Suc j) s0 s" "length c < 2 ^ 32"
  shows "okE (\<lambda>(l, s'). after j s0 s' \<and> to_go s' = to_go s) (common_fuzz_stuff c s)"
proof (rule okE_mono[OF common_fuzz_stuff_ok[OF _ assms(2)]])
  show "x_inv (Suc j) s" using assms(1) by (simp add: after_def)
  fix x :: "bool \<times> 'a x_state_scheme" assume "case x of (stop, s') \<Rightarrow> fuzzed j s s'"
  then show "case x of (l, s') \<Rightarrow> after j s0 s' \<and> to_go s' = to_go s"
    using after_trans[OF assms(1) fuzzed_after] by (auto simp: fuzzed_def to_go_def)
qed

section \<open>Token collection\<close>

lemma UR_still: "0 < n \<Longrightarrow> okE (\<lambda>(r, s'). r < n \<and> still s s') (UR n s)"
  by (simp add: UR_def Let_def still_def frame_def part_defs)

lemma UR_extras: "0 < n \<Longrightarrow> okE (\<lambda>(r, s'). a_extras s' = a_extras s) (UR n s)"
  by (simp add: UR_def Let_def)

lemma sort_a_extras_auto_ok:
  assumes "\<forall>e\<in>set es. 0 < length (ed_data e) \<and> length (ed_data e) \<le> MAX_AUTO_EXTRA"
  shows "auto_ok (sort_a_extras es)"
proof -
  let ?es = "qsort compare_extras_use_d es" let ?n = "min USE_AUTO_EXTRAS (length es)"
  have s: "set (sort_a_extras es) = set es" by (metis mset_sort_a_extras set_mset_mset)
  have t: "take USE_AUTO_EXTRAS (sort_a_extras es) = qsort compare_extras_len (take ?n ?es)"
    by (cases "USE_AUTO_EXTRAS \<le> length es"; simp add: sort_a_extras_def Let_def min_def)
  have "\<forall>x\<in>set (take ?n ?es). length (ed_data x) < 2 ^ 31" using assms by (fastforce simp: cfg_simps dest!: in_set_takeD)
  then have "sorted (map (\<lambda>e. int (length (ed_data e))) (qsort compare_extras_len (take ?n ?es)))" by (rule by_len.qsort_sorted)
  then have "sorted (map (\<lambda>e. length (ed_data e)) (take USE_AUTO_EXTRAS (sort_a_extras es)))"
    unfolding t by (simp add: sorted_wrt_map)
  then show ?thesis using assms s by (simp add: auto_ok_def)
qed

lemma still_auto:
  assumes "auto_ok es"
  shows "still s (s\<lparr>auto_changed := True, a_extras := es\<rparr>)" "still s t \<Longrightarrow> still s (t\<lparr>a_extras := es\<rparr>)"
proof -
  have s: "still t (t\<lparr>a_extras := es\<rparr>)" for t :: "'a x_state_scheme" using assms by (simp add: still_def frame_def part_defs)
  show "still s (s\<lparr>auto_changed := True, a_extras := es\<rparr>)" using assms by (simp add: still_def frame_def part_defs)
  show "still s t \<Longrightarrow> still s (t\<lparr>a_extras := es\<rparr>)" using s still_trans by blast
qed

text \<open>A new or known token: whatever list results before sorting, its tokens have the right lengths.\<close>

lemma maybe_add_auto_still:
  assumes "auto_ok (a_extras s)" "0 < length mem" "length mem \<le> MAX_AUTO_EXTRA"
  shows "okE (still s) (maybe_add_auto mem s)"
proof -
  let ?ok = "\<lambda>es. \<forall>e\<in>set es. 0 < length (ed_data e) \<and> length (ed_data e) \<le> MAX_AUTO_EXTRA"
  let ?new = "\<lparr>ed_data = mem, ed_hit = 0\<rparr>"
  define s1 where "s1 = s\<lparr>auto_changed := True\<rparr>"
  have es: "?ok (a_extras s)" "a_extras s1 = a_extras s" using assms(1) by (simp_all add: auto_ok_def s1_def)
  have bump: "?ok es'" if "bump_hit (a_extras s) mem = Some es'" for es'
  proof -
    have "ed_data ` set es' = ed_data ` set (a_extras s)" using arg_cong[OF conjunct1[OF bump_hit_Some[OF that]], of set] by simp
    then have "\<forall>d\<in>ed_data ` set es'. 0 < length d \<and> length d \<le> MAX_AUTO_EXTRA" using es(1) by simp
    then show ?thesis by simp
  qed
  have upd: "?ok ((a_extras s)[i := ?new])" for i
    using es(1) assms(2,3) set_update_subset_insert[of "a_extras s" i ?new] by (auto simp: subset_iff)
  have st: "still s s1" by (simp add: s1_def still_def frame_def part_defs)
  have "okE (\<lambda>t. (\<exists>es u. t = u\<lparr>a_extras := es\<rparr> \<and> still s u \<and> ?ok es))
      (case bump_hit (a_extras s1) mem of
             Some es \<Rightarrow> Inr (s1\<lparr>a_extras := es\<rparr>)
           | None \<Rightarrow>
               if length (a_extras s1) < MAX_AUTO_EXTRAS then Inr (s1\<lparr>a_extras := a_extras s1 @ [?new]\<rparr>)
               else bindE (UR ((MAX_AUTO_EXTRAS + 1) div 2) s1) (\<lambda>(r, s). Inr (s\<lparr>a_extras := (a_extras s)[MAX_AUTO_EXTRAS div 2 + r := ?new]\<rparr>)))"
  proof (cases "bump_hit (a_extras s1) mem")
    case (Some es')
    then show ?thesis using bump es(2) st by auto
  next
    case None
    have "okE (\<lambda>t. (\<exists>es u. t = u\<lparr>a_extras := es\<rparr> \<and> still s u \<and> ?ok es))
       (bindE (UR ((MAX_AUTO_EXTRAS + 1) div 2) s1) (\<lambda>(r, s). Inr (s\<lparr>a_extras := (a_extras s)[MAX_AUTO_EXTRAS div 2 + r := ?new]\<rparr>)))"
    proof (rule okE_bind[OF okE_conj[OF UR_still UR_extras]])
      fix x assume x: "(case x of (r, s') \<Rightarrow> r < (MAX_AUTO_EXTRAS + 1) div 2 \<and> still s1 s') \<and> (case x of (r, s') \<Rightarrow> a_extras s' = a_extras s1)"
      obtain r u where xs: "x = (r, u)" by (cases x)
      have "still s u" "a_extras u = a_extras s" using x xs still_trans[OF st] es(2) by auto
      then show "okE (\<lambda>t. (\<exists>es u. t = u\<lparr>a_extras := es\<rparr> \<and> still s u \<and> ?ok es))
          (case x of (r, s) \<Rightarrow> Inr (s\<lparr>a_extras := (a_extras s)[MAX_AUTO_EXTRAS div 2 + r := ?new]\<rparr>))"
        using upd unfolding xs by auto
    qed (simp_all add: cfg_simps)
    moreover have "\<exists>es u. s1\<lparr>a_extras := a_extras s @ [?new]\<rparr> = u\<lparr>a_extras := es\<rparr> \<and> still s u \<and> ?ok es"
      by (rule exI[of _ "a_extras s @ [?new]"], rule exI[of _ s1]) (use es(1) assms(2,3) st in auto)
    ultimately show ?thesis using None es(2) by simp
  qed
  then have "okE (still s) (bindE (case bump_hit (a_extras s1) mem of
             Some es \<Rightarrow> Inr (s1\<lparr>a_extras := es\<rparr>)
           | None \<Rightarrow>
               if length (a_extras s1) < MAX_AUTO_EXTRAS then Inr (s1\<lparr>a_extras := a_extras s1 @ [?new]\<rparr>)
               else bindE (UR ((MAX_AUTO_EXTRAS + 1) div 2) s1) (\<lambda>(r, s). Inr (s\<lparr>a_extras := (a_extras s)[MAX_AUTO_EXTRAS div 2 + r := ?new]\<rparr>)))
      (\<lambda>s. Inr (s\<lparr>a_extras := sort_a_extras (a_extras s)\<rparr>)))"
  proof (rule okE_bind)
    fix t assume "\<exists>es u. t = u\<lparr>a_extras := es\<rparr> \<and> still s u \<and> ?ok es"
    then obtain es u where t: "t = u\<lparr>a_extras := es\<rparr>" "still s u" "?ok es" by blast
    have "still s (u\<lparr>a_extras := sort_a_extras es\<rparr>)" by (rule still_auto(2)[OF sort_a_extras_auto_ok[OF t(3)] t(2)])
    then show "okE (still s) (Inr (t\<lparr>a_extras := sort_a_extras (a_extras t)\<rparr>))" by (simp add: t(1))
  qed
  then show ?thesis unfolding maybe_add_auto_def Let_def s1_def[symmetric] by simp
qed

definition tok_ok :: "tokens \<Rightarrow> bool" where
  "tok_ok t \<longleftrightarrow> length (a_collect t) = MAX_AUTO_EXTRA"

lemma offer_still: "tok_ok t \<Longrightarrow> auto_ok (a_extras s) \<Longrightarrow> okE (still s) (offer t s)"
  using maybe_add_auto_still[of s "take (unat (a_len t)) (a_collect t)"]
  by (auto simp: offer_def tok_ok_def cfg_simps word_le_nat_alt)

lemma tok_ok_simps [simp]: "tok_ok (grab c t) = tok_ok t" "tok_ok (t\<lparr>a_len := x, prev_cksum := y\<rparr>) = tok_ok t"
  by (simp_all add: tok_ok_def grab_def)

lemma collect_token_ok:
  fixes s :: "'a x_state_scheme"
  assumes "i < 8 * length b" "tok_ok t" "auto_ok (a_extras s)"
  shows "okE (\<lambda>(t', s'). tok_ok t' \<and> still s s') (collect_token q i b (t, s))"
proof -
  have p: "peek 1 (i div 8) b = Inr (le_load (take 1 (drop (i div 8) b)) :: u8)" using assms(1) by (intro peek_eq) auto
  define c :: u8 where "c = le_load (take 1 (drop (i div 8) b))"
  define ck where "ck = hash32 (trace_bits s) HASH_CONST"
  have m: "okE (\<lambda>(t', s'). tok_ok t' \<and> still s s')
     (if stage_cur s = stage_max s - 1 \<and> ck = prev_cksum t then bindE (offer (grab c t) s) (\<lambda>s. Inr (grab c t, s))
      else if ck \<noteq> prev_cksum t then bindE (offer t s) (\<lambda>s. Inr (t\<lparr>a_len := 0, prev_cksum := ck\<rparr>, s)) else Inr (t, s))"
    using assms(2,3) by (auto intro: okE_bind[OF offer_still])
  have "okE (\<lambda>(t', s'). tok_ok t' \<and> still s s') (bindE
     (if stage_cur s = stage_max s - 1 \<and> ck = prev_cksum t then bindE (offer (grab c t) s) (\<lambda>s. Inr (grab c t, s))
      else if ck \<noteq> prev_cksum t then bindE (offer t s) (\<lambda>s. Inr (t\<lparr>a_len := 0, prev_cksum := ck\<rparr>, s)) else Inr (t, s))
     (\<lambda>(t, s). Inr (if ck \<noteq> exec_cksum (qs s ! q) then grab c t else t, s)))"
    by (rule okE_bind[OF m]) auto
  then show ?thesis using assms(2) unfolding collect_token_def prod.case p bindE_simps Let_def c_def[symmetric] ck_def[symmetric] by simp
qed

section \<open>Single bit flips\<close>

lemma does_flip1:
  assumes "i < 8 * length b"
  shows "does False (\<lambda>b'. b' = b) (\<lambda>b'. b' = b)
     (block ([glob (\<lambda>s. s\<lparr>stage_cur := int i, stage_cur_byte := int (i div 8)\<rparr>)] @ flips 1 i @ [run_out] @ flips 1 i)) {flip_bits 1 i b} 1 0"
  by (rule does_cast[OF does_append[OF does_single[OF does_glob] does_flip_round[of i 1 b]]]) (use assms in \<open>simp_all add: stage_frames\<close>)

lemma flip1_round_ok:
  fixes s :: "'a x_state_scheme"
  assumes "i < 8 * length b" "length b < 2 ^ 32" "tok_ok t" "after (j + 1) s0 s"
  shows "okE (\<lambda>(l, b', t', s'). after j s0 s' \<and> (\<not> l \<longrightarrow> b' = b \<and> tok_ok t')) (flip1_round q i (b, t, s))"
  unfolding flip1_round_def prod.case
proof (rule okE_bind[OF does_ok[OF does_flip1[OF assms(1)] refl]])
  show "x_inv (j + 1) s" using assms(4) by (simp add: after_def)
  show "\<forall>c\<in>{flip_bits 1 i b}. length c < 2 ^ 32" using assms(2) by simp
  fix y :: "bool \<times> u8 list \<times> 'a x_state_scheme"
  assume y: "case y of (l, b', s') \<Rightarrow> after j s s' \<and> (\<not> l \<longrightarrow> b' = b \<and> (False \<longrightarrow> to_go s' = to_go s - 0))"
  obtain l b1 s1 where ys: "y = (l, b1, s1)" by (cases y)
  have a: "after j s0 s1" using after_trans[OF assms(4)] y ys by simp
  have "okE (\<lambda>(l, b', t', s'). after j s0 s' \<and> (\<not> l \<longrightarrow> b' = b \<and> tok_ok t')) (bindE (collect_token q i b (t, s1)) (\<lambda>(t, s). Inr (False, b, t, s)))"
    by (rule okE_bind[OF collect_token_ok[OF assms(1,3)]]) (use after_still[OF a] a in \<open>auto simp: after_def x_inv_def\<close>)
  then show "okE (\<lambda>(l, b', t', s'). after j s0 s' \<and> (\<not> l \<longrightarrow> b' = b \<and> tok_ok t'))
      (case y of (leave, b, s) \<Rightarrow> if leave then Inr (True, b, t, s) else bindE (collect_token q i b (t, s)) (\<lambda>(t, s). Inr (False, b, t, s)))"
    using y a unfolding ys by (cases l) auto
qed

lemma flip1_loop_ok:
  fixes s :: "'a x_state_scheme"
  assumes "length b < 2 ^ 29" "after (k + 8 * length b) s0 s"
  shows "okE (\<lambda>(l, b', s'). after k s0 s' \<and> (\<not> l \<longrightarrow> b' = b)) (flip1_loop q (b, s))"
proof -
  define t0 where "t0 = \<lparr>a_collect = replicate MAX_AUTO_EXTRA 0, a_len = 0, prev_cksum = exec_cksum (qs s ! q)\<rparr>"
  have "tok_ok t0" by (simp add: tok_ok_def t0_def)
  have "okE (\<lambda>(l, st). if l then (case st of (b', t', s') \<Rightarrow> after k s0 s')
      else (case st of (b', t', s') \<Rightarrow> b' = b \<and> tok_ok t' \<and> after k s0 s')) (for_each [0..<8 * length b] (flip1_round q) (b, t0, s))"
  proof (rule for_each_down[where m = 1 and I = "\<lambda>j (b', t', s'). b' = b \<and> tok_ok t' \<and> after j s0 s'"])
    fix i j st assume i: "i \<in> set [0..<8 * length b]" and kj: "k \<le> j"
      and st: "case st of (b', t', s') \<Rightarrow> b' = b \<and> tok_ok t' \<and> after (j + 1) s0 s'"
    obtain t s1 where sts: "st = (b, t, s1)" "tok_ok t" "after (j + 1) s0 s1" using st by (cases st) auto
    show "okE (\<lambda>(l, st). if l then (case st of (b', t', s') \<Rightarrow> after k s0 s')
      else (case st of (b', t', s') \<Rightarrow> b' = b \<and> tok_ok t' \<and> after j s0 s')) (flip1_round q i st)"
      unfolding sts(1)
      by (rule okE_mono[OF flip1_round_ok[OF _ _ sts(2,3)]]) (use i assms(1) after_mono[OF _ kj] in auto)
  qed (use \<open>tok_ok t0\<close> assms(2) in simp)
  then show ?thesis unfolding flip1_loop_def prod.case t0_def[symmetric]
    by (rule okE_bind) (auto split: if_splits)
qed

lemma after_begin_stage: "after k s t \<Longrightarrow> length short \<le> 16 \<Longrightarrow> after k s (begin_stage short mx t)"
  by (erule after_frame') (simp add: begin_stage_def stage_frames)

lemma flip1_stage_ok:
  fixes s :: "'a x_state_scheme"
  assumes "length b < 2 ^ 29" "x_inv (k + 8 * length b) s"
  shows "okE (\<lambda>(l, h, b', s'). after k s s' \<and> (\<not> l \<longrightarrow> b' = b)) (flip1_stage q (b, s))"
proof -
  define s1 where "s1 = begin_stage ''flip1'' (int (8 * length b)) (s\<lparr>stage_val_type := STAGE_VAL_NONE\<rparr>)"
  have a: "after (k + 8 * length b) s s1" unfolding s1_def
    by (rule after_begin_stage, rule after_frame[OF _ assms(2)]) (simp_all add: stage_frames)
  have "okE (\<lambda>(l, h, b', s'). after k s s' \<and> (\<not> l \<longrightarrow> b' = b)) (bindE (flip1_loop q (b, s1)) (\<lambda>(leave, b, s).
       if leave then Inr (True, h, b, s)
       else let (new_hit_cnt, s) = end_stage STAGE_FLIP1 h s in Inr (False, new_hit_cnt, b, s)))" for h
    by (rule okE_bind[OF flip1_loop_ok[OF assms(1) a]])
      (auto simp: Let_def split_beta intro: after_end_stage)
  then show ?thesis unfolding flip1_stage_def run_stage_def prod.case Let_def s1_def by simp
qed

section \<open>Effector map\<close>

definition eff_ok :: "nat \<Rightarrow> effector \<Rightarrow> bool" where
  "eff_ok len = (\<lambda>(eff, cnt). length eff = EFF_ALEN len \<and> set eff \<subseteq> {0, 1} \<and> unat cnt = length (filter (\<lambda>x. x \<noteq> 0) eff) \<and>
     eff ! 0 = 1 \<and> eff ! EFF_APOS (len - 1) = 1)"

lemma count_marked:
  fixes eff :: "u8 list"
  assumes "p < length eff" "eff ! p = 0"
  shows "length (filter (\<lambda>x. x \<noteq> 0) (eff[p := 1])) = Suc (length (filter (\<lambda>x. x \<noteq> 0) eff))"
proof -
  have e: "eff = take p eff @ 0 # drop (Suc p) eff" using id_take_nth_drop[OF assms(1)] assms(2) by simp
  have "filter (\<lambda>x. x \<noteq> 0) eff = filter (\<lambda>x. x \<noteq> 0) (take p eff) @ filter (\<lambda>x. x \<noteq> 0) (drop (Suc p) eff)"
    by (subst e) simp
  then show ?thesis unfolding upd_conv_take_nth_drop[OF assms(1)] by simp
qed

lemma EFF_ALEN_bounds: "0 < len \<Longrightarrow> 0 < EFF_ALEN len" "EFF_ALEN len \<le> len"
  by (auto simp: EFF_APOS_def EFF_ALEN_def EFF_REM_def cfg_simps)

lemma eff_init_ok: "0 < len \<Longrightarrow> eff_ok len (eff_init len)"
proof -
  assume len: "0 < len"
  define m :: "u8 list" where "m = (replicate (EFF_ALEN len) 0)[0 := 1]"
  have al: "0 < EFF_ALEN len" by (rule EFF_ALEN_bounds(1)[OF len])
  have ap: "EFF_APOS (len - 1) < EFF_ALEN len" by (rule EFF_APOS_less) (use len in simp)
  have z: "filter (\<lambda>x. x \<noteq> (0::u8)) (replicate n 0) = []" for n by simp
  have m1: "length (filter (\<lambda>x. x \<noteq> 0) m) = 1" "length m = EFF_ALEN len" "m ! 0 = 1" "set m \<subseteq> {0, 1}"
    using count_marked[of 0 "replicate (EFF_ALEN len) 0"] al set_update_subset_insert[of "replicate (EFF_ALEN len) 0" 0 "1 :: u8"]
    by (auto simp: m_def)
  show ?thesis
  proof (cases "EFF_APOS (len - 1) = 0")
    case True
    then show ?thesis using m1 by (simp add: eff_init_def Let_def m_def[symmetric] eff_ok_def)
  next
    case False
    have "m ! EFF_APOS (len - 1) = 0" using False ap by (simp add: m_def)
    then have "length (filter (\<lambda>x. x \<noteq> 0) (m[EFF_APOS (len - 1) := 1])) = 2" using count_marked[of "EFF_APOS (len - 1)" m] ap m1 by simp
    moreover have "set (m[EFF_APOS (len - 1) := 1]) \<subseteq> {0, 1}" using m1(4) set_update_subset_insert[of m "EFF_APOS (len - 1)" 1] by auto
    ultimately show ?thesis using False m1 ap al by (simp add: eff_init_def Let_def m_def[symmetric] eff_ok_def nth_list_update)
  qed
qed

text \<open>
  One round keeps the marks there are; when the checksum is not consulted, because the input is short
  or the target not instrumented, it marks its own block.
\<close>

definition blind :: "nat \<Rightarrow> 'a x_state_scheme \<Rightarrow> bool" where
  "blind len s \<longleftrightarrow> len < EFF_MIN_LEN \<or> dumb_mode s \<noteq> 0"

definition marks :: "bool \<Rightarrow> nat \<Rightarrow> effector \<Rightarrow> effector \<Rightarrow> bool" where
  "marks own i e e' \<longleftrightarrow> (\<forall>p. fst e ! p = 1 \<longrightarrow> fst e' ! p = 1) \<and> (own \<longrightarrow> fst e' ! EFF_APOS i = 1)"

lemma mark_eff_ok:
  assumes "eff_ok len e" "i < len" "len < 2 ^ 32"
  shows "okE (\<lambda>e'. eff_ok len e' \<and> marks (blind len s) i e e') (mark_eff q len i s e)"
proof -
  obtain eff cnt where e: "e = (eff, cnt)" by (cases e)
  note ok = assms(1)[unfolded e eff_ok_def prod.case]
  have p: "EFF_APOS i < length eff" using EFF_APOS_less[OF assms(2)] ok by simp
  have "eff_ok len (eff[EFF_APOS i := 1], cnt + 1)" if z: "eff ! EFF_APOS i = 0"
  proof -
    have c: "length (filter (\<lambda>x. x \<noteq> 0) (eff[EFF_APOS i := 1])) = Suc (unat cnt)" using count_marked[OF p z] ok by simp
    then have "Suc (unat cnt) \<le> length eff" using length_filter_le[of "\<lambda>x. x \<noteq> 0" "eff[EFF_APOS i := 1]"] by simp
    then have "Suc (unat cnt) < 2 ^ 32" using ok EFF_ALEN_bounds(2)[of len] assms(3) by simp
    then have "unat (cnt + 1) = Suc (unat cnt)" by (simp add: unat_word_ariths)
    moreover have "set (eff[EFF_APOS i := 1]) \<subseteq> {0, 1}" using ok set_update_subset_insert[of eff "EFF_APOS i" 1] by auto
    ultimately show ?thesis using ok c p by (auto simp: eff_ok_def nth_list_update)
  qed
  moreover have "marks (blind len s) i e (eff[EFF_APOS i := 1], c)" for c
    using p by (auto simp: e marks_def nth_list_update)
  moreover have "marks (blind len s) i e e" if "eff ! EFF_APOS i \<noteq> 0 \<or> \<not> blind len s"
  proof -
    have "eff ! EFF_APOS i \<in> {0, 1}" using ok nth_mem[OF p] by blast
    then show ?thesis using that by (auto simp: e marks_def)
  qed
  moreover have "NOT x \<noteq> x" for x :: u32
  proof
    assume "NOT x = x"
    then have "bit (NOT x) 0 = bit x 0" by simp
    then show False by (simp add: bit_simps)
  qed
  ultimately show ?thesis using p assms(1) unfolding e mark_eff_def by (auto simp: Let_def blind_def)
qed

definition flipped_byte :: "nat \<Rightarrow> u8 list \<Rightarrow> u8 list" where
  "flipped_byte i b = put 1 i ((le_load (take 1 (drop i b)) :: u8) XOR 0xFF) b"

lemma flip_byte_eq:
  assumes "i < length b"
  shows "flip_byte i b = Inr (flipped_byte i b)" "flip_byte i (flipped_byte i b) = Inr b" "length (flipped_byte i b) = length b"
proof -
  have i: "i + 1 \<le> length b" using assms by simp
  show 1: "flip_byte i b = Inr (flipped_byte i b)" unfolding flip_byte_def flipped_byte_def by (simp only: peek_eq[OF i] bindE_simps poke_win[OF i win_refl])
  show l: "length (flipped_byte i b) = length b" unfolding flipped_byte_def by (rule length_put_word[OF i])
  have i': "i + 1 \<le> length (flipped_byte i b)" using l i by simp
  show "flip_byte i (flipped_byte i b) = Inr b"
    unfolding flip_byte_def peek_eq[OF i'] bindE_simps poke_win[OF i' win_refl]
    unfolding flipped_byte_def put_put[OF i]
    using flip_word_twice(2,3)[OF i, where 'w=8, of "(le_load (take 1 (drop i b)) :: u8) XOR 0xFF"] put_peek[OF i, where 'w=8]
    by (simp add: xor.assoc)
qed

lemma does_flip8:
  assumes "i < length b"
  shows "does False (\<lambda>b'. b' = b) (\<lambda>b'. b' = flipped_byte i b)
     (block [glob (\<lambda>s. s\<lparr>stage_cur := int i, stage_cur_byte := int i\<rparr>), edit (flip_byte i), run_out]) {flipped_byte i b} 1 0"
proof -
  have e: "does False (\<lambda>b'. b' = b) (\<lambda>b'. b' = flipped_byte i b) (edit (flip_byte i)) {} 0 0"
    by (rule does_edit) (simp add: flip_byte_eq[OF assms])
  show ?thesis
    by (rule does_cast[OF does_cons[OF does_glob does_cons[OF e does_single[OF does_run_eq]]]]) (simp_all add: stage_frames)
qed

lemma flip8_round_ok:
  fixes s :: "'a x_state_scheme"
  assumes "i < length b" "length b < 2 ^ 29" "eff_ok (length b) e" "after (j + 1) s0 s"
  shows "okE (\<lambda>(l, b', e', s'). after j s0 s' \<and> (\<not> l \<longrightarrow> b' = b \<and> eff_ok (length b) e' \<and> marks (blind (length b) s0) i e e')) (flip8_round q i (b, e, s))"
  unfolding flip8_round_def prod.case
proof (rule okE_bind[OF does_ok[OF does_flip8[OF assms(1)] refl]])
  show "x_inv (j + 1) s" using assms(4) by (simp add: after_def)
  show "\<forall>c\<in>{flipped_byte i b}. length c < 2 ^ 32" using assms(2) flip_byte_eq(3)[OF assms(1)] by simp
  fix y :: "bool \<times> u8 list \<times> 'a x_state_scheme"
  assume y: "case y of (l, b', s') \<Rightarrow> after j s s' \<and> (\<not> l \<longrightarrow> b' = flipped_byte i b \<and> (False \<longrightarrow> to_go s' = to_go s - 0))"
  obtain l b1 s1 where ys: "y = (l, b1, s1)" by (cases y)
  have a: "after j s0 s1" using after_trans[OF assms(4)] y ys by simp
  then have bl: "blind (length b) s1 = blind (length b) s0" by (simp add: blind_def after_def settings_def)
  have "okE (\<lambda>(l, b', e', s'). after j s0 s' \<and> (\<not> l \<longrightarrow> b' = b \<and> eff_ok (length b) e' \<and> marks (blind (length b) s0) i e e'))
      (bindE (mark_eff q (length b) i s1 e) (\<lambda>e. bindE (flip_byte i (flipped_byte i b)) (\<lambda>b. Inr (False, b, e, s1))))"
    by (rule okE_bind[OF mark_eff_ok[OF assms(3,1)]]) (use assms(2) a bl flip_byte_eq(2)[OF assms(1)] in auto)
  then show "okE (\<lambda>(l, b', e', s'). after j s0 s' \<and> (\<not> l \<longrightarrow> b' = b \<and> eff_ok (length b) e' \<and> marks (blind (length b) s0) i e e'))
      (case y of (leave, b, s) \<Rightarrow> if leave then Inr (True, b, e, s)
        else bindE (mark_eff q (length b) i s e) (\<lambda>e. bindE (flip_byte i b) (\<lambda>b. Inr (False, b, e, s))))"
    using y a flip_byte_eq(3)[OF assms(1)] unfolding ys by (cases l) auto
qed

text \<open>The map the later stages consult; \<open>all\<close> demands that no position is left out.\<close>

definition eff_map_ok :: "nat \<Rightarrow> bool \<Rightarrow> u8 list \<Rightarrow> bool" where
  "eff_map_ok len all eff \<longleftrightarrow> length eff = EFF_ALEN len \<and> set eff \<subseteq> {0, 1} \<and> eff ! 0 = 1 \<and> eff ! EFF_APOS (len - 1) = 1 \<and>
     (all \<longrightarrow> (\<forall>i<len. eff ! EFF_APOS i = 1))"

lemma eff_finish_ok:
  assumes "eff_ok len e" "0 < len" "all \<longrightarrow> (\<forall>i<len. fst e ! EFF_APOS i = 1)"
  shows "eff_map_ok len all (fst (eff_finish len e s))" "frame s (snd (eff_finish len e s))"
proof -
  obtain eff cnt where e: "e = (eff, cnt)" by (cases e)
  have "EFF_APOS i < EFF_ALEN len" if "i < len" for i by (rule EFF_APOS_less[OF that])
  then show "eff_map_ok len all (fst (eff_finish len e s))"
    using assms EFF_ALEN_bounds(1)[OF assms(2)] by (auto simp: e eff_finish_def Let_def eff_ok_def eff_map_ok_def)
  show "frame s (snd (eff_finish len e s))" by (simp add: e eff_finish_def Let_def frame_def part_defs)
qed

lemma flip8_loop_ok:
  fixes s :: "'a x_state_scheme"
  assumes "0 < length b" "length b < 2 ^ 29" "x_inv (k + length b) s"
  shows "okE (\<lambda>(l, b', e', s'). after k s s' \<and> (\<not> l \<longrightarrow> b' = b \<and> eff_ok (length b) e' \<and>
        (blind (length b) s \<longrightarrow> (\<forall>i<length b. fst e' ! EFF_APOS i = 1))))
      (for_each [0..<length b] (flip8_round q) (b, eff_init (length b), begin_stage ''flip8'' (int (length b)) s))"
proof -
  have a: "after (k + length b) s (begin_stage ''flip8'' (int (length b)) s)" by (rule after_begin_stage[OF after_refl[OF assms(3)]]) simp
  define I where "I = (\<lambda>i (b', e' :: effector, s'). b' = b \<and> eff_ok (length b) e' \<and> after (k + (length b - i)) s s' \<and>
      (blind (length b) s \<longrightarrow> (\<forall>x<i. fst e' ! EFF_APOS x = 1)))"
  have "okE (\<lambda>(l, st). if l then (case st of (b', e', s') \<Rightarrow> after k s s') else I (length b) st)
      (for_each [0..<length b] (flip8_round q) (b, eff_init (length b), begin_stage ''flip8'' (int (length b)) s))"
  proof (rule for_each_upt[where I = I])
    fix i and st :: "u8 list \<times> effector \<times> 'a x_state_scheme" assume i: "i < length b" and st: "I i st"
    obtain e s1 where sts: "st = (b, e, s1)" "eff_ok (length b) e" "after (k + (length b - Suc i) + 1) s s1"
        "blind (length b) s \<longrightarrow> (\<forall>x<i. fst e ! EFF_APOS x = 1)"
      using st i by (cases st) (auto simp: I_def Suc_diff_Suc)
    show "okE (\<lambda>(l, st). if l then (case st of (b', e', s') \<Rightarrow> after k s s') else I (Suc i) st) (flip8_round q i st)"
      unfolding sts(1)
      by (rule okE_mono[OF flip8_round_ok[OF i assms(2) sts(2,3)]]) (use sts(4) in \<open>auto simp: I_def marks_def less_Suc_eq intro: after_mono\<close>)
  qed (use a eff_init_ok[OF assms(1)] in \<open>simp add: I_def\<close>)
  then show ?thesis by (rule okE_mono) (auto simp: I_def split: if_splits)
qed

lemma flip8_stage_ok:
  fixes s :: "'a x_state_scheme"
  assumes "0 < length b" "length b < 2 ^ 29" "x_inv (k + length b) s"
  shows "okE (\<lambda>((l, eff), h, b', s'). after k s s' \<and> (\<not> l \<longrightarrow> b' = b \<and> eff_map_ok (length b) (blind (length b) s) eff)) (flip8_stage q (h, b, s))"
  unfolding flip8_stage_def prod.case
proof (rule okE_bind[OF flip8_loop_ok[OF assms]])
  fix y :: "bool \<times> u8 list \<times> effector \<times> 'a x_state_scheme"
  assume y: "case y of (l, b', e', s') \<Rightarrow> after k s s' \<and> (\<not> l \<longrightarrow> b' = b \<and> eff_ok (length b) e' \<and>
        (blind (length b) s \<longrightarrow> (\<forall>i<length b. fst e' ! EFF_APOS i = 1)))"
  obtain l b1 e1 s1 where ys: "y = (l, b1, e1, s1)" by (cases y)
  have a1: "after k s s1" using y ys by (cases l) auto
  define s2 where "s2 = s1\<lparr>stage_cur := int (length b1)\<rparr>"
  obtain eff s3 where f: "eff_finish (length b1) e1 s2 = (eff, s3)" by fastforce
  obtain h' s4 where g: "end_stage STAGE_FLIP8 h s3 = (h', s4)" by fastforce
  have "after k s s4 \<and> b1 = b \<and> eff_map_ok (length b) (blind (length b) s) eff" if "\<not> l"
  proof -
    have b: "b1 = b" "eff_ok (length b) e1" "blind (length b) s \<longrightarrow> (\<forall>i<length b. fst e1 ! EFF_APOS i = 1)" using y ys that by auto
    note fin = eff_finish_ok[OF b(2) assms(1) b(3), of s2]
    have "after k s s3" using after_frame'[OF after_stage(1)[OF a1]] fin(2) f b(1) by (simp add: s2_def)
    then show ?thesis using after_end_stage[of k s s3 STAGE_FLIP8 h] g fin(1) f b(1) by simp
  qed
  then show "okE (\<lambda>((l, eff), h, b', s'). after k s s' \<and> (\<not> l \<longrightarrow> b' = b \<and> eff_map_ok (length b) (blind (length b) s) eff))
     (case y of (leave, b, e, s) \<Rightarrow> if leave then Inr ((True, fst e), h, b, s)
        else let (eff, s) = eff_finish (length b) e (s\<lparr>stage_cur := int (length b)\<rparr>); (h, s) = end_stage STAGE_FLIP8 h s
          in Inr ((False, eff), h, b, s))"
    using a1 unfolding ys prod.case Let_def s2_def[symmetric] f g by (cases l) simp_all
qed

section \<open>Dictionary tokens\<close>

lemma eff_span_ok:
  assumes "length eff = EFF_ALEN len" "0 < l" "i + l \<le> len"
  shows "\<exists>v. eff_span eff i l = Inr v"
proof -
  have "EFF_APOS (i + l - 1) < EFF_ALEN len" by (rule EFF_APOS_less) (use assms in simp)
  moreover have "EFF_APOS i \<le> EFF_APOS (i + l - 1)" using assms(2) by (simp add: EFF_APOS_def div_le_mono)
  ultimately show ?thesis using assms(1) by (simp add: eff_span_def EFF_SPAN_ALEN_def)
qed

lemma win_memcpy:
  assumes "win k i B b" "k \<le> length t" "i + length t \<le> length B"
  shows "\<exists>b'. memcpy_in i t b = Inr b' \<and> win (length t) i B b'"
proof -
  have d: "drop (i + length t) b = drop (i + length t) B"
  proof -
    have "drop (length t - k) (drop (i + k) b) = drop (length t - k) (drop (i + k) B)" using assms(1) by (simp add: win_def)
    moreover have "length t - k + (i + k) = i + length t" using assms(2) by simp
    ultimately show ?thesis unfolding drop_drop by simp
  qed
  show ?thesis using assms d by (simp add: memcpy_in_def win_def)
qed

lemma still_to_go: "still s t \<Longrightarrow> to_go t = to_go s"
  by (simp add: still_def progress_def to_go_def)

definition over_inv :: "nat \<Rightarrow> u8 list \<Rightarrow> nat \<Rightarrow> 'a x_state_scheme \<Rightarrow> int \<Rightarrow> u8 list \<times> nat \<times> 'a x_state_scheme \<Rightarrow> bool" where
  "over_inv i B k s0 g = (\<lambda>(b, ll, s). after k s0 s \<and> win ll i B b \<and> i + ll \<le> length B \<and> to_go s = g)"

lemma over_token_ok:
  fixes s :: "'a x_state_scheme" and pick :: "'a x_state_scheme \<Rightarrow> err + bool \<times> 'a x_state_scheme"
  assumes eff: "length eff = EFF_ALEN (length B)" and len: "i < length B" "length B < 2 ^ 29"
    and tok: "0 < length tok" "ll \<le> length tok" and inv: "over_inv i B (j + 1) s0 g (b, ll, s)"
    and pick: "\<And>s. okE (\<lambda>(d, s'). still s s') (pick s)"
  shows "okE (\<lambda>(l, b', ll', s'). after j s0 s' \<and> (\<not> l \<longrightarrow> over_inv i B j s0 (g - 1) (b', ll', s') \<and> ll' \<le> length tok))
    (over_token pick eff i tok (b, ll, s))"
  unfolding over_token_def prod.case
proof (rule okE_bind[OF pick])
  fix y :: "bool \<times> 'a x_state_scheme" assume y: "case y of (d, s') \<Rightarrow> still s s'"
  let ?P = "\<lambda>(l, b', ll', s'). after j s0 s' \<and> (\<not> l \<longrightarrow> over_inv i B j s0 (g - 1) (b', ll', s') \<and> ll' \<le> length tok)"
  obtain d s1 where ys: "y = (d, s1)" by (cases y)
  have a: "after (j + 1) s0 s" "win ll i B b" "i + ll \<le> length B" "to_go s = g" "length b = length B"
    using inv by (auto simp: over_inv_def win_def)
  have a1: "after (Suc j) s0 s1" "to_go s1 = g" using after_still[OF a(1)] still_to_go[of s s1] a(4) y ys by simp_all
  have no: "?P (False, b, ll, s1\<lparr>stage_max := stage_max s1 - 1\<rparr>)"
    using after_stage(2)[OF after_mono[OF a1(1), of j]] a a1(2) tok(2) by (simp add: over_inv_def to_go_def)
  let ?e = "if d \<or> length tok > length b - i \<or> tok = take (length tok) (drop i b) then Inr False else eff_span eff i (length tok)"
  have yes: "okE ?P (bindE (block [edit (memcpy_in i tok), run_out, next_cur] (b, s1)) (\<lambda>(leave, b, s). Inr (leave, b, length tok, s)))"
    if l: "i + length tok \<le> length B"
  proof -
    obtain b1 where b1: "memcpy_in i tok b = Inr b1" "win (length tok) i B b1" using win_memcpy[OF a(2) tok(2) l] by auto
    have "does True (\<lambda>b'. b' = b) (\<lambda>b'. b' = b1) (block [edit (memcpy_in i tok), run_out, next_cur]) {b1} 1 1"
      by (rule does_cast[OF does_cons[OF does_edit does_cons[OF does_run_eq does_single[OF does_next_cur]]]]) (simp_all add: b1)
    from does_ok[OF this refl, of j s1] a1 b1(2) len(2) have "okE (\<lambda>(l, b', s'). after j s1 s' \<and> (\<not> l \<longrightarrow> b' = b1 \<and> (True \<longrightarrow> to_go s' = to_go s1 - 1)))
        (block [edit (memcpy_in i tok), run_out, next_cur] (b, s1))" by (simp add: after_def win_def)
    then show ?thesis by (rule okE_bind) (use after_trans[OF a1(1)] a1(2) b1(2) l in \<open>auto simp: over_inv_def\<close>)
  qed
  obtain w where w: "?e = Inr w" "w \<longrightarrow> i + length tok \<le> length B"
  proof (cases "d \<or> length tok > length b - i \<or> tok = take (length tok) (drop i b)")
    case True
    then show ?thesis using that[of False] by simp
  next
    case False
    then have "i + length tok \<le> length B" using a(5) len(1) by linarith
    then show ?thesis using that eff_span_ok[OF eff tok(1)] False by auto
  qed
  show "okE ?P (case y of (drop_it, s) \<Rightarrow>
     bindE (if drop_it \<or> length tok > length b - i \<or> tok = take (length tok) (drop i b) then Inr False
            else eff_span eff i (length tok)) (\<lambda>worth.
       if \<not> worth then Inr (False, b, ll, s\<lparr>stage_max := stage_max s - 1\<rparr>)
       else bindE (block [edit (memcpy_in i tok), run_out, next_cur] (b, s)) (\<lambda>(leave, b, s). Inr (leave, b, length tok, s))))"
    unfolding ys prod.case w(1) bindE_simps using no yes w(2) by (cases w) (simp_all only: if_True if_False okE_simps not_False_eq_True not_True_eq_False simp_thms)
qed

lemma over_tokens_ok:
  fixes s :: "'a x_state_scheme" and pick :: "'a x_state_scheme \<Rightarrow> err + bool \<times> 'a x_state_scheme"
  assumes eff: "length eff = EFF_ALEN (length B)" and len: "i < length B" "length B < 2 ^ 29"
    and pick: "\<And>s. okE (\<lambda>(d, s'). still s s') (pick s)"
    and toks: "sorted (map (\<lambda>e. length (ed_data e)) toks)" "\<forall>e\<in>set toks. 0 < length (ed_data e)"
    and "\<forall>e\<in>set toks. ll \<le> length (ed_data e)" "over_inv i B (k + length toks) s0 g (b, ll, s)"
  shows "okE (\<lambda>(l, b', ll', s'). after k s0 s' \<and> (\<not> l \<longrightarrow> over_inv i B k s0 (g - int (length toks)) (b', ll', s')))
    (for_each toks (\<lambda>e. over_token pick eff i (ed_data e)) (b, ll, s))"
  using toks assms(7,8)
proof (induction toks arbitrary: b ll s g)
  case Nil
  then show ?case by (simp add: over_inv_def)
next
  case (Cons e es)
  let ?Q = "\<lambda>(l, b', ll', s'). after k s0 s' \<and> (\<not> l \<longrightarrow> over_inv i B k s0 (g - int (length (e # es))) (b', ll', s'))"
  have inv: "over_inv i B (k + length es + 1) s0 g (b, ll, s)" using Cons.prems(4) by (simp add: add.assoc)
  show ?case unfolding for_each.simps
  proof (rule okE_bind[OF over_token_ok[OF eff len _ _ inv pick]])
    fix y assume y: "case y of (l, b', ll', s') \<Rightarrow> after (k + length es) s0 s' \<and>
        (\<not> l \<longrightarrow> over_inv i B (k + length es) s0 (g - 1) (b', ll', s') \<and> ll' \<le> length (ed_data e))"
    obtain l b1 la s1 where ys: "y = (l, b1, la, s1)" by (cases y)
    have a: "after k s0 s1" by (rule after_mono[of "k + length es"]) (use y ys in auto)
    have "okE ?Q (for_each es (\<lambda>e. over_token pick eff i (ed_data e)) (b1, la, s1))" if "\<not> l"
      by (rule okE_mono[OF Cons.IH[where g = "g - 1"]]) (use Cons.prems(1,2) y ys that in \<open>auto simp: algebra_simps\<close>)
    then show "okE ?Q (case y of (l, s) \<Rightarrow> if l then Inr (True, s) else for_each es (\<lambda>e. over_token pick eff i (ed_data e)) s)"
      using a unfolding ys by (cases l) simp_all
  qed (use Cons.prems in auto)
qed

lemma over_at_ok:
  fixes s :: "'a x_state_scheme" and pick :: "'a x_state_scheme \<Rightarrow> err + bool \<times> 'a x_state_scheme"
  assumes eff: "length eff = EFF_ALEN (length B)" and len: "i < length B" "length B < 2 ^ 29" "take (length B) in_buf = B"
    and pick: "\<And>s. okE (\<lambda>(d, s'). still s s') (pick s)"
    and toks: "sorted (map (\<lambda>e. length (ed_data e)) toks)" "\<forall>e\<in>set toks. 0 < length (ed_data e)"
    and a: "after (k + length toks) s0 s"
  shows "okE (\<lambda>(l, b', s'). after k s0 s' \<and> (\<not> l \<longrightarrow> b' = B \<and> to_go s' = to_go s - int (length toks)))
    (over_at pick eff in_buf toks i (B, s))"
proof -
  have inv: "over_inv i B (k + length toks) s0 (to_go s) (B, 0, s\<lparr>stage_cur_byte := int i\<rparr>)"
    using after_stage(3)[OF a] len(1) by (simp add: over_inv_def to_go_def)
  show ?thesis unfolding over_at_def prod.case
  proof (rule okE_bind[OF over_tokens_ok[OF eff len(1,2) pick toks _ inv]])
    fix y assume y: "case y of (l, b', ll', s') \<Rightarrow> after k s0 s' \<and> (\<not> l \<longrightarrow> over_inv i B k s0 (to_go s - int (length toks)) (b', ll', s'))"
    obtain l b1 la s1 where ys: "y = (l, b1, la, s1)" by (cases y)
    have "memcpy_in i (take la (drop i in_buf)) b1 = Inr B" if "\<not> l"
    proof -
      have w: "win la i B b1" "i + la \<le> length B" using y ys that by (auto simp: over_inv_def)
      have "take la (drop i in_buf) = take la (drop i B)" 
      proof -
        have "take la (drop i (take (length B) in_buf)) = take la (drop i in_buf)" using w(2) by (simp add: drop_take min_def)
        then show ?thesis unfolding len(3) by simp
      qed
      moreover have "take i B @ take la (drop i B) @ drop (i + la) B = B" by (metis append_take_drop_id drop_drop add.commute)
      ultimately show ?thesis using w by (simp add: memcpy_in_def win_def)
    qed
    then show "okE (\<lambda>(l, b', s'). after k s0 s' \<and> (\<not> l \<longrightarrow> b' = B \<and> to_go s' = to_go s - int (length toks)))
       (case y of (leave, b, last_len, s) \<Rightarrow> if leave then Inr (True, b, s)
          else bindE (memcpy_in i (take last_len (drop i in_buf)) b) (\<lambda>b. Inr (False, b, s)))"
      using y unfolding ys by (cases l) (auto simp: over_inv_def)
  qed simp
qed

lemma does_upt:
  assumes "\<And>i. i < n \<Longrightarrow> does acc (P i) (P (Suc i)) (f i) (M i) m c"
  shows "does acc (P 0) (P n) (for_each [0..<n] f) (\<Union>i<n. M i) (n * m) (int n * c)"
  using assms
proof (induction n)
  case 0
  have "for_each [] f = block []" by (rule ext) (simp add: block_simps)
  then show ?case using does_nil[of acc "P 0"] by simp
next
  case (Suc n)
  have e: "for_each [0..<Suc n] f = block [for_each [0..<n] f, f n]"
    by (rule ext) (auto simp: block_simps for_each_append bindE_def split: sum.split prod.split)
  show ?case unfolding e
    by (rule does_cast[OF does_cons[OF Suc.IH does_single[OF Suc.prems]]]) (use Suc.prems in \<open>auto simp: lessThan_Suc algebra_simps\<close>)
qed

definition run_part :: "nat \<Rightarrow> u8 list \<times> 'a x_state_scheme \<Rightarrow> err + bool \<times> u8 list \<times> 'a x_state_scheme" where
  "run_part n = (\<lambda>(b, s). bindE (common_fuzz_stuff (take n b) s) (\<lambda>(stop, s). Inr (stop, b, s)))"

lemma does_run_part:
  assumes "\<And>b. P b \<Longrightarrow> take n b = c"
  shows "does acc P P (run_part n) {c} 1 0"
proof -
  have "sim P P (run_part n) [Try c]" using assms by (fastforce simp: sim_def run_part_def bindE_def split: sum.split)
  then show ?thesis by (auto simp: does_def intro!: exI[of _ "[Try c]"] costs.intros)
qed

text \<open>The buffer \<open>ex_tmp\<close> before position \<open>i\<close>: room for the longest token, and the head of the input.\<close>

definition head_copied :: "u8 list \<Rightarrow> nat \<Rightarrow> u8 list \<Rightarrow> bool" where
  "head_copied b i ex \<longleftrightarrow> length ex = length b + MAX_DICT_FILE \<and> take (min i (length b)) ex = take (min i (length b)) b"

definition inserted :: "u8 list \<Rightarrow> nat \<Rightarrow> u8 list \<Rightarrow> u8 list" where
  "inserted b i tok = take i b @ tok @ drop i b"

lemma does_insert_token:
  assumes "i \<le> length b" "length tok \<le> MAX_DICT_FILE"
  shows "does acc (head_copied b i) (head_copied b i) (insert_token b i tok :: u8 list \<times> 'a x_state_scheme \<Rightarrow> _)
     (if length b + length tok \<le> MAX_FILE then {inserted b i tok} else {}) 1 1"
proof (cases "length b + length tok \<le> MAX_FILE")
  case False
  have "does acc (head_copied b i) (head_copied b i) (insert_token b i tok) {} 1 1"
    by (rule does_eq[OF does_bound[OF does_lower[of acc _ 1], of 1]]) (use False in \<open>simp_all add: insert_token_def glob_def\<close>)
  then show ?thesis using False by simp
next
  case True
  let ?Q = "\<lambda>ex. head_copied b i ex \<and> take (length b + length tok) ex = inserted b i tok"
  have m: "\<exists>ex'. bindE (memcpy_in i tok ex) (\<lambda>ex. memcpy_in (i + length tok) (drop i b) ex) = Inr ex' \<and> ?Q ex'" if h: "head_copied b i ex" for ex
  proof -
    have l: "length ex = length b + MAX_DICT_FILE" "take i ex = take i b" using h assms(1) by (simp_all add: head_copied_def min_def)
    define ex1 where "ex1 = take i ex @ tok @ drop (i + length tok) ex"
    have l1: "length ex1 = length ex" "take (i + length tok) ex1 = take i b @ tok" using l assms by (simp_all add: ex1_def)
    define ex2 where "ex2 = take (i + length tok) ex1 @ drop i b @ drop (i + length tok + length (drop i b)) ex1"
    have "memcpy_in i tok ex = Inr ex1" using l assms by (simp add: memcpy_in_def ex1_def)
    moreover have "memcpy_in (i + length tok) (drop i b) ex1 = Inr ex2" using l l1 assms by (simp add: memcpy_in_def ex2_def)
    moreover have "?Q ex2" using l l1 assms unfolding ex2_def l1(2) by (auto simp: head_copied_def inserted_def min_def)
    ultimately show ?thesis by simp
  qed
  have "does acc (head_copied b i) ?Q
      (block [edit (\<lambda>ex. bindE (memcpy_in i tok ex) (\<lambda>ex. memcpy_in (i + length tok) (drop i b) ex)), run_part (length b + length tok), next_cur])
      {inserted b i tok} 1 1"
    by (rule does_cast[OF does_cons[OF does_edit does_cons[OF does_run_part does_single[OF does_next_cur]]]]) (use m in auto)
  then have D: "does acc (head_copied b i) (head_copied b i)
      (block [edit (\<lambda>ex. bindE (memcpy_in i tok ex) (\<lambda>ex. memcpy_in (i + length tok) (drop i b) ex)), run_part (length b + length tok), next_cur])
      {inserted b i tok} 1 1"
    by (rule does_mono) auto
  have "does acc (head_copied b i) (head_copied b i) (insert_token b i tok :: u8 list \<times> 'a x_state_scheme \<Rightarrow> _) {inserted b i tok} 1 1"
  proof (rule does_eq[OF D])
    fix ex and s :: "'a x_state_scheme" assume "head_copied b i ex"
    from m[OF this] obtain ex1 ex2 where e: "memcpy_in i tok ex = Inr ex1" "memcpy_in (i + length tok) (drop i b) ex1 = Inr ex2"
      by (cases "memcpy_in i tok ex") auto
    show "block [edit (\<lambda>ex. bindE (memcpy_in i tok ex) (\<lambda>ex. memcpy_in (i + length tok) (drop i b) ex)), run_part (length b + length tok), next_cur] (ex, s)
        = insert_token b i tok (ex, s)"
      using True e by (auto simp: block_simps edit_def run_part_def next_cur_def glob_def insert_token_def Let_def bindE_def split: sum.split prod.split)
  qed
  then show ?thesis using True by simp
qed

lemma does_extras_UI:
  assumes "\<forall>e\<in>set toks. length (ed_data e) \<le> MAX_DICT_FILE"
  shows "does acc (head_copied b 0) (head_copied b (length b + 1)) (for_each [0..<length b + 1] (\<lambda>i. block
              [glob (\<lambda>s. s\<lparr>stage_cur_byte := int i\<rparr>),
               for_each toks (\<lambda>e. insert_token b i (ed_data e)),
               edit (poke 1 i (if i < length b then b ! i else ALLOC_MAGIC_C2))]))
     (\<Union>i<length b + 1. \<Union>e\<in>set toks. if length b + length (ed_data e) \<le> MAX_FILE then {inserted b i (ed_data e)} else {})
     ((length b + 1) * length toks) (int (length b + 1) * int (length toks))"
proof (rule does_upt)
  fix i assume i: "i < length b + 1"
  let ?c = "if i < length b then b ! i else ALLOC_MAGIC_C2"
  have 1: "does acc (head_copied b i) (head_copied b i) (for_each toks (\<lambda>e. insert_token b i (ed_data e)))
      (\<Union>e\<in>set toks. if length b + length (ed_data e) \<le> MAX_FILE then {inserted b i (ed_data e)} else {}) (length toks * 1) (int (length toks) * 1)"
    by (rule does_for_each[OF does_insert_token]) (use i assms in auto)
  have 2: "does acc (head_copied b i) (head_copied b (Suc i)) (edit (poke 1 i ?c)) {} 0 0"
  proof (rule does_edit)
    fix ex assume h: "head_copied b i ex"
    have l: "i + 1 \<le> length ex" using h i by (simp add: head_copied_def cfg_simps)
    have s: "le_store 1 ?c = [?c]" by (simp add: le_store_def)
    have "head_copied b (Suc i) (put 1 i ?c ex)"
    proof (cases "i < length b")
      case True
      then have "take i ex = take i b" using h by (simp add: head_copied_def min_def)
      then show ?thesis using h l True s by (simp add: head_copied_def put_def min_def take_Suc_conv_app_nth)
    next
      case False
      then have "i = length b" using i by simp
      then show ?thesis using h l by (simp add: head_copied_def put_def)
    qed
    then show "\<exists>b'. poke 1 i ?c ex = Inr b' \<and> head_copied b (Suc i) b'" unfolding poke_win[OF l win_refl] by blast
  qed
  show "does acc (head_copied b i) (head_copied b (Suc i)) (block [glob (\<lambda>s. s\<lparr>stage_cur_byte := int i\<rparr>),
      for_each toks (\<lambda>e. insert_token b i (ed_data e)), edit (poke 1 i ?c)])
     (\<Union>e\<in>set toks. if length b + length (ed_data e) \<le> MAX_FILE then {inserted b i (ed_data e)} else {}) (length toks) (int (length toks))"
    by (rule does_cast[OF does_cons[OF does_cur_byte does_cons[OF 1 does_single[OF 2]]]]) auto
qed

section \<open>The stages one after the other\<close>

text \<open>
  The contract of a stage on the buffer \<open>b\<close>, with \<open>n\<close> runs at most, while \<open>X\<close> are the user's tokens: it
  ends with the invariant, and unless it leaves early the buffer is as before.
\<close>

definition stage_ok :: "extra_data list \<Rightarrow> nat \<Rightarrow> u8 list \<Rightarrow> ('a det_state \<Rightarrow> err + bool \<times> 'a det_state) \<Rightarrow> bool" where
  "stage_ok X n b f \<longleftrightarrow> (\<forall>h k s. extras s = X \<longrightarrow> x_inv (k + n) s \<longrightarrow>
     okE (\<lambda>(l, h', b', s'). after k s s' \<and> (\<not> l \<longrightarrow> b' = b)) (f (h, b, s)))"

lemma stage_okI:
  assumes "\<And>h k s. extras s = X \<Longrightarrow> x_inv (k + n) s \<Longrightarrow>
     okE (\<lambda>(l, h', b', s'). after k s s' \<and> (\<not> l \<longrightarrow> b' = b)) (f (h, b, s))"
  shows "stage_ok X n b f"
  using assms by (simp add: stage_ok_def)

lemma after_extras: "after k s s' \<Longrightarrow> extras s' = extras s"
  by (simp add: after_def settings_def)

lemma stage_ok_mono: "stage_ok X n b f \<Longrightarrow> n \<le> m \<Longrightarrow> stage_ok X m b f"
proof -
  assume a: "stage_ok X n b f" "n \<le> m"
  show ?thesis
  proof (rule stage_okI)
    fix h k and s :: "'a x_state_scheme" assume e: "extras s = X" and x: "x_inv (k + m) s"
    have "x_inv (k + n) s" by (rule x_inv_mono[OF x]) (use a(2) in simp)
    then show "okE (\<lambda>(l, h', b', s'). after k s s' \<and> (\<not> l \<longrightarrow> b' = b)) (f (h, b, s))"
      using a(1) e by (simp add: stage_ok_def)
  qed
qed

lemma stage_ok_skip: "stage_ok X n b skip"
proof (rule stage_okI)
  fix h k and s :: "'a x_state_scheme" assume "x_inv (k + n) s"
  then show "okE (\<lambda>(l, h', b', s'). after k s s' \<and> (\<not> l \<longrightarrow> b' = b)) (skip (h, b, s))"
    using after_refl[OF x_inv_mono[of "k + n" s k]] by (simp add: skip_def)
qed

lemma stage_ok_nil: "stage_ok X 0 b (block [])"
  by (rule stage_okI) (simp add: block_simps after_refl)

lemma stage_ok_cons:
  assumes f: "stage_ok X n b f" and g: "stage_ok X m b (block ps)"
  shows "stage_ok X (n + m) b (block (f # ps))"
proof (rule stage_okI)
  fix h k and s :: "'a x_state_scheme" assume e: "extras s = X" and x: "x_inv (k + (n + m)) s"
  have "okE (\<lambda>(l, h', b', s'). after (k + m) s s' \<and> (\<not> l \<longrightarrow> b' = b)) (f (h, b, s))"
    using f[unfolded stage_ok_def, rule_format, OF e, of "k + m" h] x by (simp add: add.assoc add.commute[of m])
  then show "okE (\<lambda>(l, h', b', s'). after k s s' \<and> (\<not> l \<longrightarrow> b' = b)) (block (f # ps) (h, b, s))"
    unfolding block_simps
  proof (rule okE_bind)
    fix y :: "bool \<times> 'a det_state" assume y: "case y of (l, h', b', s') \<Rightarrow> after (k + m) s s' \<and> (\<not> l \<longrightarrow> b' = b)"
    obtain l h1 b1 s1 where ys: "y = (l, h1, b1, s1)" by (cases y)
    have a: "after (k + m) s s1" using y ys by simp
    have "okE (\<lambda>(l, h', b', s'). after k s s' \<and> (\<not> l \<longrightarrow> b' = b)) (block ps (h1, b, s1))"
      by (rule okE_mono[OF g[unfolded stage_ok_def, rule_format, of s1 k h1]])
        (use a after_extras[OF a] e after_x_inv[OF a] in \<open>auto intro: after_trans[OF a]\<close>)
    then show "okE (\<lambda>(l, h', b', s'). after k s s' \<and> (\<not> l \<longrightarrow> b' = b)) (case y of (l, st) \<Rightarrow> if l then Inr (True, st) else block ps st)"
      using y after_mono[OF a, of k] unfolding ys by (cases l) simp_all
  qed
qed

lemma stage_ok_run:
  assumes "does acc (\<lambda>b'. b' = b) (\<lambda>b'. b' = b) loop M n mx" "\<forall>i\<in>M. length i < 2 ^ 32" "length short \<le> 16"
  shows "stage_ok X n b (\<lambda>(h, b, s). run_stage j short mx loop (h, b, s))"
  by (rule stage_okI) (auto intro!: okE_mono[OF run_stage_ok[OF assms(1) _ assms(2,3)]])

lemma stage_ok_if: "(c \<Longrightarrow> stage_ok X n b f) \<Longrightarrow> (\<not> c \<Longrightarrow> stage_ok X n b g) \<Longrightarrow> stage_ok X n b (if c then f else g)"
  by simp

lemma stage_ok_eq: "stage_ok X n b f \<Longrightarrow> (\<And>h s. extras s = X \<Longrightarrow> f (h, b, s) = g (h, b, s)) \<Longrightarrow> stage_ok X n b g"
  by (simp add: stage_ok_def)

text \<open>The stages with a plan, on buffers of the lengths they are entered with.\<close>

lemma short_inputs:
  "length b < 2 ^ 29 \<Longrightarrow> i + k \<le> length b \<Longrightarrow> length (put k i w b) < 2 ^ 32"
  by simp

lemma run_stage_flip_ok:
  assumes d: "does False (\<lambda>b'. b' = b) (\<lambda>b'. b' = b) loop M n c" and M: "\<forall>i\<in>M. length i < 2 ^ 32" and short: "length short \<le> 16"
  shows "stage_ok X n b (run_stage j short mx loop)"
proof -
  have "does False (\<lambda>b'. b' = b) (\<lambda>b'. b' = b) loop M n mx" using d by (simp add: does_def)
  then show ?thesis using stage_ok_run[OF _ M short] by (auto intro: stage_ok_eq)
qed

lemma flip2_stage_ok: "0 < length b \<Longrightarrow> length b < 2 ^ 29 \<Longrightarrow> stage_ok X (8 * length b) b flip2_stage"
  unfolding length_greater_0_conv[symmetric]
proof (rule stage_ok_eq[OF stage_ok_mono[OF run_stage_flip_ok[OF does_walk]]])
  fix h and s :: "'a x_state_scheme" assume "0 < length b"
  show "run_stage STAGE_FLIP2 ''flip2'' (int (8 * length b) - 1) (for_stage_cur (8 * length b - (2 - 1)) (\<lambda>i. block
          ([glob (\<lambda>s. s\<lparr>stage_cur_byte := int (i div 8)\<rparr>)] @ flips 2 i @ [run_out] @ flips 2 i))) (h, b, s) = flip2_stage (h, b, s)"
    by (simp add: flip2_stage_def)
qed (auto simp: Suc_le_eq)

lemma flip4_stage_ok: "0 < length b \<Longrightarrow> length b < 2 ^ 29 \<Longrightarrow> stage_ok X (8 * length b) b flip4_stage"
proof (rule stage_ok_eq[OF stage_ok_mono[OF run_stage_flip_ok[OF does_walk]]])
  fix h and s :: "'a x_state_scheme" assume "0 < length b"
  show "run_stage STAGE_FLIP4 ''flip4'' (int (8 * length b) - 3) (for_stage_cur (8 * length b - (4 - 1)) (\<lambda>i. block
          ([glob (\<lambda>s. s\<lparr>stage_cur_byte := int (i div 8)\<rparr>)] @ flips 4 i @ [run_out] @ flips 4 i))) (h, b, s) = flip4_stage (h, b, s)"
    by (simp add: flip4_stage_def)
qed (auto simp: Suc_le_eq)

text \<open>
  The same with the books: a stage that runs to its end leaves \<open>d\<close> runs it announced but did not count.
\<close>

definition stage_counts :: "extra_data list \<Rightarrow> nat \<Rightarrow> u8 list \<Rightarrow> int \<Rightarrow> ('a det_state \<Rightarrow> err + bool \<times> 'a det_state) \<Rightarrow> bool" where
  "stage_counts X n b d f \<longleftrightarrow> (\<forall>h k s. extras s = X \<longrightarrow> x_inv (k + n) s \<longrightarrow>
     okE (\<lambda>(l, h', b', s'). after k s s' \<and> (\<not> l \<longrightarrow> b' = b \<and> to_go s' = d)) (f (h, b, s)))"

lemma stage_countsI:
  assumes "\<And>h k s. extras s = X \<Longrightarrow> x_inv (k + n) s \<Longrightarrow>
     okE (\<lambda>(l, h', b', s'). after k s s' \<and> (\<not> l \<longrightarrow> b' = b \<and> to_go s' = d)) (f (h, b, s))"
  shows "stage_counts X n b d f"
  using assms by (simp add: stage_counts_def)

lemma stage_counts_app:
  assumes "stage_counts X n b d f" "extras s = X" "x_inv (k + n) s"
  shows "okE (\<lambda>(l, h', b', s'). after k s s' \<and> (\<not> l \<longrightarrow> b' = b \<and> to_go s' = d)) (f (h, b, s))"
  using assms by (simp add: stage_counts_def)

lemma stage_counts_ok: "stage_counts X n b d f \<Longrightarrow> stage_ok X n b f"
  by (rule stage_okI) (auto intro: okE_mono[OF stage_counts_app])

lemma run_stage_acc_ok:
  fixes f :: "'a det_state \<Rightarrow> err + bool \<times> 'a det_state"
  assumes d: "does True (\<lambda>b'. b' = b) (\<lambda>b'. b' = b) loop M n c" and M: "\<forall>i\<in>M. length i < 2 ^ 32" and mx: "c = mx" and n: "n \<le> m"
    and f: "\<And>h s. f (h, b, s) = run_stage j short mx loop (h, b, s)" and short: "length short \<le> 16"
  shows "stage_counts X m b 0 f"
proof (rule stage_countsI)
  fix h k and s :: "'a x_state_scheme" assume x: "x_inv (k + m) s"
  show "okE (\<lambda>(l, h', b', s'). after k s s' \<and> (\<not> l \<longrightarrow> b' = b \<and> to_go s' = 0)) (f (h, b, s))"
    unfolding f by (rule okE_mono[OF run_stage_ok[OF d[unfolded mx] x_inv_mono[OF x] M short]]) (use n in \<open>auto simp: to_go_def\<close>)
qed

lemma flip16_stage_ok:
  assumes "length eff = EFF_ALEN (length b)" "2 \<le> length b" "length b < 2 ^ 29"
  shows "stage_counts X (length b) b 0 (flip16_stage eff)"
  by (rule run_stage_acc_ok[OF does_flip16_loop[OF assms(1)]]) (use assms in \<open>auto simp: flip16_stage_def of_nat_diff\<close>)

lemma flip32_stage_ok:
  assumes "length eff = EFF_ALEN (length b)" "4 \<le> length b" "length b < 2 ^ 29"
  shows "stage_counts X (length b) b 0 (flip32_stage eff)"
  by (rule run_stage_acc_ok[OF does_flip32_loop[OF assms(1)]]) (use assms in \<open>auto simp: flip32_stage_def of_nat_diff\<close>)

lemma arith8_stage_ok:
  assumes "length eff = EFF_ALEN (length b)" "length b < 2 ^ 29"
  shows "stage_counts X (70 * length b) b 0 (arith8_stage eff)"
  by (rule run_stage_acc_ok[OF does_arith8_loop[OF assms(1)]]) (use assms in \<open>auto simp: arith8_stage_def ARITH_MAX_def\<close>)

lemma arith16_stage_ok:
  assumes "length eff = EFF_ALEN (length b)" "2 \<le> length b" "length b < 2 ^ 29"
  shows "stage_counts X (140 * length b) b 0 (arith16_stage eff)"
  by (rule run_stage_acc_ok[OF does_arith16_loop[OF assms(1)]]) (use assms in \<open>auto simp: arith16_stage_def ARITH_MAX_def of_nat_diff\<close>)

lemma arith32_stage_ok:
  assumes "length eff = EFF_ALEN (length b)" "4 \<le> length b" "length b < 2 ^ 29"
  shows "stage_counts X (140 * length b) b 0 (arith32_stage eff)"
  by (rule run_stage_acc_ok[OF does_arith32_loop[OF assms(1)]]) (use assms in \<open>auto simp: arith32_stage_def ARITH_MAX_def of_nat_diff\<close>)

lemma interesting_lengths: "length interesting_8 = 9" "length interesting_16 = 19" "length interesting_32 = 27"
  by (simp_all add: interesting_8_def interesting_16_def interesting_32_def)

lemma interest8_stage_ok:
  assumes "length eff = EFF_ALEN (length b)" "length b < 2 ^ 29"
  shows "stage_counts X (9 * length b) b 0 (interest8_stage eff)"
  by (rule run_stage_acc_ok[OF does_interest8_loop[OF assms(1)]]) (use assms in \<open>auto simp: interest8_stage_def interesting_lengths\<close>)

lemma interest16_stage_ok:
  assumes "length eff = EFF_ALEN (length b)" "2 \<le> length b" "length b < 2 ^ 29"
  shows "stage_counts X (38 * length b) b 0 (interest16_stage eff)"
  by (rule run_stage_acc_ok[OF does_interest16_loop[OF assms(1)]]) (use assms in \<open>auto simp: interest16_stage_def interesting_lengths of_nat_diff\<close>)

lemma interest32_stage_ok:
  assumes "length eff = EFF_ALEN (length b)" "4 \<le> length b" "length b < 2 ^ 29"
  shows "stage_counts X (54 * length b) b 0 (interest32_stage eff)"
  by (rule run_stage_acc_ok[OF does_interest32_loop[OF assms(1)]]) (use assms in \<open>auto simp: interest32_stage_def interesting_lengths of_nat_diff\<close>)

lemma pick_extra_ok: "okE (\<lambda>(d, s'). still s s') (pick_extra n s)"
proof (cases "n > MAX_DET_EXTRAS")
  case True
  have "okE (\<lambda>(d, s'). still s s') (bindE (UR n s) (\<lambda>(r, s). Inr (r \<ge> MAX_DET_EXTRAS, s)))"
    by (rule okE_bind[OF UR_still]) (use True in auto)
  then show ?thesis using True by (simp add: pick_extra_def)
qed (simp add: pick_extra_def)

lemma over_loop_ok:
  fixes s :: "'a x_state_scheme" and pick :: "'a x_state_scheme \<Rightarrow> err + bool \<times> 'a x_state_scheme"
  assumes eff: "length eff = EFF_ALEN (length B)" and len: "length B < 2 ^ 29" "take (length B) in_buf = B"
    and pick: "\<And>s. okE (\<lambda>(d, s'). still s s') (pick s)"
    and toks: "sorted (map (\<lambda>e. length (ed_data e)) toks)" "\<forall>e\<in>set toks. 0 < length (ed_data e)"
    and a: "after (k + length toks * length B) s0 s" and go: "to_go s = int (length toks * length B)"
  shows "okE (\<lambda>(l, b', s'). after k s0 s' \<and> (\<not> l \<longrightarrow> b' = B \<and> to_go s' = 0))
    (block [set_val_type STAGE_VAL_NONE, for_each [0..<length B] (over_at pick eff in_buf toks)] (B, s))"
proof -
  define s1 where "s1 = s\<lparr>stage_val_type := STAGE_VAL_NONE\<rparr>"
  have a1: "after (k + length toks * length [0..<length B]) s0 s1" "to_go s1 = int (length toks * length [0..<length B])"
    using after_stage(5)[OF a] go by (simp_all add: s1_def to_go_def)
  have "okE (\<lambda>(l, st). if l then (case st of (b', s') \<Rightarrow> after k s0 s')
      else (case st of (b', s') \<Rightarrow> b' = B \<and> after k s0 s' \<and> to_go s' = int (k - k))) (for_each [0..<length B] (over_at pick eff in_buf toks) (B, s1))"
  proof (rule for_each_down[where m = "length toks" and I = "\<lambda>j (b', s'). b' = B \<and> after j s0 s' \<and> to_go s' = int (j - k)"])
    fix i j and st :: "u8 list \<times> 'a x_state_scheme" assume i: "i \<in> set [0..<length B]" and kj: "k \<le> j"
      and st: "case st of (b', s') \<Rightarrow> b' = B \<and> after (j + length toks) s0 s' \<and> to_go s' = int (j + length toks - k)"
    obtain u where u: "st = (B, u)" "after (j + length toks) s0 u" "to_go u = int (j + length toks - k)" using st by (cases st) auto
    show "okE (\<lambda>(l, st). if l then (case st of (b', s') \<Rightarrow> after k s0 s')
      else (case st of (b', s') \<Rightarrow> b' = B \<and> after j s0 s' \<and> to_go s' = int (j - k))) (over_at pick eff in_buf toks i st)"
      unfolding u(1) by (rule okE_mono[OF over_at_ok[OF eff _ len pick toks u(2)]]) (use i kj u(3) after_mono[OF _ kj] in \<open>auto split: if_splits\<close>)
  qed (use a1 in simp)
  then have r: "okE (\<lambda>(l, b', s'). after k s0 s' \<and> (\<not> l \<longrightarrow> b' = B \<and> to_go s' = 0)) (for_each [0..<length B] (over_at pick eff in_buf toks) (B, s1))"
    by (rule okE_mono) (auto split: if_splits)
  have "block [set_val_type STAGE_VAL_NONE, for_each [0..<length B] (over_at pick eff in_buf toks)] (B, s)
      = bindE (for_each [0..<length B] (over_at pick eff in_buf toks) (B, s1)) (\<lambda>(l, st). if l then Inr (True, st) else Inr (False, st))"
    unfolding block_simps set_val_type_def glob_def s1_def by simp
  also have "\<dots> = for_each [0..<length B] (over_at pick eff in_buf toks) (B, s1)" by (auto simp: bindE_def split: sum.split prod.split)
  finally show ?thesis using r by simp
qed

lemma to_go_end_stage: "to_go (snd (end_stage j h s)) = to_go s"
  by (simp add: end_stage_def Let_def to_go_def)

lemma run_stage_direct:
  fixes s :: "'a x_state_scheme"
  assumes x: "x_inv (k + n) s"
    and loop: "\<And>s1. after (k + n) s s1 \<Longrightarrow> to_go s1 = mx \<Longrightarrow> okE (\<lambda>(l, b', s'). after k s s' \<and> (\<not> l \<longrightarrow> b' = b \<and> to_go s' = d)) (loop (b, s1))"
    and short: "length short \<le> 16"
  shows "okE (\<lambda>(l, h', b', s'). after k s s' \<and> (\<not> l \<longrightarrow> b' = b \<and> to_go s' = d)) (run_stage j short mx loop (h, b, s))"
  unfolding run_stage_def prod.case
proof (rule okE_bind[OF loop])
  show "after (k + n) s (begin_stage short mx s)" by (rule after_begin_stage[OF after_refl[OF x] short])
  show "to_go (begin_stage short mx s) = mx" by (simp add: begin_stage_def to_go_def)
  fix y :: "bool \<times> u8 list \<times> 'a x_state_scheme" assume "case y of (l, b', s') \<Rightarrow> after k s s' \<and> (\<not> l \<longrightarrow> b' = b \<and> to_go s' = d)"
  then show "okE (\<lambda>(l, h', b', s'). after k s s' \<and> (\<not> l \<longrightarrow> b' = b \<and> to_go s' = d)) (case y of (leave, b, s) \<Rightarrow> if leave then Inr (True, h, b, s)
       else let (new_hit_cnt, s) = end_stage j h s in Inr (False, new_hit_cnt, b, s))"
    using after_end_stage by (cases y) (auto simp: split_beta Let_def to_go_end_stage)
qed

lemma extras_UO_stage_ok:
  assumes "length eff = EFF_ALEN (length b)" "length b < 2 ^ 29" "take (length b) in_buf = b"
  shows "stage_counts X (length X * length b) b (0) (extras_UO_stage eff in_buf)"
proof (rule stage_countsI)
  fix h k and s :: "'a x_state_scheme" assume e: "extras s = X" and x: "x_inv (k + length X * length b) s"
  have d: "dict_ok X" using x e by (simp add: x_inv_def)
  have "okE (\<lambda>(l, h', b', s'). after k s s' \<and> (\<not> l \<longrightarrow> b' = b \<and> to_go s' = 0)) (run_stage STAGE_EXTRAS_UO ''ext_UO'' (int (length X * length b))
       (block [set_val_type STAGE_VAL_NONE, for_each [0..<length b] (over_at (pick_extra (length X)) eff in_buf X)]) (h, b, s))"
    by (rule run_stage_direct[OF x, where d = 0], rule over_loop_ok[OF assms pick_extra_ok]) (use d in \<open>auto simp: dict_ok_def\<close>)
  then show "okE (\<lambda>(l, h', b', s'). after k s s' \<and> (\<not> l \<longrightarrow> b' = b \<and> to_go s' = 0)) (extras_UO_stage eff in_buf (h, b, s))"
    by (simp add: extras_UO_stage_def e)
qed

lemma extras_AO_stage_ok:
  assumes "length eff = EFF_ALEN (length b)" "length b < 2 ^ 29" "take (length b) in_buf = b"
  shows "stage_counts X (50 * length b) b (0) (extras_AO_stage eff in_buf)"
proof (rule stage_countsI)
  fix h k and s :: "'a x_state_scheme" assume x: "x_inv (k + 50 * length b) s"
  define T where "T = take USE_AUTO_EXTRAS (a_extras s)"
  have T: "sorted (map (\<lambda>e. length (ed_data e)) T)" "\<forall>e\<in>set T. 0 < length (ed_data e)" "length T \<le> 50"
    using x by (auto simp: x_inv_def auto_ok_def T_def cfg_simps dest: in_set_takeD)
  have x': "x_inv (k + length T * length b) s" by (rule x_inv_mono[OF x]) (use T(3) in simp)
  have "okE (\<lambda>(l, h', b', s'). after k s s' \<and> (\<not> l \<longrightarrow> b' = b \<and> to_go s' = 0)) (run_stage STAGE_EXTRAS_AO ''ext_AO'' (int (length T * length b))
       (block [set_val_type STAGE_VAL_NONE, for_each [0..<length b] (over_at (\<lambda>s. Inr (False, s)) eff in_buf T)]) (h, b, s))"
    by (rule run_stage_direct[OF x', where d = 0], rule over_loop_ok[OF assms _ T(1,2)]) auto
  then show "okE (\<lambda>(l, h', b', s'). after k s s' \<and> (\<not> l \<longrightarrow> b' = b \<and> to_go s' = 0)) (extras_AO_stage eff in_buf (h, b, s))"
    by (simp add: extras_AO_stage_def T_def)
qed

lemma extras_UI_loop_ok:
  fixes s :: "'a x_state_scheme"
  assumes d: "dict_ok X" and len: "length b < 2 ^ 29" and a: "after (k + (length b + 1) * length X) s0 s"
  shows "okE (\<lambda>(l, b', s'). after k s0 s' \<and> (\<not> l \<longrightarrow> b' = b \<and> to_go s' = to_go s - int (length b + 1) * int (length X))) (extras_UI_loop X (b, s))"
proof -
  have D: "\<forall>e\<in>set X. length (ed_data e) \<le> MAX_DICT_FILE" using d by (simp add: dict_ok_def)
  have h: "head_copied b 0 (replicate (length b + MAX_DICT_FILE) 0)" by (simp add: head_copied_def)
  have M: "\<forall>i\<in>(\<Union>i<length b + 1. \<Union>e\<in>set X. if length b + length (ed_data e) \<le> MAX_FILE then {inserted b i (ed_data e)} else {}). length i < 2 ^ 32"
    by (auto simp: inserted_def cfg_simps split: if_splits)
  show ?thesis unfolding extras_UI_loop_def prod.case
    by (rule okE_bind[OF does_ok[OF does_extras_UI[OF D, of True] h _ M]]) (use after_x_inv[OF a] after_trans[OF a] in auto)
qed

lemma extras_UI_stage_ok:
  assumes "length b < 2 ^ 29"
  shows "stage_counts X ((length b + 1) * length X) b (- int (length X)) extras_UI_stage"
proof (rule stage_countsI)
  fix h k and s :: "'a x_state_scheme" assume e: "extras s = X" and x: "x_inv (k + (length b + 1) * length X) s"
  have d: "dict_ok X" using x e by (simp add: x_inv_def)
  have "okE (\<lambda>(l, h', b', s'). after k s s' \<and> (\<not> l \<longrightarrow> b' = b \<and> to_go s' = - int (length X)))
     (run_stage STAGE_EXTRAS_UI ''ext_UI'' (int (length X * length b)) (extras_UI_loop X) (h, b, s))"
    by (rule run_stage_direct[OF x, where d = "- int (length X)"], rule okE_mono[OF extras_UI_loop_ok[OF d assms]]) (auto simp: algebra_simps)
  then show "okE (\<lambda>(l, h', b', s'). after k s s' \<and> (\<not> l \<longrightarrow> b' = b \<and> to_go s' = - int (length X))) (extras_UI_stage (h, b, s))"
    by (simp add: extras_UI_stage_def e)
qed

section \<open>The byte stages together\<close>

lemma stage_ok_pair:
  assumes "stage_ok X n b f" "stage_ok X m b g"
  shows "stage_ok X (n + m) b (block [f, g])"
  using stage_ok_cons[OF assms(1) stage_ok_cons[OF assms(2) stage_ok_nil]] by simp

lemma stage_ok_test:
  fixes f :: "'a det_state \<Rightarrow> err + bool \<times> 'a det_state"
  assumes "stage_ok X n b f"
  shows "stage_ok X n b (\<lambda>(h, b, s). if c s then skip (h, b, s) else f (h, b, s))"
proof (rule stage_okI)
  fix h k and s :: "'a x_state_scheme" assume "extras s = X" "x_inv (k + n) s"
  moreover have "stage_ok X n b (skip :: 'a det_state \<Rightarrow> _)" by (rule stage_ok_skip)
  ultimately show "okE (\<lambda>(l, h', b', s'). after k s s' \<and> (\<not> l \<longrightarrow> b' = b)) (case (h, b, s) of (h, b, s) \<Rightarrow> if c s then skip (h, b, s) else f (h, b, s))"
    using assms unfolding stage_ok_def prod.case by (cases "c s") (simp_all only: if_True if_False simp_thms)
qed

definition byte_budget :: "nat \<Rightarrow> nat \<Rightarrow> nat" where
  "byte_budget len cnt = 503 * len + cnt * (2 * len + 1)"

lemma byte_stages_ok:
  fixes s :: "'a x_state_scheme"
  assumes eff: "length eff = EFF_ALEN (length b)" and len: "0 < length b" "length b < 2 ^ 29" and in_buf: "take (length b) in_buf = b"
  shows "stage_ok X (byte_budget (length b) (length X)) b (byte_stages eff in_buf :: 'a det_state \<Rightarrow> err + bool \<times> 'a det_state)"
proof -
  define L where "L = length b"
  have flips: "stage_ok X (L + L) b (if L < 2 then skip else block [flip16_stage eff, if L < 4 then skip else flip32_stage eff] :: 'a det_state \<Rightarrow> _)"
    by (intro stage_ok_if stage_ok_pair stage_ok_skip) (use assms in \<open>auto simp: L_def intro: stage_counts_ok[OF flip16_stage_ok] stage_counts_ok[OF flip32_stage_ok]\<close>)
  have ariths: "stage_ok X (70 * L + (140 * L + 140 * L)) b (if \<not> c then skip else block [arith8_stage eff,
      if L < 2 then skip else block [arith16_stage eff, if L < 4 then skip else arith32_stage eff]] :: 'a det_state \<Rightarrow> _)" for c
    by (intro stage_ok_if stage_ok_pair stage_ok_skip) (use assms in \<open>auto simp: L_def intro: stage_counts_ok[OF arith8_stage_ok] stage_counts_ok[OF arith16_stage_ok] stage_counts_ok[OF arith32_stage_ok]\<close>)
  have i8: "stage_ok X (9 * L) b (interest8_stage eff :: 'a det_state \<Rightarrow> _)" using stage_counts_ok[OF interest8_stage_ok] eff len by (simp add: L_def)
  have ints: "stage_ok X (38 * L + 54 * L) b (if c \<or> L < 2 then skip else block [interest16_stage eff, if L < 4 then skip else interest32_stage eff] :: 'a det_state \<Rightarrow> _)" for c
    by (intro stage_ok_if stage_ok_pair stage_ok_skip) (use assms in \<open>auto simp: L_def intro: stage_counts_ok[OF interest16_stage_ok] stage_counts_ok[OF interest32_stage_ok]\<close>)
  have user: "stage_ok X (length X * L + (L + 1) * length X) b
      (\<lambda>(h, b, s). if extras s = [] then skip (h, b, s) else block [extras_UO_stage eff in_buf, extras_UI_stage] (h, b, s) :: err + bool \<times> 'a det_state)"
    unfolding L_def by (rule stage_ok_test, rule stage_ok_pair[OF stage_counts_ok[OF extras_UO_stage_ok[OF eff len(2) in_buf]] stage_counts_ok[OF extras_UI_stage_ok[OF len(2)]]])
  have auto: "stage_ok X (50 * L + 0) b (\<lambda>(h, b, s). if a_extras s = [] then skip (h, b, s) else extras_AO_stage eff in_buf (h, b, s) :: err + bool \<times> 'a det_state)"
    unfolding L_def using stage_ok_test[OF stage_counts_ok[OF extras_AO_stage_ok[OF eff len(2) in_buf]]] by simp
  note all = stage_ok_cons[OF flips stage_ok_cons[OF ariths stage_ok_cons[OF i8 stage_ok_cons[OF ints stage_ok_cons[OF user stage_ok_cons[OF auto stage_ok_nil]]]]]]
  show ?thesis
  proof (rule stage_okI)
    fix h k and s :: "'a x_state_scheme" assume e: "extras s = X" and x: "x_inv (k + byte_budget (length b) (length X)) s"
    show "okE (\<lambda>(l, h', b', s'). after k s s' \<and> (\<not> l \<longrightarrow> b' = b)) (byte_stages eff in_buf (h, b, s))"
      using stage_ok_mono[OF all, of "byte_budget (length b) (length X)" "\<not> no_arith s" "no_arith s"] x
      unfolding byte_stages_def Let_def fst_conv snd_conv L_def[symmetric] stage_ok_def
      by (simp add: e byte_budget_def algebra_simps)
  qed
qed

lemma mark_as_det_done_ok:
  fixes s :: "'a x_state_scheme"
  assumes "x_inv k s" "q < length (qs s)"
  shows "okE (\<lambda>s'. after k s s' \<and> passed_det (qs s' ! q)) (mark_as_det_done q s)"
proof -
  have "CHR ''/'' \<in> set (fname (qs s ! q))" using assms by (simp add: x_inv_def)
  then obtain fn where b: "base_name (fname (qs s ! q)) = Some fn" by (auto simp: base_name_def)
  have u: "still s (upd_q q (\<lambda>e. e\<lparr>passed_det := True\<rparr>) (s\<lparr>fs := f\<rparr>))" for f
    by (rule still_trans[OF still_more_steps(3) still_upd_q]) (simp_all add: entry_part_def)
  have "after k s (upd_q q (\<lambda>e. e\<lparr>passed_det := True\<rparr>) (s\<lparr>fs := f\<rparr>))" for f
    using u assms(1) by (auto simp: still_def intro: after_frame)
  then show ?thesis unfolding mark_as_det_done_def b option.case create_excl_def
    using assms(2) by (simp add: upd_q_def)
qed

lemma after_length: "after k s s' \<Longrightarrow> length (qs s) \<le> length (qs s')"
  unfolding after_def using prefix_length_le by fastforce

lemma okE_leave:
  assumes "okE R m" "\<And>st. R (True, st) \<Longrightarrow> R' (True, st)" "\<And>st. R (False, st) \<Longrightarrow> okE R' (f st)"
  shows "okE R' (bindE m (\<lambda>(leave, st). if leave then Inr (True, st) else f st))"
proof (rule okE_bind[OF assms(1)])
  fix y assume "R y"
  then show "okE R' (case y of (leave, st) \<Rightarrow> if leave then Inr (True, st) else f st)"
    by (cases y, cases "fst y") (auto intro: assms(2,3))
qed

lemma stage_ok_app:
  assumes "stage_ok X n b f" "extras s = X" "x_inv (k + n) s"
  shows "okE (\<lambda>(l, h', b', s'). after k s s' \<and> (\<not> l \<longrightarrow> b' = b)) (f (h, b, s))"
  using assms by (simp add: stage_ok_def)

lemma det_tail_ok:
  fixes s :: "'a x_state_scheme"
  assumes len: "0 < length b" "length b < 2 ^ 29" and in_buf: "take (length b) in_buf = b" and q: "q < length (qs s)"
    and eff: "eff_map_ok (length b) al eff" and x: "x_inv (k + byte_budget (length b) (length (extras s))) s"
  shows "okE (\<lambda>(l, h, b', s'). after k s s' \<and> (\<not> l \<longrightarrow> b' = b \<and> passed_det (qs s' ! q))) (bindE (byte_stages eff in_buf (h, b, s)) (\<lambda>(leave, h, b, s).
     if leave then Inr (True, h, b, s)
     else if passed_det (qs s ! q) then Inr (False, h, b, s)
     else bindE (mark_as_det_done q s) (\<lambda>s. Inr (False, h, b, s))))"
proof (rule okE_bind[OF stage_ok_app[OF byte_stages_ok refl x]])
  show "length eff = EFF_ALEN (length b)" using eff by (simp add: eff_map_ok_def)
  fix y :: "bool \<times> 'a det_state" assume y: "case y of (l, h', b', s') \<Rightarrow> after k s s' \<and> (\<not> l \<longrightarrow> b' = b)"
  obtain l h1 b1 s1 where ys: "y = (l, h1, b1, s1)" by (cases y)
  have a: "after k s s1" "q < length (qs s1)" using y q after_length[of k s s1] by (auto simp: ys)
  have d: "okE (\<lambda>(l, h, b', s'). after k s s' \<and> (\<not> l \<longrightarrow> b' = b \<and> passed_det (qs s' ! q))) (bindE (mark_as_det_done q s1) (\<lambda>s. Inr (False, h1, b, s)))"
    by (rule okE_bind[OF mark_as_det_done_ok[OF after_x_inv[OF a(1)] a(2)]]) (use after_trans[OF a(1)] in auto)
  show "okE (\<lambda>(l, h, b', s'). after k s s' \<and> (\<not> l \<longrightarrow> b' = b \<and> passed_det (qs s' ! q))) (case y of (leave, h, b, s) \<Rightarrow>
     if leave then Inr (True, h, b, s) else if passed_det (qs s ! q) then Inr (False, h, b, s) else bindE (mark_as_det_done q s) (\<lambda>s. Inr (False, h, b, s)))"
    using y d by (auto simp: ys)
qed (use len in_buf in auto)

lemma deterministic_stages_ok:
  fixes s :: "'a x_state_scheme"
  assumes len: "0 < length b" "length b < 2 ^ 29" and in_buf: "take (length b) in_buf = b" and q: "q < length (qs s)"
    and x: "x_inv (k + (25 * length b + byte_budget (length b) (length (extras s)))) s"
  shows "okE (\<lambda>(l, h, b', s'). after k s s' \<and> (\<not> l \<longrightarrow> b' = b \<and> passed_det (qs s' ! q))) (deterministic_stages q in_buf (b, s))"
proof -
  define B where "B = byte_budget (length b) (length (extras s))"
  let ?P = "\<lambda>(l, h, b', s'). after k s s' \<and> (\<not> l \<longrightarrow> b' = b \<and> passed_det (qs s' ! q))"
  have x1: "x_inv ((k + B + length b + (8 * length b + 8 * length b)) + 8 * length b) s" using x by (simp add: B_def algebra_simps)
  show ?thesis unfolding deterministic_stages_def
  proof (rule okE_leave[OF flip1_stage_ok[OF len(2) x1]], goal_cases)
    case (1 st) then show ?case by (auto simp: elim: after_mono)
  next
    case (2 st)
    then obtain h1 s1 where st: "st = (h1, b, s1)" and a1: "after (k + B + length b + (8 * length b + 8 * length b)) s s1" by (cases st) auto
    note f24 = stage_ok_app[OF stage_ok_pair[OF flip2_stage_ok[OF len] flip4_stage_ok[OF len]] refl after_x_inv[OF a1]]
    show ?case unfolding st
    proof (rule okE_leave[OF f24], goal_cases)
      case (1 st) then show ?case by (auto intro: after_mono[OF after_trans[OF a1]])
    next
      case (2 st)
      then obtain h2 s2 where st: "st = (h2, b, s2)" and a2: "after (k + B + length b) s s2" using after_trans[OF a1] by (cases st) auto
      show ?case unfolding st
      proof (rule okE_bind[OF flip8_stage_ok[OF len after_x_inv[OF a2]]])
        fix y :: "(bool \<times> u8 list) \<times> 'a det_state"
        assume y: "(\<lambda>((l, eff), h, b', s'). after (k + B) s2 s' \<and> (\<not> l \<longrightarrow> b' = b \<and> eff_map_ok (length b) (blind (length b) s2) eff)) y"
        obtain l eff h3 b3 s3 where ys: "y = ((l, eff), h3, b3, s3)" by (cases y) auto
        have a3: "after (k + B) s s3" using y after_trans[OF a2] by (simp add: ys)
        have t: "okE ?P (bindE (byte_stages eff in_buf (h3, b, s3)) (\<lambda>(leave, h, b, s). if leave then Inr (True, h, b, s)
           else if passed_det (qs s ! q) then Inr (False, h, b, s) else bindE (mark_as_det_done q s) (\<lambda>s. Inr (False, h, b, s))))" if "\<not> l"
          by (rule okE_mono[OF det_tail_ok[OF len in_buf]])
            (use that y q a3 after_x_inv[OF a3] after_length[OF a3] after_trans[OF a3] in \<open>auto simp: ys B_def after_extras[OF a3]\<close>)
        from t y after_mono[OF a3, of k] show "okE ?P ((\<lambda>((leave, eff), st). if leave then Inr (True, st)
           else bindE (byte_stages eff in_buf st) (\<lambda>(leave, h, b, s). if leave then Inr (True, h, b, s)
             else if passed_det (qs s ! q) then Inr (False, h, b, s) else bindE (mark_as_det_done q s) (\<lambda>s. Inr (False, h, b, s)))) y)"
          by (cases l) (simp_all add: ys)
      qed
    qed
  qed
qed

section \<open>Stages refine their plans\<close>

text \<open>
  The abstract stage: announce, run the plan's inputs one by one until the round asks to stop, close
  the books. It has no buffer; a stage on \<open>b\<close> refines it when it returns the same, for every target and
  every state, and gives \<open>b\<close> back when it ran to its end.
\<close>

definition planned :: "nat \<Rightarrow> string \<Rightarrow> int \<Rightarrow> 'a x_state_scheme step list \<Rightarrow> u64 \<times> 'a x_state_scheme \<Rightarrow> err + bool \<times> u64 \<times> 'a x_state_scheme" where
  "planned j short mx p = (\<lambda>(h, s).
     bindE (run_plan p (begin_stage short mx s)) (\<lambda>(leave, s).
       if leave then Inr (True, h, s) else let (h, s) = end_stage j h s in Inr (False, h, s)))"

definition refines :: "u8 list \<Rightarrow> ('a det_state \<Rightarrow> err + bool \<times> 'a det_state) \<Rightarrow>
    (u64 \<times> 'a x_state_scheme \<Rightarrow> err + bool \<times> u64 \<times> 'a x_state_scheme) \<Rightarrow> bool" where
  "refines b f g \<longleftrightarrow> (\<forall>h s. case g (h, s) of Inl e \<Rightarrow> f (h, b, s) = Inl e
     | Inr (leave, h', s') \<Rightarrow> \<exists>b'. f (h, b, s) = Inr (leave, h', b', s') \<and> (\<not> leave \<longrightarrow> b' = b))"

lemma refines_run_stage:
  fixes p :: "'a x_state_scheme step list"
  assumes "sim (\<lambda>b'. b' = b) (\<lambda>b'. b' = b) loop p"
  shows "refines b (run_stage j short mx loop) (planned j short mx p)"
  unfolding refines_def
proof (intro allI)
  fix h and s :: "'a x_state_scheme"
  note sm = assms[unfolded sim_def, rule_format, OF refl, of "begin_stage short mx s"]
  show "case planned j short mx p (h, s) of Inl e \<Rightarrow> run_stage j short mx loop (h, b, s) = Inl e
     | Inr (leave, h', s') \<Rightarrow> \<exists>b'. run_stage j short mx loop (h, b, s) = Inr (leave, h', b', s') \<and> (\<not> leave \<longrightarrow> b' = b)"
    using sm by (cases "run_plan p (begin_stage short mx s)") (auto simp: planned_def run_stage_def Let_def split: prod.splits)
qed

text \<open>A plan for the stage \<open>j\<close> that tries exactly the inputs of \<open>M\<close>, and no more than \<open>n\<close> times.\<close>

definition plan_for :: "u8 list \<Rightarrow> ('a det_state \<Rightarrow> err + bool \<times> 'a det_state) \<Rightarrow> nat \<Rightarrow> string \<Rightarrow> int \<Rightarrow> u8 list set \<Rightarrow> nat \<Rightarrow> bool" where
  "plan_for b f j short mx M n \<longleftrightarrow>
     (\<exists>p. refines b f (planned j short mx p) \<and> set (tries p) = M \<and> length (tries p) \<le> n \<and> benign p)"

lemma plan_forI:
  assumes "does acc (\<lambda>b'. b' = b) (\<lambda>b'. b' = b) loop M n c" "\<And>h s. f (h, b, s) = run_stage j short mx loop (h, b, s)" "n \<le> m" "M = M'"
  shows "plan_for b f j short mx M' m"
proof -
  obtain p where p: "sim (\<lambda>b'. b' = b) (\<lambda>b'. b' = b) loop p" "set (tries p) = M" "length (tries p) \<le> n" "benign p"
    using assms(1) unfolding does_def by blast
  have "refines b f (planned j short mx p)" using refines_run_stage[OF p(1)] unfolding refines_def assms(2) .
  then show ?thesis unfolding plan_for_def using p assms(3,4) by auto
qed

text \<open>The inputs of the value stages: \<open>b\<close> with one value written over each effective position.\<close>

definition rewritten :: "nat \<Rightarrow> u8 list \<Rightarrow> u8 list \<Rightarrow> ('w::len word \<Rightarrow> 'w word set) \<Rightarrow> u8 list set" where
  "rewritten k eff b vals = {put k i w b | i w. i + k \<le> length b \<and> effective k eff i \<and> w \<in> vals (le_load (take k (drop i b)))}"

lemma rewritten_arith:
  "(\<Union>i\<in>{i. i + k \<le> length b \<and> effective k eff i}. \<Union>j\<in>{1..n}. (\<lambda>w. put k i w b) ` vals (le_load (take k (drop i b))) j)
   = rewritten k eff b (\<lambda>orig. \<Union>j\<in>{1..n}. vals orig j)"
  by (auto simp: rewritten_def)

lemma rewritten_interest:
  "(\<Union>i\<in>{i. i + k \<le> length b \<and> effective k eff i}. (\<lambda>w. put k i w b) ` vals (le_load (take k (drop i b)))) = rewritten k eff b vals"
  by (auto simp: rewritten_def)

lemma rewritten_flip:
  "(\<lambda>i. put k i (f (le_load (take k (drop i b)))) b) ` {i. i + k \<le> length b \<and> effective k eff i} = rewritten k eff b (\<lambda>orig. {f orig})"
  by (auto simp: rewritten_def)

section \<open>The contracts of the stages\<close>

text \<open>
  C18. The bit flip stages try exactly the inputs their names promise, in no more runs than they announce: two or
  four adjacent bits inverted at every bit offset, and every aligned or unaligned pair or quadruple of
  bytes inverted that the effector map does not exclude. The flips are done and undone in the live
  buffer, but every stage returns what the plan of these inputs returns on the original buffer, for
  every behaviour of the target, and the buffer is restored.
\<close>

theorem bitflip_stages_inputs:
  assumes "4 \<le> length b" "length eff = EFF_ALEN (length b)"
  shows "plan_for b (flip2_stage :: 'a det_state \<Rightarrow> _) STAGE_FLIP2 ''flip2'' (8 * int (length b) - 1) {flip_bits 2 i b | i. i + 2 \<le> 8 * length b} (8 * length b - 1) \<and>
     plan_for b (flip4_stage :: 'a det_state \<Rightarrow> _) STAGE_FLIP4 ''flip4'' (8 * int (length b) - 3) {flip_bits 4 i b | i. i + 4 \<le> 8 * length b} (8 * length b - 3) \<and>
     plan_for b (flip16_stage eff :: 'a det_state \<Rightarrow> _) STAGE_FLIP16 ''flip16'' (int (length b) - 1) (rewritten 2 eff b (\<lambda>w :: u16. {NOT w})) (length b - 1) \<and>
     plan_for b (flip32_stage eff :: 'a det_state \<Rightarrow> _) STAGE_FLIP32 ''flip32'' (int (length b) - 3) (rewritten 4 eff b (\<lambda>w :: u32. {NOT w})) (length b - 3)"
proof (intro conjI)
  show "plan_for b flip2_stage STAGE_FLIP2 ''flip2'' (8 * int (length b) - 1) {flip_bits 2 i b | i. i + 2 \<le> 8 * length b} (8 * length b - 1)"
    by (rule plan_forI[OF does_walk[of 2]]) (use assms(1) in \<open>auto simp: flip2_stage_def\<close>)
  show "plan_for b flip4_stage STAGE_FLIP4 ''flip4'' (8 * int (length b) - 3) {flip_bits 4 i b | i. i + 4 \<le> 8 * length b} (8 * length b - 3)"
    by (rule plan_forI[OF does_walk[of 4]]) (use assms(1) in \<open>auto simp: flip4_stage_def\<close>)
  have n: "w XOR 0xFFFF = NOT w" "v XOR 0xFFFFFFFF = NOT v" for w :: u16 and v :: u32
  proof -
    have "(0xFFFF :: u16) = - 1" "(0xFFFFFFFF :: u32) = - 1" by simp_all
    then show "w XOR 0xFFFF = NOT w" "v XOR 0xFFFFFFFF = NOT v" by (simp_all only: bit.xor_one_right)
  qed
  show "plan_for b (flip16_stage eff) STAGE_FLIP16 ''flip16'' (int (length b) - 1) (rewritten 2 eff b (\<lambda>w :: u16. {NOT w})) (length b - 1)"
    by (rule plan_forI[OF does_flip16_loop[OF assms(2)]]) (use rewritten_flip[of 2 "\<lambda>w :: u16. NOT w"] n in \<open>auto simp: flip16_stage_def\<close>)
  show "plan_for b (flip32_stage eff) STAGE_FLIP32 ''flip32'' (int (length b) - 3) (rewritten 4 eff b (\<lambda>w :: u32. {NOT w})) (length b - 3)"
    by (rule plan_forI[OF does_flip32_loop[OF assms(2)]]) (use rewritten_flip[of 4 "\<lambda>w :: u32. NOT w"] n in \<open>auto simp: flip32_stage_def\<close>)
qed

theorem bitflip_stages_inputs_witness:
  "plan_for [1, 2, 3, 4] (flip32_stage [1] :: unit det_state \<Rightarrow> _) STAGE_FLIP32 ''flip32'' 1 {[254, 253, 252, 251]} 1"
proof -
  have "length [1 :: u8] = EFF_ALEN (length [1 :: u8, 2, 3, 4])" by (simp add: EFF_ALEN_def EFF_APOS_def EFF_REM_def cfg_simps)
  note f = bitflip_stages_inputs[of "[1, 2, 3, 4]" "[1]", OF _ this, where 'a = unit]
  have "rewritten 4 [1] [1, 2, 3, 4] (\<lambda>w :: u32. {NOT w}) = {put 4 0 (NOT (le_load [1, 2, 3, 4] :: u32)) [1, 2, 3, 4]}"
    by (auto simp: rewritten_def effective_def EFF_APOS_def cfg_simps intro!: exI[of _ 0])
  also have "\<dots> = {[254, 253, 252, 251]}" by code_simp
  finally show ?thesis using f by simp
qed

text \<open>
  C17. The arithmetic and interesting-value stages try exactly these inputs and restore the buffer: at
  every position the effector map admits, every value reached by adding or subtracting up to
  \<open>ARITH_MAX\<close> in either byte order, respectively every entry of the tables in either byte order,
  except the values an earlier stage has tried already according to \<open>could_be_bitflip\<close>,
  \<open>could_be_arith\<close> and \<open>could_be_interest\<close>, and, for words, those whose carry does not leave the low half.
\<close>

theorem value_stages_inputs:
  assumes "4 \<le> length b" "length eff = EFF_ALEN (length b)"
  shows "plan_for b (arith8_stage eff :: 'a det_state \<Rightarrow> _) STAGE_ARITH8 ''arith8'' (2 * int (length b) * int ARITH_MAX)
       (rewritten 1 eff b (\<lambda>orig. \<Union>j\<in>{1..ARITH_MAX}. arith8_vals orig j)) (2 * length b * ARITH_MAX) \<and>
     plan_for b (arith16_stage eff :: 'a det_state \<Rightarrow> _) STAGE_ARITH16 ''arith16'' (4 * (int (length b) - 1) * int ARITH_MAX)
       (rewritten 2 eff b (\<lambda>orig. \<Union>j\<in>{1..ARITH_MAX}. arith16_vals orig j)) (4 * (length b - 1) * ARITH_MAX) \<and>
     plan_for b (arith32_stage eff :: 'a det_state \<Rightarrow> _) STAGE_ARITH32 ''arith32'' (4 * (int (length b) - 3) * int ARITH_MAX)
       (rewritten 4 eff b (\<lambda>orig. \<Union>j\<in>{1..ARITH_MAX}. arith32_vals orig j)) (4 * (length b - 3) * ARITH_MAX) \<and>
     plan_for b (interest8_stage eff :: 'a det_state \<Rightarrow> _) STAGE_INTEREST8 ''int8'' (int (length b * length interesting_8))
       (rewritten 1 eff b interest8_vals) (length b * length interesting_8) \<and>
     plan_for b (interest16_stage eff :: 'a det_state \<Rightarrow> _) STAGE_INTEREST16 ''int16'' (2 * (int (length b) - 1) * int (length interesting_16))
       (rewritten 2 eff b interest16_vals) (2 * (length b - 1) * length interesting_16) \<and>
     plan_for b (interest32_stage eff :: 'a det_state \<Rightarrow> _) STAGE_INTEREST32 ''int32'' (2 * (int (length b) - 3) * int (length interesting_32))
       (rewritten 4 eff b interest32_vals) (2 * (length b - 3) * length interesting_32)"
proof (intro conjI)
  note eff = assms(2)
  show "plan_for b (arith8_stage eff) STAGE_ARITH8 ''arith8'' (2 * int (length b) * int ARITH_MAX)
       (rewritten 1 eff b (\<lambda>orig. \<Union>j\<in>{1..ARITH_MAX}. arith8_vals orig j)) (2 * length b * ARITH_MAX)"
    by (rule plan_forI[OF does_arith8_loop[OF eff] _ _ rewritten_arith]) (simp_all add: arith8_stage_def)
  show "plan_for b (arith16_stage eff) STAGE_ARITH16 ''arith16'' (4 * (int (length b) - 1) * int ARITH_MAX)
       (rewritten 2 eff b (\<lambda>orig. \<Union>j\<in>{1..ARITH_MAX}. arith16_vals orig j)) (4 * (length b - 1) * ARITH_MAX)"
    by (rule plan_forI[OF does_arith16_loop[OF eff] _ _ rewritten_arith]) (simp_all add: arith16_stage_def)
  show "plan_for b (arith32_stage eff) STAGE_ARITH32 ''arith32'' (4 * (int (length b) - 3) * int ARITH_MAX)
       (rewritten 4 eff b (\<lambda>orig. \<Union>j\<in>{1..ARITH_MAX}. arith32_vals orig j)) (4 * (length b - 3) * ARITH_MAX)"
    by (rule plan_forI[OF does_arith32_loop[OF eff] _ _ rewritten_arith]) (simp_all add: arith32_stage_def)
  show "plan_for b (interest8_stage eff) STAGE_INTEREST8 ''int8'' (int (length b * length interesting_8))
       (rewritten 1 eff b interest8_vals) (length b * length interesting_8)"
    by (rule plan_forI[OF does_interest8_loop[OF eff] _ _ rewritten_interest]) (simp_all add: interest8_stage_def)
  show "plan_for b (interest16_stage eff) STAGE_INTEREST16 ''int16'' (2 * (int (length b) - 1) * int (length interesting_16))
       (rewritten 2 eff b interest16_vals) (2 * (length b - 1) * length interesting_16)"
    by (rule plan_forI[OF does_interest16_loop[OF eff] _ _ rewritten_interest]) (simp_all add: interest16_stage_def)
  show "plan_for b (interest32_stage eff) STAGE_INTEREST32 ''int32'' (2 * (int (length b) - 3) * int (length interesting_32))
       (rewritten 4 eff b interest32_vals) (2 * (length b - 3) * length interesting_32)"
    by (rule plan_forI[OF does_interest32_loop[OF eff] _ _ rewritten_interest]) (simp_all add: interest32_stage_def)
qed

theorem value_stages_inputs_witness:
  "plan_for [0, 0, 0, 9] (interest32_stage [1] :: unit det_state \<Rightarrow> _) STAGE_INTEREST32 ''int32'' 54 (rewritten 4 [1] [0, 0, 0, 9] interest32_vals) 54 \<and>
   [255, 255, 255, 127] \<in> rewritten 4 [1] [0, 0, 0, 9] interest32_vals"
proof
  have "length [1 :: u8] = EFF_ALEN (length [0 :: u8, 0, 0, 9])" by (simp add: EFF_ALEN_def EFF_APOS_def EFF_REM_def cfg_simps)
  from value_stages_inputs[of "[0, 0, 0, 9]" "[1]", OF _ this, where 'a = unit]
  show "plan_for [0, 0, 0, 9] (interest32_stage [1] :: unit det_state \<Rightarrow> _) STAGE_INTEREST32 ''int32'' 54 (rewritten 4 [1] [0, 0, 0, 9] interest32_vals) 54"
    by (simp add: interesting_lengths)
  have "effective 4 [1] 0" by (auto simp: effective_def EFF_APOS_def cfg_simps intro!: exI[of _ 0])
  moreover have "[255, 255, 255, 127] = put 4 0 (0x7FFFFFFF :: u32) [0, 0, 0, 9]" by code_simp
  moreover have "\<not> could_be_bitflip (le_load [0, 0, 0, 9] XOR 0x7FFFFFFF)" "\<not> could_be_arith (le_load [0, 0, 0, 9]) 0x7FFFFFFF 4"
      "\<not> could_be_interest (le_load [0, 0, 0, 9]) 0x7FFFFFFF 4 False" by code_simp+
  then have "0x7FFFFFFF \<in> interest32_vals (le_load [0, 0, 0, 9])"
    by (auto simp: interest32_vals_def interesting_32_def intro!: bexI[of _ 2147483647])
  ultimately show "[255, 255, 255, 127] \<in> rewritten 4 [1] [0, 0, 0, 9] interest32_vals"
    unfolding rewritten_def by (intro CollectI exI[of _ 0] exI[of _ "0x7FFFFFFF"]) simp
qed

lemma example_x_room: "k < 2 ^ 32 - 2 \<Longrightarrow> x_inv k example_x"
  using example_x_inv by (auto simp: x_inv_def example_entry(4))

lemma EFF_ALEN_div: "EFF_ALEN n = (n + 7) div 8" "0 < n \<Longrightarrow> EFF_APOS (n - 1) = EFF_ALEN n - 1"
proof -
  define d r where "d = n div 8" and "r = n mod 8"
  have n: "n = 8 * d + r" "r < 8" by (simp_all add: d_def r_def)
  have "(n + 7) div 8 = d + (r + 7) div 8" unfolding n(1) by simp
  moreover have "(r + 7) div 8 = (if r = 0 then 0 else 1)" using n(2) by auto
  moreover have "(n - 1) div 8 = (if r = 0 then d - 1 else d)" if "0 < n"
  proof (cases "r = 0")
    case True
    then have "n - 1 = 8 * (d - 1) + 7" using that n(1) by (cases d) auto
    then show ?thesis using True by simp
  next
    case False
    then have "n - 1 = 8 * d + (r - 1)" using n(1) by simp
    then show ?thesis using False n(2) by simp
  qed
  ultimately show "EFF_ALEN n = (n + 7) div 8" "0 < n \<Longrightarrow> EFF_APOS (n - 1) = EFF_ALEN n - 1"
    by (auto simp: EFF_ALEN_def EFF_APOS_def EFF_REM_def cfg_simps d_def[symmetric] r_def[symmetric])
qed

lemma example_eff: "length [1 :: u8] = EFF_ALEN (length [1 :: u8, 2, 3, 4])"
  by (simp add: EFF_ALEN_def EFF_APOS_def EFF_REM_def cfg_simps)

lemma example_extras: "length (extras example_x) = 1"
  by (simp add: example_x_def example_ex_def ex_state.extend_def q_state.extend_def)

text \<open>
  The byte flip stage returns an effector map the later stages can rely on: one entry per block
  of eight bytes, each 0 or 1, with the first and the last block always marked, so that no stage
  indexes it out of bounds. For an input below \<open>EFF_MIN_LEN\<close> bytes, or in dumb mode, every block is
  marked and no position is skipped later. The buffer is restored, and the stage never runs into
  undefined behaviour whatever the target does.
\<close>

lemma effector_map_spec:
  assumes "0 < length b" "length b < 2 ^ 29" "x_inv (length b) s"
  shows "okE (\<lambda>((leave, eff), h', b', s'). \<not> leave \<longrightarrow> b' = b \<and> length eff = (length b + 7) div 8 \<and> set eff \<subseteq> {0, 1} \<and>
       eff ! 0 = 1 \<and> last eff = 1 \<and> (length b < EFF_MIN_LEN \<or> dumb_mode s \<noteq> 0 \<longrightarrow> (\<forall>i<length b. eff ! (i div 8) = 1)))
     (flip8_stage q (h, b, s))"
proof (rule okE_mono[OF flip8_stage_ok[OF assms(1,2), of 0 s]])
  show "x_inv (0 + length b) s" using assms(3) by simp
  note l = EFF_ALEN_div(1)[of "length b"] EFF_ALEN_div(2)[OF assms(1)]
  fix y :: "(bool \<times> u8 list) \<times> 'a det_state"
  assume y: "case y of (x, xa) \<Rightarrow> (case x of (l, eff) \<Rightarrow> \<lambda>(h, b', s'). after 0 s s' \<and> (\<not> l \<longrightarrow> b' = b \<and> eff_map_ok (length b) (blind (length b) s) eff)) xa"
  show "case y of (x, xa) \<Rightarrow> (case x of (leave, eff) \<Rightarrow> \<lambda>(h', b', s'). \<not> leave \<longrightarrow> b' = b \<and> length eff = (length b + 7) div 8 \<and> set eff \<subseteq> {0, 1} \<and>
       eff ! 0 = 1 \<and> last eff = 1 \<and> (length b < EFF_MIN_LEN \<or> dumb_mode s \<noteq> 0 \<longrightarrow> (\<forall>i<length b. eff ! (i div 8) = 1))) xa"
    using y l assms(1) EFF_ALEN_bounds(1)[of "length b"] last_conv_nth[of "snd (fst y)"]
    by (cases "snd (fst y) = []") (auto simp: eff_map_ok_def blind_def EFF_APOS_def cfg_simps)
qed

lemma effector_map_spec_witness:
  "okE (\<lambda>((leave, eff), h', b', s'). \<not> leave \<longrightarrow> b' = [1, 2, 3, 4, 5, 6, 7, 8, 9] \<and> length eff = 2 \<and> (\<forall>i<9. eff ! (i div 8) = 1))
     (flip8_stage 0 (0, [1, 2, 3, 4, 5, 6, 7, 8, 9], example_x))"
proof -
  have l: "length [1 :: u8, 2, 3, 4, 5, 6, 7, 8, 9] = 9" by simp
  have "x_inv (length [1 :: u8, 2, 3, 4, 5, 6, 7, 8, 9]) example_x" unfolding l by (rule example_x_room) simp
  note e = effector_map_spec[OF _ _ this, unfolded l]
  show ?thesis by (rule okE_mono[OF e]) (auto simp: cfg_simps split: prod.splits)
qed

text \<open>
  C32. The stages keep honest books: each of the byte, value and overwriting dictionary stages ends with
  \<open>stage_cur\<close> equal to \<open>stage_max\<close>, because every value it leaves out is taken off \<open>stage_max\<close>. The inserting
  dictionary stage is the exception: it announces \<open>extras_cnt * len\<close> runs but inserts at \<open>len + 1\<close>
  positions, and ends \<open>extras_cnt\<close> runs above what it announced.
\<close>

theorem stage_books:
  assumes "4 \<le> length b" "length b < 2 ^ 29" "length eff = EFF_ALEN (length b)" "take (length b) in_buf = b"
    and "x_inv (140 * length b + (length b + 1) * length (extras s)) s"
  shows "(\<forall>f\<in>{flip16_stage eff, flip32_stage eff, arith8_stage eff, arith16_stage eff, arith32_stage eff,
        interest8_stage eff, interest16_stage eff, interest32_stage eff, extras_UO_stage eff in_buf, extras_AO_stage eff in_buf}.
       okE (\<lambda>(leave, h', b', s'). \<not> leave \<longrightarrow> b' = b \<and> stage_cur s' = stage_max s') (f (h, b, s))) \<and>
     okE (\<lambda>(leave, h', b', s'). \<not> leave \<longrightarrow> b' = b \<and> stage_cur s' = stage_max s' + int (length (extras s))) (extras_UI_stage (h, b, s))"
proof -
  have run: "okE (\<lambda>(leave, h', b', s'). \<not> leave \<longrightarrow> b' = b \<and> stage_cur s' = stage_max s' - d) (f (h, b, s))"
    if "stage_counts (extras s) n b d f" "n \<le> 140 * length b + (length b + 1) * length (extras s)" for f n d
    by (rule okE_mono[OF stage_counts_app[OF that(1) refl, of 0]]) (use x_inv_mono[OF assms(5) that(2)] in \<open>auto simp: to_go_def\<close>)
  have two: "2 \<le> length b" using assms(1) by simp
  note r = run[where d = 0, simplified]
  show ?thesis
    using r[OF flip16_stage_ok[OF assms(3) two assms(2)]] r[OF flip32_stage_ok[OF assms(3,1,2)]] r[OF arith8_stage_ok[OF assms(3,2)]]
      r[OF arith16_stage_ok[OF assms(3) two assms(2)]] r[OF arith32_stage_ok[OF assms(3,1,2)]] r[OF interest8_stage_ok[OF assms(3,2)]]
      r[OF interest16_stage_ok[OF assms(3) two assms(2)]] r[OF interest32_stage_ok[OF assms(3,1,2)]]
      r[OF extras_UO_stage_ok[OF assms(3,2,4)]] r[OF extras_AO_stage_ok[OF assms(3,2,4)]] run[OF extras_UI_stage_ok[OF assms(2)]]
    by simp
qed

theorem stage_books_witness:
  "okE (\<lambda>(leave, h', b', s'). \<not> leave \<longrightarrow> b' = [1, 2, 3, 4] \<and> stage_cur s' = stage_max s' + 1) (extras_UI_stage (0, [1, 2, 3, 4], example_x))"
  using stage_books[of "[1, 2, 3, 4]" "[1]" "[1, 2, 3, 4]" example_x 0] example_x_room[of 565] example_eff by (simp add: example_extras)

text \<open>
  C3. The whole deterministic pass of \<open>fuzz_one\<close> is safe: from a state with the fuzzer's invariant and
  room in the queue for what it may find, every stage up to the automatic dictionary runs without
  undefined behaviour, whatever the target does, and it ends. It keeps the invariant and the earlier
  queue entries. Unless a stage is left early, \<open>out_buf\<close> is what it was at the start, so that the random
  stages begin with the original input, and the entry is marked as done.
\<close>

theorem deterministic_stages_safe:
  assumes "0 < length b" "length b < 2 ^ 29" "take (length b) in_buf = b" "q < length (qs s)"
    and "x_inv (k + (528 * length b + length (extras s) * (2 * length b + 1))) s"
  shows "okE (\<lambda>(leave, h, b', s'). x_inv k s' \<and> prefix (map fname (qs s)) (map fname (qs s')) \<and>
       prefix (map q_len (qs s)) (map q_len (qs s')) \<and> (\<not> leave \<longrightarrow> b' = b \<and> passed_det (qs s' ! q)))
     (deterministic_stages q in_buf (b, s))"
  by (rule okE_mono[OF deterministic_stages_ok[OF assms(1-4), of k]]) (use assms(5) in \<open>auto simp: byte_budget_def after_def algebra_simps\<close>)

theorem deterministic_stages_safe_witness:
  "okE (\<lambda>(leave, h, b', s'). x_inv 7 s' \<and> prefix [''q/a'', ''q/b''] (map fname (qs s')) \<and> (\<not> leave \<longrightarrow> b' = [1, 2, 3, 4] \<and> passed_det (qs s' ! 0)))
     (deterministic_stages 0 [1, 2, 3, 4] ([1, 2, 3, 4], example_x))"
  by (rule okE_mono[OF deterministic_stages_safe[of "[1, 2, 3, 4]" "[1, 2, 3, 4]" 0 example_x 7]])
    (use example_x_room[of 2128] in \<open>auto simp: example_entry example_extras\<close>)

end
