(* ===== verification/Afl_Havoc.thy ===== *)
theory Afl_Havoc
  imports Afl_Det
begin

unbundle bit_operations_syntax

text \<open>
  The random stage of \<open>fuzz_one\<close> in \<open>afl-fuzz.c\<close>: stacked random tweaks of a copy of the input, one run
  of the target, and the restored copy. Unlike in the deterministic stages the live length \<open>temp_len\<close>
  and the size of the allocation differ: \<open>out_buf\<close> is the list of all bytes allocated, every access is
  checked against its length, and \<open>temp_len\<close> is a number of its own. Where C leaves the order of two
  random draws in an assignment open, the left-hand side is drawn first; every theorem holds for all
  streams of random numbers, hence for either order.
\<close>

section \<open>Constants and memory operations\<close>

definition HAVOC_CYCLES :: u32 where "HAVOC_CYCLES = 256"
definition HAVOC_CYCLES_INIT :: u32 where "HAVOC_CYCLES_INIT = 1024"
definition HAVOC_MAX_MULT :: u32 where "HAVOC_MAX_MULT = 16"
definition HAVOC_MIN :: int where "HAVOC_MIN = 16"
definition HAVOC_STACK_POW2 :: nat where "HAVOC_STACK_POW2 = 7"
definition SPLICE_HAVOC :: u32 where "SPLICE_HAVOC = 32"
definition STAGE_HAVOC :: nat where "STAGE_HAVOC = 15"
definition STAGE_SPLICE :: nat where "STAGE_SPLICE = 16"

text \<open>\<open>n\<close> bytes from offset \<open>i\<close> on; \<open>memmove\<close> inside one buffer. (\<open>ck_realloc\<close> is the one of \<open>Afl_Alloc\<close>.)\<close>

definition read_from :: "nat \<Rightarrow> nat \<Rightarrow> u8 list \<Rightarrow> err + u8 list" where
  "read_from i n b = (if i + n \<le> length b then Inr (take n (drop i b)) else Inl OutOfBounds)"

definition memmove_in :: "nat \<Rightarrow> nat \<Rightarrow> nat \<Rightarrow> u8 list \<Rightarrow> err + u8 list" where
  "memmove_in dst src n b = bindE (read_from src n b) (\<lambda>x. memcpy_in dst x b)"

text \<open>\<open>out_buf\<close>, \<open>temp_len\<close> and the globals.\<close>

type_synonym 'a havoc = "u8 list \<times> nat \<times> 'a x_state_scheme"

section \<open>The tweaks\<close>

definition havoc_flip :: "'a havoc \<Rightarrow> err + 'a havoc" where
  "havoc_flip = (\<lambda>(b, tlen, s).
     bindE (UR (tlen * 8) s) (\<lambda>(r, s). bindE (flip r b) (\<lambda>b. Inr (b, tlen, s))))"

text \<open>
  A random byte, respectively word or double word (\<open>k\<close> bytes) in a random byte order, is replaced by a
  function of itself and a random number below \<open>n\<close>.
\<close>

definition rewrite_byte :: "(u8 \<Rightarrow> nat \<Rightarrow> u8) \<Rightarrow> nat \<Rightarrow> 'a havoc \<Rightarrow> err + 'a havoc" where
  "rewrite_byte f n = (\<lambda>(b, tlen, s).
     bindE (UR tlen s) (\<lambda>(pos, s).
     bindE (UR n s) (\<lambda>(r, s).
     bindE (peek 1 pos b) (\<lambda>c.
     bindE (poke 1 pos (f c r) b) (\<lambda>b. Inr (b, tlen, s))))))"

definition rewrite_word :: "nat \<Rightarrow> ('w::len word \<Rightarrow> nat \<Rightarrow> 'w word) \<Rightarrow> ('w word \<Rightarrow> nat \<Rightarrow> 'w word) \<Rightarrow> nat \<Rightarrow> 'a havoc \<Rightarrow> err + 'a havoc" where
  "rewrite_word k f g n = (\<lambda>(b, tlen, s).
     if tlen < k then Inr (b, tlen, s)
     else
       bindE (UR 2 s) (\<lambda>(native, s).
       bindE (UR (tlen - (k - 1)) s) (\<lambda>(pos, s).
       bindE (UR n s) (\<lambda>(r, s).
       bindE (peek k pos b) (\<lambda>w.
       bindE (poke k pos (if native \<noteq> 0 then f w r else g w r) b) (\<lambda>b. Inr (b, tlen, s)))))))"

definition havoc_interest16 :: "'a havoc \<Rightarrow> err + 'a havoc" where
  "havoc_interest16 = rewrite_word 2 (\<lambda>(_ :: u16) r. word_of_int (interesting_16 ! r))
     (\<lambda>_ r. SWAP16 (word_of_int (interesting_16 ! r))) (length interesting_16)"

definition havoc_interest32 :: "'a havoc \<Rightarrow> err + 'a havoc" where
  "havoc_interest32 = rewrite_word 4 (\<lambda>(_ :: u32) r. word_of_int (interesting_32 ! r))
     (\<lambda>_ r. SWAP32 (word_of_int (interesting_32 ! r))) (length interesting_32)"

definition havoc_sub16 :: "'a havoc \<Rightarrow> err + 'a havoc" where
  "havoc_sub16 = rewrite_word 2 (\<lambda>w r. w - of_nat (1 + r)) (\<lambda>w r. SWAP16 (SWAP16 w - of_nat (1 + r))) ARITH_MAX"

definition havoc_add16 :: "'a havoc \<Rightarrow> err + 'a havoc" where
  "havoc_add16 = rewrite_word 2 (\<lambda>w r. w + of_nat (1 + r)) (\<lambda>w r. SWAP16 (SWAP16 w + of_nat (1 + r))) ARITH_MAX"

definition havoc_sub32 :: "'a havoc \<Rightarrow> err + 'a havoc" where
  "havoc_sub32 = rewrite_word 4 (\<lambda>w r. w - of_nat (1 + r)) (\<lambda>w r. SWAP32 (SWAP32 w - of_nat (1 + r))) ARITH_MAX"

definition havoc_add32 :: "'a havoc \<Rightarrow> err + 'a havoc" where
  "havoc_add32 = rewrite_word 4 (\<lambda>w r. w + of_nat (1 + r)) (\<lambda>w r. SWAP32 (SWAP32 w + of_nat (1 + r))) ARITH_MAX"

definition havoc_delete :: "'a havoc \<Rightarrow> err + 'a havoc" where
  "havoc_delete = (\<lambda>(b, tlen, s).
     if tlen < 2 then Inr (b, tlen, s)
     else
       bindE (choose_block_len (tlen - 1) s) (\<lambda>(del_len, s).
       bindE (UR (tlen - del_len + 1) s) (\<lambda>(del_from, s).
       bindE (memmove_in del_from (del_from + del_len) (tlen - del_from - del_len) b) (\<lambda>b.
         Inr (b, tlen - del_len, s)))))"

text \<open>\<open>UR(2) ? UR(256) : out_buf[UR(temp_len)]\<close>\<close>

definition pick_fill :: "u8 list \<Rightarrow> nat \<Rightarrow> 'a x_state_scheme \<Rightarrow> err + u8 \<times> 'a x_state_scheme" where
  "pick_fill b tlen s =
     bindE (UR 2 s) (\<lambda>(r, s).
       if r \<noteq> 0 then bindE (UR 256 s) (\<lambda>(v, s). Inr (of_nat v, s))
       else bindE (UR tlen s) (\<lambda>(p, s). bindE (peek 1 p b) (\<lambda>c. Inr (c, s))))"

text \<open>
  A fresh buffer of \<open>tlen + length blk\<close> bytes with the block inserted at \<open>at\<close>. Its bytes are not
  initialised; all of them are written here.
\<close>

definition insert_block :: "nat \<Rightarrow> u8 list \<Rightarrow> u8 list \<Rightarrow> nat \<Rightarrow> err + u8 list" where
  "insert_block at blk b tlen =
     (let new_buf = replicate (tlen + length blk) 0 in
      bindE (bindE (read_from 0 at b) (\<lambda>x. memcpy_in 0 x new_buf)) (\<lambda>new_buf.
      bindE (memcpy_in at blk new_buf) (\<lambda>new_buf.
      bindE (read_from at (tlen - at) b) (\<lambda>x. memcpy_in (at + length blk) x new_buf))))"

definition havoc_clone :: "'a havoc \<Rightarrow> err + 'a havoc" where
  "havoc_clone = (\<lambda>(b, tlen, s).
     if tlen + HAVOC_BLK_XL < MAX_FILE then
       bindE (UR 4 s) (\<lambda>(actually_clone, s).
       bindE (if actually_clone \<noteq> 0
              then bindE (choose_block_len tlen s) (\<lambda>(clone_len, s).
                   bindE (UR (tlen - clone_len + 1) s) (\<lambda>(clone_from, s). Inr ((clone_len, clone_from), s)))
              else bindE (choose_block_len HAVOC_BLK_XL s) (\<lambda>(clone_len, s). Inr ((clone_len, 0), s))) (\<lambda>((clone_len, clone_from), s).
       bindE (UR tlen s) (\<lambda>(clone_to, s).
       bindE (if actually_clone \<noteq> 0
              then bindE (read_from clone_from clone_len b) (\<lambda>blk. Inr (blk, s))
              else bindE (pick_fill b tlen s) (\<lambda>(c, s). Inr (replicate clone_len c, s))) (\<lambda>(blk, s).
       bindE (insert_block clone_to blk b tlen) (\<lambda>b. Inr (b, tlen + clone_len, s))))))
     else Inr (b, tlen, s))"

definition havoc_overwrite :: "'a havoc \<Rightarrow> err + 'a havoc" where
  "havoc_overwrite = (\<lambda>(b, tlen, s).
     if tlen < 2 then Inr (b, tlen, s)
     else
       bindE (choose_block_len (tlen - 1) s) (\<lambda>(copy_len, s).
       bindE (UR (tlen - copy_len + 1) s) (\<lambda>(copy_from, s).
       bindE (UR (tlen - copy_len + 1) s) (\<lambda>(copy_to, s).
       bindE (UR 4 s) (\<lambda>(r, s).
         if r \<noteq> 0 then
           (if copy_from \<noteq> copy_to then bindE (memmove_in copy_to copy_from copy_len b) (\<lambda>b. Inr (b, tlen, s))
            else Inr (b, tlen, s))
         else
           bindE (pick_fill b tlen s) (\<lambda>(c, s).
           bindE (memcpy_in copy_to (replicate copy_len c) b) (\<lambda>b. Inr (b, tlen, s))))))))"

text \<open>\<open>!extras_cnt || (a_extras_cnt && UR(2))\<close>, then a token of the dictionary it selects.\<close>

definition pick_token :: "'a x_state_scheme \<Rightarrow> err + u8 list \<times> 'a x_state_scheme" where
  "pick_token s =
     bindE (if extras s = [] then Inr (True, s)
            else if a_extras s = [] then Inr (False, s)
            else bindE (UR 2 s) (\<lambda>(r, s). Inr (r \<noteq> 0, s))) (\<lambda>(auto, s).
       let toks = (if auto then a_extras s else extras s) in
       bindE (UR (length toks) s) (\<lambda>(use_extra, s). Inr (ed_data (toks ! use_extra), s)))"

definition havoc_extra_over :: "'a havoc \<Rightarrow> err + 'a havoc" where
  "havoc_extra_over = (\<lambda>(b, tlen, s).
     bindE (pick_token s) (\<lambda>(tok, s).
       if length tok > tlen then Inr (b, tlen, s)
       else
         bindE (UR (tlen - length tok + 1) s) (\<lambda>(insert_at, s).
         bindE (memcpy_in insert_at tok b) (\<lambda>b. Inr (b, tlen, s)))))"

definition havoc_extra_insert :: "'a havoc \<Rightarrow> err + 'a havoc" where
  "havoc_extra_insert = (\<lambda>(b, tlen, s).
     bindE (UR (tlen + 1) s) (\<lambda>(insert_at, s).
     bindE (pick_token s) (\<lambda>(tok, s).
       if tlen + length tok \<ge> MAX_FILE then Inr (b, tlen, s)
       else bindE (insert_block insert_at tok b tlen) (\<lambda>b. Inr (b, tlen + length tok, s)))))"

text \<open>The switch.\<close>

definition havoc_case :: "nat \<Rightarrow> 'a havoc \<Rightarrow> err + 'a havoc" where
  "havoc_case c =
     (if c = 0 then havoc_flip
      else if c = 1 then rewrite_byte (\<lambda>_ r. word_of_int (interesting_8 ! r)) (length interesting_8)
      else if c = 2 then havoc_interest16
      else if c = 3 then havoc_interest32
      else if c = 4 then rewrite_byte (\<lambda>x r. x - of_nat (1 + r)) ARITH_MAX
      else if c = 5 then rewrite_byte (\<lambda>x r. x + of_nat (1 + r)) ARITH_MAX
      else if c = 6 then havoc_sub16
      else if c = 7 then havoc_add16
      else if c = 8 then havoc_sub32
      else if c = 9 then havoc_add32
      else if c = 10 then rewrite_byte (\<lambda>x r. x XOR of_nat (1 + r)) 255
      else if c = 11 \<or> c = 12 then havoc_delete
      else if c = 13 then havoc_clone
      else if c = 14 then havoc_overwrite
      else if c = 15 then havoc_extra_over
      else if c = 16 then havoc_extra_insert
      else Inr)"

definition havoc_tweak :: "'a havoc \<Rightarrow> err + 'a havoc" where
  "havoc_tweak = (\<lambda>(b, tlen, s).
     bindE (UR (15 + (if extras s \<noteq> [] \<or> a_extras s \<noteq> [] then 2 else 0)) s) (\<lambda>(c, s). havoc_case c (b, tlen, s)))"

primrec havoc_stack :: "nat \<Rightarrow> 'a havoc \<Rightarrow> err + 'a havoc" where
  "havoc_stack 0 st = Inr st"
| "havoc_stack (Suc n) st = bindE (havoc_tweak st) (havoc_stack n)"

section \<open>Rounds and the stage\<close>

text \<open>One round; the first component of the result says whether \<open>common_fuzz_stuff\<close> asked to stop.\<close>

definition havoc_round :: "u8 list \<Rightarrow> nat \<Rightarrow> u8 list \<times> 'a x_state_scheme \<Rightarrow> err + bool \<times> u8 list \<times> 'a x_state_scheme" where
  "havoc_round in_buf len = (\<lambda>(b, s).
     bindE (UR HAVOC_STACK_POW2 s) (\<lambda>(r, s).
     let use_stacking = 2 ^ (1 + r) in
     bindE (havoc_stack use_stacking (b, len, s\<lparr>stage_cur_val := int use_stacking\<rparr>)) (\<lambda>(b, tlen, s).
     bindE (read_from 0 tlen b) (\<lambda>out.
     bindE (common_fuzz_stuff out s) (\<lambda>(stop, s).
       if stop then Inr (True, b, s)
       else
         let b = (if tlen < len then ck_realloc b len else b) in
         bindE (read_from 0 len in_buf) (\<lambda>x. bindE (memcpy_in 0 x b) (\<lambda>b. Inr (False, b, s))))))))"

text \<open>More rounds while something new is found.\<close>

definition havoc_extend :: "u32 \<times> u32 \<Rightarrow> 'a x_state_scheme \<Rightarrow> (u32 \<times> u32) \<times> 'a x_state_scheme" where
  "havoc_extend = (\<lambda>(perf_score, havoc_queued) s.
     if queued_paths s \<noteq> havoc_queued then
       (if perf_score \<le> HAVOC_MAX_MULT * 100
        then ((perf_score * 2, queued_paths s), s\<lparr>stage_max := stage_max s * 2\<rparr>)
        else ((perf_score, queued_paths s), s))
     else ((perf_score, havoc_queued), s))"

fun havoc_loop :: "nat \<Rightarrow> u8 list \<Rightarrow> nat \<Rightarrow> u32 \<times> u32 \<Rightarrow> u8 list \<times> 'a x_state_scheme \<Rightarrow> err + bool \<times> u8 list \<times> 'a x_state_scheme" where
  "havoc_loop 0 in_buf len ph (b, s) = (if stage_cur s < stage_max s then Inl OutOfFuel else Inr (False, b, s))"
| "havoc_loop (Suc fuel) in_buf len ph (b, s) =
     (if stage_cur s < stage_max s then
        bindE (havoc_round in_buf len (b, s)) (\<lambda>(stop, b, s).
          if stop then Inr (True, b, s)
          else
            let (ph, s) = havoc_extend ph s in
            havoc_loop fuel in_buf len ph (b, s\<lparr>stage_cur := stage_cur s + 1\<rparr>))
      else Inr (False, b, s))"

text \<open>
  The stage, in its two guises: after the deterministic stages (\<open>splice_cycle = 0\<close>) and on a spliced
  input. \<open>cycles * perf_score / havoc_div / 100\<close> is unsigned. The fuel is justified below.
\<close>

definition HAVOC_FUEL :: nat where "HAVOC_FUEL = 32768"

definition havoc_start :: "nat \<Rightarrow> bool \<Rightarrow> u32 \<Rightarrow> 'a x_state_scheme \<Rightarrow> err + 'a x_state_scheme" where
  "havoc_start splice_cycle doing_det perf_score s =
     (let cycles = (if splice_cycle \<noteq> 0 then SPLICE_HAVOC else if doing_det then HAVOC_CYCLES_INIT else HAVOC_CYCLES) in
      if havoc_div s = 0 then Inl DivByZero
      else
        let mx = uint (cycles * perf_score div havoc_div s div 100) in
        Inr (s\<lparr>stage_cur_byte := -1, stage_short := (if splice_cycle \<noteq> 0 then ''splice'' else ''havoc''),
               stage_max := (if mx < HAVOC_MIN then HAVOC_MIN else mx), stage_cur := 0\<rparr>))"

definition havoc_stage :: "nat \<Rightarrow> bool \<Rightarrow> u32 \<Rightarrow> u8 list \<Rightarrow> nat \<Rightarrow> u8 list \<times> 'a x_state_scheme \<Rightarrow> err + bool \<times> u8 list \<times> 'a x_state_scheme" where
  "havoc_stage splice_cycle doing_det perf_score in_buf len = (\<lambda>(b, s).
     bindE (havoc_start splice_cycle doing_det perf_score s) (\<lambda>s.
     let orig_hit_cnt = hit_cnt s in
     bindE (havoc_loop HAVOC_FUEL in_buf len (perf_score, queued_paths s) (b, s)) (\<lambda>(stop, b, s).
       if stop then Inr (True, b, s)
       else Inr (False, b, snd (end_stage (if splice_cycle \<noteq> 0 then STAGE_SPLICE else STAGE_HAVOC) orig_hit_cnt s)))))"

section \<open>The tweaks stay inside the allocation\<close>

text \<open>\<open>sureE P m\<close>: \<open>m\<close> succeeds, with a result that satisfies \<open>P\<close>.\<close>

definition sureE :: "('a \<Rightarrow> bool) \<Rightarrow> err + 'a \<Rightarrow> bool" where
  "sureE P m \<longleftrightarrow> (case m of Inl _ \<Rightarrow> False | Inr x \<Rightarrow> P x)"

lemma sureE_Inr [simp]: "sureE P (Inr x) \<longleftrightarrow> P x"
  by (simp add: sureE_def)

lemma sureE_bind: "sureE Q m \<Longrightarrow> (\<And>x. Q x \<Longrightarrow> sureE P (f x)) \<Longrightarrow> sureE P (bindE m f)"
  by (cases m) (auto simp: sureE_def)

lemma sureE_mono: "sureE Q m \<Longrightarrow> (\<And>x. Q x \<Longrightarrow> P x) \<Longrightarrow> sureE P m"
  by (cases m) (auto simp: sureE_def)

lemma sureE_okE: "sureE P m \<Longrightarrow> okE P m"
  by (cases m) (auto simp: sureE_def)

text \<open>One rule per primitive: its bounds, and what the rest of the statement may rely on.\<close>

lemma UR_sure:
  assumes "rng_only s0 s" "0 < n" "\<And>r s'. r < n \<Longrightarrow> rng_only s0 s' \<Longrightarrow> sureE P (f r s')"
  shows "sureE P (bindE (UR n s) (\<lambda>(r, s). f r s))"
  by (rule UR_bind[OF assms(2)]) (simp add: assms(3) rng_only_trans[OF assms(1)])

lemma block_len_sure:
  assumes "rng_only s0 s" "0 < n" "queue_cycle s0 \<noteq> 0"
    and "\<And>r s'. 1 \<le> r \<Longrightarrow> r \<le> n \<Longrightarrow> r \<le> HAVOC_BLK_XL \<Longrightarrow> rng_only s0 s' \<Longrightarrow> sureE P (f r s')"
  shows "sureE P (bindE (choose_block_len n s) (\<lambda>(r, s). f r s))"
proof -
  have "run_over10m s \<longrightarrow> queue_cycle s \<noteq> 0" using rng_only_fields(1)[OF assms(1)] assms(3) by simp
  then obtain r s' where r: "choose_block_len n s = Inr (r, s')" "1 \<le> r" "r \<le> n" "r \<le> HAVOC_BLK_XL" "rng_only s s'"
    using choose_block_len_ok[OF assms(2)] by blast
  show ?thesis using assms(4)[OF r(2-4) rng_only_trans[OF assms(1) r(5)]] by (simp add: r(1))
qed

lemma peek_sure: "i + k \<le> length b \<Longrightarrow> (\<And>w. sureE P (f w)) \<Longrightarrow> sureE P (bindE (peek k i b) f)"
  by (simp add: peek_def)

lemma poke_sure: "i + k \<le> length b \<Longrightarrow> (\<And>b'. length b' = length b \<Longrightarrow> sureE P (f b')) \<Longrightarrow> sureE P (bindE (poke k i w b) f)"
  by (simp add: poke_def)

lemma flip_sure: "i div 8 < length b \<Longrightarrow> (\<And>b'. length b' = length b \<Longrightarrow> sureE P (f b')) \<Longrightarrow> sureE P (bindE (flip i b) f)"
  by (simp add: flip_def)

lemma read_sure: "i + n \<le> length b \<Longrightarrow> (\<And>x. length x = n \<Longrightarrow> sureE P (f x)) \<Longrightarrow> sureE P (bindE (read_from i n b) f)"
  by (simp add: read_from_def)

lemma memcpy_sure: "i + length x \<le> length b \<Longrightarrow> (\<And>b'. length b' = length b \<Longrightarrow> sureE P (f b')) \<Longrightarrow> sureE P (bindE (memcpy_in i x b) f)"
  by (simp add: memcpy_in_def)

lemma memmove_sure:
  "src + n \<le> length b \<Longrightarrow> dst + n \<le> length b \<Longrightarrow> (\<And>b'. length b' = length b \<Longrightarrow> sureE P (f b')) \<Longrightarrow> sureE P (bindE (memmove_in dst src n b) f)"
  by (simp add: memmove_in_def read_from_def memcpy_in_def)

lemma insert_block_eq:
  assumes "at \<le> tlen" "tlen \<le> length b"
  shows "insert_block at blk b tlen = Inr (take at b @ blk @ take (tlen - at) (drop at b))"
proof -
  have "take at (take at b @ drop at (replicate (tlen + length blk) 0)) = take at b" using assms by simp
  then show ?thesis using assms by (auto simp: insert_block_def read_from_def memcpy_in_def Let_def min_def)
qed

lemma insert_block_sure:
  "at \<le> tlen \<Longrightarrow> tlen \<le> length b \<Longrightarrow> (\<And>b'. length b' = tlen + length blk \<Longrightarrow> sureE P (f b')) \<Longrightarrow> sureE P (bindE (insert_block at blk b tlen) f)"
  by (simp add: insert_block_eq)

text \<open>
  The contract of a tweak: the live part stays inside the allocation, is never empty and never longer
  than \<open>m\<close>, and nothing of the globals changes but the generator.
\<close>

definition tweaked :: "nat \<Rightarrow> 'a x_state_scheme \<Rightarrow> 'a havoc \<Rightarrow> bool" where
  "tweaked m s0 = (\<lambda>(b, tlen, s). 0 < tlen \<and> tlen \<le> length b \<and> tlen \<le> m \<and> rng_only s0 s)"

lemma tweakedI: "0 < tlen \<Longrightarrow> tlen \<le> length b \<Longrightarrow> tlen \<le> m \<Longrightarrow> rng_only s0 s \<Longrightarrow> tweaked m s0 (b, tlen, s)"
  by (simp add: tweaked_def)

lemma tweakedE:
  assumes "tweaked m s0 st"
  obtains b tlen s where "st = (b, tlen, s)" "0 < tlen" "tlen \<le> length b" "tlen \<le> m" "rng_only s0 s"
  using assms by (cases st) (auto simp: tweaked_def)

lemma havoc_flip_ok: "tweaked m s0 st \<Longrightarrow> sureE (tweaked m s0) (havoc_flip st)"
  by (erule tweakedE) (auto simp: havoc_flip_def tweaked_def intro!: UR_sure[where ?s0.0 = s0] flip_sure)

lemma rewrite_byte_ok: "tweaked m s0 st \<Longrightarrow> 0 < n \<Longrightarrow> sureE (tweaked m s0) (rewrite_byte f n st)"
  by (erule tweakedE) (auto simp: rewrite_byte_def tweaked_def intro!: UR_sure[where ?s0.0 = s0] peek_sure poke_sure)

lemma rewrite_word_ok: "tweaked m s0 st \<Longrightarrow> 0 < n \<Longrightarrow> 0 < k \<Longrightarrow> sureE (tweaked m s0) (rewrite_word k f g n st)"
  by (erule tweakedE) (auto simp: rewrite_word_def tweaked_def intro!: UR_sure[where ?s0.0 = s0] peek_sure poke_sure)

lemma havoc_delete_ok: "tweaked m s0 st \<Longrightarrow> queue_cycle s0 \<noteq> 0 \<Longrightarrow> sureE (tweaked m s0) (havoc_delete st)"
  by (erule tweakedE) (auto simp: havoc_delete_def tweaked_def intro!: UR_sure[where ?s0.0 = s0] block_len_sure[where ?s0.0 = s0] memmove_sure)

lemma pick_fill_sure:
  assumes "rng_only s0 s" "0 < tlen" "tlen \<le> length b" "\<And>c s'. rng_only s0 s' \<Longrightarrow> sureE P (f c s')"
  shows "sureE P (bindE (pick_fill b tlen s) (\<lambda>(c, s). f c s))"
proof (rule sureE_bind[where Q = "\<lambda>(c, s'). rng_only s0 s'"])
  show "sureE (\<lambda>(c, s'). rng_only s0 s') (pick_fill b tlen s)"
    unfolding pick_fill_def using assms(1-3) by (auto intro!: UR_sure[where ?s0.0 = s0] peek_sure)
qed (use assms(4) in auto)

lemma havoc_overwrite_ok: "tweaked m s0 st \<Longrightarrow> queue_cycle s0 \<noteq> 0 \<Longrightarrow> sureE (tweaked m s0) (havoc_overwrite st)"
  by (erule tweakedE) (auto simp: havoc_overwrite_def tweaked_def
      intro!: UR_sure[where ?s0.0 = s0] block_len_sure[where ?s0.0 = s0] memmove_sure pick_fill_sure[where ?s0.0 = s0] memcpy_sure)

lemma havoc_clone_ok:
  assumes "tweaked m s0 st" "queue_cycle s0 \<noteq> 0" "MAX_FILE \<le> m"
  shows "sureE (tweaked m s0) (havoc_clone st)"
proof -
  obtain b tlen s where st: "st = (b, tlen, s)" "0 < tlen" "tlen \<le> length b" "tlen \<le> m" "rng_only s0 s" using assms(1) by (rule tweakedE)
  have part: "sureE (\<lambda>((l, f), s'). 0 < l \<and> l \<le> HAVOC_BLK_XL \<and> (a \<noteq> 0 \<longrightarrow> f + l \<le> tlen) \<and> rng_only s0 s')
      (if a \<noteq> 0 then bindE (choose_block_len tlen t) (\<lambda>(clone_len, s). bindE (UR (tlen - clone_len + 1) s) (\<lambda>(clone_from, s). Inr ((clone_len, clone_from), s)))
       else bindE (choose_block_len HAVOC_BLK_XL t) (\<lambda>(clone_len, s). Inr ((clone_len, 0), s)))" if "rng_only s0 t" for a :: nat and t
    using that st assms(2) by (auto simp: cfg_simps intro!: UR_sure[where ?s0.0 = s0] block_len_sure[where ?s0.0 = s0])
  have blk: "sureE (\<lambda>(x, s'). length x = l \<and> rng_only s0 s')
      (if a \<noteq> 0 then bindE (read_from f l b) (\<lambda>blk. Inr (blk, t)) else bindE (pick_fill b tlen t) (\<lambda>(c, s). Inr (replicate l c, s)))"
    if "rng_only s0 t" "a \<noteq> 0 \<longrightarrow> f + l \<le> tlen" for a f l :: nat and t
    using that st by (auto intro!: read_sure pick_fill_sure[where ?s0.0 = s0])
  show ?thesis
  proof (cases "tlen + HAVOC_BLK_XL < MAX_FILE")
    case True
    show ?thesis unfolding st(1) havoc_clone_def prod.case if_P[OF True]
    proof (rule UR_sure[where ?s0.0 = s0], fact st(5), simp, rule sureE_bind[OF part], assumption, goal_cases)
      case (1 a s' x)
      obtain l f t where x: "x = ((l, f), t)" and lf: "0 < l" "l \<le> HAVOC_BLK_XL" "a \<noteq> 0 \<longrightarrow> f + l \<le> tlen" "rng_only s0 t"
        using 1 by (cases x) auto
      show ?case unfolding x prod.case
        by (rule UR_sure[OF lf(4) st(2)], rule sureE_bind[OF blk[OF _ lf(3)]])
          (use lf st True assms(3) in \<open>auto simp: tweaked_def intro!: insert_block_sure\<close>)
    qed
  qed (use st assms(1) in \<open>simp add: havoc_clone_def\<close>)
qed

lemma pick_token_sure:
  assumes "rng_only s0 s" "extras s0 \<noteq> [] \<or> a_extras s0 \<noteq> []" "\<And>tok s'. rng_only s0 s' \<Longrightarrow> sureE P (f tok s')"
  shows "sureE P (bindE (pick_token s) (\<lambda>(tok, s). f tok s))"
proof (rule sureE_bind[where Q = "\<lambda>(c, s'). rng_only s0 s'"])
  have e: "extras t = extras s0" "a_extras t = a_extras s0" if "rng_only s0 t" for t
    using arg_cong[OF that[unfolded rng_only_def], of extras] arg_cong[OF that[unfolded rng_only_def], of a_extras] by (simp_all add: rng_erase_def)
  have d: "sureE (\<lambda>(auto, s'). rng_only s0 s' \<and> (if auto then a_extras s0 else extras s0) \<noteq> [])
      (if extras s = [] then Inr (True, s) else if a_extras s = [] then Inr (False, s) else bindE (UR 2 s) (\<lambda>(r, s). Inr (r \<noteq> 0, s)))"
    using assms(1,2) e[OF assms(1)] by (auto intro!: UR_sure[where ?s0.0 = s0])
  show "sureE (\<lambda>(tok, s'). rng_only s0 s') (pick_token s)" unfolding pick_token_def Let_def
  proof (rule sureE_bind[OF d], clarify)
    fix a t assume a: "rng_only s0 t" "(if a then a_extras s0 else extras s0) \<noteq> []"
    have "0 < length (if a then a_extras t else extras t)" using a(2) e[OF a(1)] by (cases a) simp_all
    then show "sureE (\<lambda>(tok, s'). rng_only s0 s') (bindE (UR (length (if a then a_extras t else extras t)) t)
        (\<lambda>(use_extra, s). Inr (ed_data ((if a then a_extras t else extras t) ! use_extra), s)))"
      by (intro UR_sure[OF a(1)]) simp_all
  qed
qed (use assms(3) in auto)

lemma havoc_extras_ok:
  assumes "tweaked m s0 st" "extras s0 \<noteq> [] \<or> a_extras s0 \<noteq> []" "MAX_FILE \<le> m"
  shows "sureE (tweaked m s0) (havoc_extra_over st)" "sureE (tweaked m s0) (havoc_extra_insert st)"
  using assms
  by (auto simp: havoc_extra_over_def havoc_extra_insert_def tweaked_def elim!: tweakedE
      intro!: UR_sure[where ?s0.0 = s0] pick_token_sure[where ?s0.0 = s0] memcpy_sure insert_block_sure)

lemma havoc_case_ok:
  assumes "tweaked m s0 st" "queue_cycle s0 \<noteq> 0" "MAX_FILE \<le> m" "15 \<le> c \<longrightarrow> extras s0 \<noteq> [] \<or> a_extras s0 \<noteq> []"
  shows "sureE (tweaked m s0) (havoc_case c st)"
proof -
  have n: "0 < length interesting_8" "0 < length interesting_16" "0 < length interesting_32" "0 < ARITH_MAX"
    by (simp_all add: interesting_lengths ARITH_MAX_def)
  note ok = havoc_flip_ok[OF assms(1)] rewrite_byte_ok[OF assms(1)] rewrite_word_ok[OF assms(1)] havoc_delete_ok[OF assms(1,2)]
    havoc_overwrite_ok[OF assms(1,2)] havoc_clone_ok[OF assms(1,2,3)] havoc_extras_ok[OF assms(1) _ assms(3)]
  show ?thesis unfolding havoc_case_def using assms(1,4)
    by (auto simp: havoc_interest16_def havoc_interest32_def havoc_sub16_def havoc_add16_def havoc_sub32_def havoc_add32_def n n[simplified] intro!: ok)
qed

lemma havoc_tweak_ok:
  assumes "tweaked m s0 st" "queue_cycle s0 \<noteq> 0" "MAX_FILE \<le> m"
  shows "sureE (tweaked m s0) (havoc_tweak st)"
proof -
  obtain b tlen s where st: "st = (b, tlen, s)" "0 < tlen" "tlen \<le> length b" "tlen \<le> m" "rng_only s0 s" using assms(1) by (rule tweakedE)
  have e: "extras s = extras s0" "a_extras s = a_extras s0"
    using arg_cong[OF st(5)[unfolded rng_only_def], of extras] arg_cong[OF st(5)[unfolded rng_only_def], of a_extras] by (simp_all add: rng_erase_def)
  show ?thesis unfolding st(1) havoc_tweak_def prod.case e
    by (rule UR_sure[where ?s0.0 = s0], fact st(5), simp, rule havoc_case_ok) (use st assms(2,3) in \<open>auto intro: tweakedI split: if_splits\<close>)
qed

lemma havoc_stack_ok:
  assumes "queue_cycle s0 \<noteq> 0" "MAX_FILE \<le> m"
  shows "tweaked m s0 st \<Longrightarrow> sureE (tweaked m s0) (havoc_stack n st)"
  by (induction n arbitrary: st) (auto intro: sureE_bind[OF havoc_tweak_ok[OF _ assms]])

section \<open>A round\<close>

text \<open>
  The interface the random stages use: a round of the target on any input, with room for one more
  queue entry, keeps what \<open>since\<close> says and leaves the stage counters alone.
\<close>

locale executor =
  fixes run :: "u8 list \<Rightarrow> 's \<Rightarrow> err + bool \<times> 's"
    and room :: "nat \<Rightarrow> 's \<Rightarrow> bool" and since :: "nat \<Rightarrow> 's \<Rightarrow> 's \<Rightarrow> bool" and gauge :: "'s \<Rightarrow> 'g"
  assumes since_room: "since k s t \<Longrightarrow> room k t"
    and since_refl: "room k s \<Longrightarrow> since k s s"
    and since_trans: "since j s t \<Longrightarrow> since k t u \<Longrightarrow> since k s u"
    and since_mono: "since k s t \<Longrightarrow> j \<le> k \<Longrightarrow> since j s t"
    and run_ok: "room (Suc k) s \<Longrightarrow> length c < 2 ^ 32 \<Longrightarrow> okE (\<lambda>(stop, t). since k s t \<and> gauge t = gauge s) (run c s)"
begin

lemma run_since: "since (Suc k) s0 s \<Longrightarrow> length c < 2 ^ 32 \<Longrightarrow> okE (\<lambda>(stop, t). since k s0 t \<and> gauge t = gauge s) (run c s)"
  by (rule okE_mono[OF run_ok[OF since_room]]) (auto intro: since_trans)

text \<open>A guarded round: what follows has to cope with both answers.\<close>

lemma run_then:
  assumes "since (Suc k) s0 s" "length c < 2 ^ 32"
    and "\<And>stop t. since k s0 t \<Longrightarrow> gauge t = gauge s \<Longrightarrow> okE P (f (stop, t))"
  shows "okE P (bindE (run c s) f)"
  by (rule okE_bind[OF run_since[OF assms(1,2)]]) (use assms(3) in auto)

end

interpretation fuzz: executor common_fuzz_stuff x_inv after "\<lambda>s. (stage_cur s, stage_max s)"
proof
  fix k and s :: "'a x_state_scheme" and c :: "u8 list" assume a: "x_inv (Suc k) s" "length c < 2 ^ 32"
  show "okE (\<lambda>(stop, t). after k s t \<and> (stage_cur t, stage_max t) = (stage_cur s, stage_max s)) (common_fuzz_stuff c s)"
    by (rule okE_mono[OF common_fuzz_stuff_ok[OF a]]) (auto simp: fuzzed_after, auto simp: fuzzed_def)
qed (auto intro: after_x_inv after_refl after_trans after_mono)

text \<open>One round costs at most one run, the calibration of a find and the repetition of a hang.\<close>

lemma fuzz_round:
  fixes s :: "'a x_state_scheme"
  assumes "after (Suc k) s0 s" "length c < 2 ^ 32"
  shows "okE (\<lambda>(stop, t). after k s0 t \<and> stage_cur t = stage_cur s \<and> stage_max t = stage_max s \<and> exec_pos t \<le> exec_pos s + 41)
    (common_fuzz_stuff c s)"
proof -
  have "x_inv (Suc k) s" using assms(1) by (rule after_x_inv)
  from okE_conj[OF fuzz.run_since[OF assms] common_fuzz_stuff_ok[OF this assms(2)]]
  show ?thesis by (rule okE_mono) (auto simp: fuzzed_def)
qed

lemma rng_only_still: "rng_only s t \<Longrightarrow> still s t"
proof -
  assume a: "rng_only s t"
  have "f t = f s" if "\<And>u. f (rng_erase u) = f u" for f :: "'a x_state_scheme \<Rightarrow> 'b"
    using arg_cong[OF a[unfolded rng_only_def], of f] that by simp
  note e = this
  have "qpart t = qpart s" "settings t = settings s" "stats_update_freq t = stats_update_freq s" "a_extras t = a_extras s" "progress t = progress s"
    "(rated t, length (trace_bits t)) = (rated s, length (trace_bits s))" "named t = named s"
    by (rule e, simp add: rng_erase_def part_defs)+
  then show ?thesis by (simp add: still_def frame_def)
qed

definition restored :: "u8 list \<Rightarrow> nat \<Rightarrow> u8 list \<Rightarrow> bool" where
  "restored in_buf len b \<longleftrightarrow> len \<le> length b \<and> take len b = take len in_buf"

lemma havoc_round_ok:
  fixes s :: "'a x_state_scheme"
  assumes a: "after (Suc k) s0 s" and c: "queue_cycle s0 \<noteq> 0" and len: "0 < len" "len \<le> length in_buf" "len < 2 ^ 32"
    and b: "len \<le> length b"
  shows "okE (\<lambda>(stop, b', t). after k s0 t \<and> stage_cur t = stage_cur s \<and> stage_max t = stage_max s \<and> exec_pos t \<le> exec_pos s + 41 \<and>
      (\<not> stop \<longrightarrow> restored in_buf len b'))
    (havoc_round in_buf len (b, s))"
proof -
  let ?P = "\<lambda>(stop, b', t). after k s0 t \<and> stage_cur t = stage_cur s \<and> stage_max t = stage_max s \<and> exec_pos t \<le> exec_pos s + 41 \<and>
      (\<not> stop \<longrightarrow> restored in_buf len b')"
  define m where "m = max len MAX_FILE"
  have m: "MAX_FILE \<le> m" "len \<le> m" "m < 2 ^ 32" using len(3) by (auto simp: m_def cfg_simps)
  have rest: "okE ?P (bindE (read_from 0 tlen b1) (\<lambda>out. bindE (common_fuzz_stuff out t) (\<lambda>(stop, s).
       if stop then Inr (True, b1, s)
       else let b = if tlen < len then ck_realloc b1 len else b1
            in bindE (read_from 0 len in_buf) (\<lambda>x. bindE (memcpy_in 0 x b) (\<lambda>b. Inr (False, b, s))))))"
    if t: "tlen \<le> length b1" "tlen \<le> m" "after (Suc k) s0 t" "stage_cur t = stage_cur s" "stage_max t = stage_max s"
      "exec_pos t = exec_pos s" for b1 tlen t
  proof -
    have l: "length (take tlen b1) < 2 ^ 32" using t m by simp
    have e: "read_from 0 tlen b1 = Inr (take tlen b1)" using t(1) by (simp add: read_from_def)
    show ?thesis unfolding e bindE_simps
      by (rule okE_bind[OF fuzz_round[OF t(3) l]]) (use t len in \<open>auto simp: read_from_def memcpy_in_def restored_def Let_def\<close>)
  qed
  show ?thesis unfolding havoc_round_def prod.case
  proof (rule UR_bind)
    fix r u assume u: "rng_only s u"
    define v where "v = u\<lparr>stage_cur_val := int (2 ^ (1 + r))\<rparr>"
    have su: "after (Suc k) s0 u" "stage_cur u = stage_cur s" "stage_max u = stage_max s" "exec_pos u = exec_pos s"
      using after_still[OF a rng_only_still[OF u]] rng_only_still[OF u] by (auto simp: still_def progress_def)
    then have sv: "after (Suc k) s0 v" "stage_cur v = stage_cur s" "stage_max v = stage_max s" "exec_pos v = exec_pos s"
      using after_frame'[OF su(1), of v] by (simp_all add: v_def frame_def part_defs)
    then have cv: "queue_cycle v \<noteq> 0" using c by (simp add: after_def settings_def)
    have st: "sureE (tweaked m v) (havoc_stack (2 ^ (1 + r)) (b, len, v))"
      by (rule havoc_stack_ok[OF cv m(1)]) (use len b m in \<open>simp add: tweaked_def\<close>)
    show "okE ?P (case (r, u) of (r, s) \<Rightarrow> let use_stacking = 2 ^ (1 + r) in
       bindE (havoc_stack use_stacking (b, len, s\<lparr>stage_cur_val := int use_stacking\<rparr>)) (\<lambda>(b, tlen, s).
       bindE (read_from 0 tlen b) (\<lambda>out. bindE (common_fuzz_stuff out s) (\<lambda>(stop, s).
         if stop then Inr (True, b, s)
         else let b = if tlen < len then ck_realloc b len else b
              in bindE (read_from 0 len in_buf) (\<lambda>x. bindE (memcpy_in 0 x b) (\<lambda>b. Inr (False, b, s)))))))"
      unfolding prod.case Let_def[of "2 ^ (1 + r)"] v_def[symmetric]
    proof (rule okE_bind[OF sureE_okE[OF st]])
      fix x assume "tweaked m v x"
      then obtain b1 tlen w where x: "x = (b1, tlen, w)" "tlen \<le> length b1" "tlen \<le> m" "rng_only v w" by (rule tweakedE)
      note w = rng_only_still[OF x(4)]
      show "okE ?P (case x of (b, tlen, s) \<Rightarrow> bindE (read_from 0 tlen b) (\<lambda>out. bindE (common_fuzz_stuff out s) (\<lambda>(stop, s).
         if stop then Inr (True, b, s)
         else let b = if tlen < len then ck_realloc b len else b
              in bindE (read_from 0 len in_buf) (\<lambda>x. bindE (memcpy_in 0 x b) (\<lambda>b. Inr (False, b, s))))))"
        unfolding x(1) prod.case
        by (rule rest) (use x after_still[OF sv(1) w] w sv in \<open>auto simp: still_def progress_def\<close>)
    qed
  qed (simp add: HAVOC_STACK_POW2_def)
qed

section \<open>The stage ends\<close>

text \<open>
  How often the stage may still be extended: the score doubles with \<open>stage_max\<close>, and no extension
  happens above \<open>HAVOC_MAX_MULT * 100\<close>. A score of 0 would stay 0 and allow any number of extensions.
\<close>

function doublings :: "nat \<Rightarrow> nat" where
  "doublings p = (if p = 0 \<or> p > 1600 then 0 else Suc (doublings (2 * p)))"
  by auto
termination by (relation "measure (\<lambda>p. 1601 - p)") auto

declare doublings.simps [simp del]

lemma doublings_bound: "0 < p \<Longrightarrow> p * 2 ^ doublings p \<le> max p 3200"
proof (induction p rule: doublings.induct)
  case (1 p)
  show ?case
  proof (cases "p > 1600")
    case True
    then show ?thesis by (simp add: doublings.simps[of p])
  next
    case False
    then have "2 * p * 2 ^ doublings (2 * p) \<le> 3200" using 1 by simp
    then show ?thesis using False 1(2) by (simp add: doublings.simps[of p] mult.commute mult.left_commute)
  qed
qed

definition rounds :: "u32 \<Rightarrow> 'a x_state_scheme \<Rightarrow> int" where
  "rounds perf s = stage_max s * 2 ^ doublings (unat perf)"

lemma rounds_ge: "0 \<le> stage_max s \<Longrightarrow> stage_max s \<le> rounds perf s"
  using mult_left_mono[of 1 "2 ^ doublings (unat perf)" "stage_max s"] by (simp add: rounds_def)

lemma havoc_extend_ok:
  assumes "after k s0 s" "0 < perf" "havoc_extend (perf, hq) s = ((perf', hq'), t)"
  shows "after k s0 t" "stage_cur t = stage_cur s" "0 < perf'" "rounds perf' t = rounds perf s" "0 \<le> stage_max s \<longrightarrow> 0 \<le> stage_max t"
    "exec_pos t = exec_pos s"
proof -
  have d: "unat (perf * 2) = 2 * unat perf \<and> 0 < perf * 2 \<and> 2 * 2 ^ doublings (unat (perf * 2)) = (2 :: int) ^ doublings (unat perf)" if "perf \<le> 1600"
  proof -
    have p: "unat perf \<le> 1600" "0 < unat perf" using that assms(2) by (auto simp: word_le_nat_alt unat_gt_0 word_neq_0_conv)
    then have u: "unat (perf * 2) = 2 * unat perf" by (simp add: unat_word_ariths)
    moreover have "0 < perf * 2" using u p(2) by (metis mult_pos_pos unat_gt_0 word_neq_0_conv zero_less_numeral)
    moreover have "doublings (unat perf) = Suc (doublings (2 * unat perf))" using p by (simp add: doublings.simps[of "unat perf"])
    ultimately show ?thesis by simp
  qed
  show "after k s0 t" "stage_cur t = stage_cur s" "0 < perf'" "rounds perf' t = rounds perf s" "0 \<le> stage_max s \<longrightarrow> 0 \<le> stage_max t"
    "exec_pos t = exec_pos s"
    using assms d by (auto simp: havoc_extend_def rounds_def HAVOC_MAX_MULT_def split: if_splits)
qed

lemma havoc_loop_ok:
  fixes s :: "'a x_state_scheme"
  assumes c: "queue_cycle s0 \<noteq> 0" and len: "0 < len" "len \<le> length in_buf" "len < 2 ^ 32"
  shows "after (k + fuel) s0 s \<Longrightarrow> restored in_buf len b \<Longrightarrow> 0 < perf \<Longrightarrow> 0 \<le> stage_max s \<Longrightarrow> 0 \<le> stage_cur s \<Longrightarrow> rounds perf s - stage_cur s \<le> int fuel \<Longrightarrow>
    okE (\<lambda>(stop, b', t). after k s0 t \<and> exec_pos t \<le> exec_pos s + 41 * fuel \<and> stage_cur t \<le> stage_cur s + int fuel \<and>
        (\<not> stop \<longrightarrow> restored in_buf len b' \<and> stage_max t \<le> stage_cur t \<and> stage_max t \<le> rounds perf s))
      (havoc_loop fuel in_buf len (perf, hq) (b, s))"
proof (induction fuel arbitrary: b s perf hq)
  case 0
  then show ?case using rounds_ge[of s perf] by simp
next
  case (Suc fuel)
  let ?P = "\<lambda>(stop, b', t). after k s0 t \<and> exec_pos t \<le> exec_pos s + 41 * Suc fuel \<and> stage_cur t \<le> stage_cur s + int (Suc fuel) \<and>
      (\<not> stop \<longrightarrow> restored in_buf len b' \<and> stage_max t \<le> stage_cur t \<and> stage_max t \<le> rounds perf s)"
  note r = rounds_ge[OF Suc.prems(4), of perf]
  show ?case
  proof (cases "stage_cur s < stage_max s")
    case False
    then show ?thesis using Suc.prems r after_mono[OF Suc.prems(1), of k] by simp
  next
    case True
    have a: "after (Suc (k + fuel)) s0 s" using Suc.prems(1) by simp
    have b: "len \<le> length b" using Suc.prems(2) by (simp add: restored_def)
    have "okE ?P (bindE (havoc_round in_buf len (b, s)) (\<lambda>(stop, b, s). if stop then Inr (True, b, s)
        else let (ph, s) = havoc_extend (perf, hq) s in havoc_loop fuel in_buf len ph (b, s\<lparr>stage_cur := stage_cur s + 1\<rparr>)))"
    proof (rule okE_bind[OF havoc_round_ok[OF a c len b]])
      fix x assume x: "case x of (stop, b', t) \<Rightarrow> after (k + fuel) s0 t \<and> stage_cur t = stage_cur s \<and> stage_max t = stage_max s \<and>
        exec_pos t \<le> exec_pos s + 41 \<and> (\<not> stop \<longrightarrow> restored in_buf len b')"
      obtain stop b1 t where xs: "x = (stop, b1, t)" by (cases x)
      obtain perf' hq' u where e: "havoc_extend (perf, hq) t = ((perf', hq'), u)" by (metis surj_pair)
      have t: "after (k + fuel) s0 t" "stage_cur t = stage_cur s" "stage_max t = stage_max s" "exec_pos t \<le> exec_pos s + 41" using x xs by auto
      note E = havoc_extend_ok[OF t(1) Suc.prems(3) e]
      have rt: "rounds perf t = rounds perf s" using t(3) by (simp add: rounds_def)
      have "okE ?P (havoc_loop fuel in_buf len (perf', hq') (b1, u\<lparr>stage_cur := stage_cur u + 1\<rparr>))" if "\<not> stop"
        by (rule okE_mono[OF Suc.IH]) (use that x xs E t rt Suc.prems in \<open>auto simp: rounds_def\<close>)
      then show "okE ?P (case x of (stop, b, s) \<Rightarrow> if stop then Inr (True, b, s)
        else let (ph, s) = havoc_extend (perf, hq) s in havoc_loop fuel in_buf len ph (b, s\<lparr>stage_cur := stage_cur s + 1\<rparr>))"
        using after_mono[OF t(1), of k] t(2,4) unfolding xs prod.case e Let_def by (cases stop) simp_all
    qed
    then show ?thesis using True by simp
  qed
qed

lemma havoc_start_ok:
  fixes s :: "'a x_state_scheme"
  assumes "x_inv k s" "havoc_div s \<noteq> 0" "2 \<le> perf" "perf \<le> 1600"
  shows "\<exists>t. havoc_start sp det perf s = Inr t \<and> after k s t \<and> stage_cur t = 0 \<and> 0 \<le> stage_max t \<and> rounds perf t \<le> int HAVOC_FUEL \<and>
    exec_pos t = exec_pos s"
proof -
  define c where "c = (if sp \<noteq> 0 then SPLICE_HAVOC else if det then HAVOC_CYCLES_INIT else HAVOC_CYCLES)"
  define p d where "p = unat perf" and "d = doublings (unat perf)"
  define mx where "mx = uint (c * perf div havoc_div s div 100)"
  define t where "t = s\<lparr>stage_cur_byte := -1, stage_short := (if sp \<noteq> 0 then ''splice'' else ''havoc''),
     stage_max := (if mx < HAVOC_MIN then HAVOC_MIN else mx), stage_cur := 0\<rparr>"
  have p: "2 \<le> p" "p \<le> 1600" using assms(3,4) by (simp_all add: p_def word_le_nat_alt)
  have c: "unat c \<le> 1024" by (simp add: c_def SPLICE_HAVOC_def HAVOC_CYCLES_INIT_def HAVOC_CYCLES_def)
  have "unat c * p \<le> 1024 * 1600" by (rule mult_le_mono[OF c p(2)])
  then have cp: "unat (c * perf) = unat c * p" by (simp add: unat_word_ariths p_def)
  have pd: "p * 2 ^ d \<le> 3200" using doublings_bound[of p] p by (simp add: p_def d_def)
  have mx: "mx = int (unat c * p div unat (havoc_div s) div 100)"
    unfolding mx_def uint_nat unat_div cp by simp
  have "unat c * p div unat (havoc_div s) \<le> unat c * p" by (rule div_le_dividend)
  then have "(unat c * p div unat (havoc_div s) div 100) * 100 \<le> unat c * p" using div_times_less_eq_dividend order_trans by blast
  then have "(unat c * p div unat (havoc_div s) div 100) * 100 * 2 ^ d \<le> unat c * p * 2 ^ d" by (rule mult_right_mono) simp
  also have "\<dots> = unat c * (p * 2 ^ d)" by simp
  also have "\<dots> \<le> 1024 * 3200" by (rule mult_le_mono[OF c pd])
  finally have big: "(unat c * p div unat (havoc_div s) div 100) * 2 ^ d \<le> 32768" by (simp add: mult.commute)
  have "2 * 2 ^ d \<le> p * 2 ^ d" using p(1) by simp
  then have small: "2 ^ d \<le> (1600 :: nat)" using pd by linarith
  have "rounds perf t \<le> int HAVOC_FUEL"
  proof (cases "mx < HAVOC_MIN")
    case True
    have "int (2 ^ d) \<le> int 1600" using small by (simp only: of_nat_le_iff)
    then show ?thesis using True by (simp add: rounds_def t_def d_def[symmetric] HAVOC_MIN_def HAVOC_FUEL_def)
  next
    case False
    have "mx * 2 ^ d \<le> 32768" 
    proof -
      have "int (unat c * p div unat (havoc_div s) div 100 * 2 ^ d) \<le> int 32768" using big by (simp only: of_nat_le_iff)
      then show ?thesis unfolding mx by (simp only: of_nat_mult of_nat_power of_nat_numeral)
    qed
    then show ?thesis using False by (simp add: rounds_def t_def d_def[symmetric] HAVOC_FUEL_def)
  qed
  moreover have "after k s t" using after_frame[OF _ assms(1), of t] by (simp add: t_def frame_def part_defs)
  moreover have "havoc_start sp det perf s = Inr t" using assms(2) unfolding havoc_start_def c_def[symmetric] Let_def mx_def[symmetric] t_def by simp
  moreover have "0 \<le> stage_max t" "stage_cur t = 0" "exec_pos t = exec_pos s" by (simp_all add: t_def HAVOC_MIN_def mx_def)
  ultimately show ?thesis by blast
qed

lemma havoc_stage_runs:
  fixes s :: "'a x_state_scheme"
  assumes x: "x_inv (k + HAVOC_FUEL) s" and c: "queue_cycle s \<noteq> 0" "havoc_div s \<noteq> 0" and perf: "2 \<le> perf" "perf \<le> 1600"
    and len: "0 < len" "len \<le> length in_buf" "len < 2 ^ 32" and b: "restored in_buf len b"
  shows "okE (\<lambda>(stop, b', t). after k s t \<and> exec_pos t \<le> exec_pos s + 41 * HAVOC_FUEL \<and> stage_cur t \<le> int HAVOC_FUEL \<and>
      (\<not> stop \<longrightarrow> restored in_buf len b' \<and> stage_max t \<le> stage_cur t \<and> stage_max t \<le> int HAVOC_FUEL))
    (havoc_stage sp det perf in_buf len (b, s))"
proof -
  obtain t where t: "havoc_start sp det perf s = Inr t" "after (k + HAVOC_FUEL) s t" "stage_cur t = 0" "0 \<le> stage_max t" "rounds perf t \<le> int HAVOC_FUEL"
      "exec_pos t = exec_pos s"
    using havoc_start_ok[OF x c(2) perf] by blast
  have p: "0 < perf" using perf(1) by (simp add: word_le_nat_alt word_less_nat_alt)
  have L: "okE (\<lambda>(stop, b', u). after k s u \<and> exec_pos u \<le> exec_pos t + 41 * HAVOC_FUEL \<and> stage_cur u \<le> stage_cur t + int HAVOC_FUEL \<and> (\<not> stop \<longrightarrow> restored in_buf len b' \<and> stage_max u \<le> stage_cur u \<and> stage_max u \<le> rounds perf t))
      (havoc_loop HAVOC_FUEL in_buf len (perf, queued_paths t) (b, t))"
    by (rule havoc_loop_ok[OF c(1) len t(2) b p t(4)]) (use t in simp_all)
  show ?thesis unfolding havoc_stage_def prod.case t(1) bindE_simps Let_def
    by (rule okE_bind[OF L]) (use t(3,5,6) after_end_stage in \<open>auto simp: end_stage_def Let_def split: if_splits\<close>)
qed

lemma havoc_stage_ok:
  fixes s :: "'a x_state_scheme"
  assumes x: "x_inv (k + HAVOC_FUEL) s" and c: "queue_cycle s \<noteq> 0" "havoc_div s \<noteq> 0" and perf: "2 \<le> perf" "perf \<le> 1600"
    and len: "0 < len" "len \<le> length in_buf" "len < 2 ^ 32" and b: "restored in_buf len b"
  shows "okE (\<lambda>(stop, b', t). after k s t \<and> (\<not> stop \<longrightarrow> restored in_buf len b' \<and> stage_max t \<le> stage_cur t \<and> stage_max t \<le> int HAVOC_FUEL))
    (havoc_stage sp det perf in_buf len (b, s))"
  by (rule okE_mono[OF havoc_stage_runs[OF assms]]) auto

section \<open>Properties\<close>

lemma example_cycle: "queue_cycle example_x = 1" "havoc_div example_x = 1" "random_src example_x = (\<lambda>i. i)"
proof -
  have r: "example_q\<lparr>qs := qs example_q0, top_rated := top_rated example_q0, score_changed := score_changed example_q0\<rparr> = example_q0"
    using example_q_run by blast
  have "queue_cycle example_q = 1" "random_src example_q = (\<lambda>i. i)"
    using arg_cong[OF r, of queue_cycle] arg_cong[OF r, of random_src]
    by (simp_all add: example_q0_def add_to_queue_def empty_q_def get_cur_time_def upd_q_def Let_def)
  then show "queue_cycle example_x = 1" "havoc_div example_x = 1" "random_src example_x = (\<lambda>i. i)"
    by (simp_all add: example_x_def example_ex_def ex_state.extend_def q_state.extend_def)
qed

text \<open>
  C16. However many random tweaks are stacked, and whatever the generator draws, no read or write leaves
  the allocated buffer and no draw is from an empty range: the tweaks succeed, the live length stays
  positive, within the allocation, and at most the larger of the input's length and \<open>MAX_FILE\<close>, and of
  the globals only the generator moves on.
\<close>

theorem havoc_tweaks_in_bounds:
  assumes "queue_cycle s \<noteq> 0" "0 < len" "len \<le> length out_buf"
  shows "\<exists>b temp_len t. havoc_stack use_stacking (out_buf, len, s) = Inr (b, temp_len, t) \<and>
     0 < temp_len \<and> temp_len \<le> length b \<and> temp_len \<le> max len MAX_FILE \<and> rng_only s t"
proof -
  have "sureE (tweaked (max len MAX_FILE) s) (havoc_stack use_stacking (out_buf, len, s))"
    by (rule havoc_stack_ok[OF assms(1)]) (use assms in \<open>simp_all add: tweaked_def\<close>)
  then show ?thesis by (auto simp: sureE_def tweaked_def split: sum.splits)
qed

theorem havoc_tweaks_in_bounds_witness:
  "\<exists>b temp_len t. havoc_stack 128 ([1, 2, 3, 4], 4, example_x) = Inr (b, temp_len, t) \<and>
     0 < temp_len \<and> temp_len \<le> length b \<and> temp_len \<le> MAX_FILE \<and> rng_only example_x t"
  using havoc_tweaks_in_bounds[of example_x 4 "[1, 2, 3, 4]" 128] by (simp add: example_cycle cfg_simps)

text \<open>
  C4. The havoc stage ends: with a score between 2 and 1600 the extensions of \<open>stage_max\<close> by new finds are
  bounded, the stage has at most 32768 rounds, and it runs the target at most \<open>41 * 32768\<close> times, since one round costs the
  run of the tweaked input and at most 40 more, for the calibration of a find or the repetition of a hang. It keeps the
  invariant of the globals, never divides by zero or leaves a buffer, and unless it is aborted it ends with all its rounds
  done and the input restored in \<open>out_buf\<close>.
\<close>

theorem havoc_stage_terminates:
  assumes "x_inv (k + 32768) s" "queue_cycle s \<noteq> 0" "havoc_div s \<noteq> 0" "2 \<le> orig_perf" "orig_perf \<le> 1600"
    and "0 < len" "len \<le> length in_buf" "len < 2 ^ 32" "len \<le> length out_buf" "take len out_buf = take len in_buf"
  shows "okE (\<lambda>(stop, b, t). x_inv k t \<and> settings t = settings s \<and> stage_cur t \<le> 32768 \<and>
       exec_pos t \<le> exec_pos s + 41 * 32768 \<and>
       (\<not> stop \<longrightarrow> take len b = take len in_buf \<and> stage_max t \<le> stage_cur t \<and> stage_max t \<le> 32768))
     (havoc_stage splice_cycle doing_det orig_perf in_buf len (out_buf, s))"
proof -
  have x: "x_inv (k + HAVOC_FUEL) s" using assms(1) by (simp add: HAVOC_FUEL_def)
  show ?thesis
    by (rule okE_mono[OF havoc_stage_runs[OF x assms(2-8)]]) (use assms(9,10) in \<open>auto simp: restored_def after_def HAVOC_FUEL_def\<close>)
qed

theorem havoc_stage_terminates_witness:
  "okE (\<lambda>(stop, b, t). x_inv 7 t \<and> settings t = settings example_x \<and> exec_pos t \<le> 41 * 32768 \<and>
       (\<not> stop \<longrightarrow> take 4 b = [1, 2, 3, 4] \<and> stage_max t \<le> stage_cur t \<and> stage_max t \<le> 32768))
     (havoc_stage 0 True 100 [1, 2, 3, 4] 4 ([1, 2, 3, 4], example_x))"
  by (rule okE_mono[OF havoc_stage_terminates[of 7]]) (use example_x_room[of "7 + 32768"] in \<open>auto simp: example_cycle example_x_fields\<close>)

end
