(* ===== verification/Afl_Fuzz.thy ===== *)
theory Afl_Fuzz
  imports Afl_Havoc
begin

unbundle bit_operations_syntax

text \<open>
  \<open>fuzz_one\<close> of \<open>afl-fuzz.c\<close> as a whole: the decision to skip an entry, mapping the file, a second
  calibration, trimming, the performance score, the deterministic stages, havoc, splicing with other
  entries and the bookkeeping at \<open>abandon_entry\<close>. The entry under work, \<open>queue_cur\<close>, is given by its index.
\<close>

section \<open>Constants\<close>

definition SKIP_TO_NEW_PROB :: nat where "SKIP_TO_NEW_PROB = 99"
definition SKIP_NFAV_OLD_PROB :: nat where "SKIP_NFAV_OLD_PROB = 95"
definition SKIP_NFAV_NEW_PROB :: nat where "SKIP_NFAV_NEW_PROB = 75"
definition SPLICE_CYCLES :: nat where "SPLICE_CYCLES = 15"
definition CAL_CHANCES :: u8 where "CAL_CHANCES = 3"

section \<open>Performance score\<close>

text \<open>
  The comparisons with a floating-point factor are exact: \<open>x * 0.1 > avg\<close> is \<open>x > 10 * avg\<close>, since the
  averages have 32 bits and the product is off by less than a tenth for every value that is not far
  above them. Multiplying the score by 1.5, 0.25, 0.5 or 0.75 truncates towards zero.
\<close>

definition score_speed :: "u64 \<Rightarrow> u32 \<Rightarrow> u32" where
  "score_speed us avg =
     (if 10 * unat avg < unat us then 10
      else if 4 * unat avg < unat us then 25
      else if 2 * unat avg < unat us then 50
      else if 4 * unat avg < 3 * unat us then 75
      else if us * 4 < ucast avg then 300
      else if us * 3 < ucast avg then 200
      else if us * 2 < ucast avg then 150
      else 100)"

definition score_bitmap :: "u32 \<Rightarrow> u32 \<Rightarrow> u32 \<Rightarrow> u32" where
  "score_bitmap sz avg perf_score =
     (if 10 * unat avg < 3 * unat sz then perf_score * 3
      else if 2 * unat avg < unat sz then perf_score * 2
      else if 4 * unat avg < 3 * unat sz then perf_score * 3 div 2
      else if sz * 3 < avg then perf_score div 4
      else if sz * 2 < avg then perf_score div 2
      else if 3 * unat sz < 2 * unat avg then perf_score * 3 div 4
      else perf_score)"

definition score_depth :: "u64 \<Rightarrow> u32 \<Rightarrow> u32" where
  "score_depth d perf_score =
     (if d \<le> 3 then perf_score
      else if d \<le> 7 then perf_score * 2
      else if d \<le> 13 then perf_score * 3
      else if d \<le> 25 then perf_score * 4
      else perf_score * 5)"

definition calculate_score :: "nat \<Rightarrow> 'a x_state_scheme \<Rightarrow> err + u32 \<times> 'a x_state_scheme" where
  "calculate_score q s =
     (if total_cal_cycles s = 0 \<or> total_bitmap_entries s = 0 then Inl DivByZero
      else
        let e = qs s ! q;
            avg_exec_us = ucast (total_cal_us s div total_cal_cycles s);
            avg_bitmap_size = ucast (total_bitmap_size s div total_bitmap_entries s);
            perf_score = score_bitmap (bitmap_size e) avg_bitmap_size (score_speed (exec_us e) avg_exec_us);
            (perf_score, h) = (if handicap e \<ge> 4 then (perf_score * 4, handicap e - 4)
                               else if handicap e \<noteq> 0 then (perf_score * 2, handicap e - 1)
                               else (perf_score, handicap e));
            perf_score = score_depth (depth e) perf_score
        in Inr (if perf_score > HAVOC_MAX_MULT * 100 then HAVOC_MAX_MULT * 100 else perf_score,
                upd_q q (\<lambda>e. e\<lparr>handicap := h\<rparr>) s))"

section \<open>Before fuzzing\<close>

text \<open>The early returns that favour new and favoured entries.\<close>

definition fuzz_skip :: "nat \<Rightarrow> 'a x_state_scheme \<Rightarrow> err + bool \<times> 'a x_state_scheme" where
  "fuzz_skip q s =
     (let e = qs s ! q in
      if pending_favored s \<noteq> 0 then
        (if was_fuzzed e \<or> \<not> favored e then bindE (UR 100 s) (\<lambda>(r, s). Inr (r < SKIP_TO_NEW_PROB, s)) else Inr (False, s))
      else if dumb_mode s = 0 \<and> \<not> favored e \<and> queued_paths s > 10 then
        (if queue_cycle s > 1 \<and> \<not> was_fuzzed e
         then bindE (UR 100 s) (\<lambda>(r, s). Inr (r < SKIP_NFAV_NEW_PROB, s))
         else bindE (UR 100 s) (\<lambda>(r, s). Inr (r < SKIP_NFAV_OLD_PROB, s)))
      else Inr (False, s))"

text \<open>
  \<open>mmap\<close> of \<open>len\<close> bytes, which fails for \<open>len = 0\<close>; touching the mapping behind the end of a file that is
  too short is an access out of bounds.
\<close>

definition map_case :: "nat \<Rightarrow> 'a x_state_scheme \<Rightarrow> err + u8 list" where
  "map_case q s =
     (let n = unat (q_len (qs s ! q)) in
      case fs s (fname (qs s ! q)) of
        Some (File d) \<Rightarrow> if n = 0 then Inl (PFATAL ''Unable to mmap'') else if length d < n then Inl OutOfBounds else Inr (take n d)
      | _ \<Rightarrow> Inl (PFATAL ''Unable to open''))"

text \<open>Calibration, when it failed before; \<open>True\<close> stands for \<open>goto abandon_entry\<close>.\<close>

definition fuzz_calibrate :: "nat \<Rightarrow> u8 list \<Rightarrow> 'a x_state_scheme \<Rightarrow> err + bool \<times> 'a x_state_scheme" where
  "fuzz_calibrate q in_buf s =
     (if cal_failed (qs s ! q) = 0 then Inr (False, s)
      else
        bindE (if cal_failed (qs s ! q) < CAL_CHANCES
               then bindE (calibrate_case q in_buf (ucast (queue_cycle s - 1)) False s) (\<lambda>(res, s).
                      if res = FAULT_ERROR then Inl (FATAL ''Unable to execute target application'') else Inr (res, s))
               else Inr (FAULT_TMOUT, s)) (\<lambda>(res, s).
          if stop_soon s \<noteq> 0 \<or> res \<noteq> crash_mode s
          then Inr (True, s\<lparr>cur_skipped_paths := cur_skipped_paths s + 1\<rparr>)
          else Inr (False, s)))"

definition fuzz_trim :: "nat \<Rightarrow> u8 list \<Rightarrow> 'a x_state_scheme \<Rightarrow> err + bool \<times> u8 list \<times> 'a x_state_scheme" where
  "fuzz_trim q in_buf s =
     (if dumb_mode s = 0 \<and> \<not> trim_done (qs s ! q) then
        bindE (trim_case q in_buf s) (\<lambda>(res, in_buf, s).
          if res = FAULT_ERROR then Inl (FATAL ''Unable to execute target application'')
          else if stop_soon s \<noteq> 0 then Inr (True, in_buf, s\<lparr>cur_skipped_paths := cur_skipped_paths s + 1\<rparr>)
          else Inr (False, in_buf, upd_q q (\<lambda>e. e\<lparr>trim_done := True\<rparr>) s))
      else Inr (False, in_buf, s))"

text \<open>From the mapped file to the start of the fuzzing proper.\<close>

definition fuzz_prepare :: "nat \<Rightarrow> u8 list \<Rightarrow> 'a x_state_scheme \<Rightarrow> err + u8 list option \<times> 'a x_state_scheme" where
  "fuzz_prepare q in_buf s =
     bindE (fuzz_calibrate q in_buf (s\<lparr>subseq_tmouts := 0, cur_depth := ucast (depth (qs s ! q))\<rparr>)) (\<lambda>(leave, s).
     if leave then Inr (None, s)
     else bindE (fuzz_trim q in_buf s) (\<lambda>(leave, in_buf, s). Inr (if leave then None else Some in_buf, s)))"

section \<open>Splicing\<close>

text \<open>
  \<open>do { tid = UR(queued_paths); } while (tid == current_entry)\<close>: it returns only if the generator ever
  draws another number, hence a partial function.
\<close>

partial_function (option) pick_other :: "nat \<Rightarrow> nat \<Rightarrow> 'a rng_state_scheme \<Rightarrow> (err + nat \<times> 'a rng_state_scheme) option" where
  "pick_other n cur s =
     (case UR n s of
        Inl e \<Rightarrow> Some (Inl e)
      | Inr (tid, s) \<Rightarrow> if tid = cur then pick_other n cur s else Some (Inr (tid, s)))"

definition other_entry :: "nat \<Rightarrow> nat \<Rightarrow> 'a rng_state_scheme \<Rightarrow> err + nat \<times> 'a rng_state_scheme" where
  "other_entry n cur s = (case pick_other n cur s of None \<Rightarrow> Inl OutOfFuel | Some r \<Rightarrow> r)"

text \<open>\<open>while (target && (target->len < 2 || target == queue_cur))\<close>, with the running \<open>splicing_with\<close>.\<close>

fun skip_short :: "nat \<Rightarrow> nat \<Rightarrow> queue_entry list \<Rightarrow> nat option \<Rightarrow> int \<Rightarrow> err + nat option \<times> int" where
  "skip_short fuel q es None w = Inr (None, w)"
| "skip_short 0 q es (Some t) w = Inl OutOfFuel"
| "skip_short (Suc fuel) q es (Some t) w =
     (if q_len (es ! t) < 2 \<or> t = q then skip_short fuel q es (q_next (es ! t)) (w + 1) else Inr (Some t, w))"

text \<open>\<open>open\<close> and \<open>ck_read\<close>, which stops the fuzzer when the file is too short.\<close>

definition read_case :: "string \<Rightarrow> nat \<Rightarrow> 'a x_state_scheme \<Rightarrow> err + u8 list" where
  "read_case fn n s =
     (case fs s fn of
        Some (File d) \<Rightarrow> if length d < n then Inl (PFATAL ''Short read'') else Inr (take n d)
      | _ \<Rightarrow> Inl (PFATAL ''Unable to open''))"

text \<open>
  Joining the head of \<open>in_buf\<close> with the tail of \<open>new_buf\<close> somewhere between the first and the last byte
  in which they differ; \<open>None\<close> when they differ too little.
\<close>

definition splice_at :: "u8 list \<Rightarrow> nat \<Rightarrow> u8 list \<Rightarrow> 'a x_state_scheme \<Rightarrow> err + u8 list option \<times> 'a x_state_scheme" where
  "splice_at in_buf len new_buf s =
     (let (f_diff, l_diff) = locate_diffs in_buf new_buf (min len (length new_buf)) in
      if f_diff < 0 \<or> l_diff < 2 \<or> f_diff = l_diff then Inr (None, s)
      else
        bindE (UR (nat (l_diff - f_diff)) s) (\<lambda>(r, s).
        bindE (read_from 0 (nat f_diff + r) in_buf) (\<lambda>head.
        bindE (memcpy_in 0 head new_buf) (\<lambda>new_buf. Inr (Some new_buf, s)))))"

definition splice_once :: "nat \<Rightarrow> u8 list \<Rightarrow> nat \<Rightarrow> 'a x_state_scheme \<Rightarrow> err + u8 list option \<times> 'a x_state_scheme" where
  "splice_once q in_buf len s =
     bindE (other_entry (unat (queued_paths s)) (unat (current_entry s)) s) (\<lambda>(tid, s).
     bindE (seek_entry tid (qs s) (queue s)) (\<lambda>target.
     bindE (skip_short (Suc (length (qs s))) q (qs s) target (int tid)) (\<lambda>(target, w).
     let s = s\<lparr>splicing_with := w\<rparr> in
     case target of
       None \<Rightarrow> Inr (None, s)
     | Some t \<Rightarrow>
         bindE (read_case (fname (qs s ! t)) (unat (q_len (qs s ! t))) s) (\<lambda>new_buf. splice_at in_buf len new_buf s))))"

text \<open>
  \<open>retry_splicing\<close>, with \<open>n\<close> cycles left. A spliced input goes through havoc in a fresh \<open>out_buf\<close>;
  afterwards \<open>in_buf\<close> is the original again. The result says whether the entry was abandoned.
\<close>

primrec fuzz_splice :: "nat \<Rightarrow> nat \<Rightarrow> bool \<Rightarrow> u32 \<Rightarrow> u8 list \<Rightarrow> 'a x_state_scheme \<Rightarrow> err + bool \<times> 'a x_state_scheme" where
  "fuzz_splice 0 q doing_det orig_perf orig_in s = Inr (False, s)"
| "fuzz_splice (Suc n) q doing_det orig_perf orig_in s =
     (if use_splicing s \<and> queued_paths s > 1 \<and> q_len (qs s ! q) > 1 then
        bindE (splice_once q orig_in (unat (q_len (qs s ! q))) s) (\<lambda>(r, s).
          case r of
            None \<Rightarrow> fuzz_splice n q doing_det orig_perf orig_in s
          | Some in_buf \<Rightarrow>
              bindE (havoc_stage (SPLICE_CYCLES - n) doing_det orig_perf in_buf (length in_buf) (in_buf, s)) (\<lambda>(stop, b, s).
                if stop then Inr (True, s) else fuzz_splice n q doing_det orig_perf orig_in s))
      else Inr (False, s))"

section \<open>One entry\<close>

definition doing_det :: "nat \<Rightarrow> 'a x_state_scheme \<Rightarrow> bool" where
  "doing_det q s \<longleftrightarrow>
     (let e = qs s ! q in
      \<not> (skip_deterministic s \<or> was_fuzzed e \<or> passed_det e) \<and>
      \<not> (master_max s \<noteq> 0 \<and> exec_cksum e mod master_max s \<noteq> master_id s - 1))"

text \<open>
  The mutation stages. \<open>out_buf\<close> has the size of the input before trimming; the deterministic stages see
  its first \<open>len\<close> bytes. The first component of the result is \<open>ret_val\<close>.
\<close>

definition fuzz_stages :: "nat \<Rightarrow> u8 list \<Rightarrow> 'a x_state_scheme \<Rightarrow> err + nat \<times> 'a x_state_scheme" where
  "fuzz_stages q in_buf s =
     (let len = unat (q_len (qs s ! q)); out_buf = replicate (length in_buf) 0 in
      bindE (bindE (read_from 0 len in_buf) (\<lambda>x. memcpy_in 0 x out_buf)) (\<lambda>out_buf.
      bindE (calculate_score q s) (\<lambda>(perf_score, s).
      let det = doing_det q s in
      bindE (if det
             then bindE (deterministic_stages q in_buf (take len out_buf, s)) (\<lambda>(leave, h, b, s). Inr (leave, b @ drop len out_buf, s))
             else Inr (False, out_buf, s)) (\<lambda>(leave, out_buf, s).
      if leave then Inr (1, s)
      else bindE (havoc_stage 0 det perf_score in_buf len (out_buf, s)) (\<lambda>(stop, out_buf, s).
      if stop then Inr (1, s)
      else bindE (fuzz_splice SPLICE_CYCLES q det perf_score in_buf s) (\<lambda>(stop, s). Inr (if stop then 1 else 0, s)))))))"

definition abandon_entry :: "nat \<Rightarrow> 'a x_state_scheme \<Rightarrow> 'a x_state_scheme" where
  "abandon_entry q s =
     (let s = s\<lparr>splicing_with := -1\<rparr>; e = qs s ! q in
      if stop_soon s = 0 \<and> cal_failed e = 0 \<and> \<not> was_fuzzed e then
        let s = upd_q q (\<lambda>e. e\<lparr>was_fuzzed := True\<rparr>) s;
            s = s\<lparr>pending_not_fuzzed := pending_not_fuzzed s - 1\<rparr>
        in if favored e then s\<lparr>pending_favored := pending_favored s - 1\<rparr> else s
      else s)"

definition fuzz_one :: "nat \<Rightarrow> 'a x_state_scheme \<Rightarrow> err + nat \<times> 'a x_state_scheme" where
  "fuzz_one q s =
     bindE (fuzz_skip q s) (\<lambda>(skip, s).
     if skip then Inr (1, s)
     else bindE (map_case q s) (\<lambda>in_buf.
     bindE (fuzz_prepare q in_buf s) (\<lambda>(r, s).
     case r of
       None \<Rightarrow> Inr (1, abandon_entry q s)
     | Some in_buf \<Rightarrow> bindE (fuzz_stages q in_buf s) (\<lambda>(ret_val, s). Inr (ret_val, abandon_entry q s)))))"

section \<open>The score stays within its limits\<close>

lemma unat_times:
  fixes p :: u32
  assumes "unat p \<le> 100000"
  shows "unat (p * 2) = unat p * 2" "unat (p * 3) = unat p * 3" "unat (p * 4) = unat p * 4" "unat (p * 5) = unat p * 5"
  using assms by (simp_all add: unat_word_ariths)

lemma score_speed_range: "10 \<le> unat (score_speed us avg) \<and> unat (score_speed us avg) \<le> 300"
  by (simp add: score_speed_def)

lemma score_bitmap_range:
  assumes "10 \<le> unat p" "unat p \<le> 300"
  shows "2 \<le> unat (score_bitmap sz avg p) \<and> unat (score_bitmap sz avg p) \<le> 900"
proof -
  have u: "unat (p * 3) = unat p * 3" "unat (p * 2) = unat p * 2" using unat_times[of p] assms by simp_all
  have "unat (p * 3 div 2) = unat p * 3 div 2" "unat (p * 3 div 4) = unat p * 3 div 4" "unat (p div 4) = unat p div 4" "unat (p div 2) = unat p div 2"
    by (simp_all add: unat_div u)
  then show ?thesis unfolding score_bitmap_def using assms u by auto
qed

lemma score_depth_range:
  assumes "2 \<le> unat p" "unat p \<le> 3600"
  shows "2 \<le> unat (score_depth d p) \<and> unat (score_depth d p) \<le> 18000"
  using assms unat_times[of p] by (auto simp: score_depth_def)

text \<open>The score in unbounded arithmetic: what the comments of the source describe.\<close>

definition exact_speed :: "nat \<Rightarrow> nat \<Rightarrow> nat" where
  "exact_speed us avg =
     (if us > 10 * avg then 10 else if us > 4 * avg then 25 else if us > 2 * avg then 50 else if 3 * us > 4 * avg then 75
      else if 4 * us < avg then 300 else if 3 * us < avg then 200 else if 2 * us < avg then 150 else 100)"

definition exact_bitmap :: "nat \<Rightarrow> nat \<Rightarrow> nat \<Rightarrow> nat" where
  "exact_bitmap sz avg p =
     (if 3 * sz > 10 * avg then p * 3 else if sz > 2 * avg then p * 2 else if 3 * sz > 4 * avg then p * 3 div 2
      else if 3 * sz < avg then p div 4 else if 2 * sz < avg then p div 2 else if 3 * sz < 2 * avg then p * 3 div 4 else p)"

definition exact_depth :: "nat \<Rightarrow> nat" where
  "exact_depth d = (if d \<le> 3 then 1 else if d \<le> 7 then 2 else if d \<le> 13 then 3 else if d \<le> 25 then 4 else 5)"

definition exact_score :: "nat \<Rightarrow> nat \<Rightarrow> nat \<Rightarrow> nat \<Rightarrow> nat \<Rightarrow> nat \<Rightarrow> nat" where
  "exact_score us avg_us sz avg_sz late d =
     min 1600 (exact_bitmap sz avg_sz (exact_speed us avg_us) * (if late \<ge> 4 then 4 else if late \<noteq> 0 then 2 else 1) * exact_depth d)"

lemma score_speed_exact:
  assumes "unat us < 2 ^ 62"
  shows "unat (score_speed us avg) = exact_speed (unat us) (unat avg)"
proof -
  have u: "unat (us * 4) = 4 * unat us" "unat (us * 3) = 3 * unat us" "unat (us * 2) = 2 * unat us" using assms by (simp_all add: unat_word_ariths)
  have "unat avg < 2 ^ LENGTH(32)" by (rule unsigned_less)
  then have "unat avg < 2 ^ 64" by simp
  then have "unat (ucast avg :: u64) = unat avg" by (simp add: unsigned_ucast_eq take_bit_nat_eq_self)
  then show ?thesis by (simp add: score_speed_def exact_speed_def word_less_nat_alt u)
qed

lemma score_bitmap_exact:
  assumes "unat sz < 2 ^ 30" "unat p \<le> 300"
  shows "unat (score_bitmap sz avg p) = exact_bitmap (unat sz) (unat avg) (unat p)"
proof -
  have s: "unat (sz * 3) = 3 * unat sz" "unat (sz * 2) = 2 * unat sz" using assms(1) by (simp_all add: unat_word_ariths)
  have u: "unat (p * 3) = unat p * 3" "unat (p * 2) = unat p * 2" using unat_times[of p] assms(2) by simp_all
  show ?thesis by (simp add: score_bitmap_def exact_bitmap_def word_less_nat_alt s u unat_div)
qed

lemma score_depth_exact: "unat p \<le> 3600 \<Longrightarrow> unat (score_depth d p) = unat p * exact_depth (unat d)"
  using unat_times[of p] by (simp add: score_depth_def exact_depth_def word_le_nat_alt)

definition next_handicap :: "u64 \<Rightarrow> u64" where
  "next_handicap h = (if h \<ge> 4 then h - 4 else if h \<noteq> 0 then h - 1 else 0)"

lemma calculate_score_ok:
  fixes s :: "'a x_state_scheme" and q :: nat
  assumes "total_cal_cycles s \<noteq> 0" "total_bitmap_entries s \<noteq> 0"
  defines "e \<equiv> qs s ! q" and "avg_us \<equiv> ucast (total_cal_us s div total_cal_cycles s) :: u32"
    and "avg_sz \<equiv> ucast (total_bitmap_size s div total_bitmap_entries s) :: u32"
  shows "\<exists>p. calculate_score q s = Inr (p, upd_q q (\<lambda>e. e\<lparr>handicap := next_handicap (handicap (qs s ! q))\<rparr>) s) \<and> 2 \<le> p \<and> p \<le> 1600 \<and>
     (unat (exec_us e) < 2 ^ 62 \<longrightarrow> unat (bitmap_size e) < 2 ^ 30 \<longrightarrow>
       unat p = exact_score (unat (exec_us e)) (unat avg_us) (unat (bitmap_size e)) (unat avg_sz) (unat (handicap e)) (unat (depth e)))"
proof -
  define p1 where "p1 = score_bitmap (bitmap_size e) avg_sz (score_speed (exec_us e) avg_us)"
  have p1: "2 \<le> unat p1" "unat p1 \<le> 900" using score_bitmap_range score_speed_range by (auto simp: p1_def)
  define p2 where "p2 = (if handicap e \<ge> 4 then p1 * 4 else if handicap e \<noteq> 0 then p1 * 2 else p1)"
  have ph: "(if handicap e \<ge> 4 then (p1 * 4, handicap e - 4) else if handicap e \<noteq> 0 then (p1 * 2, handicap e - 1) else (p1, handicap e))
      = (p2, next_handicap (handicap e))"
    by (simp add: p2_def next_handicap_def)
  have u2: "unat p2 = unat p1 * (if unat (handicap e) \<ge> 4 then 4 else if unat (handicap e) \<noteq> 0 then 2 else 1)"
    using p1 unat_times[of p1] by (simp add: p2_def word_le_nat_alt unat_eq_0)
  have p2: "2 \<le> unat p2" "unat p2 \<le> 3600" using u2 p1 by (auto split: if_splits)
  define p3 where "p3 = score_depth (depth e) p2"
  have u3: "unat p3 = unat p2 * exact_depth (unat (depth e))" "2 \<le> unat p3"
    using score_depth_exact[OF p2(2)] score_depth_range[OF p2] by (simp_all add: p3_def)
  define p where "p = (if p3 > HAVOC_MAX_MULT * 100 then HAVOC_MAX_MULT * 100 else p3)"
  have p: "2 \<le> p" "p \<le> 1600" "unat p = min 1600 (unat p3)"
    using u3(2) by (auto simp: p_def HAVOC_MAX_MULT_def word_le_nat_alt word_less_nat_alt)
  have "unat p1 = exact_bitmap (unat (bitmap_size e)) (unat avg_sz) (exact_speed (unat (exec_us e)) (unat avg_us))"
    if "unat (exec_us e) < 2 ^ 62" "unat (bitmap_size e) < 2 ^ 30"
    unfolding p1_def score_speed_exact[OF that(1), symmetric]
    by (rule score_bitmap_exact[OF that(2)]) (use score_speed_range in blast)
  then have "unat (exec_us e) < 2 ^ 62 \<longrightarrow> unat (bitmap_size e) < 2 ^ 30 \<longrightarrow>
       unat p = exact_score (unat (exec_us e)) (unat avg_us) (unat (bitmap_size e)) (unat avg_sz) (unat (handicap e)) (unat (depth e))"
    unfolding exact_score_def p(3) u3(1) u2 by simp
  moreover have "calculate_score q s = Inr (p, upd_q q (\<lambda>x. x\<lparr>handicap := next_handicap (handicap e)\<rparr>) s)"
    using assms(1,2) unfolding calculate_score_def Let_def e_def[symmetric] avg_us_def[symmetric] avg_sz_def[symmetric] p1_def[symmetric]
      ph prod.case p3_def[symmetric] p_def[symmetric] by simp
  ultimately show ?thesis using p(1,2) unfolding e_def by blast
qed

section \<open>The tallies\<close>

text \<open>
  The tallies the averages are formed from change in a calibration only, which adds at most 40 runs to the one and an entry to
  the other.
\<close>

definition onlyE :: "('a \<Rightarrow> bool) \<Rightarrow> err + 'a \<Rightarrow> bool" where
  "onlyE P m \<longleftrightarrow> (\<forall>x. m = Inr x \<longrightarrow> P x)"

lemma onlyE_simps [simp]: "onlyE P (Inl e)" "onlyE P (Inr x) \<longleftrightarrow> P x"
  by (simp_all add: onlyE_def)

lemma onlyE_bind: "onlyE Q m \<Longrightarrow> (\<And>x. Q x \<Longrightarrow> onlyE P (f x)) \<Longrightarrow> onlyE P (bindE m f)"
  by (cases m) (auto simp: onlyE_def)

lemma okE_onlyE: "okE P m \<Longrightarrow> onlyE P m"
  by (auto simp: onlyE_def)

definition same_tally :: "'a x_state_scheme \<Rightarrow> 'a x_state_scheme \<Rightarrow> bool" where
  "same_tally s t \<longleftrightarrow> tally t = tally s \<and> (stage_max t = stage_max s \<or> stage_max t = CAL_CYCLES_LONG)"

lemma same_tally_refl [simp]: "same_tally s s"
  by (simp add: same_tally_def)

lemma same_tally_trans: "same_tally s t \<Longrightarrow> same_tally t u \<Longrightarrow> same_tally s u"
  by (auto simp: same_tally_def)

lemma qsame_tally: "qsame s t \<Longrightarrow> still s t \<Longrightarrow> same_tally s t"
  using runner_tally[of t s] by (simp add: qsame_def same_tally_def still_def progress_def)

lemma show_stats_tally: "same_tally s (show_stats s)"
  by (rule qsame_tally[OF show_stats_qsame show_stats_still])

lemma stats_tick_tally: "onlyE (same_tally s) (stats_tick c b s)"
  by (simp add: stats_tick_def show_stats_tally)

lemma put_testcase_tally: "same_tally s (put_testcase bs s)"
  by (rule qsame_tally[OF put_testcase_qsame put_testcase_still])

lemma run_target_tally: "onlyE (\<lambda>(f, t). same_tally s t) (run_target tm s)"
proof (rule okE_onlyE, rule okE_mono[OF okE_conj[OF run_target_one run_target_ok]])
  fix x :: "fault \<times> 'a x_state_scheme" assume "(case x of (f, t) \<Rightarrow> one_run tm s t) \<and> (case x of (f, s') \<Rightarrow> ran 1 s s')"
  then show "case x of (f, t) \<Rightarrow> same_tally s t" 
    using runner_tally[of "snd x" s] by (cases x) (simp add: one_run_def ran_def same_tally_def)
qed

lemma tally_stage [simp]: "tally (s\<lparr>stage_cur := a\<rparr>) = tally s" "tally (s\<lparr>stage_max := b\<rparr>) = tally s"
  by (simp_all add: tally_def)

lemma tally_stages [simp]: "tally (s\<lparr>stage_cur := a, stage_max := b\<rparr>) = tally s"
  by (simp add: tally_def)

lemma tally_upd_q [simp]: "tally (upd_q q f s) = tally s"
  by (simp add: tally_def upd_q_def)

lemma tally_entry [simp]: "tally (s\<lparr>subseq_tmouts := c, cur_depth := d\<rparr>) = tally s" "tally (s\<lparr>cur_skipped_paths := e\<rparr>) = tally s"
  by (simp_all add: tally_def)

lemma tally_trim [simp]:
  "tally (s\<lparr>trim_execs := g\<rparr>) = tally s" "tally (s\<lparr>bytes_trim_in := h\<rparr>) = tally s" "tally (s\<lparr>bytes_trim_out := i\<rparr>) = tally s"
  by (simp_all add: tally_def)

lemma tally_files [simp]: "tally (s\<lparr>fs := j\<rparr>) = tally s" "tally (s\<lparr>trace_bits := k\<rparr>) = tally s"
  by (simp_all add: tally_def)

lemma tally_score: "tally (update_bitmap_score q s) = tally s"
proof -
  have "tally (update_score_at fav q tr i s) = tally s" for fav tr i and s :: "'a x_state_scheme"
    by (simp add: tally_def update_score_at_def take_slot_def drop_ref_def upd_q_def Let_def split: option.split)
  then show ?thesis unfolding update_bitmap_score_def by (simp add: fold_fs_other)
qed

lemma same_tally_maps:
  "same_tally s (u\<lparr>virgin_bits := a\<rparr>) \<longleftrightarrow> same_tally s u" "same_tally s (u\<lparr>bitmap_changed := b\<rparr>) \<longleftrightarrow> same_tally s u"
  "same_tally s (u\<lparr>var_bytes := c\<rparr>) \<longleftrightarrow> same_tally s u" "same_tally s (u\<lparr>first_trace := d\<rparr>) \<longleftrightarrow> same_tally s u"
  by (simp_all add: same_tally_def tally_def)

lemma same_tally_long: "same_tally s u \<Longrightarrow> same_tally s (u\<lparr>stage_max := CAL_CYCLES_LONG\<rparr>)"
  by (simp add: same_tally_def)

lemma same_tally_upd_q: "same_tally s (upd_q q f u) \<longleftrightarrow> same_tally s u"
  by (simp add: same_tally_def) (simp add: upd_q_def)

lemma compare_tally: "same_tally s (snd (calibrate_compare q nv s))"
proof -
  define u where "u = snd (has_new_bits VirginBits s)"
  have u: "same_tally s u" unfolding u_def by (simp add: same_tally_maps split_beta Let_def)
  obtain b where b: "has_new_bits VirginBits s = (b, u)" by (metis u_def prod.collapse)
  show ?thesis unfolding calibrate_compare_def b Let_def split_beta fst_conv snd_conv
    by (simp only: if_distrib[of snd] if_distrib[of "same_tally s"] snd_conv same_tally_maps same_tally_upd_q u)
      (simp add: u same_tally_long same_tally_maps)
qed

lemma calibrate_loop_tally:
  fixes s :: "'a x_state_scheme"
  shows "onlyE (\<lambda>(r, t). same_tally s t) (calibrate_loop fuel q mem tm fr acc s)"
proof (induction fuel arbitrary: acc s)
  case 0
  then show ?case by simp
next
  case (Suc fuel)
  obtain f nb vd where acc: "acc = (f, nb, vd)" by (cases acc)
  have tick: "onlyE (same_tally s) (if \<not> fr then stats_tick (stage_cur s) False s else Inr s)"
    by (cases fr) (simp_all add: stats_tick_tally)
  show ?case
  proof (cases "stage_cur s < stage_max s")
    case False
    then show ?thesis by (simp add: acc)
  next
    case True
    show ?thesis unfolding acc calibrate_loop.simps if_P[OF True]
    proof (rule onlyE_bind[OF tick], rule onlyE_bind[where Q = "same_tally s"])
      fix s1 assume s1: "same_tally s s1"
      show "onlyE (same_tally s) (write_to_testcase mem (unat (q_len (qs s1 ! q))) s1)"
        using same_tally_trans[OF s1 put_testcase_tally] by (simp add: write_to_testcase_def)
    next
      fix s1 s2 assume s2: "same_tally s s2"
      show "onlyE (\<lambda>(r, t). same_tally s t) (bindE (run_target tm s2) (\<lambda>(fault, s).
          if stop_soon s \<noteq> 0 \<or> fault \<noteq> crash_mode s then Inr ((True, fault, nb, vd), s)
          else if dumb_mode s = 0 \<and> stage_cur s = 0 \<and> count_bytes (trace_bits s) = 0 then Inr ((True, FAULT_NOINST, nb, vd), s)
          else let ((new_bits, var_detected), s) = calibrate_compare q (nb, vd) s in
            calibrate_loop fuel q mem tm fr (fault, new_bits, var_detected) (s\<lparr>stage_cur := stage_cur s + 1\<rparr>)))"
      proof (rule onlyE_bind[OF run_target_tally])
        fix y :: "fault \<times> 'a x_state_scheme" assume y: "case y of (f, t) \<Rightarrow> same_tally s2 t"
        obtain f s3 where ys: "y = (f, s3)" by (cases y)
        have s3: "same_tally s s3" using same_tally_trans[OF s2] y ys by simp
        obtain nv s4 where c: "calibrate_compare q (nb, vd) s3 = (nv, s4)" by fastforce
        have "same_tally s s4" using same_tally_trans[OF s3 compare_tally[of s3 q "(nb, vd)"]] c by simp
        then have s5: "same_tally s (s4\<lparr>stage_cur := stage_cur s4 + 1\<rparr>)" by (simp add: same_tally_def)
        have "onlyE (\<lambda>(r, t). same_tally s t) (calibrate_loop fuel q mem tm fr (g, fst nv, snd nv) (s4\<lparr>stage_cur := stage_cur s4 + 1\<rparr>))" for g
          using Suc.IH[of "s4\<lparr>stage_cur := stage_cur s4 + 1\<rparr>" "(g, fst nv, snd nv)"] same_tally_trans[OF s5] by (auto simp: onlyE_def)
        then show "onlyE (\<lambda>(r, t). same_tally s t) (case y of (fault, s) \<Rightarrow>
          if stop_soon s \<noteq> 0 \<or> fault \<noteq> crash_mode s then Inr ((True, fault, nb, vd), s)
          else if dumb_mode s = 0 \<and> stage_cur s = 0 \<and> count_bytes (trace_bits s) = 0 then Inr ((True, FAULT_NOINST, nb, vd), s)
          else let ((new_bits, var_detected), s) = calibrate_compare q (nb, vd) s in
            calibrate_loop fuel q mem tm fr (fault, new_bits, var_detected) (s\<lparr>stage_cur := stage_cur s + 1\<rparr>))"
          using s3 by (simp add: ys c split_beta Let_def)
      qed
    qed
  qed
qed

text \<open>After at most one calibration.\<close>

definition tallied :: "'a x_state_scheme \<Rightarrow> 'a x_state_scheme \<Rightarrow> bool" where
  "tallied s t \<longleftrightarrow> tally t = tally s \<or>
     (\<exists>m. 0 \<le> m \<and> m \<le> CAL_CYCLES_LONG \<and> tally t = (total_cal_cycles s + of_int m, total_bitmap_entries s + 1))"

lemma calibrate_end_tally: "onlyE (\<lambda>t. tally t = tally s) (calibrate_end q nb vd s)"
  by (auto simp: calibrate_end_def Let_def mark_as_variable_def create_excl_def tally_def upd_q_def onlyE_def
      elim!: bindE_InrE split: if_splits option.splits)

lemma calibrate_case_tally:
  fixes s :: "'a x_state_scheme"
  shows "onlyE (\<lambda>(f, t). tallied s t) (calibrate_case q mem h fq s)"
proof -
  have b: "onlyE (\<lambda>t. tally t = tally s \<and> 0 \<le> stage_max t \<and> stage_max t \<le> CAL_CYCLES_LONG) (calibrate_begin q s)"
    by (auto simp: calibrate_begin_def Let_def onlyE_def tally_def upd_q_def cfg_simps elim!: bindE_InrE split: if_splits)
  show ?thesis unfolding calibrate_case_def Let_def
  proof (rule onlyE_bind[OF b])
    fix t :: "'a x_state_scheme" assume t: "tally t = tally s \<and> 0 \<le> stage_max t \<and> stage_max t \<le> CAL_CYCLES_LONG"
    define w where "w = (snd (get_cur_time_us t))\<lparr>stage_cur := 0\<rparr>"
    have w: "tally w = tally s" "0 \<le> stage_max w" "stage_max w \<le> CAL_CYCLES_LONG" using t by (simp_all add: w_def get_cur_time_us_def tally_def)
    show "onlyE (\<lambda>(f, t). tallied s t) (bindE (calibrate_loop (nat CAL_CYCLES_LONG) q mem
         (if \<not> fq \<or> resuming_fuzz s then max (exec_tmout s + CAL_TMOUT_ADD) (exec_tmout s * CAL_TMOUT_PERC div 100) else exec_tmout s)
         (exec_cksum (qs s ! q) = 0) (FAULT_NONE, 0, False) ((snd (get_cur_time_us t))\<lparr>stage_cur := 0\<rparr>))
       (calibrate_finish q (fst (get_cur_time_us t)) h (exec_cksum (qs s ! q) = 0) (stage_cur s, stage_max s)))"
      unfolding w_def[symmetric]
    proof (rule onlyE_bind[OF calibrate_loop_tally])
      fix y :: "(bool \<times> fault \<times> u8 \<times> bool) \<times> 'a x_state_scheme" assume y: "case y of (r, t) \<Rightarrow> same_tally w t"
      obtain ab fa nb vd v where ys: "y = ((ab, fa, nb, vd), v)" by (metis surj_pair)
      have v: "tally v = tally s" "0 \<le> stage_max v" "stage_max v \<le> CAL_CYCLES_LONG" using y w by (auto simp: ys same_tally_def cfg_simps)
      define u where "u = (if ab then (fa, v) else calibrate_judge q (fst (get_cur_time_us t)) h (exec_cksum (qs s ! q) = 0) fa nb v)"
      have "tally (snd (calibrate_judge q a h fr fa nb v)) = (total_cal_cycles s + of_int (stage_max v), total_bitmap_entries s + 1)" for a fr
        using v(1) by (simp add: calibrate_judge_def calibrate_stats_def Let_def tally_score get_cur_time_us_def) (simp add: tally_def upd_q_def)
      then have u: "tallied s (snd u)" using v by (auto simp: u_def tallied_def)
      have tu: "tallied s t'" if "tally t' = tally (snd u)" for t' using u that by (simp add: tallied_def)
      show "onlyE (\<lambda>(f, t). tallied s t) (calibrate_finish q (fst (get_cur_time_us t)) h (exec_cksum (qs s ! q) = 0) (stage_cur s, stage_max s) y)"
        unfolding ys calibrate_finish_def prod.case u_def[symmetric] Let_def
      proof (rule onlyE_bind[OF calibrate_end_tally])
        fix z :: "'a x_state_scheme" assume z: "tally z = tally (snd u)"
        have "tally (show_stats (z\<lparr>stage_cur := c, stage_max := d\<rparr>)) = tally (snd u)" for c d
          using show_stats_tally[of "z\<lparr>stage_cur := c, stage_max := d\<rparr>"] z by (simp add: same_tally_def)
        then show "onlyE (\<lambda>(f, t). tallied s t) (Inr (fst u, if exec_cksum (qs s ! q) \<noteq> 0
            then show_stats (z\<lparr>stage_cur := fst (stage_cur s, stage_max s), stage_max := snd (stage_cur s, stage_max s)\<rparr>)
            else z\<lparr>stage_cur := fst (stage_cur s, stage_max s), stage_max := snd (stage_cur s, stage_max s)\<rparr>))"
          using tu z by simp
      qed
    qed
  qed
qed

lemma trim_inner_tally:
  fixes s :: "'a x_state_scheme"
  shows "onlyE (\<lambda>(a, l, t). tally t = tally s) (trim_inner fuel q rl pos l s)"
proof (induction fuel arbitrary: pos l s)
  case (Suc fuel)
  have g: "onlyE (\<lambda>t. tally t = tally s) (write_with_gap b n p a s)" for b n p a
    using put_testcase_tally[of s] by (simp add: write_with_gap_def same_tally_def)
  have acc: "onlyE (\<lambda>(l, t). tally t = tally u) (if c then trim_accept q pos av l u else Inr (l, u))" for c av l and u :: "'a x_state_scheme"
    by (auto simp: trim_accept_def Let_def split: option.split)
  show ?case unfolding trim_inner.simps Let_def
  proof (cases "pos < unat (q_len (qs s ! q))", simp_all only: if_True if_False onlyE_simps prod.case, rule onlyE_bind[OF g])
    fix s1 :: "'a x_state_scheme" assume s1: "tally s1 = tally s"
    show "onlyE (\<lambda>(a, l, t). tally t = tally s) (bindE (run_target (exec_tmout s1) s1) (\<lambda>(fault, sa).
          if stop_soon (sa\<lparr>trim_execs := trim_execs sa + 1\<rparr>) \<noteq> 0 \<or> fault = FAULT_ERROR
          then Inr (True, l\<lparr>tl_fault := fault\<rparr>, sa\<lparr>trim_execs := trim_execs sa + 1\<rparr>)
          else bindE (if hash32 (trace_bits (sa\<lparr>trim_execs := trim_execs sa + 1\<rparr>)) HASH_CONST = exec_cksum (qs (sa\<lparr>trim_execs := trim_execs sa + 1\<rparr>) ! q)
                      then trim_accept q pos (min rl (unat (q_len (qs s ! q)) - pos)) (l\<lparr>tl_fault := fault\<rparr>) (sa\<lparr>trim_execs := trim_execs sa + 1\<rparr>)
                      else Inr (l\<lparr>tl_fault := fault\<rparr>, sa\<lparr>trim_execs := trim_execs sa + 1\<rparr>)) (\<lambda>(l, sb).
               bindE (stats_tick (tl_exec l) False sb) (\<lambda>sb.
                  trim_inner fuel q rl
                    (if hash32 (trace_bits (sa\<lparr>trim_execs := trim_execs sa + 1\<rparr>)) HASH_CONST = exec_cksum (qs (sa\<lparr>trim_execs := trim_execs sa + 1\<rparr>) ! q)
                     then pos else pos + rl) (l\<lparr>tl_exec := tl_exec l + 1\<rparr>) (sb\<lparr>stage_cur := stage_cur sb + 1\<rparr>)))))"
    proof (rule onlyE_bind[OF run_target_tally])
      fix y :: "fault \<times> 'a x_state_scheme" assume y: "case y of (f, t) \<Rightarrow> same_tally s1 t"
      obtain f s2 where ys: "y = (f, s2)" by (cases y)
      define s3 where "s3 = s2\<lparr>trim_execs := trim_execs s2 + 1\<rparr>"
      have s3: "tally s3 = tally s" using y ys s1 by (simp add: s3_def same_tally_def)
      have rest: "onlyE (\<lambda>(a, l, t). tally t = tally s) (bindE (if c then trim_accept q pos av l3 s3 else Inr (l3, s3)) (\<lambda>(l, sb).
               bindE (stats_tick (tl_exec l) False sb) (\<lambda>sb. trim_inner fuel q rl p (l\<lparr>tl_exec := tl_exec l + 1\<rparr>) (sb\<lparr>stage_cur := stage_cur sb + 1\<rparr>))))"
        for c av l3 p
      proof (rule onlyE_bind[OF acc])
        fix z :: "trim_local \<times> 'a x_state_scheme" assume z: "case z of (l, t) \<Rightarrow> tally t = tally s3"
        obtain l4 s4 where zs: "z = (l4, s4)" by (cases z)
        have "onlyE (\<lambda>(a, l, t). tally t = tally s) (trim_inner fuel q rl p l5 (s5\<lparr>stage_cur := cc\<rparr>))" if "same_tally s4 s5" for s5 l5 cc
          using Suc.IH[of "s5\<lparr>stage_cur := cc\<rparr>" p l5] that z s3 by (simp add: zs same_tally_def onlyE_def)
        then show "onlyE (\<lambda>(a, l, t). tally t = tally s) (case z of (l, sb) \<Rightarrow>
            bindE (stats_tick (tl_exec l) False sb) (\<lambda>sb. trim_inner fuel q rl p (l\<lparr>tl_exec := tl_exec l + 1\<rparr>) (sb\<lparr>stage_cur := stage_cur sb + 1\<rparr>)))"
          unfolding zs prod.case by (rule onlyE_bind[OF stats_tick_tally])
      qed
      show "onlyE (\<lambda>(a, l, t). tally t = tally s) (case y of (fault, sa) \<Rightarrow>
          if stop_soon (sa\<lparr>trim_execs := trim_execs sa + 1\<rparr>) \<noteq> 0 \<or> fault = FAULT_ERROR
          then Inr (True, l\<lparr>tl_fault := fault\<rparr>, sa\<lparr>trim_execs := trim_execs sa + 1\<rparr>)
          else bindE (if hash32 (trace_bits (sa\<lparr>trim_execs := trim_execs sa + 1\<rparr>)) HASH_CONST = exec_cksum (qs (sa\<lparr>trim_execs := trim_execs sa + 1\<rparr>) ! q)
                      then trim_accept q pos (min rl (unat (q_len (qs s ! q)) - pos)) (l\<lparr>tl_fault := fault\<rparr>) (sa\<lparr>trim_execs := trim_execs sa + 1\<rparr>)
                      else Inr (l\<lparr>tl_fault := fault\<rparr>, sa\<lparr>trim_execs := trim_execs sa + 1\<rparr>)) (\<lambda>(l, sb).
               bindE (stats_tick (tl_exec l) False sb) (\<lambda>sb.
                  trim_inner fuel q rl
                    (if hash32 (trace_bits (sa\<lparr>trim_execs := trim_execs sa + 1\<rparr>)) HASH_CONST = exec_cksum (qs (sa\<lparr>trim_execs := trim_execs sa + 1\<rparr>) ! q)
                     then pos else pos + rl) (l\<lparr>tl_exec := tl_exec l + 1\<rparr>) (sb\<lparr>stage_cur := stage_cur sb + 1\<rparr>))))"
        unfolding ys prod.case s3_def[symmetric] using rest s3 by simp
    qed
  qed
qed simp

lemma trim_outer_tally:
  fixes s :: "'a x_state_scheme"
  shows "onlyE (\<lambda>(a, l, t). tally t = tally s) (trim_outer fuel q rl l s)"
proof (induction fuel arbitrary: rl l s)
  case (Suc fuel)
  have "onlyE (\<lambda>(a, l, t). tally t = tally s) (bindE (trim_inner n q rl rl l (s\<lparr>stage_cur := c, stage_max := d\<rparr>))
      (\<lambda>(aborted, l, s). if aborted then Inr (True, l, s) else trim_outer fuel q (rl div 2) l s))" for n c d
  proof (rule onlyE_bind[OF trim_inner_tally])
    fix y :: "bool \<times> trim_local \<times> 'a x_state_scheme" assume y: "case y of (a, l, t) \<Rightarrow> tally t = tally (s\<lparr>stage_cur := c, stage_max := d\<rparr>)"
    then show "onlyE (\<lambda>(a, l, t). tally t = tally s) (case y of (aborted, l, s) \<Rightarrow> if aborted then Inr (True, l, s) else trim_outer fuel q (rl div 2) l s)"
      using Suc.IH[of "snd (snd y)" "rl div 2" "fst (snd y)"] by (cases y) (auto simp: onlyE_def)
  qed
  then show ?case by (simp add: Let_def)
qed simp

lemma trim_case_tally:
  fixes s :: "'a x_state_scheme"
  shows "onlyE (\<lambda>(f, b, t). tally t = tally s) (trim_case q b s)"
proof (cases "q_len (qs s ! q) < 5")
  case False
  show ?thesis unfolding trim_case_def if_not_P[OF False] Let_def
  proof (split option.split, intro conjI allI impI, simp, rule onlyE_bind[OF trim_outer_tally])
    fix p2 and y :: "bool \<times> trim_local \<times> 'a x_state_scheme"
    assume "case y of (a, l, t) \<Rightarrow> tally t = tally (s\<lparr>bytes_trim_in := bytes_trim_in s + ucast (q_len (qs s ! q))\<rparr>)"
    then show "onlyE (\<lambda>(f, b, t). tally t = tally s) (case y of (aborted, l, s) \<Rightarrow>
        Inr (tl_fault l, tl_buf l, (case tl_clean l of None \<Rightarrow> s | Some clean \<Rightarrow> if aborted then s
            else update_bitmap_score q (s\<lparr>fs := (fs s)(fname (qs s ! q) := None, fname (qs s ! q) \<mapsto> File (take (unat (q_len (qs s ! q))) (tl_buf l)))\<rparr>\<lparr>trace_bits := clean\<rparr>))
          \<lparr>bytes_trim_out := bytes_trim_out (case tl_clean l of None \<Rightarrow> s | Some clean \<Rightarrow> if aborted then s
            else update_bitmap_score q (s\<lparr>fs := (fs s)(fname (qs s ! q) := None, fname (qs s ! q) \<mapsto> File (take (unat (q_len (qs s ! q))) (tl_buf l)))\<rparr>\<lparr>trace_bits := clean\<rparr>))
            + ucast (q_len (qs (case tl_clean l of None \<Rightarrow> s | Some clean \<Rightarrow> if aborted then s
            else update_bitmap_score q (s\<lparr>fs := (fs s)(fname (qs s ! q) := None, fname (qs s ! q) \<mapsto> File (take (unat (q_len (qs s ! q))) (tl_buf l)))\<rparr>\<lparr>trace_bits := clean\<rparr>)) ! q))\<rparr>))"
      by (cases y) (simp add: tally_score split: option.split)
  qed
qed (simp add: trim_case_def)

text \<open>Hence positive tallies with some room stay positive while an entry is prepared.\<close>

definition tallies_ok :: "'a x_state_scheme \<Rightarrow> bool" where
  "tallies_ok s \<longleftrightarrow> 0 < total_cal_cycles s \<and> total_cal_cycles s < 2 ^ 63 \<and> 0 < total_bitmap_entries s \<and> total_bitmap_entries s < 2 ^ 63"

lemma tallied_positive:
  assumes "tallied s t" "tallies_ok s"
  shows "total_cal_cycles t \<noteq> 0 \<and> total_bitmap_entries t \<noteq> 0"
proof (cases "tally t = tally s")
  case True
  then show ?thesis using assms(2) by (auto simp: tally_def tallies_ok_def)
next
  case False
  then obtain m where m: "0 \<le> m" "m \<le> 40" "tally t = (total_cal_cycles s + of_int m, total_bitmap_entries s + 1)"
    using assms(1) by (auto simp: tallied_def cfg_simps)
  define n where "n = nat m"
  have n: "n \<le> 40" "of_int m = (of_nat n :: u64)" using m by (simp_all add: n_def)
  have add: "w + of_nat n \<noteq> 0" if "0 < w" "w < 2 ^ 63" "n \<le> 40" for w :: u64 and n
  proof -
    have "unat w < 2 ^ 63" "0 < unat w" using that by (simp_all add: word_less_nat_alt)
    then have "unat (w + of_nat n) = unat w + n" using that(3) by (simp add: unat_word_ariths unat_of_nat take_bit_nat_eq_self)
    then show ?thesis using \<open>0 < unat w\<close> by (metis add_is_0 less_numeral_extra(3) unat_0)
  qed
  show ?thesis using add[of "total_cal_cycles s" n] add[of "total_bitmap_entries s" 1] assms(2) m(3) n by (simp add: tally_def tallies_ok_def)
qed

lemma fuzz_prepare_tally:
  assumes "fuzz_prepare q d s = Inr (r, t)" "tallies_ok s"
  shows "total_cal_cycles t \<noteq> 0 \<and> total_bitmap_entries t \<noteq> 0"
proof -
  define s0 where "s0 = s\<lparr>subseq_tmouts := 0, cur_depth := ucast (depth (qs s ! q))\<rparr>"
  have s0: "tallies_ok s0" using assms(2) by (simp add: s0_def tallies_ok_def)
  have cal: "onlyE (\<lambda>(l, u). tallied s0 u) (fuzz_calibrate q d s0)"
  proof -
    have r: "tallied s0 s0" by (simp add: tallied_def)
    have sk: "tallied s0 (u\<lparr>cur_skipped_paths := c\<rparr>)" if "tallied s0 u" for u c using that by (simp add: tallied_def)
    show ?thesis
      using calibrate_case_tally[of s0 q d "ucast (queue_cycle s0 - 1)" False] r sk
      by (auto simp: fuzz_calibrate_def onlyE_def elim!: bindE_InrE split: if_splits)
  qed
  have tr: "onlyE (\<lambda>(l, b, t). tally t = tally u) (fuzz_trim q d u)" for u
    using trim_case_tally[of u q d] by (auto simp: fuzz_trim_def onlyE_def elim!: bindE_InrE split: if_splits)
  have "onlyE (\<lambda>(r, t). tallied s0 t) (fuzz_prepare q d s)"
    unfolding fuzz_prepare_def s0_def[symmetric]
  proof (rule onlyE_bind[OF cal])
    fix y :: "bool \<times> 'a x_state_scheme" assume y: "case y of (l, u) \<Rightarrow> tallied s0 u"
    obtain l u where ys: "y = (l, u)" by (cases y)
    have "onlyE (\<lambda>(r, t). tallied s0 t) (bindE (fuzz_trim q d u) (\<lambda>(leave, in_buf, s). Inr (if leave then None else Some in_buf, s)))"
      by (rule onlyE_bind[OF tr]) (use y in \<open>auto simp: ys tallied_def\<close>)
    then show "onlyE (\<lambda>(r, t). tallied s0 t) (case y of (leave, s) \<Rightarrow> if leave then Inr (None, s)
        else bindE (fuzz_trim q d s) (\<lambda>(leave, in_buf, s). Inr (if leave then None else Some in_buf, s)))"
      using y by (simp add: ys)
  qed
  then show ?thesis using assms(1) tallied_positive[OF _ s0] by (simp add: onlyE_def)
qed

section \<open>Preparing an entry\<close>

text \<open>
  What \<open>fuzz_one\<close> keeps all along: the invariant with room for \<open>k\<close> entries, the settings and the names of
  the entries. (Lengths change when the entry is trimmed.)
\<close>

definition later :: "nat \<Rightarrow> 'a x_state_scheme \<Rightarrow> 'a x_state_scheme \<Rightarrow> bool" where
  "later k s t \<longleftrightarrow> x_inv k t \<and> settings t = settings s \<and> prefix (map fname (qs s)) (map fname (qs t))"

lemma later_trans: "later j s t \<Longrightarrow> later k t u \<Longrightarrow> later k s u"
  by (auto simp: later_def intro: prefix_order.order_trans)

lemma after_later: "after k s t \<Longrightarrow> later k s t"
  by (simp add: after_def later_def)

lemma later_refl: "x_inv k s \<Longrightarrow> later k s s"
  by (simp add: later_def)

lemma later_mono: "later k s t \<Longrightarrow> j \<le> k \<Longrightarrow> later j s t"
  by (auto simp: later_def intro: x_inv_mono)

lemma later_frame: "later k s t \<Longrightarrow> frame t u \<Longrightarrow> later k s u"
  using after_later[OF after_frame] later_trans by (metis later_def)

lemma later_still: "later k s t \<Longrightarrow> still t u \<Longrightarrow> later k s u"
  using later_frame by (auto simp: still_def)

lemma later_length: "later k s t \<Longrightarrow> length (qs s) \<le> length (qs t)"
  unfolding later_def using prefix_length_le by fastforce

lemma frame_upd_q:
  "(\<And>e. entry_part (f e) = entry_part e) \<Longrightarrow> (\<And>e. tc_ref (f e) = tc_ref e) \<Longrightarrow> (\<And>e. trace_mini (f e) = trace_mini e) \<Longrightarrow> frame s (upd_q q f s)"
  using still_upd_q[of f s q] by (simp add: still_def)

lemma fuzz_skip_ok: "okE (\<lambda>(skip, t). still s t) (fuzz_skip q s)"
proof -
  have u: "okE (\<lambda>(skip, t). still s t) (bindE (UR 100 s) (\<lambda>(r, s). Inr (r < n, s)))" for n
    by (rule okE_bind[OF UR_still]) auto
  show ?thesis unfolding fuzz_skip_def Let_def using u by simp
qed

lemma fuzz_calibrate_ok:
  fixes s :: "'a x_state_scheme"
  assumes x: "x_inv k s" and q: "q < length (qs s)" "unat (q_len (qs s ! q)) \<le> length in_buf"
  shows "okE (\<lambda>(leave, t). frame s t) (fuzz_calibrate q in_buf s)"
proof -
  have pre: "stats_update_freq s \<noteq> 0" "CHR ''/'' \<in> set (fname (qs s ! q))" "okE (\<lambda>_. True) (forksrv_start s)"
    using x q(1) by (auto simp: x_inv_def)
  have "okE (\<lambda>(res, t). frame s t) (bindE (calibrate_case q in_buf (ucast (queue_cycle s - 1)) False s) (\<lambda>(res, s).
      if res = FAULT_ERROR then Inl (FATAL ''Unable to execute target application'') else Inr (res, s)))"
    by (rule okE_bind[OF calibrate_case_ok[OF pre(1) q pre(2,3)]]) (auto simp: ran_def)
  then have c: "okE (\<lambda>(res, t). frame s t) (if cal_failed (qs s ! q) < CAL_CHANCES
               then bindE (calibrate_case q in_buf (ucast (queue_cycle s - 1)) False s) (\<lambda>(res, s).
                      if res = FAULT_ERROR then Inl (FATAL ''Unable to execute target application'') else Inr (res, s))
               else Inr (FAULT_TMOUT, s))" by simp
  have sk: "frame s (t\<lparr>cur_skipped_paths := n\<rparr>)" if "frame s t" for t n
    by (rule frame_trans[OF that]) (simp add: frame_def part_defs)
  have "okE (\<lambda>(leave, t). frame s t) (bindE (if cal_failed (qs s ! q) < CAL_CHANCES
               then bindE (calibrate_case q in_buf (ucast (queue_cycle s - 1)) False s) (\<lambda>(res, s).
                      if res = FAULT_ERROR then Inl (FATAL ''Unable to execute target application'') else Inr (res, s))
               else Inr (FAULT_TMOUT, s)) (\<lambda>(res, s).
          if stop_soon s \<noteq> 0 \<or> res \<noteq> crash_mode s
          then Inr (True, s\<lparr>cur_skipped_paths := cur_skipped_paths s + 1\<rparr>) else Inr (False, s)))"
    by (rule okE_bind[OF c]) (use sk in auto)
  then show ?thesis by (simp add: fuzz_calibrate_def)
qed

definition ready :: "nat \<Rightarrow> nat \<Rightarrow> u8 list \<Rightarrow> 'a x_state_scheme \<Rightarrow> bool" where
  "ready q n in_buf t \<longleftrightarrow> length in_buf = n \<and> 0 < q_len (qs t ! q) \<and> unat (q_len (qs t ! q)) \<le> n"

lemma fuzz_trim_ok:
  fixes s :: "'a x_state_scheme"
  assumes x: "x_inv k s" and q: "q < length (qs s)" and len: "0 < q_len (qs s ! q)" "unat (q_len (qs s ! q)) \<le> length in_buf" "q_len (qs s ! q) \<le> 2 ^ 31"
  shows "okE (\<lambda>(leave, b, t). later k s t \<and> ready q (length in_buf) b t) (fuzz_trim q in_buf s)"
proof -
  have fq: "stats_update_freq s \<noteq> 0" using x by (simp add: x_inv_def)
  have n0: "0 < unat (q_len (qs s ! q))" using len(1) by (simp add: unat_gt_0 word_neq_0_conv)
  have "okE (\<lambda>(leave, b, t). later k s t \<and> ready q (length in_buf) b t) (bindE (trim_case q in_buf s) (\<lambda>(res, in_buf, s).
          if res = FAULT_ERROR then Inl (FATAL ''Unable to execute target application'')
          else if stop_soon s \<noteq> 0 then Inr (True, in_buf, s\<lparr>cur_skipped_paths := cur_skipped_paths s + 1\<rparr>)
          else Inr (False, in_buf, upd_q q (\<lambda>e. e\<lparr>trim_done := True\<rparr>) s)))"
  proof (rule okE_bind[OF trim_case_run[OF q fq len(2,3)]])
    fix y assume y: "trimmed q in_buf s y"
    obtain f b t where ys: "y = (f, b, t)" by (cases y)
    have t: "unat (q_len (qs t ! q)) \<le> unat (q_len (qs s ! q))" "min (unat (q_len (qs s ! q))) 4 \<le> unat (q_len (qs t ! q))" "length b = length in_buf"
        "map fname (qs t) = map fname (qs s)" "settings t = settings s" "x_inv k t"
      using y x by (auto simp: ys trimmed_def Let_def)
    have lt: "later k s t" using t by (simp add: later_def)
    have "0 < unat (q_len (qs t ! q))" using t(2) n0 by simp
    then have "0 < q_len (qs t ! q)" by (metis unat_0 word_neq_0_conv less_irrefl)
    then have r: "ready q (length in_buf) b t" using t len(2) by (simp add: ready_def)
    have s1: "later k s (t\<lparr>cur_skipped_paths := n\<rparr>)" for n
      by (rule later_frame[OF lt]) (simp add: frame_def part_defs)
    have s2: "later k s (upd_q q (\<lambda>e. e\<lparr>trim_done := True\<rparr>) t)"
      by (rule later_frame[OF lt frame_upd_q]) (simp_all add: entry_part_def)
    have ql: "q < length (qs t)" using arg_cong[OF t(4), of length] q by simp
    have r2: "ready q (length in_buf) b (t\<lparr>cur_skipped_paths := n\<rparr>)" "ready q (length in_buf) b (upd_q q (\<lambda>e. e\<lparr>trim_done := True\<rparr>) t)" for n
      using r ql by (simp_all add: ready_def)
    show "okE (\<lambda>(leave, b, t). later k s t \<and> ready q (length in_buf) b t) (case y of (res, in_buf, s) \<Rightarrow>
          if res = FAULT_ERROR then Inl (FATAL ''Unable to execute target application'')
          else if stop_soon s \<noteq> 0 then Inr (True, in_buf, s\<lparr>cur_skipped_paths := cur_skipped_paths s + 1\<rparr>)
          else Inr (False, in_buf, upd_q q (\<lambda>e. e\<lparr>trim_done := True\<rparr>) s))"
      unfolding ys prod.case using s1 s2 r2 by auto
  qed
  then show ?thesis unfolding fuzz_trim_def using x len by (simp add: later_refl ready_def)
qed

lemma fuzz_prepare_ok:
  fixes s :: "'a x_state_scheme"
  assumes x: "x_inv k s" and q: "q < length (qs s)" and len: "0 < q_len (qs s ! q)" "unat (q_len (qs s ! q)) = length in_buf" "q_len (qs s ! q) \<le> 2 ^ 31"
  shows "okE (\<lambda>(r, t). later k s t \<and> (case r of None \<Rightarrow> True | Some b \<Rightarrow> ready q (length in_buf) b t)) (fuzz_prepare q in_buf s)"
proof -
  define s1 where "s1 = s\<lparr>subseq_tmouts := 0, cur_depth := ucast (depth (qs s ! q))\<rparr>"
  have f1: "frame s s1" by (simp add: s1_def frame_def part_defs)
  have x1: "x_inv k s1" by (rule x_inv_frame[OF f1 x])
  show ?thesis unfolding fuzz_prepare_def s1_def[symmetric]
  proof (rule okE_bind[OF fuzz_calibrate_ok[OF x1]])
    fix y :: "bool \<times> 'a x_state_scheme" assume "case y of (leave, t) \<Rightarrow> frame s1 t"
    then obtain l t where y: "y = (l, t)" "frame s1 t" by (cases y) auto
    have ft: "frame s t" by (rule frame_trans[OF f1 y(2)])
    have qp: "qpart t = qpart s" using ft by (simp add: frame_def)
    have qt: "q < length (qs t)" "q_len (qs t ! q) = q_len (qs s ! q)" using qpart_queue_inv(2,4)[OF qp] q by simp_all
    have xt: "x_inv k t" and lt: "later k s t" using x_inv_frame[OF ft x] later_frame[OF later_refl[OF x] ft] by auto
    have "okE (\<lambda>(r, t). later k s t \<and> (case r of None \<Rightarrow> True | Some b \<Rightarrow> ready q (length in_buf) b t))
        (bindE (fuzz_trim q in_buf t) (\<lambda>(leave, in_buf, s). Inr (if leave then None else Some in_buf, s)))"
      by (rule okE_bind[OF fuzz_trim_ok[OF xt]]) (use qt len later_trans[OF lt] in auto)
    then show "okE (\<lambda>(r, t). later k s t \<and> (case r of None \<Rightarrow> True | Some b \<Rightarrow> ready q (length in_buf) b t))
       (case y of (leave, s) \<Rightarrow> if leave then Inr (None, s)
          else bindE (fuzz_trim q in_buf s) (\<lambda>(leave, in_buf, s). Inr (if leave then None else Some in_buf, s)))"
      using lt by (simp add: y)
  qed (use q len in \<open>simp_all add: s1_def\<close>)
qed

section \<open>Picking another entry\<close>

lemma rng_only_src: "rng_only s t \<Longrightarrow> random_src t = random_src s"
  by (drule arg_cong[of _ _ random_src, OF rng_only_def[THEN iffD1]]) (simp add: rng_erase_def)

text \<open>One draw: the result, and the position it leaves the generator at.\<close>

lemma UR_draw:
  assumes "0 < n"
  obtains s' where "UR n s = Inr (random_src s (random_pos s) mod n, s')" "rng_only s s'" "random_src s' = random_src s" "random_pos s' = Suc (random_pos s)"
  using assms by (simp add: UR_def Let_def rng_only_def rng_erase_def)

lemma pick_other_at:
  fixes s :: "'a rng_state_scheme"
  assumes "0 < n" "random_src s (random_pos s + d) mod n \<noteq> cur"
  shows "\<exists>tid s'. pick_other n cur s = Some (Inr (tid, s')) \<and> tid < n \<and> tid \<noteq> cur \<and> rng_only s s'"
  using assms(2)
proof (induction d arbitrary: s)
  case 0
  obtain s' where "UR n s = Inr (random_src s (random_pos s) mod n, s')" "rng_only s s'" by (rule UR_draw[OF assms(1)])
  then show ?case using 0 assms(1) by (subst pick_other.simps) simp
next
  case (Suc d)
  obtain s' where s': "UR n s = Inr (random_src s (random_pos s) mod n, s')" "rng_only s s'" "random_src s' = random_src s" "random_pos s' = Suc (random_pos s)"
    by (rule UR_draw[OF assms(1)])
  obtain tid u where "pick_other n cur s' = Some (Inr (tid, u))" "tid < n" "tid \<noteq> cur" "rng_only s' u" using Suc.IH[of s'] Suc.prems s'(3,4) by auto
  then show ?case using s'(1,2) assms(1) rng_only_trans by (subst pick_other.simps) auto
qed

lemma pick_other_only_if:
  assumes "pick_other n cur s = Some r" "0 < n"
  shows "\<exists>d. random_src s (random_pos s + d) mod n \<noteq> cur"
  using assms
proof (induction rule: pick_other.raw_induct[rotated -1, consumes 1])
  case (1 f n cur s r)
  obtain s' where s': "UR n s = Inr (random_src s (random_pos s) mod n, s')" "random_src s' = random_src s" "random_pos s' = Suc (random_pos s)"
    by (rule UR_draw[OF 1(3)])
  show ?case
  proof (cases "random_src s (random_pos s) mod n = cur")
    case True
    then have "f n cur s' = Some r" using 1(2) s'(1) by simp
    then obtain d where "random_src s (random_pos s + Suc d) mod n \<noteq> cur" using 1(1)[of n cur s'] 1(3) s'(2,3) by auto
    then show ?thesis ..
  next
    case False
    then have "random_src s (random_pos s + 0) mod n \<noteq> cur" by simp
    then show ?thesis ..
  qed
qed

text \<open>
  A generator that never repeats one residue for ever. Of \<open>random()\<close> nothing else is needed for
  splicing to find a partner.
\<close>

definition fair :: "(nat \<Rightarrow> nat) \<Rightarrow> bool" where
  "fair src \<longleftrightarrow> (\<forall>m c i. 2 \<le> m \<longrightarrow> (\<exists>d. src (i + d) mod m \<noteq> c))"

lemma fair_counter: "fair (\<lambda>i. i)"
  unfolding fair_def
proof (intro allI impI)
  fix m c i :: nat assume m: "2 \<le> m"
  show "\<exists>d. (i + d) mod m \<noteq> c"
  proof (cases "i mod m = c")
    case True
    have "(i + 1) mod m \<noteq> i mod m" using m by (auto simp: mod_Suc)
    then show ?thesis using True by blast
  next
    case False
    then have "(i + 0) mod m \<noteq> c" by simp
    then show ?thesis ..
  qed
qed

lemma other_entry_ok:
  assumes "fair (random_src s)" "2 \<le> n"
  shows "\<exists>tid s'. other_entry n cur s = Inr (tid, s') \<and> tid < n \<and> tid \<noteq> cur \<and> rng_only s s'"
proof -
  obtain d where "random_src s (random_pos s + d) mod n \<noteq> cur" using assms unfolding fair_def by blast
  then show ?thesis using pick_other_at[of n s d cur] assms(2) by (auto simp: other_entry_def)
qed

text \<open>
  C27. Picking a partner for splicing, \<open>do { tid = UR(queued_paths); } while (tid == current_entry)\<close>, returns
  exactly when the generator ever draws a number other than the current entry: with a queue of one
  entry, which the caller rules out, it would not.
\<close>

theorem pick_other_returns:
  "(\<exists>tid s'. pick_other n cur s = Some (Inr (tid, s')) \<and> tid < n \<and> tid \<noteq> cur \<and> rng_only s s') =
     (0 < n \<and> (\<exists>d. random_src s (random_pos s + d) mod n \<noteq> cur))"
proof
  assume "\<exists>tid s'. pick_other n cur s = Some (Inr (tid, s')) \<and> tid < n \<and> tid \<noteq> cur \<and> rng_only s s'"
  then show "0 < n \<and> (\<exists>d. random_src s (random_pos s + d) mod n \<noteq> cur)" using pick_other_only_if by fastforce
qed (use pick_other_at in blast)

section \<open>Splicing\<close>

lemma skip_short_ok:
  assumes "\<And>i. i < length es \<Longrightarrow> q_next (es ! i) = next_of (length es) i" "p < length es" "length es < p + fuel"
  shows "\<exists>r w'. skip_short fuel q es (Some p) w = Inr (r, w') \<and> (\<forall>t. r = Some t \<longrightarrow> p \<le> t \<and> t < length es \<and> 2 \<le> q_len (es ! t) \<and> t \<noteq> q \<and> w' = w + int (t - p))"
  using assms(2,3)
proof (induction fuel arbitrary: p w)
  case (Suc fuel)
  show ?case
  proof (cases "q_len (es ! p) < 2 \<or> p = q")
    case True
    show ?thesis
    proof (cases "Suc p < length es")
      case True
      then have n: "q_next (es ! p) = Some (Suc p)" using assms(1)[OF Suc.prems(1)] by (simp add: next_of_def)
      obtain r w' where "skip_short fuel q es (Some (Suc p)) (w + 1) = Inr (r, w')"
        "\<forall>t. r = Some t \<longrightarrow> Suc p \<le> t \<and> t < length es \<and> 2 \<le> q_len (es ! t) \<and> t \<noteq> q \<and> w' = w + 1 + int (t - Suc p)"
        using Suc.IH[OF True, of "w + 1"] Suc.prems by auto
      then show ?thesis using \<open>q_len (es ! p) < 2 \<or> p = q\<close> n by auto
    next
      case False
      then have "q_next (es ! p) = None" using assms(1)[OF Suc.prems(1)] Suc.prems(1) by (simp add: next_of_def)
      then show ?thesis using True by simp
    qed
  next
    case False
    then show ?thesis using Suc.prems by (auto simp: not_less)
  qed
qed simp

lemma locate_diffs_bounds:
  assumes "locate_diffs p1 p2 n = (f, l)" "0 \<le> f"
  shows "f \<le> l" "l < int n" "\<And>i. i < nat f \<Longrightarrow> p1 ! i = p2 ! i"
proof -
  define ds where "ds = filter (\<lambda>i. p1 ! i \<noteq> p2 ! i) [0..<n]"
  have e: "locate_diffs p1 p2 n = (if ds \<noteq> [] then int (hd ds) else -1, if ds \<noteq> [] then int (last ds) else -1)"
    by (simp add: locate_diffs_def locate_diffs_loop_eq Let_def ds_def)
  have ne: "ds \<noteq> []" and fl: "f = int (hd ds)" "l = int (last ds)" using e assms by (auto split: if_splits)
  have srt: "sorted ds" by (simp add: ds_def sorted_wrt_filter)
  have mem: "i \<in> set ds \<longleftrightarrow> i < n \<and> p1 ! i \<noteq> p2 ! i" for i by (auto simp: ds_def)
  have low: "hd ds \<le> i" if "i \<in> set ds" for i using srt ne that by (cases ds) auto
  show "f \<le> l" using low[of "last ds"] ne by (simp add: fl)
  show "l < int n" using mem[of "last ds"] ne by (simp add: fl)
  have "hd ds < n" using mem[of "hd ds"] ne by simp
  then show "p1 ! i = p2 ! i" if "i < nat f" for i using low[of i] mem[of i] that by (fastforce simp: fl)
qed

lemma splice_at_eq:
  fixes s :: "'a x_state_scheme"
  assumes "locate_diffs in_buf new_buf (min len (length new_buf)) = (f, l)" "0 \<le> f" "2 \<le> l" "f \<noteq> l" "len \<le> length in_buf"
  shows "\<exists>r s'. UR (nat (l - f)) s = Inr (r, s') \<and> rng_only s s' \<and> nat f + r < nat l \<and>
     splice_at in_buf len new_buf s = Inr (Some (take (nat f + r) in_buf @ drop (nat f + r) new_buf), s')"
proof -
  note b = locate_diffs_bounds[OF assms(1,2)]
  have p: "0 < nat (l - f)" using b(1) assms(4) by simp
  obtain r s' where r: "UR (nat (l - f)) s = Inr (r, s')" "r < nat (l - f)" "rng_only s s'" using UR_ok[OF p] by blast
  have k: "nat f + r < nat l" "nat l < len" "nat l < length new_buf" using r(2) b assms(2) by linarith+
  then show ?thesis using assms r by (intro exI[of _ r] exI[of _ s']) (simp add: splice_at_def read_from_def memcpy_in_def)
qed

lemma rng_only_queue:
  assumes "rng_only s t"
  shows "qs t = qs s" "queue t = queue s" "fs t = fs s" "queued_paths t = queued_paths s"
  using arg_cong[OF assms[unfolded rng_only_def], of qs] arg_cong[OF assms[unfolded rng_only_def], of queue]
    arg_cong[OF assms[unfolded rng_only_def], of fs] arg_cong[OF assms[unfolded rng_only_def], of queued_paths]
  by (simp_all add: rng_erase_def)

text \<open>
  \<open>joined in_buf len other b\<close>: \<open>b\<close> has the first \<open>k\<close> bytes of \<open>in_buf\<close> and goes on as \<open>other\<close>, cut at a place
  from the first up to, but not including, the last byte in which the two differ; when the cut is at the
  first difference, \<open>b\<close> is \<open>other\<close> itself. \<open>spliced q in_buf len s b\<close>: the other one is the test case of an
  entry other than \<open>q\<close>, of at least two bytes.
\<close>

definition joined :: "u8 list \<Rightarrow> nat \<Rightarrow> u8 list \<Rightarrow> u8 list \<Rightarrow> bool" where
  "joined in_buf len other b \<longleftrightarrow>
     (\<exists>k f l. locate_diffs in_buf other (min len (length other)) = (f, l) \<and> f \<le> int k \<and> int k < l \<and>
        b = take k in_buf @ drop k other \<and> length b = length other \<and> (int k = f \<longrightarrow> b = other))"

definition spliced :: "nat \<Rightarrow> u8 list \<Rightarrow> nat \<Rightarrow> 'a x_state_scheme \<Rightarrow> u8 list \<Rightarrow> bool" where
  "spliced q in_buf len s b \<longleftrightarrow>
     (\<exists>t d. t < length (qs s) \<and> t \<noteq> q \<and> 2 \<le> q_len (qs s ! t) \<and> fs s (fname (qs s ! t)) = Some (File d) \<and>
        unat (q_len (qs s ! t)) \<le> length d \<and> joined in_buf len (take (unat (q_len (qs s ! t))) d) b)"

lemma take_drop_same:
  assumes "\<And>i. i < k \<Longrightarrow> xs ! i = ys ! i" "k \<le> length xs" "k \<le> length ys"
  shows "take k xs @ drop k ys = ys"
proof -
  have "take k xs = take k ys" by (rule nth_take_lemma) (use assms in auto)
  then show ?thesis by simp
qed

lemma splice_at_joined:
  fixes s :: "'a x_state_scheme"
  assumes "len \<le> length in_buf"
  shows "okE (\<lambda>(r, t). rng_only s t \<and> (\<forall>b. r = Some b \<longrightarrow> joined in_buf len new_buf b)) (splice_at in_buf len new_buf s)"
proof -
  obtain f l where fl: "locate_diffs in_buf new_buf (min len (length new_buf)) = (f, l)" by force
  show ?thesis
  proof (cases "f < 0 \<or> l < 2 \<or> f = l")
    case True
    then show ?thesis by (auto simp: splice_at_def fl)
  next
    case False
    then have c: "0 \<le> f" "2 \<le> l" "f \<noteq> l" by auto
    note bounds = locate_diffs_bounds[OF fl c(1)]
    obtain r s' where r: "rng_only s s'" "nat f + r < nat l" "splice_at in_buf len new_buf s = Inr (Some (take (nat f + r) in_buf @ drop (nat f + r) new_buf), s')"
      using splice_at_eq[OF fl c assms, of s] by blast
    define k where "k = nat f + r"
    have k: "f \<le> int k" "int k < l" using r(2) c by (simp_all add: k_def)
    have kl: "k \<le> length in_buf" "k \<le> length new_buf" using k bounds(2) assms by linarith+
    have same: "int k = f \<longrightarrow> take k in_buf @ drop k new_buf = new_buf" using take_drop_same[OF _ kl] bounds(3) by auto
    have "joined in_buf len new_buf (take k in_buf @ drop k new_buf)"
      unfolding joined_def fl using k kl same by (intro exI[of _ k] exI[of _ f] exI[of _ l]) simp
    then show ?thesis using r by (simp add: k_def)
  qed
qed

lemma read_case_ok: "okE (\<lambda>x. \<exists>d. fs s fn = Some (File d) \<and> n \<le> length d \<and> x = take n d) (read_case fn n s)"
  by (auto simp: read_case_def split: option.splits node.splits)

lemma splice_once_ok:
  fixes s :: "'a x_state_scheme"
  assumes q: "queue_inv s" "2 \<le> length (qs s)" "length (qs s) < 2 ^ 32" and f: "fair (random_src s)" and len: "len \<le> length in_buf"
  shows "okE (\<lambda>(r, t). still s t \<and> (\<forall>b. r = Some b \<longrightarrow> spliced q in_buf len s b)) (splice_once q in_buf len s)"
proof -
  let ?P = "\<lambda>(r, t). still s t \<and> (\<forall>b. r = Some b \<longrightarrow> spliced q in_buf len s b)"
  define n where "n = length (qs s)"
  have qn: "unat (queued_paths s) = n" using q by (simp add: queue_inv_def Let_def n_def unat_of_nat)
  obtain tid s1 where o: "other_entry n (unat (current_entry s)) s = Inr (tid, s1)" "tid < n" "rng_only s s1"
    using other_entry_ok[OF f, of n "unat (current_entry s)"] q(2) by (auto simp: n_def)
  define p where "p = (if tid < 100 then tid else tid - 1)"
  have p: "p < n" "seek_entry tid (qs s) (queue s) = Inr (Some p)" using seek_entry_ok[OF q(1), of tid] o(2) by (auto simp: p_def n_def)
  obtain r w where r: "skip_short (Suc n) q (qs s) (Some p) (int tid) = Inr (r, w)"
      "\<forall>t. r = Some t \<longrightarrow> t < n \<and> 2 \<le> q_len (qs s ! t) \<and> t \<noteq> q"
    using skip_short_ok[of "qs s" p "Suc n" q "int tid"] q(1) p(1) by (auto simp: n_def queue_inv_def Let_def)
  define s2 where "s2 = s1\<lparr>splicing_with := w\<rparr>"
  have "still s1 s2" by (simp add: s2_def still_def frame_def part_defs)
  then have s2: "still s s2" "qs s2 = qs s" "fs s2 = fs s"
    using still_trans[OF rng_only_still[OF o(3)]] rng_only_queue[OF o(3)] by (simp_all add: s2_def)
  have e: "splice_once q in_buf len s = (case r of None \<Rightarrow> Inr (None, s2) | Some t \<Rightarrow>
      bindE (read_case (fname (qs s ! t)) (unat (q_len (qs s ! t))) s2) (\<lambda>new_buf. splice_at in_buf len new_buf s2))"
    using o(1) p(2) r(1) s2(2,3) rng_only_queue[OF o(3)] by (simp add: splice_once_def qn n_def[symmetric] Let_def s2_def split: option.split)
  show ?thesis
  proof (cases r)
    case None
    then show ?thesis using s2(1) by (simp add: e)
  next
    case (Some t)
    have "okE ?P (bindE (read_case (fname (qs s ! t)) (unat (q_len (qs s ! t))) s2) (\<lambda>new_buf. splice_at in_buf len new_buf s2))"
    proof (rule okE_bind[OF read_case_ok])
      fix x assume "\<exists>d. fs s2 (fname (qs s ! t)) = Some (File d) \<and> unat (q_len (qs s ! t)) \<le> length d \<and> x = take (unat (q_len (qs s ! t))) d"
      then obtain d where d: "fs s (fname (qs s ! t)) = Some (File d)" "unat (q_len (qs s ! t)) \<le> length d" "x = take (unat (q_len (qs s ! t))) d"
        using s2(3) by auto
      show "okE ?P (splice_at in_buf len x s2)"
        by (rule okE_mono[OF splice_at_joined[OF len]])
          (use d r(2) Some still_trans[OF s2(1) rng_only_still] in \<open>auto simp: spliced_def n_def intro!: exI[of _ t] exI[of _ d]\<close>)
    qed
    then show ?thesis by (simp add: e Some)
  qed
qed

lemma after_settings: "after k s t \<Longrightarrow> settings t = settings s"
  by (simp add: after_def)

lemma fuzz_splice_ok:
  fixes s :: "'a x_state_scheme"
  assumes c: "queue_cycle s0 \<noteq> 0" "havoc_div s0 \<noteq> 0" "fair (random_src s0)" and perf: "2 \<le> perf" "perf \<le> 1600"
    and len: "\<And>t j. after j s0 t \<Longrightarrow> unat (q_len (qs t ! q)) \<le> length orig_in"
  shows "after (k + n * HAVOC_FUEL) s0 s \<Longrightarrow> okE (\<lambda>(stop, t). after k s0 t) (fuzz_splice n q det perf orig_in s)"
proof (induction n arbitrary: s)
  case 0
  then show ?case by simp
next
  case (Suc n)
  note a = Suc.prems
  define L where "L = unat (q_len (qs s ! q))"
  have set: "queue_cycle s \<noteq> 0" "havoc_div s \<noteq> 0" "fair (random_src s)" using after_settings[OF a] c by (auto simp: settings_def)
  have x: "queue_inv s" "length (qs s) < 2 ^ 32" using a by (auto simp: after_def x_inv_def)
  have ak: "after k s0 s" by (rule after_mono[OF a]) simp
  show ?case
  proof (cases "use_splicing s \<and> queued_paths s > 1 \<and> q_len (qs s ! q) > 1")
    case True
    have "1 < unat (queued_paths s)" using True by (simp add: word_less_nat_alt)
    then have l2: "2 \<le> length (qs s)" using x by (simp add: queue_inv_def Let_def unat_of_nat)
    have "okE (\<lambda>(stop, t). after k s0 t) (bindE (splice_once q orig_in L s) (\<lambda>(r, s).
          case r of None \<Rightarrow> fuzz_splice n q det perf orig_in s
          | Some in_buf \<Rightarrow> bindE (havoc_stage (SPLICE_CYCLES - n) det perf in_buf (length in_buf) (in_buf, s)) (\<lambda>(stop, b, s).
                if stop then Inr (True, s) else fuzz_splice n q det perf orig_in s)))"
    proof (rule okE_bind[OF splice_once_ok[OF x(1) l2 x(2) set(3) len[OF a, folded L_def]]])
      fix y :: "u8 list option \<times> 'a x_state_scheme" assume y: "case y of (r, t) \<Rightarrow> still s t \<and> (\<forall>b. r = Some b \<longrightarrow> spliced q orig_in L s b)"
      obtain r t where ys: "y = (r, t)" by (cases y)
      have t: "after (k + Suc n * HAVOC_FUEL) s0 t" using after_still[OF a] y by (simp add: ys)
      show "okE (\<lambda>(stop, t). after k s0 t) (case y of (r, s) \<Rightarrow> case r of None \<Rightarrow> fuzz_splice n q det perf orig_in s
          | Some in_buf \<Rightarrow> bindE (havoc_stage (SPLICE_CYCLES - n) det perf in_buf (length in_buf) (in_buf, s)) (\<lambda>(stop, b, s).
                if stop then Inr (True, s) else fuzz_splice n q det perf orig_in s))"
      proof (cases r)
        case None
        then show ?thesis unfolding ys prod.case None option.case by (intro Suc.IH after_mono[OF t]) simp
      next
        case (Some b)
        have "spliced q orig_in L s b" using y by (simp add: ys Some)
        then obtain m where "length b = unat (m :: u32)" "2 \<le> m" by (auto simp: spliced_def joined_def)
        then have b: "0 < length b" "length b < 2 ^ 32" using unsigned_less[of m] by (auto simp: word_le_nat_alt)
        have xt: "x_inv ((k + n * HAVOC_FUEL) + HAVOC_FUEL) t" using after_x_inv[OF t] by (simp add: algebra_simps)
        have st: "queue_cycle t \<noteq> 0" "havoc_div t \<noteq> 0" using after_settings[OF t] c by (auto simp: settings_def)
        show ?thesis unfolding ys prod.case Some option.case
        proof (rule okE_bind[OF havoc_stage_ok[OF xt st perf b(1) order_refl b(2)]])
          fix z :: "bool \<times> u8 list \<times> 'a x_state_scheme"
          assume z: "case z of (stop, b', u) \<Rightarrow> after (k + n * HAVOC_FUEL) t u \<and> (\<not> stop \<longrightarrow> restored b (length b) b' \<and> stage_max u \<le> stage_cur u \<and> stage_max u \<le> int HAVOC_FUEL)"
          obtain stop b' u where zs: "z = (stop, b', u)" by (cases z)
          have u: "after (k + n * HAVOC_FUEL) s0 u" using after_trans[OF t] z by (auto simp: zs)
          show "okE (\<lambda>(stop, t). after k s0 t) (case z of (stop, b, s) \<Rightarrow> if stop then Inr (True, s) else fuzz_splice n q det perf orig_in s)"
            using Suc.IH[OF u] after_mono[OF u, of k] by (simp add: zs)
        qed (simp add: restored_def)
      qed
    qed
    then show ?thesis using True by (simp add: L_def)
  next
    case False
    then have "fuzz_splice (Suc n) q det perf orig_in s = Inr (False, s)" by auto
    then show ?thesis using ak by simp
  qed
qed

section \<open>The stages of an entry\<close>

lemma after_q_len: "after k s t \<Longrightarrow> q < length (qs s) \<Longrightarrow> q_len (qs t ! q) = q_len (qs s ! q)"
  unfolding after_def prefix_def by (metis (no_types, lifting) length_append length_map nth_append nth_map trans_less_add1)

definition stage_budget :: "nat \<Rightarrow> nat \<Rightarrow> nat" where
  "stage_budget len cnt = 528 * len + cnt * (2 * len + 1) + 16 * HAVOC_FUEL"

lemma stage_budget_mono: "len \<le> n \<Longrightarrow> stage_budget len cnt \<le> stage_budget n cnt"
  by (simp add: stage_budget_def add_mono)

lemma fuzz_stages_ok:
  fixes s :: "'a x_state_scheme"
  assumes x: "x_inv (k + stage_budget n (length (extras s))) s" and q: "q < length (qs s)"
    and r: "ready q n in_buf s" "n < 2 ^ 29" and t: "total_cal_cycles s \<noteq> 0" "total_bitmap_entries s \<noteq> 0"
    and c: "queue_cycle s \<noteq> 0" "havoc_div s \<noteq> 0" "fair (random_src s)"
  shows "okE (\<lambda>(ret, u). after k s u) (fuzz_stages q in_buf s)"
proof -
  let ?P = "\<lambda>(ret :: nat, u). after k s u"
  define len where "len = unat (q_len (qs s ! q))"
  define B where "B = 16 * HAVOC_FUEL"
  define X where "X = length (extras s)"
  have l: "length in_buf = n" "0 < len" "len \<le> n" using r(1) by (auto simp: ready_def len_def unat_gt_0 word_neq_0_conv)
  have ll: "len < 2 ^ 29" "len < 2 ^ 32" using l(3) r(2) by simp_all
  define out where "out = take len in_buf @ drop len (replicate n 0)"
  have out: "length out = n" "take len out = take len in_buf" "restored in_buf len out" using l by (simp_all add: out_def restored_def)
  obtain p h where p: "calculate_score q s = Inr (p, upd_q q (\<lambda>e. e\<lparr>handicap := h\<rparr>) s)" "2 \<le> p" "p \<le> 1600" using calculate_score_ok[OF t] by blast
  define s1 where "s1 = upd_q q (\<lambda>e. e\<lparr>handicap := h\<rparr>) s"
  have a1: "after (k + stage_budget n X) s s1"
    unfolding s1_def X_def by (rule after_frame[OF frame_upd_q x]) (simp_all add: entry_part_def)
  have e1: "extras s1 = extras s" using after_settings[OF a1] by (simp add: settings_def)
  have q1: "q < length (qs s1)" using q by (simp add: s1_def)
  define D where "D = (if doing_det q s1
             then bindE (deterministic_stages q in_buf (take len out, s1)) (\<lambda>(leave, h, b, s). Inr (leave, b @ drop len out, s))
             else Inr (False, out, s1))"
  have D: "okE (\<lambda>(leave, b, u). after (k + B) s u \<and> (\<not> leave \<longrightarrow> restored in_buf len b)) D"
  proof (cases "doing_det q s1")
    case True
    have b: "length (take len out) = len" using out l by simp
    have xs: "x_inv ((k + B) + (25 * length (take len out) + byte_budget (length (take len out)) (length (extras s1)))) s1"
      unfolding b e1 X_def[symmetric] by (rule x_inv_mono[OF after_x_inv[OF a1]])
        (use stage_budget_mono[OF l(3), of X] in \<open>simp add: stage_budget_def byte_budget_def B_def\<close>)
    have "okE (\<lambda>(leave, b, u). after (k + B) s u \<and> (\<not> leave \<longrightarrow> restored in_buf len b))
       (bindE (deterministic_stages q in_buf (take len out, s1)) (\<lambda>(leave, h, b, s). Inr (leave, b @ drop len out, s)))"
      by (rule okE_bind[OF deterministic_stages_ok[OF _ _ _ q1 xs]])
        (use b l ll out after_trans[OF a1] in \<open>auto simp: restored_def\<close>)
    then show ?thesis by (simp add: D_def True)
  next
    case False
    have "after (k + B) s s1" by (rule after_mono[OF a1]) (simp add: B_def stage_budget_def)
    then show ?thesis using out(3) by (simp add: D_def False)
  qed
  have hav: "okE ?P (bindE (havoc_stage 0 det p in_buf len (b, u)) (\<lambda>(stop, out_buf, s). if stop then Inr (1, s)
      else bindE (fuzz_splice SPLICE_CYCLES q det p in_buf s) (\<lambda>(stop, s). Inr (if stop then 1 else 0, s))))"
    if u: "after (k + B) s u" "restored in_buf len b" for b u det
  proof -
    have xu: "x_inv ((k + 15 * HAVOC_FUEL) + HAVOC_FUEL) u" by (rule x_inv_mono[OF after_x_inv[OF u(1)]]) (simp add: B_def)
    have cu: "queue_cycle u \<noteq> 0" "havoc_div u \<noteq> 0" using after_settings[OF u(1)] c by (auto simp: settings_def)
    show ?thesis
    proof (rule okE_bind[OF havoc_stage_ok[OF xu cu p(2,3) l(2) _ ll(2) u(2)]])
      fix z :: "bool \<times> u8 list \<times> 'a x_state_scheme"
      assume z: "case z of (stop, b', v) \<Rightarrow> after (k + 15 * HAVOC_FUEL) u v \<and> (\<not> stop \<longrightarrow> restored in_buf len b' \<and> stage_max v \<le> stage_cur v \<and> stage_max v \<le> int HAVOC_FUEL)"
      obtain stop b' v where zs: "z = (stop, b', v)" by (cases z)
      have v: "after (k + SPLICE_CYCLES * HAVOC_FUEL) s v" using z after_trans[OF u(1)] by (auto simp: zs SPLICE_CYCLES_def)
      have "okE ?P (bindE (fuzz_splice SPLICE_CYCLES q det p in_buf v) (\<lambda>(stop, s). Inr (if stop then 1 else 0, s)))"
        by (rule okE_bind[OF fuzz_splice_ok[OF c p(2,3) _ v]]) (use after_q_len[OF _ q] l in \<open>auto simp: len_def\<close>)
      then show "okE ?P (case z of (stop, out_buf, s) \<Rightarrow> if stop then Inr (1, s)
          else bindE (fuzz_splice SPLICE_CYCLES q det p in_buf s) (\<lambda>(stop, s). Inr (if stop then 1 else 0, s)))"
        using after_mono[OF v, of k] by (simp add: zs)
    qed (use l in simp)
  qed
  have R: "okE ?P (bindE D (\<lambda>(leave, out_buf, s). if leave then Inr (1, s)
      else bindE (havoc_stage 0 (doing_det q s1) p in_buf len (out_buf, s)) (\<lambda>(stop, out_buf, s). if stop then Inr (1, s)
      else bindE (fuzz_splice SPLICE_CYCLES q (doing_det q s1) p in_buf s) (\<lambda>(stop, s). Inr (if stop then 1 else 0, s)))))"
  proof (rule okE_bind[OF D])
    fix y :: "bool \<times> u8 list \<times> 'a x_state_scheme" assume y: "case y of (leave, b, u) \<Rightarrow> after (k + B) s u \<and> (\<not> leave \<longrightarrow> restored in_buf len b)"
    obtain leave b u where ys: "y = (leave, b, u)" by (cases y)
    show "okE ?P (case y of (leave, out_buf, s) \<Rightarrow> if leave then Inr (1, s)
      else bindE (havoc_stage 0 (doing_det q s1) p in_buf len (out_buf, s)) (\<lambda>(stop, out_buf, s). if stop then Inr (1, s)
      else bindE (fuzz_splice SPLICE_CYCLES q (doing_det q s1) p in_buf s) (\<lambda>(stop, s). Inr (if stop then 1 else 0, s))))"
      using y hav[of u b "doing_det q s1"] after_mono[of "k + B" s u k] by (simp add: ys)
  qed
  have "bindE (read_from 0 len in_buf) (\<lambda>x. memcpy_in 0 x (replicate (length in_buf) 0)) = Inr out"
    using l by (simp add: read_from_def memcpy_in_def out_def)
  then have "fuzz_stages q in_buf s = bindE D (\<lambda>(leave, out_buf, s). if leave then Inr (1, s)
      else bindE (havoc_stage 0 (doing_det q s1) p in_buf len (out_buf, s)) (\<lambda>(stop, out_buf, s). if stop then Inr (1, s)
      else bindE (fuzz_splice SPLICE_CYCLES q (doing_det q s1) p in_buf s) (\<lambda>(stop, s). Inr (if stop then 1 else 0, s))))"
    unfolding fuzz_stages_def Let_def len_def[symmetric] by (simp only: bindE_simps p(1) prod.case s1_def[symmetric] D_def)
  then show ?thesis using R by simp
qed

section \<open>One entry\<close>

lemma abandon_entry_frame: "frame s (abandon_entry q s)"
proof -
  define s1 where "s1 = s\<lparr>splicing_with := -1\<rparr>"
  define s2 where "s2 = upd_q q (\<lambda>e. e\<lparr>was_fuzzed := True\<rparr>) s1"
  have f1: "frame s s1" by (simp add: s1_def frame_def part_defs)
  have f2: "frame s s2" unfolding s2_def by (rule frame_trans[OF f1 frame_upd_q]) (simp_all add: entry_part_def)
  have f3: "frame s (s2\<lparr>pending_not_fuzzed := n\<rparr>)" "frame s (s2\<lparr>pending_not_fuzzed := n, pending_favored := m\<rparr>)" for n m
    by (rule frame_trans[OF f2], simp add: frame_def part_defs)+
  show ?thesis unfolding abandon_entry_def Let_def s1_def[symmetric] s2_def[symmetric] using f1 f3 by auto
qed

lemma abandon_entry_done:
  assumes "q < length (qs s)"
  shows "splicing_with (abandon_entry q s) = -1"
    "stop_soon (abandon_entry q s) = 0 \<longrightarrow> cal_failed (qs (abandon_entry q s) ! q) = 0 \<longrightarrow> was_fuzzed (qs (abandon_entry q s) ! q)"
  using assms by (auto simp: abandon_entry_def Let_def upd_q_def)

lemma fuzz_skip_rng: "okE (\<lambda>(skip, t). rng_only s t) (fuzz_skip q s)"
proof -
  have u: "okE (\<lambda>(skip, t). rng_only s t) (bindE (UR 100 s) (\<lambda>(r, s). Inr (r < n, s)))" for n
    by (rule UR_bind) simp_all
  show ?thesis unfolding fuzz_skip_def Let_def using u by simp
qed

lemma fuzz_one_ok:
  fixes s :: "'a x_state_scheme" and q :: nat
  defines "L \<equiv> unat (q_len (qs s ! q))"
  assumes q: "q < length (qs s)" and x: "x_inv (k + stage_budget L (length (extras s))) s" and len: "L < 2 ^ 29"
    and dsk: "\<And>d. fs s (fname (qs s ! q)) = Some (File d) \<Longrightarrow> L \<le> length d"
    and c: "queue_cycle s \<noteq> 0" "havoc_div s \<noteq> 0" "fair (random_src s)"
    and tally: "\<And>s1 d b t. fuzz_skip q s = Inr (False, s1) \<Longrightarrow> fuzz_prepare q d s1 = Inr (Some b, t) \<Longrightarrow> total_cal_cycles t \<noteq> 0 \<and> total_bitmap_entries t \<noteq> 0"
  shows "okE (\<lambda>(ret, t). later k s t \<and> (ret = 0 \<longrightarrow> splicing_with t = -1 \<and> (stop_soon t = 0 \<longrightarrow> cal_failed (qs t ! q) = 0 \<longrightarrow> was_fuzzed (qs t ! q))))
    (fuzz_one q s)"
proof -
  let ?P = "\<lambda>(ret :: nat, t). later k s t \<and> (ret = 0 \<longrightarrow> splicing_with t = -1 \<and> (stop_soon t = 0 \<longrightarrow> cal_failed (qs t ! q) = 0 \<longrightarrow> was_fuzzed (qs t ! q)))"
  define B where "B = k + stage_budget L (length (extras s))"
  have fin: "?P (ret, abandon_entry q t)" if "later k s t" for ret t
    using later_frame[OF that abandon_entry_frame] abandon_entry_done[of q t] later_length[OF that] q by auto
  obtain skip s1 where s1: "fuzz_skip q s = Inr (skip, s1)" "rng_only s s1"
    using fuzz_skip_rng[of s q] UR_ok[of 100 s] by (auto simp: fuzz_skip_def Let_def split: if_splits)
  have l1: "later B s s1" using later_still[OF later_refl[OF x] rng_only_still[OF s1(2)]] by (simp add: B_def)
  have x1: "x_inv B s1" using l1 by (simp add: later_def)
  have q1: "q < length (qs s1)" "q_len (qs s1 ! q) = q_len (qs s ! q)" using rng_only_queue[OF s1(2)] q by simp_all
  have go: "okE ?P (bindE (map_case q s1) (\<lambda>in_buf. bindE (fuzz_prepare q in_buf s1) (\<lambda>(r, s). case r of
       None \<Rightarrow> Inr (1, abandon_entry q s)
     | Some in_buf \<Rightarrow> bindE (fuzz_stages q in_buf s) (\<lambda>(ret_val, s). Inr (ret_val, abandon_entry q s)))))" if "\<not> skip"
  proof (rule okE_bind)
    show "okE (\<lambda>d. length d = L \<and> 0 < L) (map_case q s1)"
      using dsk rng_only_queue[OF s1(2)] by (auto simp: map_case_def Let_def L_def split: option.splits node.splits)
  next
    fix d :: "u8 list" assume d: "length d = L \<and> 0 < L"
    have d1: "0 < q_len (qs s1 ! q)" "unat (q_len (qs s1 ! q)) = length d" "q_len (qs s1 ! q) \<le> 2 ^ 31"
      using d len q1(2) by (auto simp: L_def word_le_nat_alt word_less_nat_alt)
    have "okE (\<lambda>y. case y of (r, t) \<Rightarrow> fuzz_prepare q d s1 = Inr (r, t) \<and> later B s1 t \<and> (case r of None \<Rightarrow> True | Some b \<Rightarrow> ready q L b t)) (fuzz_prepare q d s1)"
      using fuzz_prepare_ok[OF x1 q1(1) d1] d by (cases "fuzz_prepare q d s1") auto
    then show "okE ?P (bindE (fuzz_prepare q d s1) (\<lambda>(r, s). case r of None \<Rightarrow> Inr (1, abandon_entry q s)
        | Some in_buf \<Rightarrow> bindE (fuzz_stages q in_buf s) (\<lambda>(ret_val, s). Inr (ret_val, abandon_entry q s))))"
    proof (rule okE_bind)
      fix y :: "u8 list option \<times> 'a x_state_scheme"
      assume "case y of (r, t) \<Rightarrow> fuzz_prepare q d s1 = Inr (r, t) \<and> later B s1 t \<and> (case r of None \<Rightarrow> True | Some b \<Rightarrow> ready q L b t)"
      then obtain r t where y: "y = (r, t)" "fuzz_prepare q d s1 = Inr (r, t)" "later B s1 t" "case r of None \<Rightarrow> True | Some b \<Rightarrow> ready q L b t" by (cases y) auto
      have lt: "later B s t" by (rule later_trans[OF l1 y(3)])
      then have lk: "later k s t" by (rule later_mono) (simp add: B_def)
      show "okE ?P (case y of (r, s) \<Rightarrow> case r of None \<Rightarrow> Inr (1, abandon_entry q s)
        | Some in_buf \<Rightarrow> bindE (fuzz_stages q in_buf s) (\<lambda>(ret_val, s). Inr (ret_val, abandon_entry q s)))"
      proof (cases r)
        case None
        then show ?thesis using fin[OF lk, of 1] by (simp add: y(1))
      next
        case (Some b)
        have st: "settings t = settings s" using lt by (simp add: later_def)
        have xt: "x_inv (k + stage_budget L (length (extras t))) t" using lt st by (simp add: later_def settings_def B_def)
        have ty: "total_cal_cycles t \<noteq> 0" "total_bitmap_entries t \<noteq> 0" using tally[of s1 d b t] s1(1) that y(2) Some by auto
        have ct: "queue_cycle t \<noteq> 0" "havoc_div t \<noteq> 0" "fair (random_src t)" using st c by (auto simp: settings_def)
        have qt: "q < length (qs t)" using later_length[OF lt] q by simp
        have rt: "ready q L b t" using y(4) Some by simp
        have "okE ?P (bindE (fuzz_stages q b t) (\<lambda>(ret_val, s). Inr (ret_val, abandon_entry q s)))"
        proof (rule okE_bind[OF fuzz_stages_ok[OF xt qt rt len ty ct]])
          fix z :: "nat \<times> 'a x_state_scheme" assume "case z of (ret, u) \<Rightarrow> after k t u"
          then obtain ret u where z: "z = (ret, u)" "after k t u" by (cases z) auto
          have lu: "later k s u" by (rule later_trans[OF lt after_later[OF z(2)]])
          show "okE ?P (case z of (ret_val, s) \<Rightarrow> Inr (ret_val, abandon_entry q s))" using fin[OF lu, of ret] by (simp add: z(1))
        qed
        then show ?thesis by (simp add: y(1) Some)
      qed
    qed
  qed
  have "later k s s1" by (rule later_mono[OF l1]) (simp add: B_def)
  then show ?thesis using go unfolding fuzz_one_def s1(1) bindE_simps prod.case by (cases skip) simp_all
qed

section \<open>Properties\<close>

text \<open>A queue of two entries with their files, the first of them trimmed, after its calibration.\<close>

definition example_one :: x_state where
  "example_one = upd_q 0 (\<lambda>e. e\<lparr>trim_done := True\<rparr>)
     (example_x\<lparr>fs := [''q/a'' \<mapsto> File [1, 2, 3, 4], ''q/b'' \<mapsto> File [5, 6, 7, 8, 9]],
        total_cal_cycles := 8, total_bitmap_entries := 2, use_splicing := True\<rparr>)"

lemma example_one_frame: "frame example_x example_one"
proof -
  have "frame example_x (example_x\<lparr>fs := f, total_cal_cycles := a, total_bitmap_entries := b, use_splicing := c\<rparr>)" for f a b c
    by (simp add: frame_def part_defs)
  then show ?thesis unfolding example_one_def by (rule frame_trans[OF _ frame_upd_q]) (simp_all add: entry_part_def)
qed

lemma example_one_fields:
  "qs example_one = (qs example_x)[0 := (qs example_x ! 0)\<lparr>trim_done := True\<rparr>]" "fs example_one = [''q/a'' \<mapsto> File [1, 2, 3, 4], ''q/b'' \<mapsto> File [5, 6, 7, 8, 9]]"
  "total_cal_cycles example_one = 8" "total_bitmap_entries example_one = 2"
  "queue_cycle example_one = 1" "havoc_div example_one = 1" "random_src example_one = (\<lambda>i. i)" "extras example_one = extras example_x"
  by (simp_all add: example_one_def upd_q_def example_cycle)

lemma example_one_inv: "k < 2 ^ 32 - 2 \<Longrightarrow> x_inv k example_one"
  by (rule x_inv_frame[OF example_one_frame example_x_room])

lemma example_one_entry:
  "length (qs example_one) = 2" "fname (qs example_one ! 0) = ''q/a''" "q_len (qs example_one ! 0) = 4" "cal_failed (qs example_one ! 0) = 0" "trim_done (qs example_one ! 0)"
proof -
  have "map unscored (qs example_q) ! 0 = map unscored (qs example_q0) ! 0" using example_q_run by simp
  then have "cal_failed (unscored (qs example_q ! 0)) = cal_failed (unscored (qs example_q0 ! 0))"
    using example_q_fields(5) by (simp add: example_q0_fields)
  then have "cal_failed (qs example_x ! 0) = 0" by (simp add: unscored_def example_q0_fields example_x_queue new_entry_def)
  then show "length (qs example_one) = 2" "fname (qs example_one ! 0) = ''q/a''" "q_len (qs example_one ! 0) = 4" "cal_failed (qs example_one ! 0) = 0" "trim_done (qs example_one ! 0)"
    using example_entry by (simp_all add: example_one_fields)
qed

text \<open>
  C28. Once a calibration has been counted, so that the averages can be formed without a division by zero,
  \<open>calculate_score\<close> gives a score between 2 and 1600, \<open>HAVOC_MAX_MULT * 100\<close>, whatever the entry's speed, coverage, depth and
  handicap, and changes nothing but the handicap, which drops by 4, by 1 or not at all. If the entry's time is below
  \<open>2 ^ 62\<close> microseconds and its coverage below \<open>2 ^ 30\<close> bytes, no product wraps: the score is the one that the documented
  factors give in unbounded arithmetic.
\<close>

theorem calculate_score_bounds:
  assumes "total_cal_cycles s \<noteq> 0" "total_bitmap_entries s \<noteq> 0"
  shows "\<exists>perf_score. calculate_score q s = Inr (perf_score, upd_q q (\<lambda>e. e\<lparr>handicap := next_handicap (handicap (qs s ! q))\<rparr>) s) \<and>
     2 \<le> perf_score \<and> perf_score \<le> HAVOC_MAX_MULT * 100 \<and>
     (unat (exec_us (qs s ! q)) < 2 ^ 62 \<longrightarrow> unat (bitmap_size (qs s ! q)) < 2 ^ 30 \<longrightarrow>
       unat perf_score = exact_score (unat (exec_us (qs s ! q))) (unat (ucast (total_cal_us s div total_cal_cycles s) :: u32))
         (unat (bitmap_size (qs s ! q))) (unat (ucast (total_bitmap_size s div total_bitmap_entries s) :: u32))
         (unat (handicap (qs s ! q))) (unat (depth (qs s ! q))))"
  using calculate_score_ok[OF assms] by (simp add: HAVOC_MAX_MULT_def)

theorem calculate_score_bounds_witness:
  "\<exists>perf_score h. calculate_score 0 example_one = Inr (perf_score, upd_q 0 (\<lambda>e. e\<lparr>handicap := h\<rparr>) example_one) \<and>
     2 \<le> perf_score \<and> perf_score \<le> 1600"
  using calculate_score_bounds[of example_one 0] by (auto simp: example_one_fields HAVOC_MAX_MULT_def)

text \<open>
  C20. One attempt at splicing either gives up or joins the first \<open>k\<close> bytes of the input with the rest of
  the test case of another entry, never the entry itself and never one shorter than two bytes, cut at
  a place from the first up to, but not including, the last differing byte; the result has the other
  test case's length. It finds its partner and reads no byte outside the two buffers. When the cut is
  at the first differing byte the result is the other test case unchanged.
\<close>

theorem splice_once_spec:
  assumes "queue_inv s" "2 \<le> length (qs s)" "length (qs s) < 2 ^ 32" "fair (random_src s)" "len \<le> length in_buf"
  shows "okE (\<lambda>(r, t). \<forall>b. r = Some b \<longrightarrow> spliced q in_buf len s b) (splice_once q in_buf len s)"
  by (rule okE_mono[OF splice_once_ok[OF assms]]) auto

theorem splice_once_spec_witness:
  "okE (\<lambda>(r, t). \<forall>b. r = Some b \<longrightarrow> spliced 0 [1, 2, 3, 4] 4 example_one b) (splice_once 0 [1, 2, 3, 4] 4 example_one)"
  by (rule splice_once_spec) (use example_one_inv[of 0] in \<open>simp_all add: example_one_entry example_one_fields(2-8) fair_counter x_inv_def\<close>)

text \<open>
  C2. \<open>fuzz_one\<close> as a whole, from the decision to skip the entry over calibration, trimming, all
  deterministic stages, havoc and up to 15 splices: it returns, without a division by zero, a null
  pointer, an exhausted loop bound or an access outside a buffer, or it stops the process with one of
  the program's own error messages. The invariant of the globals holds again and no entry is lost or
  renamed. After a full pass, \<open>ret_val = 0\<close>, the entry counts as fuzzed, unless its calibration failed or
  the user asked to stop. The queue must have room for what may be found, the entry's file must not be
  shorter than recorded, and calibration must have left its tallies positive.
\<close>

theorem fuzz_one_safe:
  assumes "q < length (qs s)" "unat (q_len (qs s ! q)) < 2 ^ 29"
    and "x_inv (k + stage_budget (unat (q_len (qs s ! q))) (length (extras s))) s"
    and "\<And>d. fs s (fname (qs s ! q)) = Some (File d) \<Longrightarrow> unat (q_len (qs s ! q)) \<le> length d"
    and "queue_cycle s \<noteq> 0" "havoc_div s \<noteq> 0" "fair (random_src s)"
    and "\<And>s1 d b t. fuzz_skip q s = Inr (False, s1) \<Longrightarrow> fuzz_prepare q d s1 = Inr (Some b, t) \<Longrightarrow> total_cal_cycles t \<noteq> 0 \<and> total_bitmap_entries t \<noteq> 0"
  shows "okE (\<lambda>(ret_val, t). x_inv k t \<and> settings t = settings s \<and> prefix (map fname (qs s)) (map fname (qs t)) \<and>
       (ret_val = 0 \<longrightarrow> splicing_with t = -1 \<and> (stop_soon t = 0 \<longrightarrow> cal_failed (qs t ! q) = 0 \<longrightarrow> was_fuzzed (qs t ! q))))
     (fuzz_one q s)"
  by (rule okE_mono[OF fuzz_one_ok[OF assms(1,3,2,4-8)]]) (auto simp: later_def)

theorem fuzz_one_safe_witness:
  "okE (\<lambda>(ret_val, t). x_inv 9 t \<and> prefix [''q/a'', ''q/b''] (map fname (qs t)) \<and>
       (ret_val = 0 \<longrightarrow> splicing_with t = -1 \<and> (stop_soon t = 0 \<longrightarrow> cal_failed (qs t ! 0) = 0 \<longrightarrow> was_fuzzed (qs t ! 0))))
     (fuzz_one 0 example_one)"
proof -
  have tally: "total_cal_cycles t \<noteq> 0 \<and> total_bitmap_entries t \<noteq> 0"
    if sk: "fuzz_skip 0 example_one = Inr (False, s1)" and pr: "fuzz_prepare 0 d s1 = Inr (Some b, t)" for s1 d b t
  proof -
    have r: "rng_only example_one s1" using fuzz_skip_rng[of example_one 0] by (simp add: sk)
    have "total_cal_cycles s1 = 8" "total_bitmap_entries s1 = 2"
      using arg_cong[OF r[unfolded rng_only_def], of total_cal_cycles] arg_cong[OF r[unfolded rng_only_def], of total_bitmap_entries]
      by (simp_all add: rng_erase_def example_one_fields)
    moreover have "t = s1\<lparr>subseq_tmouts := 0, cur_depth := ucast (depth (qs s1 ! 0))\<rparr>"
      using pr rng_only_queue(1)[OF r] example_one_entry by (simp add: fuzz_prepare_def fuzz_calibrate_def fuzz_trim_def)
    ultimately show ?thesis by simp
  qed
  have names: "map fname (qs example_one) = [''q/a'', ''q/b'']"
    using frame_names(1)[of example_one example_x] example_one_frame example_entry(6) by (simp add: frame_def)
  have "x_inv (9 + stage_budget (unat (q_len (qs example_one ! 0))) (length (extras example_one))) example_one"
    by (rule example_one_inv) (simp add: stage_budget_def example_one_entry example_one_fields(2-8) example_extras HAVOC_FUEL_def)
  then show ?thesis
    by (intro okE_mono[OF fuzz_one_safe[of 0 example_one 9, OF _ _ _ _ _ _ _ tally]])
      (auto simp: example_one_entry example_one_fields(2,5-7) fair_counter names)
qed

end
