(* ===== verification/Afl_Seeds.thy ===== *)
theory Afl_Seeds
  imports Afl_Fuzz Afl_Disk
begin

text \<open>
  The initial test cases of \<open>afl-fuzz.c\<close>: \<open>read_testcases\<close> queues the files of the input directory,
  \<open>perform_dry_run\<close> calibrates each of them, \<open>pivot_inputs\<close> gives them their names in the output
  directory, keeping the names of a run that is resumed. What \<open>scandir\<close> lists and which paths are
  directories are arguments; files are those of the state, and all of them are readable.
\<close>

section \<open>State\<close>

record s_state = x_state +
  shuffle_queue :: bool
  timeout_given :: u8
  skip_crashes :: bool         \<comment> \<open>\<open>AFL_SKIP_CRASHES\<close> is set\<close>
  useless_at_start :: u32
  queued_at_start :: u32

section \<open>Strings\<close>

fun strstr :: "string \<Rightarrow> string \<Rightarrow> string option" where
  "strstr needle [] = (if needle = [] then Some [] else None)"
| "strstr needle (c # cs) = (if take (length needle) (c # cs) = needle then Some (c # cs) else strstr needle cs)"

definition strchr :: "char \<Rightarrow> string \<Rightarrow> string option" where
  "strchr c s = (if c \<in> set s then Some (dropWhile (\<lambda>x. x \<noteq> c) s) else None)"

definition is_digit :: "char \<Rightarrow> bool" where
  "is_digit c \<longleftrightarrow> 48 \<le> (of_char c :: nat) \<and> (of_char c :: nat) \<le> 57"

definition is_space :: "char \<Rightarrow> bool" where
  "is_space c \<longleftrightarrow> (of_char c :: nat) = 32 \<or> 9 \<le> (of_char c :: nat) \<and> (of_char c :: nat) \<le> 13"

text \<open>\<open>sscanf(s, "%06u", &v)\<close>: white space, then at most six characters of an optional sign and digits.\<close>

definition scan06 :: "string \<Rightarrow> u32 option" where
  "scan06 s =
     (let w = take 6 (dropWhile is_space s);
          (neg, ds) = (case w of
              c # cs \<Rightarrow> if c = CHR ''-'' then (True, cs) else if c = CHR ''+'' then (False, cs) else (False, w)
            | [] \<Rightarrow> (False, []));
          ds = takeWhile is_digit ds
      in if ds = [] then None else Some (if neg then - of_nat (undec ds) else of_nat (undec ds)))"

section \<open>Reading the test cases\<close>

definition path_exists :: "(string \<Rightarrow> bool) \<Rightarrow> string \<Rightarrow> 'a s_state_scheme \<Rightarrow> bool" where
  "path_exists is_dir p s \<longleftrightarrow> fs s p \<noteq> None \<or> is_dir p"

definition read_testcase :: "(string \<Rightarrow> bool) \<Rightarrow> string \<Rightarrow> 'a s_state_scheme \<Rightarrow> err + 'a s_state_scheme" where
  "read_testcase is_dir name s =
     (let fn = in_dir s @ ''/'' @ name;
          dfn = in_dir s @ ''/.state/deterministic_done/'' @ name in
      if \<not> path_exists is_dir fn s then Inl (PFATAL ''Unable to access'')
      else
        case fs s fn of
          Some (File d) \<Rightarrow>
            if d = [] \<or> strstr ''/README.txt'' fn \<noteq> None then Inr s
            else if length d > MAX_FILE then Inl (FATAL ''Test case is too big'')
            else Inr (add_to_queue fn (of_nat (length d)) (path_exists is_dir dfn s) s)
        | _ \<Rightarrow> Inr s)"

fun read_testcase_loop :: "(string \<Rightarrow> bool) \<Rightarrow> string list \<Rightarrow> 'a s_state_scheme \<Rightarrow> err + 'a s_state_scheme" where
  "read_testcase_loop is_dir [] s = Inr s"
| "read_testcase_loop is_dir (n # ns) s = bindE (read_testcase is_dir n s) (read_testcase_loop is_dir ns)"

definition read_testcases :: "(string \<Rightarrow> string list option) \<Rightarrow> (string \<Rightarrow> bool) \<Rightarrow> 'a s_state_scheme \<Rightarrow> err + 'a s_state_scheme" where
  "read_testcases scandir is_dir s =
     (let fn = in_dir s @ ''/queue'';
          s = (if path_exists is_dir fn s then s\<lparr>in_dir := fn\<rparr> else s) in
      case scandir (in_dir s) of
        None \<Rightarrow> Inl (PFATAL ''Unable to open'')
      | Some nl \<Rightarrow>
          bindE (if shuffle_queue s \<and> length nl > 1 then shuffle_ptrs nl (length nl) s else Inr (nl, s)) (\<lambda>(nl, s).
          bindE (read_testcase_loop is_dir nl s) (\<lambda>s.
            if queued_paths s = 0 then Inl (FATAL ''No usable test cases'')
            else Inr (s\<lparr>last_path_time := 0, queued_at_start := queued_paths s\<rparr>))))"

section \<open>Dry run\<close>

text \<open>
  The verdict on one calibrated test case: whether it counts as a failure. The warnings and
  \<open>check_map_coverage\<close>, which only prints one, are left out.
\<close>

definition dry_run_verdict :: "nat \<Rightarrow> fault \<Rightarrow> 'a s_state_scheme \<Rightarrow> err + bool \<times> 'a s_state_scheme" where
  "dry_run_verdict q res s =
     (case res of
        FAULT_NONE \<Rightarrow> if crash_mode s \<noteq> FAULT_NONE then Inl (FATAL ''Test case does *NOT* crash'') else Inr (False, s)
      | FAULT_TMOUT \<Rightarrow>
          if timeout_given s \<noteq> 0 \<and> timeout_given s > 1 then Inr (True, upd_q q (\<lambda>e. e\<lparr>cal_failed := CAL_CHANCES\<rparr>) s)
          else Inl (FATAL ''Test case results in a timeout'')
      | FAULT_CRASH \<Rightarrow>
          if crash_mode s \<noteq> FAULT_NONE then Inr (False, s)
          else if skip_crashes s then Inr (True, upd_q q (\<lambda>e. e\<lparr>cal_failed := CAL_CHANCES\<rparr>) s)
          else Inl (FATAL ''Test case results in a crash'')
      | FAULT_ERROR \<Rightarrow> Inl (FATAL ''Unable to execute target application'')
      | FAULT_NOINST \<Rightarrow> Inl (FATAL ''No instrumentation detected'')
      | FAULT_NOBITS \<Rightarrow> Inr (False, s\<lparr>useless_at_start := useless_at_start s + 1\<rparr>))"

definition dry_run_case :: "nat \<Rightarrow> 'a s_state_scheme \<Rightarrow> err + fault \<times> 'a s_state_scheme" where
  "dry_run_case q s =
     (case base_name (fname (qs s ! q)) of
        None \<Rightarrow> Inl NullDeref
      | Some _ \<Rightarrow>
          case fs s (fname (qs s ! q)) of
            Some (File d) \<Rightarrow>
              if length d < unat (q_len (qs s ! q)) then Inl (FATAL ''Short read'')
              else calibrate_case q (take (unat (q_len (qs s ! q))) d) 0 True s
          | _ \<Rightarrow> Inl (PFATAL ''Unable to open''))"

text \<open>\<open>while (q)\<close>; the result is \<open>None\<close> when the user interrupted it, otherwise the number of failures.\<close>

fun dry_run_loop :: "nat \<Rightarrow> nat option \<Rightarrow> u32 \<Rightarrow> 'a s_state_scheme \<Rightarrow> err + u32 option \<times> 'a s_state_scheme" where
  "dry_run_loop fuel None cal_failures s = Inr (Some cal_failures, s)"
| "dry_run_loop 0 (Some q) cal_failures s = Inl OutOfFuel"
| "dry_run_loop (Suc fuel) (Some q) cal_failures s =
     bindE (dry_run_case q s) (\<lambda>(res, s).
       if stop_soon s \<noteq> 0 then Inr (None, s)
       else
         bindE (dry_run_verdict q res s) (\<lambda>(failed, s).
           dry_run_loop fuel (q_next (qs s ! q)) (if failed then cal_failures + 1 else cal_failures) s))"

definition perform_dry_run :: "'a s_state_scheme \<Rightarrow> err + 'a s_state_scheme" where
  "perform_dry_run s =
     bindE (dry_run_loop (length (qs s)) (queue s) 0 s) (\<lambda>(r, s).
       case r of
         None \<Rightarrow> Inr s
       | Some cal_failures \<Rightarrow>
           if cal_failures \<noteq> 0 \<and> cal_failures = queued_paths s then Inl (FATAL ''All test cases time out, giving up!'')
           else Inr s)"

section \<open>Pivoting\<close>

text \<open>
  \<open>link\<close>, or copying in pieces of 64 kB when \<open>link\<close> fails although both paths are fine (\<open>can_link\<close>:
  hard links work here).
\<close>

function copy_loop :: "u8 list \<Rightarrow> u8 list \<Rightarrow> u8 list" where
  "copy_loop src dst = (if src = [] then dst else copy_loop (drop 65536 src) (dst @ take 65536 src))"
  by pat_completeness auto
termination by (relation "measure (\<lambda>(src, dst). length src)") auto

declare copy_loop.simps [simp del]

definition link_or_copy :: "bool \<Rightarrow> string \<Rightarrow> string \<Rightarrow> 'a s_state_scheme \<Rightarrow> err + 'a s_state_scheme" where
  "link_or_copy can_link old_path new_path s =
     (case fs s old_path of
        None \<Rightarrow> Inl (PFATAL ''Unable to open'')
      | Some f \<Rightarrow>
          if can_link \<and> fs s new_path = None then Inr (s\<lparr>fs := (fs s)(new_path \<mapsto> f)\<rparr>)
          else case f of
                 File d \<Rightarrow> create_excl new_path (copy_loop d []) s
               | Link _ \<Rightarrow> Inl (PFATAL ''Unable to open''))"

text \<open>The part of a path behind the last slash, or all of it.\<close>

definition rsl_of :: "string \<Rightarrow> string" where
  "rsl_of fn = (case base_name fn of None \<Rightarrow> fn | Some b \<Rightarrow> b)"

definition own_name :: "u32 \<Rightarrow> string \<Rightarrow> bool" where
  "own_name idx rsl \<longleftrightarrow> take 3 rsl = ''id:'' \<and> scan06 (drop 3 rsl) = Some idx"

definition pivot_name :: "string \<Rightarrow> u32 \<Rightarrow> string \<Rightarrow> string" where
  "pivot_name dir idx rsl =
     (if own_name idx rsl then dir @ ''/queue/'' @ rsl
      else
        let use_name = (case strstr '',orig:'' rsl of Some u \<Rightarrow> drop 6 u | None \<Rightarrow> rsl)
        in dir @ ''/queue/id:'' @ fmt06 (unat idx) @ '',orig:'' @ use_name)"

text \<open>\<open>while (src_id-- && s) s = s->next\<close>\<close>

fun walk :: "nat \<Rightarrow> queue_entry list \<Rightarrow> nat option \<Rightarrow> nat option" where
  "walk n es None = None"
| "walk 0 es (Some p) = Some p"
| "walk (Suc n) es (Some p) = walk n es (q_next (es ! p))"

definition pivot_depth :: "nat \<Rightarrow> string \<Rightarrow> 'a s_state_scheme \<Rightarrow> 'a s_state_scheme" where
  "pivot_depth q rsl s =
     (case strchr (CHR '':'') (drop 3 rsl) of
        None \<Rightarrow> s
      | Some src_str \<Rightarrow>
          case scan06 (drop 1 src_str) of
            None \<Rightarrow> s
          | Some src_id \<Rightarrow>
              let s = (case walk (unat src_id) (qs s) (queue s) of
                         None \<Rightarrow> s
                       | Some p \<Rightarrow> upd_q q (\<lambda>e. e\<lparr>depth := depth (qs s ! p) + 1\<rparr>) s)
              in if ucast (max_depth s) < depth (qs s ! q) then s\<lparr>max_depth := ucast (depth (qs s ! q))\<rparr> else s)"

definition pivot_one :: "bool \<Rightarrow> nat \<Rightarrow> u32 \<Rightarrow> 'a s_state_scheme \<Rightarrow> err + 'a s_state_scheme" where
  "pivot_one can_link q idx s =
     (let rsl = rsl_of (fname (qs s ! q));
          nfn = pivot_name (out_dir s) idx rsl;
          s = (if own_name idx rsl then pivot_depth q rsl (s\<lparr>resuming_fuzz := True\<rparr>) else s)
      in bindE (link_or_copy can_link (fname (qs s ! q)) nfn s) (\<lambda>s.
         let s = upd_q q (\<lambda>e. e\<lparr>fname := nfn\<rparr>) s in
         if passed_det (qs s ! q) then mark_as_det_done q s else Inr s))"

fun pivot_loop :: "nat \<Rightarrow> bool \<Rightarrow> nat option \<Rightarrow> u32 \<Rightarrow> 'a s_state_scheme \<Rightarrow> err + 'a s_state_scheme" where
  "pivot_loop fuel can_link None idx s = Inr s"
| "pivot_loop 0 can_link (Some q) idx s = Inl OutOfFuel"
| "pivot_loop (Suc fuel) can_link (Some q) idx s =
     bindE (pivot_one can_link q idx s) (\<lambda>s. pivot_loop fuel can_link (q_next (qs s ! q)) (idx + 1) s)"

text \<open>
  \<open>nuke_resume_dir\<close> deletes the directory an in-place resume has read its test cases from; \<open>tree\<close> is what is on the disk
  there. What it has deleted is gone from the files.
\<close>

definition nuke_files :: "(string \<times> dnode) list \<Rightarrow> 'a s_state_scheme \<Rightarrow> err + 'a s_state_scheme" where
  "nuke_files tree s =
     (case nuke_resume_dir (out_dir s) \<lparr>disk = tree, input_dir = in_dir s\<rparr> of
        (Inl e, t) \<Rightarrow> Inl e
      | (Inr _, t) \<Rightarrow> Inr (s\<lparr>fs := (\<lambda>p. if map_of tree p \<noteq> None \<and> node_at p t = None then None else fs s p)\<rparr>))"

definition pivot_inputs :: "bool \<Rightarrow> (string \<times> dnode) list \<Rightarrow> bool \<Rightarrow> 'a s_state_scheme \<Rightarrow> err + 'a s_state_scheme" where
  "pivot_inputs in_place tree can_link s =
     bindE (pivot_loop (length (qs s)) can_link (queue s) 0 s) (\<lambda>s. if in_place then nuke_files tree s else Inr s)"

section \<open>Names and their numbers\<close>

lemma dec_digits: "\<forall>c\<in>set (dec n). is_digit c"
proof (induction n rule: dec.induct)
  case (1 n)
  have "is_digit (digit_char d)" if "d < 10" for d using that by (simp add: is_digit_def digit_char_def of_char_of)
  then show ?case using 1 by (cases "n < 10") (simp_all add: dec.simps[of n])
qed

lemma fmt06_digits: "\<forall>c\<in>set (fmt06 n). is_digit c" "undec (fmt06 n) = n" "n < 10 ^ 6 \<Longrightarrow> length (fmt06 n) = 6"
  using dec_digits[of n] dec_length[of 6 n] by (auto simp: fmt06_def pad0_def undec_zeros is_digit_def)

lemma digit_kinds: "is_digit c \<Longrightarrow> \<not> is_space c \<and> c \<noteq> CHR ''-'' \<and> c \<noteq> CHR ''+''"
  by (auto simp: is_digit_def is_space_def)

text \<open>A number of at most six digits is read back as it was written.\<close>

lemma scan06_fmt06:
  assumes "n < 10 ^ 6"
  shows "scan06 (fmt06 n @ rest) = Some (of_nat n)"
proof -
  note d = fmt06_digits[of n]
  obtain c cs where c: "fmt06 n = c # cs" using d(3)[OF assms] by (cases "fmt06 n") auto
  have k: "\<not> is_space c" "c \<noteq> CHR ''-''" "c \<noteq> CHR ''+''" using digit_kinds d(1) c by auto
  have "dropWhile is_space (fmt06 n @ rest) = fmt06 n @ rest" using k(1) by (simp add: c)
  moreover have "take 6 (fmt06 n @ rest) = fmt06 n" using d(3)[OF assms] by simp
  moreover have "takeWhile is_digit (fmt06 n) = fmt06 n" using d(1) by (simp add: takeWhile_eq_all_conv)
  ultimately show ?thesis using k d(2) by (simp add: scan06_def Let_def c)
qed

lemma base_name_append:
  assumes "CHR ''/'' \<notin> set b"
  shows "base_name (p @ ''/'' @ b) = Some b" "rsl_of (p @ ''/'' @ b) = b"
proof -
  have "takeWhile (\<lambda>c. c \<noteq> CHR ''/'') (rev b @ CHR ''/'' # rev p) = rev b"
    by (subst takeWhile_append2) (use assms in auto)
  then show "base_name (p @ ''/'' @ b) = Some b" by (simp add: base_name_def)
  then show "rsl_of (p @ ''/'' @ b) = b" by (simp add: rsl_of_def)
qed

lemma own_name_written: "unat idx < 10 ^ 6 \<Longrightarrow> own_name idx (''id:'' @ fmt06 (unat idx) @ x)"
  by (simp add: own_name_def scan06_fmt06)

section \<open>Reading the test cases\<close>

definition seed_of :: "(string \<Rightarrow> bool) \<Rightarrow> 'a s_state_scheme \<Rightarrow> string \<Rightarrow> (string \<times> u32 \<times> bool) option" where
  "seed_of is_dir s name =
     (let fn = in_dir s @ ''/'' @ name in
      case fs s fn of
        Some (File d) \<Rightarrow>
          if d = [] \<or> strstr ''/README.txt'' fn \<noteq> None then None
          else Some (fn, of_nat (length d), path_exists is_dir (in_dir s @ ''/.state/deterministic_done/'' @ name) s)
      | _ \<Rightarrow> None)"

definition seeds :: "(string \<Rightarrow> bool) \<Rightarrow> 'a s_state_scheme \<Rightarrow> string list \<Rightarrow> (string \<times> u32 \<times> bool) list" where
  "seeds is_dir s names = List.map_filter (seed_of is_dir s) names"

definition triple :: "queue_entry \<Rightarrow> string \<times> u32 \<times> bool" where
  "triple e = (fname e, q_len e, passed_det e)"

lemma add_to_queue_triples:
  assumes "queue_inv s" "Suc (length (qs s)) < 2 ^ 32"
  shows "map triple (qs (add_to_queue fn l det s)) = map triple (qs s) @ [(fn, l, det)]"
proof (rule nth_equalityI)
  show "length (map triple (qs (add_to_queue fn l det s))) = length (map triple (qs s) @ [(fn, l, det)])" by (simp add: length_add_to_queue)
  fix i assume "i < length (map triple (qs (add_to_queue fn l det s)))"
  then have i: "i \<le> length (qs s)" "i < length (qs (add_to_queue fn l det s))" by (simp_all add: length_add_to_queue)
  show "map triple (qs (add_to_queue fn l det s)) ! i = (map triple (qs s) @ [(fn, l, det)]) ! i"
    using i add_to_queue_entry[OF assms i(1), of fn l det] by (auto simp: triple_def nth_append new_entry_def)
qed

lemma add_to_queue_seed_fields:
  fixes s :: "'a s_state_scheme"
  shows "fs (add_to_queue fn l det s) = fs s" "in_dir (add_to_queue fn l det s) = in_dir s"
  by (simp_all add: add_to_queue_def Let_def get_cur_time_def upd_q_def split: option.split)

lemma seeds_cong: "fs t = fs s \<Longrightarrow> in_dir t = in_dir s \<Longrightarrow> seeds is_dir t ns = seeds is_dir s ns"
  unfolding seeds_def seed_of_def[abs_def] path_exists_def by (simp only:)

lemma read_testcase_loop_ok:
  fixes s :: "'a s_state_scheme"
  assumes "queue_inv s" "length (qs s) + length ns < 2 ^ 32"
  shows "okE (\<lambda>t. queue_inv t \<and> in_dir t = in_dir s \<and> map triple (qs t) = map triple (qs s) @ seeds is_dir s ns \<and>
      (\<forall>(fn, l, det)\<in>set (seeds is_dir s ns). 0 < l \<and> unat l \<le> MAX_FILE)) (read_testcase_loop is_dir ns s)"
  using assms
proof (induction ns arbitrary: s)
  case Nil
  then show ?case by (simp add: seeds_def map_filter_simps)
next
  case (Cons n ns)
  let ?fn = "in_dir s @ ''/'' @ n"
  let ?P = "\<lambda>t. queue_inv t \<and> in_dir t = in_dir s \<and> map triple (qs t) = map triple (qs s) @ seeds is_dir s (n # ns) \<and>
      (\<forall>(fn, l, det)\<in>set (seeds is_dir s (n # ns)). 0 < l \<and> unat l \<le> MAX_FILE)"
  show ?case
  proof (cases "seed_of is_dir s n")
    case None
    then have e: "seeds is_dir s (n # ns) = seeds is_dir s ns" by (simp add: seeds_def map_filter_simps)
    have "read_testcase is_dir n s = Inr s \<or> (\<exists>e. read_testcase is_dir n s = Inl e \<and> fatal e)"
      using None by (auto simp: read_testcase_def seed_of_def Let_def split: option.splits node.splits if_splits)
    then show ?thesis using Cons.IH[of s] Cons.prems by (auto simp: e)
  next
    case (Some x)
    then obtain d where d: "fs s ?fn = Some (File d)" "d \<noteq> []" "strstr ''/README.txt'' ?fn = None"
      and x: "x = (?fn, of_nat (length d), path_exists is_dir (in_dir s @ ''/.state/deterministic_done/'' @ n) s)"
      by (auto simp: seed_of_def Let_def split: option.splits node.splits if_splits)
    have e: "seeds is_dir s (n # ns) = x # seeds is_dir s ns" using Some by (simp add: seeds_def map_filter_simps)
    show ?thesis
    proof (cases "length d > MAX_FILE")
      case True
      then show ?thesis using d by (simp add: read_testcase_def Let_def path_exists_def)
    next
      case False
      define t where "t = add_to_queue ?fn (of_nat (length d)) (path_exists is_dir (in_dir s @ ''/.state/deterministic_done/'' @ n) s) s"
      have q: "Suc (length (qs s)) < 2 ^ 32" using Cons.prems(2) by simp
      have t: "queue_inv t" "fs t = fs s" "in_dir t = in_dir s" "length (qs t) = Suc (length (qs s))" "map triple (qs t) = map triple (qs s) @ [x]"
        unfolding t_def x by (simp_all add: add_to_queue_queue_inv[OF Cons.prems(1) q] add_to_queue_seed_fields length_add_to_queue add_to_queue_triples[OF Cons.prems(1) q])
      have u: "unat (of_nat (length d) :: u32) = length d" using False by (simp add: unsigned_of_nat take_bit_nat_eq_self cfg_simps)
      then have "0 < (of_nat (length d) :: u32)" using d(2) by (simp add: word_less_nat_alt)
      then have px: "case x of (fn, l, det) \<Rightarrow> 0 < l \<and> unat l \<le> MAX_FILE" using u False by (simp add: x)
      have r: "read_testcase is_dir n s = Inr t" using d False by (simp add: read_testcase_def Let_def path_exists_def t_def)
      have "okE ?P (read_testcase_loop is_dir ns t)"
        by (rule okE_mono[OF Cons.IH[OF t(1)]]) (use t Cons.prems px in \<open>auto simp: seeds_cong[OF t(2,3)] e\<close>)
      then show ?thesis by (simp add: r)
    qed
  qed
qed

lemma rng_only_seeds:
  fixes s t :: "'a s_state_scheme"
  assumes "rng_only s t"
  shows "fs t = fs s" "in_dir t = in_dir s" "qs t = qs s" "queue_inv t = queue_inv s"
proof -
  show f: "fs t = fs s" "in_dir t = in_dir s" "qs t = qs s"
    using arg_cong[OF assms[unfolded rng_only_def], of fs] arg_cong[OF assms[unfolded rng_only_def], of in_dir]
      arg_cong[OF assms[unfolded rng_only_def], of qs] by (simp_all add: rng_erase_def)
  have "queue t = queue s" "queue_top t = queue_top s" "q_prev100 t = q_prev100 s" "queued_paths t = queued_paths s"
    using arg_cong[OF assms[unfolded rng_only_def], of queue] arg_cong[OF assms[unfolded rng_only_def], of queue_top]
      arg_cong[OF assms[unfolded rng_only_def], of q_prev100] arg_cong[OF assms[unfolded rng_only_def], of queued_paths] by (simp_all add: rng_erase_def)
  then show "queue_inv t = queue_inv s" by (simp add: queue_inv_def f)
qed

text \<open>The directory that is read in the end.\<close>

definition seed_dir :: "(string \<Rightarrow> bool) \<Rightarrow> 'a s_state_scheme \<Rightarrow> string" where
  "seed_dir is_dir s = (if path_exists is_dir (in_dir s @ ''/queue'') s then in_dir s @ ''/queue'' else in_dir s)"

lemma read_testcases_ok:
  fixes s :: "'a s_state_scheme"
  assumes q: "queue_inv s" "qs s = []" and l: "\<And>nl. scandir (seed_dir is_dir s) = Some nl \<Longrightarrow> length nl < 2 ^ 32"
  defines "s1 \<equiv> s\<lparr>in_dir := seed_dir is_dir s\<rparr>"
  shows "okE (\<lambda>t. queue_inv t \<and> qs t \<noteq> [] \<and> queued_at_start t = of_nat (length (qs t)) \<and>
      (\<exists>nl nl'. scandir (seed_dir is_dir s) = Some nl \<and> mset nl' = mset nl \<and> (\<not> shuffle_queue s \<longrightarrow> nl' = nl) \<and>
         map triple (qs t) = seeds is_dir s1 nl' \<and> (\<forall>(fn, n, det)\<in>set (seeds is_dir s1 nl'). 0 < n \<and> unat n \<le> MAX_FILE)))
     (read_testcases scandir is_dir s)"
    (is "okE ?P _")
proof -
  have s1: "(if path_exists is_dir (in_dir s @ ''/queue'') s then s\<lparr>in_dir := in_dir s @ ''/queue''\<rparr> else s) = s1" by (simp add: s1_def seed_dir_def)
  have f1: "queue_inv s1" "qs s1 = []" "in_dir s1 = seed_dir is_dir s" "shuffle_queue s1 = shuffle_queue s" using q by (simp_all add: s1_def queue_inv_def)
  show ?thesis
  proof (cases "scandir (seed_dir is_dir s)")
    case None
    then show ?thesis by (simp add: read_testcases_def s1 f1)
  next
    case (Some nl)
    have ln: "length nl < 2 ^ 32" by (rule l[OF Some])
    have sh: "okE (\<lambda>(nl', t). mset nl' = mset nl \<and> (\<not> shuffle_queue s \<longrightarrow> nl' = nl) \<and> rng_only s1 t)
        (if shuffle_queue s1 \<and> length nl > 1 then shuffle_ptrs nl (length nl) s1 else Inr (nl, s1))"
      using shuffle_ptrs_permutes[OF _ ln, of s1] f1(4) by (cases "shuffle_queue s1 \<and> length nl > 1") auto
    have "okE ?P (bindE (if shuffle_queue s1 \<and> length nl > 1 then shuffle_ptrs nl (length nl) s1 else Inr (nl, s1)) (\<lambda>(nl, s).
          bindE (read_testcase_loop is_dir nl s) (\<lambda>s. if queued_paths s = 0 then Inl (FATAL ''No usable test cases'')
            else Inr (s\<lparr>last_path_time := 0, queued_at_start := queued_paths s\<rparr>))))"
    proof (rule okE_bind[OF sh])
      fix y :: "string list \<times> 'a s_state_scheme"
      assume "case y of (nl', t) \<Rightarrow> mset nl' = mset nl \<and> (\<not> shuffle_queue s \<longrightarrow> nl' = nl) \<and> rng_only s1 t"
      then obtain nl' t where y: "y = (nl', t)" "mset nl' = mset nl" "\<not> shuffle_queue s \<longrightarrow> nl' = nl" "rng_only s1 t" by (cases y) auto
      note rt = rng_only_seeds[OF y(4)]
      have b: "length (qs t) + length nl' < 2 ^ 32" using ln mset_eq_length[OF y(2)] f1(2) rt(3) by simp
      have qt: "queue_inv t" using rt(4) f1(1) by simp
      show "okE ?P (case y of (nl, s) \<Rightarrow> bindE (read_testcase_loop is_dir nl s) (\<lambda>s. if queued_paths s = 0 then Inl (FATAL ''No usable test cases'')
            else Inr (s\<lparr>last_path_time := 0, queued_at_start := queued_paths s\<rparr>)))"
        unfolding y(1) prod.case
      proof (rule okE_bind[OF read_testcase_loop_ok[OF qt b]])
        fix u :: "'a s_state_scheme"
        assume u: "queue_inv u \<and> in_dir u = in_dir t \<and> map triple (qs u) = map triple (qs t) @ seeds is_dir t nl' \<and>
          (\<forall>(fn, l, det)\<in>set (seeds is_dir t nl'). 0 < l \<and> unat l \<le> MAX_FILE)"
        have sd: "seeds is_dir t nl' = seeds is_dir s1 nl'" by (rule seeds_cong[OF rt(1,2)])
        have qp: "queued_paths u = of_nat (length (qs u))" using u by (simp add: queue_inv_def Let_def)
        have "queued_paths u \<noteq> 0 \<longrightarrow> qs u \<noteq> []" using qp by auto
        moreover have "queue_inv (u\<lparr>last_path_time := 0, queued_at_start := queued_paths u\<rparr>)" using u by (simp add: queue_inv_def)
        ultimately show "okE ?P (if queued_paths u = 0 then Inl (FATAL ''No usable test cases'') else Inr (u\<lparr>last_path_time := 0, queued_at_start := queued_paths u\<rparr>))"
          using u y(2,3) Some qp f1(2) rt(3) unfolding sd by auto
      qed
    qed
    then show ?thesis by (simp add: read_testcases_def s1 f1 Some)
  qed
qed

section \<open>Dry run\<close>

lemma dry_run_case_ok:
  fixes s :: "'a s_state_scheme"
  assumes x: "x_inv k s" and q: "q < length (qs s)"
  shows "okE (\<lambda>(res, t). frame s t) (dry_run_case q s)"
proof -
  have pre: "stats_update_freq s \<noteq> 0" "CHR ''/'' \<in> set (fname (qs s ! q))" "okE (\<lambda>_. True) (forksrv_start s)"
    using x q by (auto simp: x_inv_def)
  have c: "okE (\<lambda>(res, t). frame s t) (calibrate_case q (take (unat (q_len (qs s ! q))) d) 0 True s)" if "unat (q_len (qs s ! q)) \<le> length d" for d
    by (rule okE_mono[OF calibrate_case_ok[OF pre(1) q _ pre(2,3)]]) (use that in \<open>auto simp: ran_def\<close>)
  show ?thesis using c pre(2) by (auto simp: dry_run_case_def base_name_def not_less split: option.splits node.splits)
qed

lemma dry_run_verdict_ok: "okE (\<lambda>(failed, t). frame s t) (dry_run_verdict q res s)"
proof -
  have "frame s (upd_q q (\<lambda>e. e\<lparr>cal_failed := CAL_CHANCES\<rparr>) s)" by (rule frame_upd_q) (simp_all add: entry_part_def)
  moreover have "frame s (s\<lparr>useless_at_start := n\<rparr>)" for n by (simp add: frame_def part_defs)
  ultimately show ?thesis by (simp add: dry_run_verdict_def split: fault.split)
qed

lemma dry_run_loop_ok:
  fixes s :: "'a s_state_scheme"
  assumes "x_inv k s" "length (qs s) = q + fuel"
  shows "okE (\<lambda>(r, t). frame s t) (dry_run_loop fuel (if q < length (qs s) then Some q else None) cf s)"
  using assms
proof (induction fuel arbitrary: q cf s)
  case 0
  then show ?case by simp
next
  case (Suc fuel)
  have ql: "q < length (qs s)" using Suc.prems(2) by simp
  have "okE (\<lambda>(r, t). frame s t) (bindE (dry_run_case q s) (\<lambda>(res, s). if stop_soon s \<noteq> 0 then Inr (None, s)
       else bindE (dry_run_verdict q res s) (\<lambda>(failed, s). dry_run_loop fuel (q_next (qs s ! q)) (if failed then cf + 1 else cf) s)))"
  proof (rule okE_bind[OF dry_run_case_ok[OF Suc.prems(1) ql]])
    fix y :: "fault \<times> 'a s_state_scheme" assume "case y of (res, t) \<Rightarrow> frame s t"
    then obtain res t where y: "y = (res, t)" "frame s t" by (cases y) auto
    have "okE (\<lambda>(r, t). frame s t) (bindE (dry_run_verdict q res t) (\<lambda>(failed, s). dry_run_loop fuel (q_next (qs s ! q)) (if failed then cf + 1 else cf) s))"
    proof (rule okE_bind[OF dry_run_verdict_ok])
      fix z :: "bool \<times> 'a s_state_scheme" assume "case z of (failed, u) \<Rightarrow> frame t u"
      then obtain failed u where z: "z = (failed, u)" "frame t u" by (cases z) auto
      have fu: "frame s u" by (rule frame_trans[OF y(2) z(2)])
      have xu: "x_inv k u" by (rule x_inv_frame[OF fu Suc.prems(1)])
      have lu: "length (qs u) = length (qs s)" using fu qpart_queue_inv(2)[of u s] by (simp add: frame_def)
      have "q_next (qs u ! q) = next_of (length (qs u)) q" using xu ql lu by (simp add: x_inv_def queue_inv_def Let_def)
      then have n: "q_next (qs u ! q) = (if Suc q < length (qs u) then Some (Suc q) else None)" by (simp add: next_of_def)
      show "okE (\<lambda>(r, t). frame s t) (case z of (failed, s) \<Rightarrow> dry_run_loop fuel (q_next (qs s ! q)) (if failed then cf + 1 else cf) s)"
        unfolding z(1) prod.case n by (rule okE_mono[OF Suc.IH[OF xu]]) (use Suc.prems(2) lu frame_trans[OF fu] in auto)
    qed
    then show "okE (\<lambda>(r, t). frame s t) (case y of (res, s) \<Rightarrow> if stop_soon s \<noteq> 0 then Inr (None, s)
       else bindE (dry_run_verdict q res s) (\<lambda>(failed, s). dry_run_loop fuel (q_next (qs s ! q)) (if failed then cf + 1 else cf) s))"
      using y by simp
  qed
  then show ?case using ql by simp
qed

lemma perform_dry_run_ok:
  fixes s :: "'a s_state_scheme"
  assumes "x_inv k s"
  shows "okE (frame s) (perform_dry_run s)"
proof -
  have q: "queue s = (if 0 < length (qs s) then Some 0 else None)" using assms by (simp add: x_inv_def queue_inv_def Let_def)
  show ?thesis unfolding perform_dry_run_def q
    by (rule okE_bind[OF dry_run_loop_ok[OF assms]]) (auto split: option.split)
qed

section \<open>Pivoting\<close>

lemma copy_loop_eq: "copy_loop src dst = dst @ src"
proof (induction src dst rule: copy_loop.induct)
  case (1 src dst)
  show ?case
  proof (cases "src = []")
    case True
    then show ?thesis by (simp add: copy_loop.simps)
  next
    case False
    then show ?thesis using 1[OF False] by (simp add: copy_loop.simps[of src])
  qed
qed

text \<open>What pivoting keeps: links and lengths of the entries, and every file there was.\<close>

definition links :: "queue_entry \<Rightarrow> nat option \<times> nat option \<times> u32" where
  "links e = (q_next e, q_next_100 e, q_len e)"

definition kept :: "'a s_state_scheme \<Rightarrow> 'a s_state_scheme \<Rightarrow> bool" where
  "kept s t \<longleftrightarrow> (out_dir t, queue t, queue_top t, q_prev100 t, queued_paths t, map links (qs t)) =
      (out_dir s, queue s, queue_top s, q_prev100 s, queued_paths s, map links (qs s)) \<and> fs s \<subseteq>\<^sub>m fs t"

lemma kept_refl [simp]: "kept s s"
  by (simp add: kept_def)

lemma kept_trans: "kept s t \<Longrightarrow> kept t u \<Longrightarrow> kept s u"
  by (auto simp: kept_def intro: map_le_trans)

lemma kept_length: "kept s t \<Longrightarrow> length (qs t) = length (qs s)"
  unfolding kept_def by (metis length_map prod.inject)

lemma kept_queue_inv:
  assumes "kept s t" "queue_inv s"
  shows "queue_inv t"
proof -
  have l: "length (qs t) = length (qs s)" by (rule kept_length[OF assms(1)])
  have e: "map links (qs t) = map links (qs s)" using assms(1) by (simp add: kept_def)
  have "links (qs t ! i) = links (qs s ! i)" if "i < length (qs s)" for i using e that l by (metis nth_map)
  then show ?thesis using assms l by (auto simp: queue_inv_def Let_def kept_def links_def)
qed

lemma map_keep: "g e = g (xs ! q) \<Longrightarrow> map g (xs[q := e]) = map g xs"
  by (metis list_update_id map_update)

lemma kept_upd_q: "(\<And>e. links (f e) = links e) \<Longrightarrow> kept s (upd_q q f s)"
  by (simp add: kept_def map_keep)

lemma pivot_depth_kept: "kept s (pivot_depth q rsl s)" "map fname (qs (pivot_depth q rsl s)) = map fname (qs s)" "fs (pivot_depth q rsl s) = fs s"
proof -
  have u: "kept s (upd_q q (\<lambda>e. e\<lparr>depth := d\<rparr>) s)" for d by (rule kept_upd_q) (simp add: links_def)
  have m: "kept s (t\<lparr>max_depth := d\<rparr>)" if "kept s t" for t d using that by (simp add: kept_def)
  have n: "map fname ((qs s)[q := (qs s ! q)\<lparr>depth := d\<rparr>]) = map fname (qs s)" for d by (simp add: map_keep)
  show "kept s (pivot_depth q rsl s)" "map fname (qs (pivot_depth q rsl s)) = map fname (qs s)" "fs (pivot_depth q rsl s) = fs s"
    using u m n by (simp_all add: pivot_depth_def Let_def split: option.split)
qed

lemma link_or_copy_ok:
  "okE (\<lambda>t. \<exists>f. fs s old = Some f \<and> fs s new = None \<and> t = s\<lparr>fs := (fs s)(new \<mapsto> f)\<rparr>) (link_or_copy can_link old new s)"
  by (auto simp: link_or_copy_def create_excl_def copy_loop_eq split: option.splits node.splits)

lemma pivot_name_slash: "CHR ''/'' \<in> set (pivot_name dir idx rsl)"
  by (simp add: pivot_name_def Let_def)

lemma mark_det_kept:
  assumes "CHR ''/'' \<in> set (fname (qs s ! q))"
  shows "okE (\<lambda>t. kept s t \<and> map fname (qs t) = map fname (qs s)) (mark_as_det_done q s)"
proof -
  have n: "map fname ((qs s)[q := (qs s ! q)\<lparr>passed_det := True\<rparr>]) = map fname (qs s)" by (simp add: map_keep)
  have l: "map links ((qs s)[q := (qs s ! q)\<lparr>passed_det := True\<rparr>]) = map links (qs s)"
    by (simp add: map_keep links_def)
  show ?thesis using assms n l by (auto simp: mark_as_det_done_def base_name_def create_excl_def kept_def upd_q_def map_le_def)
qed

lemma pivot_one_ok:
  fixes s :: "'a s_state_scheme" and idx :: u32
  assumes q: "q < length (qs s)"
  defines "new \<equiv> pivot_name (out_dir s) idx (rsl_of (fname (qs s ! q)))"
  shows "okE (\<lambda>t. kept s t \<and> map fname (qs t) = (map fname (qs s))[q := new] \<and> fs s (fname (qs s ! q)) \<noteq> None \<and> fs t new = fs s (fname (qs s ! q)))
    (pivot_one can_link q idx s)"
proof -
  let ?rsl = "rsl_of (fname (qs s ! q))"
  define s1 where "s1 = (if own_name idx ?rsl then pivot_depth q ?rsl (s\<lparr>resuming_fuzz := True\<rparr>) else s)"
  have r: "kept s (s\<lparr>resuming_fuzz := True\<rparr>)" by (simp add: kept_def)
  have s1: "kept s s1" "map fname (qs s1) = map fname (qs s)" "fs s1 = fs s"
    using kept_trans[OF r pivot_depth_kept(1)] pivot_depth_kept(2,3)[of q ?rsl "s\<lparr>resuming_fuzz := True\<rparr>"] by (auto simp: s1_def)
  have f1: "fname (qs s1 ! q) = fname (qs s ! q)" "q < length (qs s1)" using s1(2) q kept_length[OF s1(1)] by (metis nth_map)+
  show ?thesis unfolding pivot_one_def Let_def s1_def[symmetric] new_def[symmetric]
  proof (rule okE_bind[OF link_or_copy_ok])
    fix t assume "\<exists>f. fs s1 (fname (qs s1 ! q)) = Some f \<and> fs s1 new = None \<and> t = s1\<lparr>fs := (fs s1)(new \<mapsto> f)\<rparr>"
    then obtain f where f: "fs s (fname (qs s ! q)) = Some f" "fs s new = None" "t = s1\<lparr>fs := (fs s)(new \<mapsto> f)\<rparr>" using s1(3) f1 by auto
    define u where "u = upd_q q (\<lambda>e. e\<lparr>fname := new\<rparr>) t"
    have tu: "kept s t" using s1(1) f(2) by (auto simp: f(3) kept_def map_le_def s1(3))
    have u: "kept s u" unfolding u_def by (rule kept_trans[OF tu kept_upd_q]) (simp add: links_def)
    have nu: "map fname (qs u) = (map fname (qs s))[q := new]" using s1(2) by (simp add: u_def f(3) map_update)
    have fu: "fs u new = Some f" by (simp add: u_def f(3))
    have sl: "CHR ''/'' \<in> set (fname (qs u ! q))" using f1(2) pivot_name_slash[of "out_dir s" idx ?rsl] by (simp add: u_def f(3) new_def)
    let ?P = "\<lambda>t. kept s t \<and> map fname (qs t) = (map fname (qs s))[q := new] \<and> fs s (fname (qs s ! q)) \<noteq> None \<and> fs t new = fs s (fname (qs s ! q))"
    have up: "fs v new = Some f" if "kept u v" for v using that fu by (auto simp: kept_def map_le_def dom_def)
    have M: "okE ?P (mark_as_det_done q u)"
      by (rule okE_mono[OF mark_det_kept[OF sl]]) (use kept_trans[OF u] nu up f(1) in auto)
    have "?P u" using u nu fu f(1) by simp
    then show "okE ?P (if passed_det (qs (upd_q q (\<lambda>e. e\<lparr>fname := new\<rparr>) t) ! q) then mark_as_det_done q (upd_q q (\<lambda>e. e\<lparr>fname := new\<rparr>) t) else Inr (upd_q q (\<lambda>e. e\<lparr>fname := new\<rparr>) t))"
      unfolding u_def[symmetric] using M by (cases "passed_det (qs u ! q)") (simp_all only: if_True if_False okE_simps simp_thms)
  qed
qed

definition new_name :: "'a s_state_scheme \<Rightarrow> nat \<Rightarrow> string" where
  "new_name s i = pivot_name (out_dir s) (of_nat i) (rsl_of (fname (qs s ! i)))"

definition pivoted :: "nat \<Rightarrow> 'a s_state_scheme \<Rightarrow> 'a s_state_scheme \<Rightarrow> bool" where
  "pivoted q s t \<longleftrightarrow> kept s t \<and> (\<forall>i<q. i < length (qs s) \<longrightarrow> fname (qs t ! i) = fname (qs s ! i)) \<and>
     (\<forall>i<length (qs s). q \<le> i \<longrightarrow> fname (qs t ! i) = new_name s i \<and> (\<forall>f. fs s (fname (qs s ! i)) = Some f \<longrightarrow> fs t (new_name s i) = Some f))"

lemma pivot_loop_ok:
  fixes s :: "'a s_state_scheme"
  assumes "queue_inv s" "length (qs s) = q + fuel"
  shows "okE (pivoted q s) (pivot_loop fuel can_link (if q < length (qs s) then Some q else None) (of_nat q) s)"
  using assms
proof (induction fuel arbitrary: q s)
  case 0
  then show ?case by (simp add: pivoted_def)
next
  case (Suc fuel)
  have ql: "q < length (qs s)" using Suc.prems(2) by simp
  have "okE (pivoted q s) (bindE (pivot_one can_link q (of_nat q) s) (\<lambda>s. pivot_loop fuel can_link (q_next (qs s ! q)) (of_nat q + 1) s))"
  proof (rule okE_bind[OF pivot_one_ok[OF ql]])
    fix t :: "'a s_state_scheme"
    let ?new = "pivot_name (out_dir s) (of_nat q) (rsl_of (fname (qs s ! q)))"
    assume a: "kept s t \<and> map fname (qs t) = (map fname (qs s))[q := ?new] \<and> fs s (fname (qs s ! q)) \<noteq> None \<and> fs t ?new = fs s (fname (qs s ! q))"
    then have t: "kept s t" "map fname (qs t) = (map fname (qs s))[q := new_name s q]" "fs t (new_name s q) = fs s (fname (qs s ! q))" "fs s (fname (qs s ! q)) \<noteq> None"
      by (auto simp: new_name_def)
    have lt: "length (qs t) = length (qs s)" by (rule kept_length[OF t(1)])
    have nt: "fname (qs t ! i) = (if i = q then new_name s q else fname (qs s ! i))" if "i < length (qs s)" for i
      using arg_cong[OF t(2), of "\<lambda>xs. xs ! i"] that lt by (simp add: nth_list_update)
    have qt: "queue_inv t" by (rule kept_queue_inv[OF t(1) Suc.prems(1)])
    have nx: "q_next (qs t ! q) = (if Suc q < length (qs t) then Some (Suc q) else None)" using qt ql lt by (simp add: queue_inv_def Let_def next_of_def)
    have nn: "new_name t i = new_name s i" if "i < length (qs s)" "i \<noteq> q" for i using nt[OF that(1)] that(2) t(1) by (simp add: new_name_def kept_def)
    have "okE (pivoted q s) (pivot_loop fuel can_link (if Suc q < length (qs t) then Some (Suc q) else None) (of_nat (Suc q)) t)"
    proof (rule okE_mono[OF Suc.IH[OF qt]])
      show "length (qs t) = Suc q + fuel" using Suc.prems(2) lt by simp
      fix u assume u: "pivoted (Suc q) t u"
      have ku: "kept s u" using kept_trans[OF t(1)] u by (auto simp: pivoted_def)
      have le: "fs s \<subseteq>\<^sub>m fs t" "fs t \<subseteq>\<^sub>m fs u" using t(1) u by (auto simp: kept_def pivoted_def)
      have up: "fs t p = Some f" if "fs s p = Some f" for p f using le(1) that by (auto simp: map_le_def dom_def)
      have up2: "fs u p = Some f" if "fs t p = Some f" for p f using le(2) that by (auto simp: map_le_def dom_def)
      show "pivoted q s u" unfolding pivoted_def
      proof (intro conjI allI impI)
        show "kept s u" by (rule ku)
        fix i assume "i < q" "i < length (qs s)"
        then show "fname (qs u ! i) = fname (qs s ! i)" using u nt[of i] lt by (simp add: pivoted_def)
      next
        fix i assume i: "i < length (qs s)" "q \<le> i"
        show "fname (qs u ! i) = new_name s i"
          using u i nt[of i] nn[of i] lt by (cases "i = q") (auto simp: pivoted_def)
        fix f assume f: "fs s (fname (qs s ! i)) = Some f"
        show "fs u (new_name s i) = Some f"
        proof (cases "i = q")
          case True
          then show ?thesis using t(3) f up2 by simp
        next
          case False
          then have "fs t (fname (qs t ! i)) = Some f" using nt[OF i(1)] up[OF f] by simp
          moreover have "Suc q \<le> i" "i < length (qs t)" using i False lt by simp_all
          ultimately have "fs u (new_name t i) = Some f" using u unfolding pivoted_def by blast
          then show ?thesis using nn[OF i(1) False] by simp
        qed
      qed
    qed
    then show "okE (pivoted q s) (pivot_loop fuel can_link (q_next (qs t ! q)) (of_nat q + 1) t)" by (simp add: nx add.commute)
  qed
  then show ?case using ql by simp
qed

lemma nuke_files_ok:
  fixes s :: "'a s_state_scheme"
  shows "okE (\<lambda>t. \<exists>f. t = s\<lparr>fs := f\<rparr> \<and> (\<forall>p. \<not> inside (out_dir s @ ''/_resume'') p \<longrightarrow> f p = fs s p)) (nuke_files tree s)"
proof -
  let ?d = "\<lparr>disk = tree, input_dir = in_dir s\<rparr>"
  obtain r t where n: "nuke_resume_dir (out_dir s) ?d = (r, t)" by fastforce
  have "confined (inside (out_dir s @ ''/_resume'')) ?d (snd (nuke_resume_dir (out_dir s) ?d))"
    using nuke_resume_dir_inside[of "out_dir s"] unfolding everD_def by blast
  then have c: "\<not> inside (out_dir s @ ''/_resume'') p \<Longrightarrow> node_at p t = map_of tree p" for p unfolding n confined_def by simp
  have r: "okE (\<lambda>_. True) r" using nuke_resume_dir_dies[of "out_dir s"] n unfolding dies_def by (metis fst_conv)
  show ?thesis
  proof (cases r)
    case (Inl e)
    then show ?thesis using r by (simp add: nuke_files_def n)
  next
    case (Inr u)
    define f where "f = (\<lambda>p. if map_of tree p \<noteq> None \<and> node_at p t = None then None else fs s p)"
    have "\<not> inside (out_dir s @ ''/_resume'') p \<longrightarrow> f p = fs s p" for p using c[of p] by (auto simp: f_def)
    then show ?thesis unfolding nuke_files_def n Inr prod.case sum.case okE_simps f_def[symmetric] by blast
  qed
qed

definition pivot_post :: "bool \<Rightarrow> 'a s_state_scheme \<Rightarrow> 'a s_state_scheme \<Rightarrow> bool" where
  "pivot_post in_place s t \<longleftrightarrow> (\<exists>u f. pivoted 0 s u \<and> t = u\<lparr>fs := f\<rparr> \<and>
     (\<forall>p. \<not> (in_place \<and> inside (out_dir s @ ''/_resume'') p) \<longrightarrow> f p = fs u p))"

lemma pivot_inputs_ok:
  fixes s :: "'a s_state_scheme"
  assumes "queue_inv s"
  shows "okE (pivot_post in_place s) (pivot_inputs in_place tree can_link s)"
  unfolding pivot_inputs_def
proof (rule okE_bind)
  have "queue s = (if 0 < length (qs s) then Some 0 else None)" using assms by (simp add: queue_inv_def Let_def)
  then show "okE (pivoted 0 s) (pivot_loop (length (qs s)) can_link (queue s) 0 s)"
    using pivot_loop_ok[of s 0 "length (qs s)" can_link] assms by simp
  fix u assume u: "pivoted 0 s u"
  then have o: "out_dir u = out_dir s" by (simp add: pivoted_def kept_def)
  have "u = u\<lparr>fs := fs u\<rparr>" by simp
  then have same: "pivot_post b s u" for b unfolding pivot_post_def using u by blast
  have "okE (pivot_post in_place s) (nuke_files tree u)" if in_place
  proof (rule okE_mono[OF nuke_files_ok])
    fix t assume "\<exists>f. t = u\<lparr>fs := f\<rparr> \<and> (\<forall>p. \<not> inside (out_dir u @ ''/_resume'') p \<longrightarrow> f p = fs u p)"
    then show "pivot_post in_place s t" unfolding pivot_post_def o using u that by blast
  qed
  then show "okE (pivot_post in_place s) (if in_place then nuke_files tree u else Inr u)" using same by (cases in_place) simp_all
qed

lemma new_name_stays: "\<not> inside (out_dir s @ ''/_resume'') (new_name s i)"
  by (simp add: new_name_def pivot_name_def Let_def) (simp add: inside_def)

section \<open>Properties\<close>

text \<open>A start with two files and a read-me in the input directory.\<close>

definition example_s :: s_state where
  "example_s = x_state.extend (example_x\<lparr>qs := [], queue := None, queue_top := None, q_prev100 := None, queued_paths := 0, in_dir := ''in'',
       fs := [''in/a'' \<mapsto> File [1, 2, 3], ''in/README.txt'' \<mapsto> File [7], ''in/b'' \<mapsto> File [], ''in/id:000000,x'' \<mapsto> File [4, 5]]\<rparr>)
     \<lparr>shuffle_queue = False, timeout_given = 0, skip_crashes = False, useless_at_start = 0, queued_at_start = 0\<rparr>"

definition example_scandir :: "string \<Rightarrow> string list option" where
  "example_scandir d = (if d = ''in'' then Some [''.'', ''README.txt'', ''a'', ''b''] else None)"

lemma example_s_fields:
  "qs example_s = []" "queue_inv example_s" "in_dir example_s = ''in''" "shuffle_queue example_s = False"
  "fs example_s = [''in/a'' \<mapsto> File [1, 2, 3], ''in/README.txt'' \<mapsto> File [7], ''in/b'' \<mapsto> File [], ''in/id:000000,x'' \<mapsto> File [4, 5]]"
  by (simp_all add: example_s_def x_state.extend_def queue_inv_def Let_def prev100_of_def)

text \<open>
  C23. \<open>read_testcases\<close> queues exactly the regular, non-empty files of the input directory (or of its
  \<open>queue\<close> subdirectory) that are not a read-me, in the order of \<open>scandir\<close> unless shuffling was asked for,
  each with its size, which is at most \<open>MAX_FILE\<close>, and with the mark of a completed deterministic stage;
  the queue is well-linked and not empty. Otherwise it stops with a message.
\<close>

theorem read_testcases_spec:
  fixes s :: "'a s_state_scheme"
  assumes "queue_inv s" "qs s = []" "\<And>nl. scandir (seed_dir is_dir s) = Some nl \<Longrightarrow> length nl < 2 ^ 32"
  shows "okE (\<lambda>t. queue_inv t \<and> qs t \<noteq> [] \<and> queued_at_start t = of_nat (length (qs t)) \<and>
      (\<exists>nl nl'. scandir (seed_dir is_dir s) = Some nl \<and> mset nl' = mset nl \<and> (\<not> shuffle_queue s \<longrightarrow> nl' = nl) \<and>
         map triple (qs t) = seeds is_dir (s\<lparr>in_dir := seed_dir is_dir s\<rparr>) nl' \<and>
         (\<forall>(fn, n, det)\<in>set (map triple (qs t)). 0 < n \<and> unat n \<le> MAX_FILE)))
     (read_testcases scandir is_dir s)"
  by (rule okE_mono[OF read_testcases_ok[OF assms]]) (auto simp del: set_map)

theorem read_testcases_spec_witness:
  "okE (\<lambda>t. queue_inv t \<and> map triple (qs t) = [(''in/a'', 3, False)]) (read_testcases example_scandir (\<lambda>d. d = ''in/.'') example_s)"
proof -
  have d: "seed_dir (\<lambda>d. d = ''in/.'') example_s = ''in''" by (simp add: seed_dir_def path_exists_def example_s_fields)
  have sd: "seeds (\<lambda>d. d = ''in/.'') (example_s\<lparr>in_dir := ''in''\<rparr>) [''.'', ''README.txt'', ''a'', ''b''] = [(''in/a'', 3, False)]"
    by (simp add: seeds_def seed_of_def path_exists_def map_filter_simps example_s_fields)
  show ?thesis
    by (rule okE_mono[OF read_testcases_spec[of example_s example_scandir "\<lambda>d. d = ''in/.''"]])
      (auto simp: example_s_fields d example_scandir_def sd)
qed

text \<open>
  C22. \<open>pivot_inputs\<close> moves the whole queue to the output directory: entry number \<open>i\<close> is called by its
  original name when that carries the number \<open>i\<close>, as after an earlier run, and by a new name with that
  number otherwise; each new name is a file with the contents of the original one, the queue stays well-linked, and no
  other file is changed or lost, except that resuming in place ends with the deletion of files in the directory
  \<open>_resume\<close>, from which the test cases were read. Otherwise it stops with a message.
\<close>

theorem pivot_inputs_spec:
  fixes s :: "'a s_state_scheme"
  assumes "queue_inv s"
  shows "okE (\<lambda>t. queue_inv t \<and> map q_len (qs t) = map q_len (qs s) \<and>
      (\<forall>p f. fs s p = Some f \<longrightarrow> fs t p = Some f \<or> in_place \<and> inside (out_dir s @ ''/_resume'') p) \<and>
      (\<forall>i<length (qs s). fname (qs t ! i) = pivot_name (out_dir s) (of_nat i) (rsl_of (fname (qs s ! i))) \<and>
         (\<forall>f. fs s (fname (qs s ! i)) = Some f \<longrightarrow> fs t (fname (qs t ! i)) = Some f)))
     (pivot_inputs in_place tree can_link s)"
proof (rule okE_mono[OF pivot_inputs_ok[OF assms]])
  fix t :: "'a s_state_scheme" assume "pivot_post in_place s t"
  then obtain u f where u: "pivoted 0 s u" and t: "t = u\<lparr>fs := f\<rparr>"
    and f: "\<And>p. \<not> (in_place \<and> inside (out_dir s @ ''/_resume'') p) \<Longrightarrow> f p = fs u p" by (auto simp: pivot_post_def)
  have k: "kept s u" using u by (simp add: pivoted_def)
  have ql: "map q_len es = map (snd \<circ> snd) (map links es)" for es by (simp add: links_def comp_def)
  have "map links (qs u) = map links (qs s)" using k by (simp add: kept_def)
  then have "map q_len (qs t) = map q_len (qs s)" unfolding ql t by simp
  moreover have "queue_inv t" using kept_queue_inv[OF k assms] by (simp add: t queue_inv_def)
  moreover have "fs t p = Some y \<or> in_place \<and> inside (out_dir s @ ''/_resume'') p" if "fs s p = Some y" for p y
  proof -
    have "fs u p = Some y" using k that by (auto simp: kept_def map_le_def dom_def)
    then show ?thesis using f[of p] by (auto simp: t)
  qed
  moreover have "f (new_name s i) = fs u (new_name s i)" for i using f new_name_stays by blast
  ultimately show "queue_inv t \<and> map q_len (qs t) = map q_len (qs s) \<and>
      (\<forall>p f. fs s p = Some f \<longrightarrow> fs t p = Some f \<or> in_place \<and> inside (out_dir s @ ''/_resume'') p) \<and>
      (\<forall>i<length (qs s). fname (qs t ! i) = pivot_name (out_dir s) (of_nat i) (rsl_of (fname (qs s ! i))) \<and>
         (\<forall>f. fs s (fname (qs s ! i)) = Some f \<longrightarrow> fs t (fname (qs t ! i)) = Some f))"
    using u by (auto simp: pivoted_def new_name_def t)
qed

theorem pivot_inputs_spec_witness:
  "okE (\<lambda>t. fname (qs t ! 0) = pivot_name (out_dir example_s) 0 ''id:000000,x'' \<and> fs t (fname (qs t ! 0)) = Some (File [4, 5]))
     (pivot_inputs True [(''o/_resume'', Directory)] False (add_to_queue ''in/id:000000,x'' 2 False example_s))"
proof -
  let ?s = "add_to_queue ''in/id:000000,x'' 2 False example_s"
  have l: "Suc (length (qs example_s)) < 2 ^ 32" by (simp add: example_s_fields)
  have q: "queue_inv ?s" by (rule add_to_queue_queue_inv[OF example_s_fields(2) l])
  have n: "length (qs ?s) = 1" "fname (qs ?s ! 0) = ''in/id:000000,x''"
    using add_to_queue_entry[OF example_s_fields(2) l, of 0 "''in/id:000000,x''" 2 False] by (simp_all add: length_add_to_queue example_s_fields new_entry_def)
  have f: "fs ?s = fs example_s" "out_dir ?s = out_dir example_s"
    by (simp_all add: add_to_queue_def Let_def get_cur_time_def upd_q_def split: option.split)
  have r: "rsl_of ''in/id:000000,x'' = ''id:000000,x''" by (simp add: rsl_of_def base_name_def)
  show ?thesis by (rule okE_mono[OF pivot_inputs_spec[OF q]]) (auto simp: n f r example_s_fields)
qed

lemma strstr_suffix: "strstr n s = Some u \<Longrightarrow> set u \<subseteq> set s"
  by (induction n s rule: strstr.induct) (auto split: if_splits)

lemma fmt06_no_slash: "CHR ''/'' \<notin> set (fmt06 n)"
  using fmt06_digits(1)[of n] by (auto simp: is_digit_def)

text \<open>
  C24. The names are stable: the name \<open>pivot_inputs\<close> gives to entry \<open>idx\<close>, and every name
  \<open>save_if_interesting\<close> gives to a find with that number, is recognised as the entry's own name when
  the fuzzer is started again on that directory, and kept. The number must have at most six digits.
\<close>

theorem resume_names_roundtrip:
  assumes "unat idx < 10 ^ 6" "CHR ''/'' \<notin> set rsl"
  shows "own_name idx (rsl_of (pivot_name dir idx rsl)) \<and>
    pivot_name dir idx (rsl_of (pivot_name dir idx rsl)) = pivot_name dir idx rsl \<and>
    own_name idx (rsl_of (dir @ ''/queue/id:'' @ fmt06 (unat idx) @ '','' @ rsl))"
proof -
  have found: "rsl_of (dir @ ''/queue/id:'' @ fmt06 (unat idx) @ x) = ''id:'' @ fmt06 (unat idx) @ x" if "CHR ''/'' \<notin> set x" for x
    using base_name_append(2)[of "''id:'' @ fmt06 (unat idx) @ x" "dir @ ''/queue''"] that fmt06_no_slash by simp
  have own: "rsl_of (dir @ ''/queue/'' @ rsl) = rsl" using base_name_append(2)[OF assms(2), of "dir @ ''/queue''"] by simp
  define use where "use = (case strstr '',orig:'' rsl of Some u \<Rightarrow> drop 6 u | None \<Rightarrow> rsl)"
  have "CHR ''/'' \<notin> set use"
    using assms(2) strstr_suffix[of "'',orig:''" rsl] by (auto simp: use_def split: option.splits dest: in_set_dropD)
  then have inv: "rsl_of (dir @ ''/queue/id:'' @ fmt06 (unat idx) @ '',orig:'' @ use) = ''id:'' @ fmt06 (unat idx) @ '',orig:'' @ use"
    using found[of "'',orig:'' @ use"] by simp
  have o: "own_name idx (''id:'' @ fmt06 (unat idx) @ x)" for x by (rule own_name_written[OF assms(1)])
  have third: "own_name idx (rsl_of (dir @ ''/queue/id:'' @ fmt06 (unat idx) @ '','' @ rsl))"
    using found[of "'','' @ rsl"] o[of "'','' @ rsl"] assms(2) by simp
  show ?thesis
  proof (cases "own_name idx rsl")
    case True
    then show ?thesis using own third by (simp add: pivot_name_def)
  next
    case False
    have "pivot_name dir idx rsl = dir @ ''/queue/id:'' @ fmt06 (unat idx) @ '',orig:'' @ use" using False by (simp add: pivot_name_def use_def)
    then show ?thesis using inv o[of "'',orig:'' @ use"] third by (simp add: pivot_name_def)
  qed
qed

theorem resume_names_roundtrip_witness:
  "own_name 17 (rsl_of (pivot_name ''out'' 17 ''seed.txt'')) \<and>
   pivot_name ''out'' 17 (rsl_of (pivot_name ''out'' 17 ''seed.txt'')) = pivot_name ''out'' 17 ''seed.txt''"
  using resume_names_roundtrip[of 17 "''seed.txt''" "''out''"] by simp

text \<open>With seven digits the number is not read back, and the entry is renamed.\<close>

lemma long_number_not_recognised: "\<not> own_name 1000000 (''id:'' @ fmt06 1000000 @ '',src:000001'')"
proof -
  have d: "digit_char 0 = CHR ''0''" "digit_char (Suc 0) = CHR ''1''" by code_simp+
  have "dec 1000000 = ''1000000''"
    by (simp add: d dec.simps[of 1000000] dec.simps[of 100000] dec.simps[of 10000] dec.simps[of 1000] dec.simps[of 100] dec.simps[of 10] dec.simps[of "Suc 0"])
  then have "fmt06 1000000 = ''1000000''" by (simp add: fmt06_def pad0_def)
  then show ?thesis by (simp add: own_name_def scan06_def is_space_def is_digit_def)
qed

end
