(* ===== verification/Afl_Sync.thy ===== *)
theory Afl_Sync
  imports Afl_Seeds
begin

unbundle bit_operations_syntax

text \<open>
  \<open>sync_fuzzers\<close> of \<open>afl-fuzz.c\<close>: trying the test cases other fuzzers have put into the shared directory.
  What \<open>opendir\<close> and \<open>readdir\<close> list is an argument, \<open>None\<close> for a directory that cannot be opened, and so
  are \<open>sync_dir\<close> and \<open>sync_id\<close>, which the command line fixes. The number of the next test case to look
  at is kept per fuzzer in a file of four bytes. A name in a foreign queue that is a regular file of the model is read;
  one that is missing is skipped, as by the code when \<open>open\<close> fails, and symbolic links and directories with names of
  test cases, which the code would follow or give up on, are taken to be absent. The name of the other fuzzer goes into the
  256 bytes \<open>describe_op\<close> formats file names in, unchecked: longer names end in \<open>OutOfBounds\<close>, and the statements
  on importing are for names of at most 230 characters.
\<close>

section \<open>State and operations\<close>

record y_state = s_state +
  queued_imported :: u32

text \<open>\<open>sscanf(name, CASE_PREFIX "%06u", &syncing_case)\<close>\<close>

definition scan_case :: "string \<Rightarrow> u32 option" where
  "scan_case name = (if take 3 name = ''id:'' then scan06 (drop 3 name) else None)"

text \<open>Running one foreign test case; \<open>True\<close> stands for the early \<open>return\<close>.\<close>

definition sync_run :: "string \<Rightarrow> u8 list \<Rightarrow> 'a y_state_scheme \<Rightarrow> err + bool \<times> 'a y_state_scheme" where
  "sync_run party d s =
     bindE (write_to_testcase d (length d) s) (\<lambda>s.
     bindE (run_target (exec_tmout s) s) (\<lambda>(fault, s).
       if stop_soon s \<noteq> 0 then Inr (True, s)
       else
         bindE (save_if_interesting d fault (s\<lparr>syncing_party := Some party\<rparr>)) (\<lambda>(kept, s).
         let s = s\<lparr>queued_imported := queued_imported s + (if kept then 1 else 0), syncing_party := None\<rparr>;
             cur = stage_cur s
         in bindE (stats_tick cur False (s\<lparr>stage_cur := cur + 1\<rparr>)) (\<lambda>s. Inr (False, s)))))"

definition sync_case :: "string \<Rightarrow> string \<Rightarrow> u32 \<Rightarrow> string \<Rightarrow> u32 \<times> 'a y_state_scheme \<Rightarrow> err + bool \<times> u32 \<times> 'a y_state_scheme" where
  "sync_case party qd_path min_accept name = (\<lambda>(next_min_accept, s).
     case (if is_dot name then None else scan_case name) of
       None \<Rightarrow> Inr (False, next_min_accept, s)
     | Some c \<Rightarrow>
         let s = s\<lparr>syncing_case := c\<rparr> in
         if c < min_accept then Inr (False, next_min_accept, s)
         else
           let next_min_accept = (if c \<ge> next_min_accept then c + 1 else next_min_accept) in
           case fs s (qd_path @ ''/'' @ name) of
             Some (File d) \<Rightarrow>
               if d \<noteq> [] \<and> length d \<le> MAX_FILE
               then bindE (sync_run party d s) (\<lambda>(stop, s). Inr (stop, next_min_accept, s))
               else Inr (False, next_min_accept, s)
           | _ \<Rightarrow> Inr (False, next_min_accept, s))"

fun sync_cases :: "string \<Rightarrow> string \<Rightarrow> u32 \<Rightarrow> string list \<Rightarrow> u32 \<times> 'a y_state_scheme \<Rightarrow> err + bool \<times> u32 \<times> 'a y_state_scheme" where
  "sync_cases party qd_path min_accept [] (next_min_accept, s) = Inr (False, next_min_accept, s)"
| "sync_cases party qd_path min_accept (name # names) (next_min_accept, s) =
     bindE (sync_case party qd_path min_accept name (next_min_accept, s)) (\<lambda>(stop, ns).
       if stop then Inr (True, ns) else sync_cases party qd_path min_accept names ns)"

text \<open>The file \<open>.synced/<party>\<close>: opened with \<open>O_CREAT\<close>, read, later overwritten from its start.\<close>

definition synced_path :: "'a y_state_scheme \<Rightarrow> string \<Rightarrow> string" where
  "synced_path s party = out_dir s @ ''/.synced/'' @ party"

definition queue_path :: "string \<Rightarrow> string \<Rightarrow> string" where
  "queue_path sync_dir party = sync_dir @ ''/'' @ party @ ''/queue''"

definition open_synced :: "string \<Rightarrow> 'a y_state_scheme \<Rightarrow> err + u8 list \<times> 'a y_state_scheme" where
  "open_synced p s =
     (case fs s p of
        Some (File d) \<Rightarrow> Inr (d, s)
      | Some (Link _) \<Rightarrow> Inl (PFATAL ''Unable to create'')
      | None \<Rightarrow> Inr ([], s\<lparr>fs := (fs s)(p \<mapsto> File [])\<rparr>))"

definition write_synced :: "string \<Rightarrow> u32 \<Rightarrow> 'a y_state_scheme \<Rightarrow> 'a y_state_scheme" where
  "write_synced p n s =
     (let old = (case fs s p of Some (File d) \<Rightarrow> d | _ \<Rightarrow> [])
      in s\<lparr>fs := (fs s)(p \<mapsto> File (le_store 4 n @ drop 4 old))\<rparr>)"

text \<open>One other fuzzer; \<open>True\<close> when the session is to stop.\<close>

definition sync_party :: "(string \<Rightarrow> string list option) \<Rightarrow> string \<Rightarrow> string \<Rightarrow> string \<Rightarrow> 'a y_state_scheme \<Rightarrow> err + bool \<times> 'a y_state_scheme" where
  "sync_party listdir sync_dir sync_id party s =
     (if is_dot party \<or> sync_id = party then Inr (False, s)
      else
        let qd_path = queue_path sync_dir party in
        case listdir qd_path of
          None \<Rightarrow> Inr (False, s)
        | Some names \<Rightarrow>
            let p = synced_path s party in
            bindE (open_synced p s) (\<lambda>(d, s).
            let min_accept = le_load (take 4 d) in
            bindE (sync_cases party qd_path min_accept names (min_accept, s\<lparr>stage_cur := 0, stage_max := 0\<rparr>)) (\<lambda>(stop, next_min_accept, s).
              if stop then Inr (True, s) else Inr (False, write_synced p next_min_accept s))))"

fun sync_parties :: "(string \<Rightarrow> string list option) \<Rightarrow> string \<Rightarrow> string \<Rightarrow> string list \<Rightarrow> 'a y_state_scheme \<Rightarrow> err + 'a y_state_scheme" where
  "sync_parties listdir sync_dir sync_id [] s = Inr s"
| "sync_parties listdir sync_dir sync_id (party # parties) s =
     bindE (sync_party listdir sync_dir sync_id party s) (\<lambda>(stop, s).
       if stop then Inr s else sync_parties listdir sync_dir sync_id parties s)"

definition sync_fuzzers :: "(string \<Rightarrow> string list option) \<Rightarrow> string \<Rightarrow> string \<Rightarrow> 'a y_state_scheme \<Rightarrow> err + 'a y_state_scheme" where
  "sync_fuzzers listdir sync_dir sync_id s =
     (case listdir sync_dir of
        None \<Rightarrow> Inl (PFATAL ''Unable to open'')
      | Some parties \<Rightarrow> sync_parties listdir sync_dir sync_id parties (s\<lparr>stage_max := 0, stage_cur := 0, cur_depth := 0\<rparr>))"

section \<open>Safety\<close>

text \<open>A foreign test case is run and kept under the same contract as one of the fuzzer's own.\<close>

lemma sync_run_ok:
  fixes s :: "'a y_state_scheme"
  assumes x: "x_inv (Suc k) s" and len: "length d < 2 ^ 32" and party: "length party \<le> 230"
  shows "okE (\<lambda>(stop, t). after k s t \<and> stage_max t = stage_max s) (sync_run party d s)"
  unfolding sync_run_def
proof (rule okE_bind[OF write_to_testcase_ok[OF order_refl]], rule okE_bind[OF run_target_ok])
  let ?P = "\<lambda>(stop :: bool, t). after k s t \<and> stage_max t = stage_max s"
  fix s1 and y :: "fault \<times> 'a y_state_scheme" assume s1: "still s s1" and y: "case y of (f, s') \<Rightarrow> ran 1 s1 s'"
  obtain f s2 where ys: "y = (f, s2)" by (cases y)
  have r2: "ran 1 s s2" using still_then_ran[OF s1] y ys by simp
  have stop: "?P (b, s2)" for b
    using after_frame[of s s2 k] x_inv_less[OF x] r2 by (auto simp: ran_def)
  define s3 where "s3 = s2\<lparr>syncing_party := Some party\<rparr>"
  have "still s2 s3" using party by (simp add: s3_def still_def frame_def part_defs)
  then have r3: "ran 1 s s3" by (rule ran_still[OF r2])
  have x3: "x_inv (Suc k) s3" using x x_inv_frame r3 by (auto simp: ran_def)
  have save: "okE ?P (bindE (save_if_interesting d f s3) (\<lambda>(kept, s).
         let s = s\<lparr>queued_imported := queued_imported s + (if kept then 1 else 0), syncing_party := None\<rparr>; cur = stage_cur s
         in bindE (stats_tick cur False (s\<lparr>stage_cur := cur + 1\<rparr>)) (\<lambda>s. Inr (False, s))))"
  proof (rule okE_bind[OF save_if_interesting_ok[OF x3 len]])
    fix r assume "keep_post k (nat CAL_CYCLES_LONG) d s3 r"
    then obtain kp s4 where r4: "r = (kp, s4)" "keep_post k (1 + nat CAL_CYCLES_LONG) d s (kp, s4)" using kept_pre[OF r3] by (metis surj_pair)
    define s5 where "s5 = s4\<lparr>queued_imported := queued_imported s4 + (if kp then 1 else 0), syncing_party := None\<rparr>"
    define s6 where "s6 = s5\<lparr>stage_cur := stage_cur s5 + 1\<rparr>"
    have f4: "fuzzed k s s4" by (rule kept_fuzzed[OF r4(2)]) (simp add: cfg_simps)
    have "frame s4 s6" by (simp add: s6_def s5_def frame_def part_defs)
    then have a6: "after k s s6" using after_trans[OF fuzzed_after[OF f4] after_frame] f4 by (auto simp: fuzzed_def)
    have m6: "stage_max s6 = stage_max s" using f4 by (simp add: s6_def s5_def fuzzed_def)
    have fq: "stats_update_freq s6 \<noteq> 0" using a6 by (simp add: after_def x_inv_def)
    have "okE ?P (bindE (stats_tick (stage_cur s5) False s6) (\<lambda>s. Inr (False, s)))"
      by (rule okE_bind[OF stats_tick_ok[OF fq]]) (use after_still[OF a6] m6 in \<open>auto simp: still_def progress_def\<close>)
    then show "okE ?P (case r of (keeping, s) \<Rightarrow>
         let s = s\<lparr>queued_imported := queued_imported s + (if keeping then 1 else 0), syncing_party := None\<rparr>; cur = stage_cur s
         in bindE (stats_tick cur False (s\<lparr>stage_cur := cur + 1\<rparr>)) (\<lambda>s. Inr (False, s)))"
      unfolding r4(1) prod.case Let_def s5_def s6_def .
  qed
  show "okE ?P (case y of (fault, s) \<Rightarrow> if stop_soon s \<noteq> 0 then Inr (True, s)
       else bindE (save_if_interesting d fault (s\<lparr>syncing_party := Some party\<rparr>)) (\<lambda>(kept, s).
         let s = s\<lparr>queued_imported := queued_imported s + (if kept then 1 else 0), syncing_party := None\<rparr>; cur = stage_cur s
         in bindE (stats_tick cur False (s\<lparr>stage_cur := cur + 1\<rparr>)) (\<lambda>s. Inr (False, s))))"
    using save stop[of True] unfolding ys prod.case s3_def by (cases "stop_soon s2 = 0") (simp_all only: if_True if_False okE_simps simp_thms prod.case)
qed

lemma after_update: "after k s t \<Longrightarrow> frame t u \<Longrightarrow> after k s u"
  using after_trans[OF _ after_frame] after_x_inv by blast

lemma sync_case_ok:
  fixes s :: "'a y_state_scheme"
  assumes "after (Suc k) s0 s" and party: "length party \<le> 230"
  shows "okE (\<lambda>(stop, n', t). after k s0 t) (sync_case party p m name (n, s))"
proof -
  let ?c = "if is_dot name then None else scan_case name"
  have a: "after (Suc k) s0 (s\<lparr>syncing_case := c\<rparr>)" for c by (rule after_update[OF assms(1)]) (simp add: frame_def part_defs)
  have b: "after k s0 s" "after k s0 (s\<lparr>syncing_case := c\<rparr>)" for c using after_mono[OF assms(1)] after_mono[OF a] by simp_all
  have run: "okE (\<lambda>(stop, n', t). after k s0 t) (bindE (sync_run party d (s\<lparr>syncing_case := c\<rparr>)) (\<lambda>(stop, s). Inr (stop, nx, s)))"
    if "length d \<le> MAX_FILE" for d c nx
  proof (rule okE_bind[OF sync_run_ok[OF after_x_inv[OF a] _ party]])
    show "length d < 2 ^ 32" using that by (simp add: cfg_simps)
    fix y :: "bool \<times> 'a y_state_scheme"
    assume "case y of (stop, t) \<Rightarrow> after k (s\<lparr>syncing_case := c\<rparr>) t \<and> stage_max t = stage_max (s\<lparr>syncing_case := c\<rparr>)"
    then show "okE (\<lambda>(stop, n', t). after k s0 t) (case y of (stop, s) \<Rightarrow> Inr (stop, nx, s))" using after_trans[OF a] by (cases y) auto
  qed
  show ?thesis unfolding sync_case_def prod.case
    using b run by (auto simp: Let_def split: option.split node.split)
qed

lemma sync_cases_ok:
  fixes s :: "'a y_state_scheme"
  assumes party: "length party \<le> 230"
  shows "after (k + length names) s0 s \<Longrightarrow> okE (\<lambda>(stop, n', t). after k s0 t) (sync_cases party p m names (n, s))"
proof (induction names arbitrary: n s)
  case Nil
  then show ?case by simp
next
  case (Cons name names)
  have a: "after (Suc (k + length names)) s0 s" using Cons.prems by simp
  show ?case unfolding sync_cases.simps
  proof (rule okE_bind[OF sync_case_ok[OF a party]])
    fix y :: "bool \<times> u32 \<times> 'a y_state_scheme" assume y: "case y of (stop, n', t) \<Rightarrow> after (k + length names) s0 t"
    obtain stop n' t where ys: "y = (stop, n', t)" by (cases y) auto
    have at: "after (k + length names) s0 t" using y ys by simp
    show "okE (\<lambda>(stop, n', t). after k s0 t) (case y of (stop, ns) \<Rightarrow> if stop then Inr (True, ns) else sync_cases party p m names ns)"
      using Cons.IH[OF at, of n'] after_mono[OF at, of k] unfolding ys by (cases stop) simp_all
  qed
qed

text \<open>How many test cases a fuzzer offers, and all of them together.\<close>

definition offered_by :: "(string \<Rightarrow> string list option) \<Rightarrow> string \<Rightarrow> string \<Rightarrow> nat" where
  "offered_by listdir sync_dir party = (case listdir (queue_path sync_dir party) of None \<Rightarrow> 0 | Some names \<Rightarrow> length names)"

lemma sync_party_ok:
  fixes s :: "'a y_state_scheme"
  assumes "after (k + offered_by listdir sync_dir party) s0 s" and party: "length party \<le> 230"
  shows "okE (\<lambda>(stop, t). after k s0 t) (sync_party listdir sync_dir sync_id party s)"
proof (cases "is_dot party \<or> sync_id = party \<or> listdir (queue_path sync_dir party) = None")
  case True
  then show ?thesis using after_mono[OF assms(1), of k] by (auto simp: sync_party_def Let_def)
next
  case False
  then obtain names where n: "listdir (queue_path sync_dir party) = Some names" by auto
  let ?p = "synced_path s party"
  have op: "okE (\<lambda>(d, t). frame s t) (open_synced ?p s)"
    by (auto simp: open_synced_def frame_def part_defs split: option.split node.split)
  have "okE (\<lambda>(stop, t). after k s0 t) (bindE (open_synced ?p s) (\<lambda>(d, s).
            let min_accept = le_load (take 4 d) in
            bindE (sync_cases party (queue_path sync_dir party) min_accept names (min_accept, s\<lparr>stage_cur := 0, stage_max := 0\<rparr>)) (\<lambda>(stop, next_min_accept, s).
              if stop then Inr (True, s) else Inr (False, write_synced ?p next_min_accept s))))"
  proof (rule okE_bind[OF op])
    fix y :: "u8 list \<times> 'a y_state_scheme" assume "case y of (d, t) \<Rightarrow> frame s t"
    then obtain d t where y: "y = (d, t)" "frame s t" by (cases y) auto
    have "frame t (t\<lparr>stage_cur := 0, stage_max := 0\<rparr>)" by (simp add: frame_def part_defs)
    then have a: "after (k + length names) s0 (t\<lparr>stage_cur := 0, stage_max := 0\<rparr>)"
      using after_update[OF after_update[OF assms(1) y(2)]] n by (simp add: offered_by_def)
    have w: "after k s0 (write_synced ?p m u)" if "after k s0 u" for m u
      by (rule after_update[OF that]) (simp add: write_synced_def Let_def frame_def part_defs)
    show "okE (\<lambda>(stop, t). after k s0 t) (case y of (d, s) \<Rightarrow>
            let min_accept = le_load (take 4 d) in
            bindE (sync_cases party (queue_path sync_dir party) min_accept names (min_accept, s\<lparr>stage_cur := 0, stage_max := 0\<rparr>)) (\<lambda>(stop, next_min_accept, s).
              if stop then Inr (True, s) else Inr (False, write_synced ?p next_min_accept s)))"
      unfolding y(1) prod.case Let_def by (rule okE_bind[OF sync_cases_ok[OF party a]]) (auto simp: w)
  qed
  then show ?thesis using False n by (simp add: sync_party_def Let_def)
qed

lemma sync_parties_ok:
  fixes s :: "'a y_state_scheme"
  shows "after (k + sum_list (map (offered_by listdir sync_dir) parties)) s0 s \<Longrightarrow> \<forall>party\<in>set parties. length party \<le> 230 \<Longrightarrow>
    okE (after k s0) (sync_parties listdir sync_dir sync_id parties s)"
proof (induction parties arbitrary: s)
  case Nil
  then show ?case by simp
next
  case (Cons party parties)
  have a: "after ((k + sum_list (map (offered_by listdir sync_dir) parties)) + offered_by listdir sync_dir party) s0 s"
    using Cons.prems(1) by (simp add: ac_simps)
  have party: "length party \<le> 230" using Cons.prems(2) by simp
  show ?case unfolding sync_parties.simps
  proof (rule okE_bind[OF sync_party_ok[OF a party]])
    fix y :: "bool \<times> 'a y_state_scheme" assume "case y of (stop, t) \<Rightarrow> after (k + sum_list (map (offered_by listdir sync_dir) parties)) s0 t"
    then obtain stop t where y: "y = (stop, t)" "after (k + sum_list (map (offered_by listdir sync_dir) parties)) s0 t" by (cases y) auto
    then show "okE (after k s0) (case y of (stop, s) \<Rightarrow> if stop then Inr s else sync_parties listdir sync_dir sync_id parties s)"
      using Cons.IH[OF y(2)] Cons.prems(2) after_mono[OF y(2), of k] by (cases stop) simp_all
  qed
qed

definition offers :: "(string \<Rightarrow> string list option) \<Rightarrow> string \<Rightarrow> nat" where
  "offers listdir sync_dir = (case listdir sync_dir of None \<Rightarrow> 0 | Some parties \<Rightarrow> sum_list (map (offered_by listdir sync_dir) parties))"

text \<open>The names of the other fuzzers fit into the buffer of \<open>describe_op\<close>.\<close>

definition short_names :: "(string \<Rightarrow> string list option) \<Rightarrow> string \<Rightarrow> bool" where
  "short_names listdir sync_dir \<longleftrightarrow> (case listdir sync_dir of None \<Rightarrow> True | Some parties \<Rightarrow> \<forall>party\<in>set parties. length party \<le> 230)"

lemma sync_fuzzers_ok:
  fixes s :: "'a y_state_scheme"
  assumes "after (k + offers listdir sync_dir) s0 s" "short_names listdir sync_dir"
  shows "okE (after k s0) (sync_fuzzers listdir sync_dir sync_id s)"
proof (cases "listdir sync_dir")
  case None
  then show ?thesis by (simp add: sync_fuzzers_def)
next
  case (Some parties)
  have "frame s (s\<lparr>stage_max := 0, stage_cur := 0, cur_depth := 0\<rparr>)" by (simp add: frame_def part_defs)
  then have "after (k + sum_list (map (offered_by listdir sync_dir) parties)) s0 (s\<lparr>stage_max := 0, stage_cur := 0, cur_depth := 0\<rparr>)"
    using after_update[OF assms(1)] Some by (simp add: offers_def)
  then show ?thesis using sync_parties_ok assms(2) Some by (simp add: sync_fuzzers_def short_names_def)
qed

section \<open>The number of the next test case\<close>

text \<open>The new marker depends on the names alone: one more than the largest number that was not below the old one.\<close>

definition case_no :: "string \<Rightarrow> u32 option" where
  "case_no name = (if is_dot name then None else scan_case name)"

definition raise_next :: "u32 \<Rightarrow> string \<Rightarrow> u32 \<Rightarrow> u32" where
  "raise_next m name n =
     (case case_no name of None \<Rightarrow> n | Some c \<Rightarrow> if c < m then n else if c \<ge> n then c + 1 else n)"

lemma sync_case_next: "sync_case party p m name (n, s) = Inr (stop, n', t) \<Longrightarrow> n' = raise_next m name n"
  unfolding sync_case_def case_no_def[symmetric] raise_next_def
  by (auto simp: Let_def elim!: bindE_InrE split: option.splits node.splits if_splits)

lemma sync_cases_next: "sync_cases party p m names (n, s) = Inr (False, n', t) \<Longrightarrow> n' = fold (raise_next m) names n"
proof (induction names arbitrary: n s)
  case Nil
  then show ?case by simp
next
  case (Cons name names)
  then obtain stop n1 s1 where y: "sync_case party p m name (n, s) = Inr (stop, n1, s1)" "\<not> stop"
      "sync_cases party p m names (n1, s1) = Inr (False, n', t)"
    by (auto elim!: bindE_InrE split: if_splits)
  show ?case using Cons.IH[OF y(3)] sync_case_next[OF y(1)] by simp
qed

lemma raise_next_ge:
  assumes "case_no name \<noteq> Some (- 1)"
  shows "n \<le> raise_next m name n" "case_no name = Some c \<Longrightarrow> c < m \<or> c < raise_next m name n"
proof -
  have up: "c < c + 1" if "c \<noteq> - 1" for c :: u32
  proof -
    have "1 + c \<noteq> 0" using that by (simp add: eq_neg_iff_add_eq_0 add.commute)
    then show ?thesis using unatSuc[of c] by (simp add: word_less_nat_alt add.commute)
  qed
  show "n \<le> raise_next m name n"
    using up assms order_trans less_imp_le by (fastforce simp: raise_next_def split: option.split)
  show "case_no name = Some c \<Longrightarrow> c < m \<or> c < raise_next m name n" using up assms by (auto simp: raise_next_def not_le)
qed

lemma fold_raise_next:
  assumes "\<forall>name\<in>set names. case_no name \<noteq> Some (- 1)" "m \<le> n"
  shows "n \<le> fold (raise_next m) names n" "name \<in> set names \<Longrightarrow> case_no name = Some c \<Longrightarrow> c < fold (raise_next m) names n"
proof -
  have "n \<le> fold (raise_next m) names n \<and> (\<forall>name\<in>set names. \<forall>c. case_no name = Some c \<longrightarrow> c < fold (raise_next m) names n)"
    using assms
  proof (induction names arbitrary: n)
    case (Cons name names)
    note r = raise_next_ge[of name, where n = n and m = m]
    have b: "case_no name \<noteq> Some (- 1)" using Cons.prems(1) by simp
    define k where "k = raise_next m name n"
    have k: "m \<le> k" "n \<le> k" using r(1)[OF b] Cons.prems(2) by (auto simp: k_def)
    have IH: "k \<le> fold (raise_next m) names k" "\<forall>name\<in>set names. \<forall>c. case_no name = Some c \<longrightarrow> c < fold (raise_next m) names k"
      using Cons.IH[of k] Cons.prems(1) k(1) by auto
    have "c < fold (raise_next m) names k" if "case_no name = Some c" for c
      using r(2)[OF b that] k(1) IH(1) unfolding k_def[symmetric] by (auto intro: less_le_trans)
    then show ?case using IH k by (auto simp: k_def[symmetric])
  qed simp
  then show "n \<le> fold (raise_next m) names n" "name \<in> set names \<Longrightarrow> case_no name = Some c \<Longrightarrow> c < fold (raise_next m) names n" by auto
qed

text \<open>Names whose numbers are all below the marker are passed over.\<close>

lemma sync_cases_skip:
  assumes "\<forall>name\<in>set names. \<forall>c. case_no name = Some c \<longrightarrow> c < m"
  shows "\<exists>c. sync_cases party p m names (n, s) = Inr (False, n, s\<lparr>syncing_case := c\<rparr>)"
  using assms
proof (induction names arbitrary: s)
  case Nil
  have "s\<lparr>syncing_case := syncing_case s\<rparr> = s" by simp
  then show ?case by (metis sync_cases.simps(1))
next
  case (Cons name names)
  show ?case
  proof (cases "case_no name")
    case None
    then have "sync_case party p m name (n, s) = Inr (False, n, s)" by (simp add: sync_case_def case_no_def[symmetric])
    then show ?thesis using Cons.IH[of s] Cons.prems by simp
  next
    case (Some c)
    then have "sync_case party p m name (n, s) = Inr (False, n, s\<lparr>syncing_case := c\<rparr>)"
      using Cons.prems by (simp add: sync_case_def case_no_def[symmetric])
    then show ?thesis using Cons.IH[of "s\<lparr>syncing_case := c\<rparr>"] Cons.prems by simp
  qed
qed

lemma sync_party_marks:
  assumes "sync_party listdir sync_dir sync_id party s = Inr (False, t)" "\<not> is_dot party" "sync_id \<noteq> party"
    and "listdir (queue_path sync_dir party) = Some names"
  shows "\<exists>m rest. fs t (synced_path s party) = Some (File (le_store 4 (fold (raise_next m) names m :: u32) @ rest)) \<and>
     m = (case fs s (synced_path s party) of Some (File d) \<Rightarrow> le_load (take 4 d) | _ \<Rightarrow> 0)"
proof -
  obtain d s1 where o: "open_synced (synced_path s party) s = Inr (d, s1)"
    and c: "bindE (sync_cases party (queue_path sync_dir party) (le_load (take 4 d)) names (le_load (take 4 d), s1\<lparr>stage_cur := 0, stage_max := 0\<rparr>))
       (\<lambda>(stop, n, u). if stop then Inr (True, u) else Inr (False, write_synced (synced_path s party) n u)) = Inr (False, t)"
    using assms by (auto simp: sync_party_def Let_def elim!: bindE_InrE)
  obtain n u where n: "sync_cases party (queue_path sync_dir party) (le_load (take 4 d)) names (le_load (take 4 d), s1\<lparr>stage_cur := 0, stage_max := 0\<rparr>) = Inr (False, n, u)"
      "t = write_synced (synced_path s party) n u"
    using c by (auto elim!: bindE_InrE split: if_splits)
  have "d = (case fs s (synced_path s party) of Some (File d) \<Rightarrow> d | _ \<Rightarrow> [])"
    using o by (auto simp: open_synced_def split: option.splits node.splits)
  then have "le_load (take 4 d) = (case fs s (synced_path s party) of Some (File d) \<Rightarrow> le_load (take 4 d) | _ \<Rightarrow> (0 :: u32))"
    by (simp split: option.split node.split)
  moreover have "n = fold (raise_next (le_load (take 4 d))) names (le_load (take 4 d))" by (rule sync_cases_next[OF n(1)])
  ultimately show ?thesis using n(2) by (simp add: write_synced_def Let_def)
qed

lemma fold_raise_next_source: "fold (raise_next m) names n = n \<or> (\<exists>name\<in>set names. case_no name = Some (fold (raise_next m) names n - 1))"
proof (induction names arbitrary: n)
  case (Cons name names)
  have "raise_next m name n = n \<or> case_no name = Some (raise_next m name n - 1)" by (auto simp: raise_next_def split: option.split)
  then show ?case using Cons.IH[of "raise_next m name n"] by auto
qed simp

lemma okE_both: "okE P m \<Longrightarrow> (\<And>x. m = Inr x \<Longrightarrow> P x \<Longrightarrow> Q x) \<Longrightarrow> okE Q m"
  by (cases m) auto

lemma sync_party_twice:
  fixes s t :: "'a y_state_scheme"
  assumes "sync_party listdir sync_dir sync_id party s = Inr (False, t)" "out_dir t = out_dir s"
    and "\<And>names. listdir (queue_path sync_dir party) = Some names \<Longrightarrow> \<forall>name\<in>set names. case_no name \<noteq> Some (- 1)"
  shows "\<exists>t'. sync_party listdir sync_dir sync_id party t = Inr (False, t') \<and> exec_pos t' = exec_pos t \<and> qs t' = qs t \<and> fs t' = fs t"
proof (cases "is_dot party \<or> sync_id = party \<or> listdir (queue_path sync_dir party) = None")
  case True
  then show ?thesis by (auto simp: sync_party_def Let_def)
next
  case False
  then obtain names where n: "listdir (queue_path sync_dir party) = Some names" by auto
  let ?p = "synced_path s party"
  obtain m rest where f: "fs t ?p = Some (File (le_store 4 (fold (raise_next m) names m :: u32) @ rest))"
    using sync_party_marks[OF assms(1) _ _ n] False by auto
  define k where "k = fold (raise_next m) names m"
  have p: "synced_path t party = ?p" using assms(2) by (simp add: synced_path_def)
  have l: "length (le_store 4 k) = 4" "le_load (le_store 4 k) = k" by (simp add: le_store_def) (rule le_load_store, simp)
  have "c < k" if "name \<in> set names" "case_no name = Some c" for name c
    unfolding k_def by (rule fold_raise_next(2)[OF assms(3)[OF n] order_refl that])
  then obtain c where c: "sync_cases party (queue_path sync_dir party) k names (k, t\<lparr>stage_cur := 0, stage_max := 0\<rparr>) =
      Inr (False, k, t\<lparr>stage_cur := 0, stage_max := 0, syncing_case := c\<rparr>)"
    using sync_cases_skip[of names k party "queue_path sync_dir party" k "t\<lparr>stage_cur := 0, stage_max := 0\<rparr>"] by auto
  have "(fs t)(?p \<mapsto> File (le_store 4 k @ rest)) = fs t" using f by (simp add: k_def fun_upd_idem_iff)
  then have "sync_party listdir sync_dir sync_id party t = Inr (False, t\<lparr>stage_cur := 0, stage_max := 0, syncing_case := c, fs := fs t\<rparr>)"
    using False n c f l by (simp add: sync_party_def Let_def p open_synced_def write_synced_def k_def[symmetric])
  then show ?thesis by simp
qed

section \<open>Properties\<close>

text \<open>A second fuzzer with three test cases, one of them to be tried, one unreadable, one too old.\<close>

definition example_y :: y_state where
  "example_y = x_state.extend (example_one\<lparr>fs := [''q/a'' \<mapsto> File [1, 2, 3, 4], ''q/b'' \<mapsto> File [5, 6, 7, 8, 9],
       ''o/.synced/f2'' \<mapsto> File [2, 0, 0, 0], ''sd/f2/queue/id:000007,x'' \<mapsto> File [9, 9], ''sd/f2/queue/id:000001,y'' \<mapsto> File [8]]\<rparr>)
     \<lparr>shuffle_queue = False, timeout_given = 0, skip_crashes = False, useless_at_start = 0, queued_at_start = 0, queued_imported = 0\<rparr>"

definition example_listdir :: "string \<Rightarrow> string list option" where
  "example_listdir d = (if d = ''sd'' then Some [''.'', ''f1'', ''f2'', ''f3'']
     else if d = ''sd/f2/queue'' then Some [''.state'', ''id:000001,y'', ''id:000007,x'', ''id:000005,z''] else None)"

lemma x_inv_extend: "x_inv k s \<Longrightarrow> x_inv k (x_state.extend s ext)"
  by (simp add: x_inv_def x_state.extend_def queue_inv_def rated_def named_def)

lemma example_y_inv: "k < 2 ^ 32 - 2 \<Longrightarrow> x_inv k example_y"
proof -
  assume "k < 2 ^ 32 - 2"
  then have "x_inv k example_one" by (rule example_one_inv)
  then have "x_inv k (example_one\<lparr>fs := f\<rparr>)" for f by (rule x_inv_frame[rotated]) (simp add: frame_def part_defs)
  then show ?thesis unfolding example_y_def by (intro x_inv_extend)
qed

lemma example_q0_out: "out_dir example_q0 = ''o''"
  by (simp add: example_q0_def empty_q_def add_to_queue_def Let_def get_cur_time_def upd_q_def)

lemma example_y_fields: "fs example_y ''o/.synced/f2'' = Some (File [2, 0, 0, 0])" "out_dir example_y = ''o''" "map fname (qs example_y) = [''q/a'', ''q/b'']"
proof -
  have "settings example_one = settings example_x" using example_one_frame by (simp add: frame_def)
  then have "out_dir example_one = out_dir example_x" by (simp add: settings_def)
  also have "\<dots> = ''o''"
    using arg_cong[OF conjunct2[OF conjunct2[OF conjunct2[OF example_q_run]]], of out_dir]
    by (simp add: example_x_def example_ex_def ex_state.extend_def q_state.extend_def example_q0_out)
  finally show "out_dir example_y = ''o''" by (simp add: example_y_def x_state.extend_def)
  show "fs example_y ''o/.synced/f2'' = Some (File [2, 0, 0, 0])" by (simp add: example_y_def x_state.extend_def)
  have "map fname (qs example_one) = [''q/a'', ''q/b'']"
    using frame_names(1)[of example_one example_x] example_one_frame example_entry(6) by (simp add: frame_def)
  then show "map fname (qs example_y) = [''q/a'', ''q/b'']" by (simp add: example_y_def x_state.extend_def)
qed

lemma example_listing:
  "example_listdir ''sd'' = Some [''.'', ''f1'', ''f2'', ''f3'']"
  "example_listdir (queue_path ''sd'' ''f2'') = Some [''.state'', ''id:000001,y'', ''id:000007,x'', ''id:000005,z'']"
  "example_listdir (queue_path ''sd'' ''.'') = None" "example_listdir (queue_path ''sd'' ''f1'') = None" "example_listdir (queue_path ''sd'' ''f3'') = None"
  by (simp_all add: example_listdir_def queue_path_def)

lemma example_numbers:
  "case_no ''.state'' = None" "case_no ''id:000001,y'' = Some 1" "case_no ''id:000007,x'' = Some 7" "case_no ''id:000005,z'' = Some 5"
  by (simp_all add: case_no_def is_dot_def scan_case_def scan06_def is_space_def is_digit_def)

text \<open>
  C14. Looking at the queue of another fuzzer: unless the session is being stopped, the number stored
  for that fuzzer never gets smaller, is above the numbers of all test cases it offered, and is one
  more than the number of one of them when it has changed. Looking again at the same listing executes
  nothing, adds nothing to the queue and leaves all files as they are. (Numbers must not be the largest
  32-bit value, whose successor is 0, and the name of the fuzzer has at most 230 characters.)
\<close>

theorem sync_party_spec:
  fixes s :: "'a y_state_scheme"
  assumes "x_inv (offered_by listdir sync_dir party) s" "\<not> is_dot party" "sync_id \<noteq> party"
    and "listdir (queue_path sync_dir party) = Some names" "\<forall>name\<in>set names. case_no name \<noteq> Some (- 1)"
    and party: "length party \<le> 230"
  defines "m \<equiv> (case fs s (synced_path s party) of Some (File d) \<Rightarrow> le_load (take 4 d) | _ \<Rightarrow> 0)"
  shows "okE (\<lambda>(stop, t). \<not> stop \<longrightarrow>
      (\<exists>n rest. fs t (synced_path t party) = Some (File (le_store 4 n @ rest)) \<and> m \<le> n \<and>
         (\<forall>name\<in>set names. \<forall>c. case_no name = Some c \<longrightarrow> c < n) \<and> (n = m \<or> (\<exists>name\<in>set names. case_no name = Some (n - 1)))) \<and>
      (\<exists>t'. sync_party listdir sync_dir sync_id party t = Inr (False, t') \<and> exec_pos t' = exec_pos t \<and> qs t' = qs t \<and> fs t' = fs t))
    (sync_party listdir sync_dir sync_id party s)"
proof (rule okE_both[OF sync_party_ok[OF _ party]])
  show "after (0 + offered_by listdir sync_dir party) s s" using after_refl[OF assms(1)] by simp
  fix y :: "bool \<times> 'a y_state_scheme"
  assume y: "sync_party listdir sync_dir sync_id party s = Inr y" "case y of (stop, t) \<Rightarrow> after 0 s t"
  obtain stop t where ys: "y = (stop, t)" by (cases y)
  have o: "out_dir t = out_dir s" using after_settings y(2) unfolding ys by (fastforce simp: settings_def)
  show "case y of (stop, t) \<Rightarrow> \<not> stop \<longrightarrow>
      (\<exists>n rest. fs t (synced_path t party) = Some (File (le_store 4 n @ rest)) \<and> m \<le> n \<and>
         (\<forall>name\<in>set names. \<forall>c. case_no name = Some c \<longrightarrow> c < n) \<and> (n = m \<or> (\<exists>name\<in>set names. case_no name = Some (n - 1)))) \<and>
      (\<exists>t'. sync_party listdir sync_dir sync_id party t = Inr (False, t') \<and> exec_pos t' = exec_pos t \<and> qs t' = qs t \<and> fs t' = fs t)"
  proof (cases stop)
    case False
    then have r: "sync_party listdir sync_dir sync_id party s = Inr (False, t)" using y(1) ys by simp
    obtain rest where f: "fs t (synced_path s party) = Some (File (le_store 4 (fold (raise_next m) names m) @ rest))"
      using sync_party_marks[OF r assms(2-4)] by (auto simp: m_def)
    have p: "synced_path t party = synced_path s party" using o by (simp add: synced_path_def)
    have "\<exists>n rest. fs t (synced_path t party) = Some (File (le_store 4 n @ rest)) \<and> m \<le> n \<and>
         (\<forall>name\<in>set names. \<forall>c. case_no name = Some c \<longrightarrow> c < n) \<and> (n = m \<or> (\<exists>name\<in>set names. case_no name = Some (n - 1)))"
      unfolding p using f fold_raise_next[OF assms(5) order_refl[of m]] fold_raise_next_source[of m names m]
      by (intro exI[of _ "fold (raise_next m) names m"] exI[of _ rest]) simp
    then show ?thesis unfolding ys prod.case using sync_party_twice[OF r o] assms(4,5) by simp
  qed (simp add: ys)
qed

theorem sync_party_spec_witness:
  "okE (\<lambda>(stop, t). \<not> stop \<longrightarrow> (\<exists>(n :: u32) rest. fs t (synced_path t ''f2'') = Some (File (le_store 4 n @ rest)) \<and> 7 < n))
    (sync_party example_listdir ''sd'' ''f1'' ''f2'' example_y)"
proof -
  have x: "x_inv (offered_by example_listdir ''sd'' ''f2'') example_y" by (rule example_y_inv) (simp add: offered_by_def example_listing)
  show ?thesis
  proof (rule okE_mono[OF sync_party_spec[OF x, of "''f1''", OF _ _ example_listing(2)]], goal_cases)
    case (5 y)
    obtain stop t where y: "y = (stop, t)" by (cases y)
    have "\<exists>(n :: u32) rest. fs t (synced_path t ''f2'') = Some (File (le_store 4 n @ rest)) \<and> 7 < n" if stop: "\<not> stop"
    proof -
      obtain n rest where "fs t (synced_path t ''f2'') = Some (File (le_store 4 n @ rest))"
        and "\<forall>name\<in>set [''.state'', ''id:000001,y'', ''id:000007,x'', ''id:000005,z'']. \<forall>c. case_no name = Some c \<longrightarrow> c < n"
        using 5 stop unfolding y prod.case by blast
      then show ?thesis using example_numbers(3) by (intro exI[of _ n] exI[of _ rest]) simp
    qed
    then show ?case unfolding y by simp
  qed (simp_all add: is_dot_def example_numbers)
qed

text \<open>
  C13. \<open>sync_fuzzers\<close> as a whole never runs into undefined behaviour, keeps the invariant of the globals and
  all queue entries with their lengths, whatever test cases the other fuzzers offer and whatever the target does with
  them, as long as the queue has room for the test cases on offer and the directories of the other fuzzers have names
  of at most 230 characters (a longer one overflows the buffer of \<open>describe_op\<close>).
\<close>

theorem sync_fuzzers_safe:
  fixes s :: "'a y_state_scheme"
  assumes "x_inv (k + offers listdir sync_dir) s" "short_names listdir sync_dir"
  shows "okE (\<lambda>t. x_inv k t \<and> settings t = settings s \<and> prefix (map fname (qs s)) (map fname (qs t)) \<and>
     prefix (map q_len (qs s)) (map q_len (qs t))) (sync_fuzzers listdir sync_dir sync_id s)"
  by (rule okE_mono[OF sync_fuzzers_ok[OF after_refl[OF assms(1)] assms(2)]]) (simp add: after_def)

theorem sync_fuzzers_safe_witness:
  "okE (\<lambda>t. x_inv 9 t \<and> prefix [''q/a'', ''q/b''] (map fname (qs t))) (sync_fuzzers example_listdir ''sd'' ''f1'' example_y)"
proof -
  have x: "x_inv (9 + offers example_listdir ''sd'') example_y" by (rule example_y_inv) (simp add: offers_def offered_by_def example_listing)
  have n: "short_names example_listdir ''sd''" by (simp add: short_names_def example_listing)
  show ?thesis by (rule okE_mono[OF sync_fuzzers_safe[OF x n, of "''f1''"]]) (simp add: example_y_fields)
qed

end
