(* ===== verification/Afl_Main.thy ===== *)
theory Afl_Main
  imports Afl_Sync
begin

unbundle bit_operations_syntax

text \<open>
  The main loop of \<open>afl-fuzz.c\<close>, \<open>while (1)\<close> of \<open>main\<close>: culling, the start of a new cycle through the queue,
  fuzzing one entry, importing from other fuzzers and moving on to the next entry.
\<close>

section \<open>One iteration\<close>

definition SYNC_INTERVAL :: u32 where "SYNC_INTERVAL = 5"

text \<open>What the command line and the environment fix, and the local variables of \<open>main\<close>.\<close>

record main_cfg =
  dirs :: "string \<Rightarrow> string list option"
  sync_with :: "(string \<times> string) option"   \<comment> \<open>\<open>sync_dir\<close> and \<open>sync_id\<close>\<close>
  import_first :: bool
  exit_1 :: bool

record main_local =
  prev_queued :: u64
  sync_interval_cnt :: u32
  seek_to :: u32

definition sync_now :: "main_cfg \<Rightarrow> 'a y_state_scheme \<Rightarrow> err + 'a y_state_scheme" where
  "sync_now cfg s = (case sync_with cfg of None \<Rightarrow> Inr s | Some (dir, me) \<Rightarrow> sync_fuzzers (dirs cfg) dir me s)"

text \<open>\<open>while (seek_to)\<close>\<close>

fun seek_start :: "nat \<Rightarrow> 'a y_state_scheme \<Rightarrow> err + 'a y_state_scheme" where
  "seek_start 0 s = Inr s"
| "seek_start (Suc n) s =
     (case queue_cur s of
        None \<Rightarrow> Inl NullDeref
      | Some q \<Rightarrow> seek_start n (s\<lparr>current_entry := current_entry s + 1, queue_cur := q_next (qs s ! q)\<rparr>))"

text \<open>\<open>if (!queue_cur)\<close>: the next cycle through the queue.\<close>

definition new_cycle :: "main_cfg \<Rightarrow> main_local \<times> 'a y_state_scheme \<Rightarrow> err + main_local \<times> 'a y_state_scheme" where
  "new_cycle cfg = (\<lambda>(l, s).
     bindE (seek_start (unat (seek_to l))
              (s\<lparr>queue_cycle := queue_cycle s + 1, current_entry := 0, cur_skipped_paths := 0, queue_cur := queue s\<rparr>)) (\<lambda>s.
     let s = show_stats s;
         s = (if ucast (queued_paths s) = prev_queued l then
                (if use_splicing s then s\<lparr>cycles_wo_finds := cycles_wo_finds s + 1\<rparr> else s\<lparr>use_splicing := True\<rparr>)
              else s\<lparr>cycles_wo_finds := 0\<rparr>);
         l = l\<lparr>seek_to := 0, prev_queued := ucast (queued_paths s)\<rparr>
     in bindE (if queue_cycle s = 1 \<and> import_first cfg then sync_now cfg s else Inr s) (\<lambda>s. Inr (l, s))))"

definition pick_entry :: "main_cfg \<Rightarrow> main_local \<times> 'a y_state_scheme \<Rightarrow> err + main_local \<times> 'a y_state_scheme" where
  "pick_entry cfg = (\<lambda>(l, s).
     bindE (cull_queue s) (\<lambda>s. if queue_cur s = None then new_cycle cfg (l, s) else Inr (l, s)))"

text \<open>After \<open>fuzz_one\<close>; the first component of the result is \<open>False\<close> when the loop is left.\<close>

definition move_on :: "main_cfg \<Rightarrow> bool \<Rightarrow> main_local \<times> 'a y_state_scheme \<Rightarrow> err + bool \<times> main_local \<times> 'a y_state_scheme" where
  "move_on cfg skipped_fuzz = (\<lambda>(l, s).
     bindE (if stop_soon s = 0 \<and> sync_with cfg \<noteq> None \<and> \<not> skipped_fuzz
            then bindE (if sync_interval_cnt l mod SYNC_INTERVAL = 0 then sync_now cfg s else Inr s) (\<lambda>s.
                   Inr (l\<lparr>sync_interval_cnt := sync_interval_cnt l + 1\<rparr>, s))
            else Inr (l, s)) (\<lambda>(l, s).
     let s = (if stop_soon s = 0 \<and> exit_1 cfg then s\<lparr>stop_soon := 2\<rparr> else s) in
     if stop_soon s \<noteq> 0 then Inr (False, l, s)
     else
       case queue_cur s of
         None \<Rightarrow> Inl NullDeref
       | Some q \<Rightarrow> Inr (True, l, s\<lparr>queue_cur := q_next (qs s ! q), current_entry := current_entry s + 1\<rparr>)))"

definition main_iteration :: "main_cfg \<Rightarrow> main_local \<times> 'a y_state_scheme \<Rightarrow> err + bool \<times> main_local \<times> 'a y_state_scheme" where
  "main_iteration cfg ls =
     bindE (pick_entry cfg ls) (\<lambda>(l, s).
     case queue_cur s of
       None \<Rightarrow> Inl NullDeref
     | Some q \<Rightarrow> bindE (fuzz_one q s) (\<lambda>(skipped_fuzz, s). move_on cfg (skipped_fuzz \<noteq> 0) (l, s)))"

text \<open>The loop itself, which need not end, and what \<open>main\<close> does once it has ended.\<close>

partial_function (option) main_loop ::
  "main_cfg \<Rightarrow> main_local \<times> 'a y_state_scheme \<Rightarrow> (err + main_local \<times> 'a y_state_scheme) option" where
  "main_loop cfg ls =
     (case main_iteration cfg ls of
        Inl e \<Rightarrow> Some (Inl e)
      | Inr (go_on, ls) \<Rightarrow> if go_on then main_loop cfg ls else Some (Inr ls))"

definition main_end :: "'a y_state_scheme \<Rightarrow> 'a y_state_scheme" where
  "main_end s = (let s = (if queue_cur s \<noteq> None then show_stats s else s) in save_auto (write_bitmap s))"

section \<open>The cursor\<close>

text \<open>
  Between two iterations \<open>queue_cur\<close> is either null, at the end of a cycle, or the entry whose number
  \<open>current_entry\<close> is; and a start position left over from an earlier session lies within the queue.
\<close>

definition cursor_ok :: "'a y_state_scheme \<Rightarrow> bool" where
  "cursor_ok s \<longleftrightarrow> (\<forall>q. queue_cur s = Some q \<longrightarrow> q < length (qs s) \<and> current_entry s = of_nat q)"

definition main_inv :: "nat \<Rightarrow> main_local \<times> 'a y_state_scheme \<Rightarrow> bool" where
  "main_inv k = (\<lambda>(l, s). x_inv k s \<and> cursor_ok s \<and> unat (seek_to l) < length (qs s))"

lemma cull_queue_still:
  assumes "x_inv k s"
  shows "okE (still s) (cull_queue s)"
  by (rule okE_mono[OF cull_queue_culled culled_still]) (use assms in \<open>auto simp: x_inv_def\<close>)

lemma seek_start_ok:
  fixes s :: "'a y_state_scheme"
  assumes "queue_inv s" "queue_cur s = Some i" "current_entry s = of_nat i" "i + n < length (qs s)"
  shows "seek_start n s = Inr (s\<lparr>current_entry := of_nat (i + n), queue_cur := Some (i + n)\<rparr>)"
  using assms
proof (induction n arbitrary: i s)
  case 0
  then have "s\<lparr>current_entry := of_nat i, queue_cur := Some i\<rparr> = s" by simp
  then show ?case by simp
next
  case (Suc n)
  have nx: "q_next (qs s ! i) = Some (Suc i)" using Suc.prems(1,4) by (simp add: queue_inv_def Let_def next_of_def)
  let ?t = "s\<lparr>current_entry := current_entry s + 1, queue_cur := Some (Suc i)\<rparr>"
  have "queue_inv ?t" using Suc.prems(1) by (simp add: queue_inv_def)
  then have "seek_start n ?t = Inr (?t\<lparr>current_entry := of_nat (Suc i + n), queue_cur := Some (Suc i + n)\<rparr>)"
    by (rule Suc.IH) (use Suc.prems in simp_all)
  then show ?case using Suc.prems(2) nx by (simp add: add.commute add.left_commute)
qed

text \<open>The names of the other fuzzers fit into the buffer of \<open>describe_op\<close>.\<close>

definition brief :: "main_cfg \<Rightarrow> bool" where
  "brief cfg \<longleftrightarrow> (case sync_with cfg of None \<Rightarrow> True | Some (dir, me) \<Rightarrow> short_names (dirs cfg) dir)"

lemma sync_now_ok:
  fixes s :: "'a y_state_scheme"
  assumes "brief cfg" "later (k + (case sync_with cfg of None \<Rightarrow> 0 | Some (dir, me) \<Rightarrow> offers (dirs cfg) dir)) s0 s"
  shows "okE (later k s0) (sync_now cfg s)"
proof (cases "sync_with cfg")
  case None
  then show ?thesis using assms by (simp add: sync_now_def)
next
  case (Some p)
  obtain dir me where p: "p = (dir, me)" by (cases p)
  have n: "short_names (dirs cfg) dir" using assms(1) Some p by (simp add: brief_def)
  have x: "x_inv (k + offers (dirs cfg) dir) s" using assms(2) Some p by (simp add: later_def)
  show ?thesis unfolding sync_now_def Some p option.case prod.case
    by (rule okE_mono[OF sync_fuzzers_ok[OF after_refl[OF x] n]]) (use later_trans[OF assms(2) after_later] in blast)
qed

definition offered :: "main_cfg \<Rightarrow> nat" where
  "offered cfg = (case sync_with cfg of None \<Rightarrow> 0 | Some (dir, me) \<Rightarrow> offers (dirs cfg) dir)"

lemmas sync_now_later = sync_now_ok[folded offered_def]

lemma later_cursor:
  assumes "later k s t" "cursor_ok s"
  shows "cursor_ok t"
proof -
  have "queue_cur t = queue_cur s" "current_entry t = current_entry s" using assms(1) by (simp_all add: later_def settings_def)
  then show ?thesis using assms(2) later_length[OF assms(1)] by (fastforce simp: cursor_ok_def)
qed

lemma later_names: "later k s t \<Longrightarrow> prefix (map fname (qs s)) (map fname (qs t))"
  by (simp add: later_def)

text \<open>A new cycle starts at the first entry, or at the one a resumed session was at.\<close>

lemma new_cycle_ok:
  fixes s :: "'a y_state_scheme"
  assumes b: "brief cfg" and x: "x_inv (k + offered cfg) s" and st: "unat (seek_to l) < length (qs s)"
  shows "okE (\<lambda>(l', t). main_inv k (l', t) \<and> queue_cur t = Some (unat (seek_to l)) \<and> seek_to l' = 0 \<and>
     queue_cycle t = queue_cycle s + 1 \<and> prefix (map fname (qs s)) (map fname (qs t))) (new_cycle cfg (l, s))"
proof -
  define i where "i = unat (seek_to l)"
  define s1 where "s1 = s\<lparr>queue_cycle := queue_cycle s + 1, current_entry := 0, cur_skipped_paths := 0, queue_cur := queue s\<rparr>"
  define s2 where "s2 = s1\<lparr>current_entry := of_nat i, queue_cur := Some i\<rparr>"
  define s3 where "s3 = show_stats s2"
  define s4 where "s4 = (if ucast (queued_paths s3) = prev_queued l then
      (if use_splicing s3 then s3\<lparr>cycles_wo_finds := cycles_wo_finds s3 + 1\<rparr> else s3\<lparr>use_splicing := True\<rparr>) else s3\<lparr>cycles_wo_finds := 0\<rparr>)"
  have qi: "queue_inv s" using x by (simp add: x_inv_def)
  have q0: "queue s = Some 0" using qi st by (auto simp: queue_inv_def Let_def)
  have "seek_start i s1 = Inr (s1\<lparr>current_entry := of_nat (0 + i), queue_cur := Some (0 + i)\<rparr>)"
    by (rule seek_start_ok) (use qi q0 st in \<open>simp_all add: s1_def i_def queue_inv_def\<close>)
  then have sk: "seek_start i s1 = Inr s2" by (simp add: s2_def)
  have x2: "x_inv (k + offered cfg) s2" using x by (simp add: s2_def s1_def x_inv_def queue_inv_def rated_def named_def)
  have "frame s3 s4" by (simp add: s4_def frame_def part_defs)
  then have l4: "later (k + offered cfg) s2 s4"
    unfolding s3_def using later_frame[OF later_still[OF later_refl[OF x2] show_stats_still]] by simp
  have c2: "cursor_ok s2" using st by (simp add: cursor_ok_def s2_def s1_def i_def)
  have fin: "main_inv k (l', t) \<and> queue_cur t = Some i \<and> queue_cycle t = queue_cycle s + 1 \<and> prefix (map fname (qs s)) (map fname (qs t))"
    if "later k s2 t" "seek_to l' = 0" for t l'
  proof -
    have "length (qs s) \<le> length (qs t)" "prefix (map fname (qs s)) (map fname (qs t))"
      using later_length[OF that(1)] later_names[OF that(1)] by (simp_all add: s2_def s1_def)
    moreover have "x_inv k t" "queue_cur t = Some i" "queue_cycle t = queue_cycle s + 1"
      using that(1) by (simp_all add: later_def settings_def s2_def s1_def)
    ultimately show ?thesis using later_cursor[OF that(1) c2] that(2) st by (auto simp: main_inv_def)
  qed
  define l1 where "l1 = l\<lparr>seek_to := 0, prev_queued := ucast (queued_paths s4)\<rparr>"
  have "okE (later k s2) (if queue_cycle s4 = 1 \<and> import_first cfg then sync_now cfg s4 else Inr s4)"
    using sync_now_later[OF b l4] later_mono[OF l4, of k] by simp
  then have "okE (\<lambda>(l', t). main_inv k (l', t) \<and> queue_cur t = Some i \<and> seek_to l' = 0 \<and> queue_cycle t = queue_cycle s + 1 \<and>
      prefix (map fname (qs s)) (map fname (qs t)))
      (bindE (if queue_cycle s4 = 1 \<and> import_first cfg then sync_now cfg s4 else Inr s4) (\<lambda>s. Inr (l1, s)))"
    by (rule okE_bind) (use fin[of _ l1] in \<open>simp add: l1_def\<close>)
  then show ?thesis
    unfolding new_cycle_def prod.case s1_def[symmetric] i_def[symmetric] sk bindE_simps Let_def s3_def[symmetric] s4_def[symmetric] l1_def[symmetric] .
qed

lemma pick_entry_ok:
  fixes s :: "'a y_state_scheme"
  assumes b: "brief cfg" and inv: "main_inv (k + offered cfg) (l, s)"
  shows "okE (\<lambda>(l', t). main_inv k (l', t) \<and> queue_cur t = (if queue_cur s = None then Some (unat (seek_to l)) else queue_cur s) \<and>
     prefix (map fname (qs s)) (map fname (qs t)) \<and> seek_to l' = (if queue_cur s = None then 0 else seek_to l)) (pick_entry cfg (l, s))"
  unfolding pick_entry_def prod.case
proof (rule okE_bind)
  have x: "x_inv (k + offered cfg) s" using inv by (simp add: main_inv_def)
  show "okE (still s) (cull_queue s)" by (rule cull_queue_still[OF x])
  fix t assume st: "still s t"
  have lt: "later (k + offered cfg) s t" by (rule later_still[OF later_refl[OF x] st])
  have q: "queue_cur t = queue_cur s" using lt by (simp add: later_def settings_def)
  have len: "unat (seek_to l) < length (qs t)" using inv later_length[OF lt] by (simp add: main_inv_def)
  have xt: "x_inv (k + offered cfg) t" using lt by (simp add: later_def)
  show "okE (\<lambda>(l', t). main_inv k (l', t) \<and> queue_cur t = (if queue_cur s = None then Some (unat (seek_to l)) else queue_cur s) \<and>
     prefix (map fname (qs s)) (map fname (qs t)) \<and> seek_to l' = (if queue_cur s = None then 0 else seek_to l)) (if queue_cur t = None then new_cycle cfg (l, t) else Inr (l, t))"
  proof (cases "queue_cur t")
    case None
    have "okE (\<lambda>(l', t). main_inv k (l', t) \<and> queue_cur t = Some (unat (seek_to l)) \<and> prefix (map fname (qs s)) (map fname (qs t)) \<and> seek_to l' = 0) (new_cycle cfg (l, t))"
      by (rule okE_mono[OF new_cycle_ok[OF b xt len]]) (use later_names[OF lt] in \<open>auto intro: prefix_order.order_trans\<close>)
    then show ?thesis using None q by simp
  next
    case (Some i)
    then show ?thesis using q len x_inv_mono[OF xt] later_cursor[OF lt] inv later_names[OF lt] by (simp add: main_inv_def)
  qed
qed

lemma move_on_ok:
  fixes s :: "'a y_state_scheme"
  assumes b: "brief cfg" and inv: "main_inv (k + offered cfg) (l, s)" and q: "queue_cur s = Some q"
  shows "okE (\<lambda>(go_on, l', t). main_inv k (l', t) \<and> prefix (map fname (qs s)) (map fname (qs t)) \<and> (go_on \<longleftrightarrow> stop_soon t = 0) \<and>
     (go_on \<longrightarrow> queue_cur t = next_of (length (qs t)) q) \<and> seek_to l' = seek_to l) (move_on cfg skipped (l, s))"
proof -
  let ?P = "\<lambda>(go_on, l', t :: 'a y_state_scheme). main_inv k (l', t) \<and> prefix (map fname (qs s)) (map fname (qs t)) \<and> (go_on \<longleftrightarrow> stop_soon t = 0) \<and>
     (go_on \<longrightarrow> queue_cur t = next_of (length (qs t)) q) \<and> seek_to l' = seek_to l"
  have x: "x_inv (k + offered cfg) s" and c: "cursor_ok s" and sk: "unat (seek_to l) < length (qs s)" using inv by (auto simp: main_inv_def)
  have l0: "later (k + offered cfg) s s" by (rule later_refl[OF x])
  have sync: "okE (\<lambda>(l', t). later k s t \<and> seek_to l' = seek_to l)
     (if stop_soon s = 0 \<and> sync_with cfg \<noteq> None \<and> \<not> skipped
            then bindE (if sync_interval_cnt l mod SYNC_INTERVAL = 0 then sync_now cfg s else Inr s) (\<lambda>s.
                   Inr (l\<lparr>sync_interval_cnt := sync_interval_cnt l + 1\<rparr>, s))
            else Inr (l, s))"
  proof -
    have "okE (later k s) (if sync_interval_cnt l mod SYNC_INTERVAL = 0 then sync_now cfg s else Inr s)"
      using sync_now_later[OF b l0] later_mono[OF l0, of k] by simp
    then have "okE (\<lambda>(l', t). later k s t \<and> seek_to l' = seek_to l) (bindE (if sync_interval_cnt l mod SYNC_INTERVAL = 0 then sync_now cfg s else Inr s) (\<lambda>s.
                   Inr (l\<lparr>sync_interval_cnt := sync_interval_cnt l + 1\<rparr>, s)))" by (rule okE_bind) simp
    then show ?thesis using later_mono[OF l0, of k] by simp
  qed
  show ?thesis unfolding move_on_def prod.case
  proof (rule okE_bind[OF sync])
    fix y :: "main_local \<times> 'a y_state_scheme" assume "case y of (l', t) \<Rightarrow> later k s t \<and> seek_to l' = seek_to l"
    then obtain l' t where y: "y = (l', t)" and lt: "later k s t" and sl: "seek_to l' = seek_to l" by (cases y) auto
    define u where "u = (if stop_soon t = 0 \<and> exit_1 cfg then t\<lparr>stop_soon := 2\<rparr> else t)"
    have "frame t u" by (simp add: u_def frame_def part_defs)
    then have lu: "later k s u" by (rule later_frame[OF lt])
    have cu: "cursor_ok u" and n: "length (qs s) \<le> length (qs u)" and p: "prefix (map fname (qs s)) (map fname (qs u))"
      using later_cursor[OF lu c] later_length[OF lu] later_names[OF lu] by simp_all
    have xu: "x_inv k u" and qu: "queue_cur u = Some q" using lu q by (simp_all add: later_def settings_def)
    have ql: "q < length (qs u)" "current_entry u = of_nat q" using cu qu by (auto simp: cursor_ok_def)
    have nx: "q_next (qs u ! q) = next_of (length (qs u)) q" using xu ql(1) by (simp add: x_inv_def queue_inv_def Let_def)
    define v where "v = u\<lparr>queue_cur := q_next (qs u ! q), current_entry := current_entry u + 1\<rparr>"
    have "x_inv k v" using xu by (simp add: v_def x_inv_def queue_inv_def rated_def named_def)
    moreover have "cursor_ok v" using ql nx by (auto simp: v_def cursor_ok_def next_of_def)
    ultimately have iv: "main_inv k (l', v)" using sk sl n by (simp add: main_inv_def v_def)
    have iu: "main_inv k (l', u)" using xu cu sk sl n by (simp add: main_inv_def)
    have "okE ?P (if stop_soon u \<noteq> 0 then Inr (False, l', u) else Inr (True, l', v))"
      using iu iv p nx sl by (simp add: v_def)
    then show "okE ?P (case y of (l, s) \<Rightarrow>
       let s = (if stop_soon s = 0 \<and> exit_1 cfg then s\<lparr>stop_soon := 2\<rparr> else s) in
       if stop_soon s \<noteq> 0 then Inr (False, l, s)
       else case queue_cur s of None \<Rightarrow> Inl NullDeref
         | Some q \<Rightarrow> Inr (True, l, s\<lparr>queue_cur := q_next (qs s ! q), current_entry := current_entry s + 1\<rparr>))"
      unfolding y prod.case Let_def u_def[symmetric] qu option.case v_def .
  qed
qed

text \<open>What fuzzing an entry asks of it and of the globals, beyond the invariant.\<close>

definition entry_ready :: "nat \<Rightarrow> 'a y_state_scheme \<Rightarrow> bool" where
  "entry_ready q s \<longleftrightarrow> unat (q_len (qs s ! q)) < 2 ^ 29 \<and>
     (\<forall>d. fs s (fname (qs s ! q)) = Some (File d) \<longrightarrow> unat (q_len (qs s ! q)) \<le> length d) \<and>
     queue_cycle s \<noteq> 0 \<and> havoc_div s \<noteq> 0 \<and> fair (random_src s) \<and> tallies_ok s"

text \<open>Preparing the entry leaves the tallies positive, which its score divides by.\<close>

lemma entry_ready_tallies:
  assumes "entry_ready q s" "fuzz_skip q s = Inr (False, s1)" "fuzz_prepare q d s1 = Inr (r, t)"
  shows "total_cal_cycles t \<noteq> 0 \<and> total_bitmap_entries t \<noteq> 0"
proof (rule fuzz_prepare_tally[OF assms(3)])
  have r: "rng_only s s1" using fuzz_skip_rng[of s q] by (simp add: assms(2))
  show "tallies_ok s1"
    using assms(1) arg_cong[OF r[unfolded rng_only_def], of total_cal_cycles] arg_cong[OF r[unfolded rng_only_def], of total_bitmap_entries]
    by (simp add: rng_erase_def entry_ready_def tallies_ok_def)
qed

lemma okE_bind_eq: "okE Q m \<Longrightarrow> (\<And>x. m = Inr x \<Longrightarrow> Q x \<Longrightarrow> okE P (f x)) \<Longrightarrow> okE P (bindE m f)"
  by (cases m) auto

lemma main_iteration_ok:
  fixes s :: "'a y_state_scheme"
  assumes b: "brief cfg" and inv: "main_inv (((k + offered cfg) + B) + offered cfg) (l, s)"
    and ready: "\<And>l1 s1 q. pick_entry cfg (l, s) = Inr (l1, s1) \<Longrightarrow> queue_cur s1 = Some q \<Longrightarrow>
       entry_ready q s1 \<and> stage_budget (unat (q_len (qs s1 ! q))) (length (extras s1)) \<le> B"
  shows "okE (\<lambda>(go_on, l', t). main_inv k (l', t) \<and> prefix (map fname (qs s)) (map fname (qs t)) \<and> (go_on \<longleftrightarrow> stop_soon t = 0) \<and>
     (go_on \<longrightarrow> queue_cur t = next_of (length (qs t)) (case queue_cur s of Some q \<Rightarrow> q | None \<Rightarrow> unat (seek_to l))) \<and>
     seek_to l' = (if queue_cur s = None then 0 else seek_to l)) (main_iteration cfg (l, s))"
  unfolding main_iteration_def
proof (rule okE_bind_eq[OF pick_entry_ok[OF b inv]])
  let ?q = "case queue_cur s of Some q \<Rightarrow> q | None \<Rightarrow> unat (seek_to l)"
  let ?P = "\<lambda>(go_on, l', t :: 'a y_state_scheme). main_inv k (l', t) \<and> prefix (map fname (qs s)) (map fname (qs t)) \<and> (go_on \<longleftrightarrow> stop_soon t = 0) \<and>
     (go_on \<longrightarrow> queue_cur t = next_of (length (qs t)) ?q) \<and> seek_to l' = (if queue_cur s = None then 0 else seek_to l)"
  fix y :: "main_local \<times> 'a y_state_scheme"
  assume e: "pick_entry cfg (l, s) = Inr y"
    and "case y of (l', t) \<Rightarrow> main_inv ((k + offered cfg) + B) (l', t) \<and>
      queue_cur t = (if queue_cur s = None then Some (unat (seek_to l)) else queue_cur s) \<and> prefix (map fname (qs s)) (map fname (qs t)) \<and>
      seek_to l' = (if queue_cur s = None then 0 else seek_to l)"
  then obtain l1 s1 where y: "y = (l1, s1)" and i1: "main_inv ((k + offered cfg) + B) (l1, s1)" and q1: "queue_cur s1 = Some ?q"
      and p1: "prefix (map fname (qs s)) (map fname (qs s1))" and sk: "seek_to l1 = (if queue_cur s = None then 0 else seek_to l)"
    by (cases y) (auto split: option.splits)
  have r: "entry_ready ?q s1" "stage_budget (unat (q_len (qs s1 ! ?q))) (length (extras s1)) \<le> B" using ready[OF e[unfolded y] q1] by auto
  have x1: "x_inv ((k + offered cfg) + B) s1" and c1: "cursor_ok s1" and sk1: "unat (seek_to l1) < length (qs s1)" using i1 by (auto simp: main_inv_def)
  have ql: "?q < length (qs s1)" using c1 q1 by (simp add: cursor_ok_def)
  have xb: "x_inv ((k + offered cfg) + stage_budget (unat (q_len (qs s1 ! ?q))) (length (extras s1))) s1" by (rule x_inv_mono[OF x1]) (use r(2) in simp)
  have "okE (\<lambda>(ret, t). later (k + offered cfg) s1 t) (fuzz_one ?q s1)"
    by (rule okE_mono[OF fuzz_one_ok[OF ql xb]]) (use r(1) entry_ready_tallies[OF r(1)] in \<open>auto simp: entry_ready_def\<close>)
  then have "okE ?P (bindE (fuzz_one ?q s1) (\<lambda>(skipped_fuzz, s). move_on cfg (skipped_fuzz \<noteq> 0) (l1, s)))"
  proof (rule okE_bind)
    fix z :: "nat \<times> 'a y_state_scheme" assume "case z of (ret, t) \<Rightarrow> later (k + offered cfg) s1 t"
    then obtain ret t where z: "z = (ret, t)" and lt: "later (k + offered cfg) s1 t" by (cases z) auto
    have it: "main_inv (k + offered cfg) (l1, t)"
      using lt later_cursor[OF lt c1] later_length[OF lt] sk1 by (simp add: main_inv_def later_def)
    have qt: "queue_cur t = Some ?q" using lt q1 by (simp add: later_def settings_def)
    have pt: "prefix (map fname (qs s)) (map fname (qs t))" using p1 later_names[OF lt] by (rule prefix_order.order_trans)
    show "okE ?P (case z of (skipped_fuzz, s) \<Rightarrow> move_on cfg (skipped_fuzz \<noteq> 0) (l1, s))"
      unfolding z prod.case by (rule okE_mono[OF move_on_ok[OF b it qt]]) (use pt sk in \<open>auto intro: prefix_order.order_trans\<close>)
  qed
  then show "okE ?P (case y of (l, s) \<Rightarrow> case queue_cur s of None \<Rightarrow> Inl NullDeref
     | Some q \<Rightarrow> bindE (fuzz_one q s) (\<lambda>(skipped_fuzz, s). move_on cfg (skipped_fuzz \<noteq> 0) (l, s)))"
    unfolding y prod.case q1 option.case .
qed

section \<open>Runs of the loop\<close>

text \<open>
  \<open>main_run cfg B x0 ps x\<close>: from \<open>x0\<close> the loop has gone on through \<open>length ps\<close> iterations, which worked on the
  entries \<open>ps\<close>, to \<open>x\<close>. Before each of them the queue had room for what fuzzing an entry may add, up to \<open>B\<close>
  entries, and for what other fuzzers offer, whose names are short, and the entry at the cursor was fit to be fuzzed.
\<close>

definition turn :: "main_local \<times> 'a y_state_scheme \<Rightarrow> nat" where
  "turn = (\<lambda>(l, s). case queue_cur s of Some q \<Rightarrow> q | None \<Rightarrow> unat (seek_to l))"

definition supplied :: "main_cfg \<Rightarrow> nat \<Rightarrow> main_local \<times> 'a y_state_scheme \<Rightarrow> bool" where
  "supplied cfg B x \<longleftrightarrow> brief cfg \<and> length (qs (snd x)) + (offered cfg + B + offered cfg) < 2 ^ 32 \<and>
     (\<forall>l1 s1 q. pick_entry cfg x = Inr (l1, s1) \<longrightarrow> queue_cur s1 = Some q \<longrightarrow>
        entry_ready q s1 \<and> stage_budget (unat (q_len (qs s1 ! q))) (length (extras s1)) \<le> B)"

inductive main_run :: "main_cfg \<Rightarrow> nat \<Rightarrow> main_local \<times> 'a y_state_scheme \<Rightarrow> nat list \<Rightarrow> main_local \<times> 'a y_state_scheme \<Rightarrow> bool"
  for cfg B x0 where
  main_run_start: "main_run cfg B x0 [] x0"
| main_run_step: "main_run cfg B x0 ps x \<Longrightarrow> supplied cfg B x \<Longrightarrow> main_iteration cfg x = Inr (True, y) \<Longrightarrow> main_run cfg B x0 (ps @ [turn x]) y"

lemma main_inv_room: "main_inv 0 x \<Longrightarrow> length (qs (snd x)) + k < 2 ^ 32 \<Longrightarrow> main_inv k x"
  by (cases x) (simp add: main_inv_def x_inv_def)

lemma main_iteration_supplied:
  fixes x :: "main_local \<times> 'a y_state_scheme"
  assumes "main_inv 0 x" "supplied cfg B x"
  shows "okE (\<lambda>(go_on, y). main_inv 0 y \<and> prefix (map fname (qs (snd x))) (map fname (qs (snd y))) \<and> (go_on \<longleftrightarrow> stop_soon (snd y) = 0) \<and>
     (go_on \<longrightarrow> queue_cur (snd y) = next_of (length (qs (snd y))) (turn x)) \<and>
     seek_to (fst y) = (if queue_cur (snd x) = None then 0 else seek_to (fst x))) (main_iteration cfg x)"
proof -
  obtain l s where x: "x = (l, s)" by (cases x)
  have i: "main_inv (((0 + offered cfg) + B) + offered cfg) (l, s)" using main_inv_room[OF assms(1)] assms(2) by (simp add: supplied_def x)
  show ?thesis unfolding x
    by (rule okE_mono[OF main_iteration_ok[OF _ i]]) (use assms(2) in \<open>auto simp: supplied_def x turn_def\<close>)
qed

text \<open>Along every run the invariant holds, and the entries come one after the other, again and again from the first.\<close>

definition in_order :: "nat \<Rightarrow> nat list \<Rightarrow> bool" where
  "in_order start ps \<longleftrightarrow> (ps \<noteq> [] \<longrightarrow> hd ps = start) \<and> (\<forall>i. Suc i < length ps \<longrightarrow> ps ! Suc i = Suc (ps ! i) \<or> ps ! Suc i = 0)"

lemma in_order_snoc:
  assumes "in_order start ps" "ps = [] \<Longrightarrow> q = start" "ps \<noteq> [] \<Longrightarrow> q = Suc (last ps) \<or> q = 0"
  shows "in_order start (ps @ [q])"
proof (cases "ps = []")
  case True
  then show ?thesis using assms(2) by (simp add: in_order_def)
next
  case False
  have "(ps @ [q]) ! Suc i = Suc ((ps @ [q]) ! i) \<or> (ps @ [q]) ! Suc i = 0" if "Suc i < length (ps @ [q])" for i
  proof (cases "Suc i < length ps")
    case True
    then show ?thesis using assms(1) by (simp add: in_order_def nth_append)
  next
    case l: False
    then have "Suc i = length ps" using that by simp
    then have "(ps @ [q]) ! Suc i = q" "(ps @ [q]) ! i = last ps" using False by (auto simp: nth_append last_conv_nth dest: sym)
    then show ?thesis using assms(3)[OF False] by simp
  qed
  then show ?thesis using assms(1) False by (simp add: in_order_def)
qed

lemma main_run_invariant:
  fixes x0 x :: "main_local \<times> 'a y_state_scheme"
  assumes "main_run cfg B x0 ps x" "main_inv 0 x0" "queue_cur (snd x0) = None"
  shows "main_inv 0 x \<and> in_order (unat (seek_to (fst x0))) ps \<and>
    (if ps = [] then x = x0 else queue_cur (snd x) = next_of (length (qs (snd x))) (last ps) \<and> seek_to (fst x) = 0)"
  using assms(1)
proof (induction rule: main_run.induct)
  case main_run_start
  then show ?case using assms(2) by (simp add: in_order_def)
next
  case (main_run_step ps x y)
  have i: "main_inv 0 x" and o: "in_order (unat (seek_to (fst x0))) ps"
    and c: "if ps = [] then x = x0 else queue_cur (snd x) = next_of (length (qs (snd x))) (last ps) \<and> seek_to (fst x) = 0"
    using main_run_step.IH by auto
  have p: "main_inv 0 y" "queue_cur (snd y) = next_of (length (qs (snd y))) (turn x)" "seek_to (fst y) = (if queue_cur (snd x) = None then 0 else seek_to (fst x))"
    using main_iteration_supplied[OF i main_run_step.hyps(2)] main_run_step.hyps(3) by simp_all
  have t1: "turn x = unat (seek_to (fst x0))" if "ps = []" using c that assms(3) by (simp add: turn_def split_beta)
  have t2: "turn x = Suc (last ps) \<or> turn x = 0" if "ps \<noteq> []" using c that by (simp add: turn_def split_beta next_of_def)
  have "seek_to (fst y) = 0" using p(3) c assms(3) by (cases "ps = []") simp_all
  then show ?case using in_order_snoc[OF o t1 t2] p by simp
qed

section \<open>Properties\<close>

definition example_m :: y_state where
  "example_m = example_y\<lparr>score_changed := False, queue_cur := None, queue_cycle := 4, time_src := (\<lambda>_. 0), last_ms := 0\<rparr>"

definition example_cfg :: main_cfg where
  "example_cfg = \<lparr>dirs = example_listdir, sync_with = Some (''sd'', ''f1''), import_first = True, exit_1 = False\<rparr>"

definition example_l :: main_local where
  "example_l = \<lparr>prev_queued = 2, sync_interval_cnt = 5, seek_to = 0\<rparr>"

lemma example_m_entry:
  "qs example_m = qs example_one" "queue_cur example_m = None" "fs example_m ''q/a'' = Some (File [1, 2, 3, 4])" "havoc_div example_m = 1"
  "random_src example_m = (\<lambda>i. i)" "total_cal_cycles example_m = 8" "total_bitmap_entries example_m = 2" "queue_cycle example_m = 4"
  "extras example_m = extras example_x" "score_changed example_m = False"
  "time_src example_m = (\<lambda>_. 0)" "last_ms example_m = 0" "queue example_m = queue example_one"
  by (simp_all add: example_m_def example_y_def x_state.extend_def example_one_fields)

lemma example_m_inv: "k < 2 ^ 32 - 2 \<Longrightarrow> main_inv k (example_l, example_m)"
proof -
  assume "k < 2 ^ 32 - 2"
  then have "x_inv k example_y" by (rule example_y_inv)
  then have "x_inv k example_m" by (simp add: example_m_def x_inv_def queue_inv_def rated_def named_def)
  moreover have "0 < length (qs example_m)" by (simp only: example_m_entry example_one_entry)
  ultimately show ?thesis by (simp add: main_inv_def cursor_ok_def example_m_entry(2) example_l_def)
qed

lemma example_queue: "queue example_m = Some 0"
proof -
  have "queue_inv example_one" using example_one_inv[of 0] by (simp add: x_inv_def)
  then show ?thesis using example_one_entry(1) by (simp add: queue_inv_def Let_def example_m_entry)
qed

lemma example_pick:
  assumes "pick_entry example_cfg (example_l, example_m) = Inr (l1, s1)"
  shows "qs s1 = qs example_one" "queue_cur s1 = Some 0" "fs s1 = fs example_m" "havoc_div s1 = 1" "random_src s1 = (\<lambda>i. i)"
    "total_cal_cycles s1 = 8" "total_bitmap_entries s1 = 2" "queue_cycle s1 = 5" "extras s1 = extras example_x"
  using assms
  by (auto simp: pick_entry_def cull_queue_def new_cycle_def example_l_def show_stats_def get_cur_time_def UI_TARGET_HZ_def Let_def example_queue example_m_entry
      split: if_splits)

lemma example_supplied: "supplied example_cfg 600000 (example_l, example_m)"
proof -
  have room: "length (qs example_m) + (offered example_cfg + 600000 + offered example_cfg) < 2 ^ 32"
    by (simp add: offered_def example_cfg_def offers_def offered_by_def example_listing example_m_entry(1) example_one_entry)
  have "entry_ready q s1 \<and> stage_budget (unat (q_len (qs s1 ! q))) (length (extras s1)) \<le> 600000"
    if "pick_entry example_cfg (example_l, example_m) = Inr (l1, s1)" "queue_cur s1 = Some q" for l1 s1 q
  proof -
    note p = example_pick[OF that(1)]
    have q: "q = 0" using that(2) p(2) by simp
    have f: "fs s1 (fname (qs s1 ! 0)) = Some (File [1, 2, 3, 4])" using p(1,3) example_one_entry(2) example_m_entry(3) by simp
    have "tallies_ok s1" using p by (simp add: tallies_ok_def)
    then have "entry_ready 0 s1"
      unfolding entry_ready_def using f by (simp add: p example_one_entry fair_counter)
    moreover have "stage_budget (unat (q_len (qs s1 ! 0))) (length (extras s1)) \<le> 600000"
      by (simp add: p example_one_entry stage_budget_def example_extras HAVOC_FUEL_def)
    ultimately show ?thesis by (simp add: q)
  qed
  moreover have "brief example_cfg" by (simp add: brief_def example_cfg_def short_names_def example_listing)
  ultimately show ?thesis using room by (auto simp: supplied_def)
qed

text \<open>
  C1. One iteration of the main loop, from any state in which the invariant of the globals and of the
  cursor holds: culling the queue, starting a new cycle at the first entry (or where a resumed session
  stopped) when the last one is over, fuzzing the entry at the cursor and importing from other fuzzers
  runs into no undefined behaviour; culling never reads a trace that was freed. The invariant holds again,
  no entry is lost or renamed, and unless a stop was requested the cursor is at the entry after the one
  that was fuzzed, or at the end. This asks for a state that is \<open>supplied\<close>: the queue has room for what
  may be found and imported; the entry at the cursor, when it is picked, is shorter than 2 to the 29 bytes, its file is
  not shorter than its recorded length, \<open>queue_cycle\<close> and \<open>havoc_div\<close> are not 0, the random source keeps
  changing, and the tallies \<open>total_cal_cycles\<close> and \<open>total_bitmap_entries\<close> the averages are divided
  by are positive and below 2 to the 63; and the directories of the other fuzzers have names of at most 230 characters,
  which the buffer of \<open>describe_op\<close> needs.
\<close>

theorem main_iteration_safe:
  fixes x :: "main_local \<times> 'a y_state_scheme"
  assumes "main_inv 0 x" "supplied cfg B x"
  shows "okE (\<lambda>(go_on, y). main_inv 0 y \<and> prefix (map fname (qs (snd x))) (map fname (qs (snd y))) \<and> (go_on \<longleftrightarrow> stop_soon (snd y) = 0) \<and>
     (go_on \<longrightarrow> queue_cur (snd y) = next_of (length (qs (snd y))) (turn x))) (main_iteration cfg x)"
  by (rule okE_mono[OF main_iteration_supplied[OF assms]]) auto

theorem main_iteration_safe_witness:
  "okE (\<lambda>(go_on, y). main_inv 0 y \<and> prefix [''q/a'', ''q/b''] (map fname (qs (snd y))) \<and> (go_on \<longrightarrow> queue_cur (snd y) = Some 1))
     (main_iteration example_cfg (example_l, example_m))"
proof (rule okE_mono[OF main_iteration_safe[OF example_m_inv example_supplied]])
  fix z :: "bool \<times> main_local \<times> y_state"
  have names: "map fname (qs example_m) = [''q/a'', ''q/b'']" using example_y_fields(3) by (simp add: example_m_def)
  have t: "turn (example_l, example_m) = 0" by (simp add: turn_def example_m_entry(2) example_l_def)
  assume z: "case z of (go_on, y) \<Rightarrow> main_inv 0 y \<and> prefix (map fname (qs (snd (example_l, example_m)))) (map fname (qs (snd y))) \<and>
      (go_on \<longleftrightarrow> stop_soon (snd y) = 0) \<and> (go_on \<longrightarrow> queue_cur (snd y) = next_of (length (qs (snd y))) (turn (example_l, example_m)))"
  have "2 \<le> length (qs (snd (snd z)))" using z prefix_length_le by (fastforce simp: names split_beta)
  then show "case z of (go_on, y) \<Rightarrow> main_inv 0 y \<and> prefix [''q/a'', ''q/b''] (map fname (qs (snd y))) \<and> (go_on \<longrightarrow> queue_cur (snd y) = Some 1)"
    using z by (simp add: names t next_of_def split_beta)
qed simp

end
