(* ===== verification/Afl_Report.thy ===== *)
theory Afl_Report
  imports Complex_Main Afl_Sync
begin

unbundle bit_operations_syntax

text \<open>
  What \<open>afl-fuzz.c\<close> writes about itself: the number formatters \<open>DI\<close>, \<open>DF\<close>, \<open>DMS\<close> and \<open>DTD\<close>, the files
  \<open>fuzzer_stats\<close> (\<open>write_stats_file\<close>) and \<open>plot_data\<close> (\<open>maybe_update_plot_file\<close>), and what a resumed session
  reads back from them (\<open>find_start_position\<close>, \<open>find_timeout\<close>). A finite \<open>double\<close> is the rational number it
  stands for; a division of doubles is rounded to 53 bits.
\<close>

section \<open>Numbers as \<open>printf\<close> writes them\<close>

definition round_even :: "rat \<Rightarrow> int" where
  "round_even y = (let f = \<lfloor>y\<rfloor>; d = y - of_int f in if d < 1 / 2 \<or> d = 1 / 2 \<and> even f then f else f + 1)"

text \<open>\<open>%0.01f\<close> and \<open>%0.02f\<close>: the exact value, rounded to \<open>k\<close> places.\<close>

definition fixed :: "nat \<Rightarrow> rat \<Rightarrow> string" where
  "fixed k x =
     (let n = nat (round_even (\<bar>x\<bar> * 10 ^ k))
      in (if x < 0 then ''-'' else '''') @ dec (n div 10 ^ k) @ ''.'' @ pad0 k (dec (n mod 10 ^ k)))"

text \<open>The double nearest to a number of at least one half.\<close>

fun bit_length :: "nat \<Rightarrow> nat" where
  "bit_length n = (if n = 0 then 0 else Suc (bit_length (n div 2)))"

declare bit_length.simps [simp del]

definition to_double :: "rat \<Rightarrow> rat" where
  "to_double x =
     (let p = bit_length (nat \<lfloor>x\<rfloor>) in of_int (round_even (x * 2 ^ 53 / 2 ^ p)) * 2 ^ p / 2 ^ 53)"

text \<open>The comparison and the quotient of \<open>CHK_FORMAT\<close> for a fractional limit.\<close>

definition below :: "u64 \<Rightarrow> nat \<Rightarrow> rat \<Rightarrow> bool" where
  "below val d times_lim \<longleftrightarrow> to_double (of_nat (unat val)) < to_double (of_nat d * to_double times_lim)"

definition scaled :: "u64 \<Rightarrow> nat \<Rightarrow> rat" where
  "scaled val d = to_double (to_double (of_nat (unat val)) / of_nat d)"

definition DI :: "u64 \<Rightarrow> string" where
  "DI val =
     (if unat val < 10000 then dec (unat val)
      else if below val 1000 (9995 / 100) then fixed 1 (scaled val 1000) @ ''k''
      else if unat val < 1000 * 1000 then dec (unat val div 1000) @ ''k''
      else if below val (1000 * 1000) (9995 / 1000) then fixed 2 (scaled val (1000 * 1000)) @ ''M''
      else if below val (1000 * 1000) (9995 / 100) then fixed 1 (scaled val (1000 * 1000)) @ ''M''
      else if unat val < 1000 * 1000 * 1000 then dec (unat val div (1000 * 1000)) @ ''M''
      else if below val (1000 * 1000 * 1000) (9995 / 1000) then fixed 2 (scaled val (1000 * 1000 * 1000)) @ ''G''
      else if below val (1000 * 1000 * 1000) (9995 / 100) then fixed 1 (scaled val (1000 * 1000 * 1000)) @ ''G''
      else if unat val < 1000 * 1000 * 1000 * 1000 then dec (unat val div (1000 * 1000 * 1000)) @ ''G''
      else if below val (1000 * 1000 * 1000 * 1000) (9995 / 1000) then fixed 2 (scaled val (1000 * 1000 * 1000 * 1000)) @ ''T''
      else if below val (1000 * 1000 * 1000 * 1000) (9995 / 100) then fixed 1 (scaled val (1000 * 1000 * 1000 * 1000)) @ ''T''
      else ''infty'')"

definition DF :: "rat \<Rightarrow> string" where
  "DF val =
     (if val < to_double (99995 / 1000) then fixed 2 val
      else if val < to_double (99995 / 100) then fixed 1 val
      else DI (of_int \<lfloor>val\<rfloor>))"

definition DMS :: "u64 \<Rightarrow> string" where
  "DMS val =
     (if unat val < 10000 then dec (unat val) @ '' B''
      else if below val 1024 (9995 / 100) then fixed 1 (scaled val 1024) @ '' kB''
      else if unat val < 1024 * 1000 then dec (unat val div 1024) @ '' kB''
      else if below val (1024 * 1024) (9995 / 1000) then fixed 2 (scaled val (1024 * 1024)) @ '' MB''
      else if below val (1024 * 1024) (9995 / 100) then fixed 1 (scaled val (1024 * 1024)) @ '' MB''
      else if unat val < 1024 * 1024 * 1000 then dec (unat val div (1024 * 1024)) @ '' MB''
      else if below val (1024 * 1024 * 1024) (9995 / 1000) then fixed 2 (scaled val (1024 * 1024 * 1024)) @ '' GB''
      else if below val (1024 * 1024 * 1024) (9995 / 100) then fixed 1 (scaled val (1024 * 1024 * 1024)) @ '' GB''
      else if unat val < 1024 * 1024 * 1024 * 1000 then dec (unat val div (1024 * 1024 * 1024)) @ '' GB''
      else if below val (1024 * 1024 * 1024 * 1024) (9995 / 1000) then fixed 2 (scaled val (1024 * 1024 * 1024 * 1024)) @ '' TB''
      else if below val (1024 * 1024 * 1024 * 1024) (9995 / 100) then fixed 1 (scaled val (1024 * 1024 * 1024 * 1024)) @ '' TB''
      else ''infty'')"

text \<open>The days are kept in a signed 32-bit variable, which \<open>DI\<close> gets with its sign extended.\<close>

definition DTD :: "u64 \<Rightarrow> u64 \<Rightarrow> string" where
  "DTD cur_ms event_ms =
     (if event_ms = 0 then ''none seen yet''
      else
        let delta = cur_ms - event_ms;
            t_d = (ucast (delta div 1000 div 60 div 60 div 24) :: u32);
            t_h = (delta div 1000 div 60 div 60) mod 24;
            t_m = (delta div 1000 div 60) mod 60;
            t_s = (delta div 1000) mod 60
        in DI (scast t_d) @ '' days, '' @ dec (unat t_h) @ '' hrs, '' @ dec (unat t_m) @ '' min, '' @ dec (unat t_s) @ '' sec'')"

section \<open>How wide the numbers are\<close>

lemma round_even_le: "of_int (round_even y) \<le> y + 1 / 2"
  unfolding round_even_def Let_def by (auto simp: field_simps) linarith+

lemma round_even_ge: "y - 1 / 2 \<le> of_int (round_even y)"
  unfolding round_even_def Let_def by (auto simp: field_simps) linarith+

lemma round_even_eq: "\<bar>y - of_int m\<bar> < 1 / 2 \<Longrightarrow> round_even y = m"
  using round_even_le[of y] round_even_ge[of y] by linarith

lemma bit_length_bounds: "0 < n \<Longrightarrow> 2 ^ bit_length n \<le> 2 * n \<and> n < 2 ^ bit_length n"
proof (induction n rule: bit_length.induct)
  case (1 n)
  show ?case
  proof (cases "n = 1")
    case True
    then show ?thesis by (simp add: bit_length.simps)
  next
    case False
    then have "2 ^ bit_length (n div 2) \<le> 2 * (n div 2) \<and> n div 2 < 2 ^ bit_length (n div 2)" using 1 by simp
    then show ?thesis using 1(2) by (subst (1 2) bit_length.simps) auto
  qed
qed

lemma bit_length_eq: "2 ^ p \<le> 2 * n \<Longrightarrow> n < 2 ^ p \<Longrightarrow> bit_length n = p"
proof -
  assume a: "2 ^ p \<le> 2 * n" "n < 2 ^ p"
  have "0 < n" using a(1) by (cases n) auto
  then have b: "2 ^ bit_length n \<le> 2 * n" "n < 2 ^ bit_length n" using bit_length_bounds by auto
  have "(2 :: nat) ^ p < 2 ^ Suc (bit_length n)" "(2 :: nat) ^ bit_length n < 2 ^ Suc p" using a b by simp_all
  then have "p < Suc (bit_length n)" "bit_length n < Suc p" by (simp_all only: power_strict_increasing_iff one_less_numeral_iff semiring_norm)
  then show ?thesis by simp
qed

lemma to_double_eq:
  assumes "2 ^ p \<le> 2 * x" "x < 2 ^ p" "1 \<le> x" "\<bar>x * 2 ^ 53 / 2 ^ p - of_int m\<bar> < 1 / 2"
  shows "to_double x = of_int m * 2 ^ p / 2 ^ 53"
proof -
  have f: "of_int \<lfloor>x\<rfloor> \<le> x" "x < of_int \<lfloor>x\<rfloor> + 1" by linarith+
  have p: "p \<noteq> 0" using assms(2,3) by (cases p) auto
  then obtain r where r: "p = Suc r" by (cases p) auto
  have "(2 :: rat) ^ r \<le> x" using assms(1) by (simp add: r)
  then have "2 ^ r \<le> \<lfloor>x\<rfloor>" by (simp add: le_floor_iff)
  moreover have "\<lfloor>x\<rfloor> < 2 ^ p" using assms(2) by (simp add: floor_less_iff)
  ultimately have "2 ^ r \<le> nat \<lfloor>x\<rfloor>" "nat \<lfloor>x\<rfloor> < 2 ^ p" by (simp_all add: nat_less_iff le_nat_iff)
  then have "bit_length (nat \<lfloor>x\<rfloor>) = p" by (intro bit_length_eq) (simp_all add: r)
  then show ?thesis using round_even_eq[OF assms(4)] by (simp add: to_double_def)
qed

lemma to_double_nat:
  assumes "0 < n" "n < 2 ^ 53"
  shows "to_double (of_nat n) = of_nat n"
proof -
  let ?p = "bit_length n"
  have b: "2 ^ ?p \<le> 2 * n" "n < 2 ^ ?p" using bit_length_bounds[OF assms(1)] by auto
  have "(2 :: nat) ^ ?p < 2 ^ 54" using b(1) assms(2) by simp
  then have "?p < 54" by (simp only: power_strict_increasing_iff one_less_numeral_iff semiring_norm)
  then have p: "?p \<le> 53" by simp
  then have pw: "(2 :: rat) ^ 53 = 2 ^ ?p * 2 ^ (53 - ?p)" by (simp flip: power_add)
  have "of_nat n * 2 ^ 53 / 2 ^ ?p = (of_int (int n * 2 ^ (53 - ?p)) :: rat)" unfolding pw by simp
  moreover have "(2 :: rat) ^ ?p \<le> 2 * of_nat n" "of_nat n < (2 :: rat) ^ ?p"
    using b by (metis of_nat_le_iff of_nat_mult of_nat_numeral of_nat_power, metis of_nat_less_iff of_nat_numeral of_nat_power)
  ultimately have "to_double (of_nat n) = of_int (int n * 2 ^ (53 - ?p)) * 2 ^ ?p / 2 ^ 53"
    using assms(1) by (intro to_double_eq) simp_all
  also have "\<dots> = of_nat n" unfolding pw by simp
  finally show ?thesis .
qed

lemma to_double_bounds:
  assumes "1 / 2 \<le> x"
  shows "to_double x \<le> x + x / 2 ^ 53" "x - x / 2 ^ 53 \<le> to_double x"
proof -
  let ?p = "bit_length (nat \<lfloor>x\<rfloor>)"
  let ?y = "x * 2 ^ 53 / 2 ^ ?p"
  have f: "of_int \<lfloor>x\<rfloor> \<le> x" by linarith
  have "(2 :: rat) ^ ?p \<le> 2 * x"
  proof (cases "1 \<le> x")
    case True
    then have "1 \<le> \<lfloor>x\<rfloor>" by (simp add: le_floor_iff)
    then have "2 ^ ?p \<le> 2 * nat \<lfloor>x\<rfloor>" "rat_of_nat (nat \<lfloor>x\<rfloor>) = of_int \<lfloor>x\<rfloor>" using bit_length_bounds[of "nat \<lfloor>x\<rfloor>"] by auto
    then have "(2 :: rat) ^ ?p \<le> 2 * of_int \<lfloor>x\<rfloor>" by (metis of_nat_le_iff of_nat_mult of_nat_numeral of_nat_power)
    then show ?thesis using f by linarith
  next
    case False
    then have "\<lfloor>x\<rfloor> = 0" using assms by (simp add: floor_eq_iff)
    then show ?thesis using assms by (simp add: bit_length.simps)
  qed
  then have p: "(2 :: rat) ^ ?p / 2 ^ 54 \<le> x / 2 ^ 53" by (simp add: field_simps)
  have e: "to_double x = of_int (round_even ?y) * 2 ^ ?p / 2 ^ 53" unfolding to_double_def Let_def by (rule refl)
  have "(?y + 1 / 2) * (2 ^ ?p / 2 ^ 53) = x + 2 ^ ?p / 2 ^ 54" "(?y - 1 / 2) * (2 ^ ?p / 2 ^ 53) = x - 2 ^ ?p / 2 ^ 54"
    by (simp_all add: field_simps)
  moreover have "of_int (round_even ?y) * (2 ^ ?p / 2 ^ 53) \<le> (?y + 1 / 2) * (2 ^ ?p / 2 ^ 53)"
    "(?y - 1 / 2) * (2 ^ ?p / 2 ^ 53) \<le> of_int (round_even ?y) * (2 ^ ?p / 2 ^ 53)"
    by (intro mult_right_mono round_even_le round_even_ge; simp)+
  ultimately show "to_double x \<le> x + x / 2 ^ 53" "x - x / 2 ^ 53 \<le> to_double x" using p e by simp_all
qed

lemma dec_width: "0 < k \<Longrightarrow> n < 10 ^ k \<Longrightarrow> length (dec n) \<le> k"
  by (rule dec_length)

lemma fixed_width:
  assumes "0 \<le> x" "x * 10 ^ k + 1 / 2 < 10 ^ (j + k)" "0 < j" "0 < k"
  shows "length (fixed k x) \<le> j + k + 1"
proof -
  define n where "n = nat (round_even (x * 10 ^ k))"
  have "of_int (round_even (x * 10 ^ k)) < (10 ^ (j + k) :: rat)" using round_even_le[of "x * 10 ^ k"] assms(2) by linarith
  also have "\<dots> = of_int (10 ^ (j + k))" by simp
  finally have "round_even (x * 10 ^ k) < 10 ^ (j + k)" by (simp only: of_int_less_iff)
  then have n: "n < 10 ^ (j + k)" unfolding n_def by (simp add: nat_less_iff)
  then have "n div 10 ^ k < 10 ^ j" by (simp add: less_mult_imp_div_less power_add)
  then have "length (dec (n div 10 ^ k)) \<le> j" by (rule dec_width[OF assms(3)])
  moreover have "length (dec (n mod 10 ^ k)) \<le> k" by (rule dec_width[OF assms(4)]) simp
  ultimately show ?thesis using assms(1) by (simp add: fixed_def Let_def pad0_def n_def[symmetric] abs_of_nonneg)
qed

text \<open>The limits as the compiler computes them.\<close>

lemma double_limits:
  "to_double (1999 / 20) = 7033355980557517 / 70368744177664"
  "to_double (1999 / 200) = 5626684784446013 / 562949953421312"
  using to_double_eq[of 7 "9995 / 100" 7033355980557517] to_double_eq[of 4 "9995 / 1000" 5626684784446013] by simp_all

text \<open>One case of \<open>CHK_FORMAT\<close> with a fractional limit: \<open>c\<close> is the greatest number below it.\<close>

lemma below_le:
  assumes "below val d f" "to_double (of_nat d * to_double f) \<le> of_nat (Suc c)" "c < 2 ^ 50" "0 < unat val"
  shows "unat val \<le> c"
proof (cases "unat val < 2 ^ 53")
  case True
  then have "(of_nat (unat val) :: rat) < of_nat (Suc c)" using assms to_double_nat[of "unat val"] by (simp add: below_def)
  then show ?thesis by (simp only: of_nat_less_iff)
next
  case False
  define x where "x = (of_nat (unat val) :: rat)"
  have x: "2 ^ 53 \<le> x" using False unfolding x_def by (metis not_less of_nat_le_iff of_nat_numeral of_nat_power)
  have "to_double x < of_nat (Suc c)" using assms(1,2) by (simp add: below_def x_def)
  moreover have "(of_nat (Suc c) :: rat) \<le> 2 ^ 50" using assms(3) by (metis Suc_leI of_nat_le_iff of_nat_numeral of_nat_power)
  moreover have "x - x / 2 ^ 53 \<le> to_double x" using x by (intro to_double_bounds(2)) simp
  ultimately show ?thesis using x by simp
qed

lemma scaled_width:
  assumes "below val d f" "to_double (of_nat d * to_double f) \<le> of_nat (Suc c)" "c < 2 ^ 50" "d \<le> 2 * unat val" "0 < d"
    and "of_nat c / of_nat d * (1 + 1 / 2 ^ 53) * 10 ^ k + (1 / 2 :: rat) < 10 ^ (j + k)" "0 < j" "0 < k"
  shows "length (fixed k (scaled val d)) \<le> j + k + 1"
proof (rule fixed_width)
  define x where "x = (of_nat (unat val) / of_nat d :: rat)"
  have c: "unat val \<le> c" using below_le[OF assms(1-3)] assms(4,5) by simp
  then have sc: "scaled val d = to_double x" using assms(3-5) to_double_nat[of "unat val"] by (simp add: scaled_def x_def)
  have "(of_nat d :: rat) \<le> 2 * of_nat (unat val)" using assms(4) by (metis of_nat_le_iff of_nat_mult of_nat_numeral)
  then have "1 / 2 \<le> x" using assms(5) unfolding x_def by (simp add: le_divide_eq del: of_nat_unat)
  then have b: "to_double x \<le> x * (1 + 1 / 2 ^ 53)" "x - x / 2 ^ 53 \<le> to_double x" using to_double_bounds[of x] by (simp_all add: algebra_simps)
  show "0 \<le> scaled val d" using b(2) \<open>1 / 2 \<le> x\<close> by (simp add: sc)
  have "(of_nat (unat val) :: rat) \<le> of_nat c" using c by (simp only: of_nat_le_iff)
  then have "x \<le> of_nat c / of_nat d" unfolding x_def by (intro divide_right_mono) simp_all
  then have "x * (1 + 1 / 2 ^ 53) \<le> of_nat c / of_nat d * (1 + 1 / 2 ^ 53)" by (intro mult_right_mono) simp_all
  then have "to_double x * 10 ^ k \<le> of_nat c / of_nat d * (1 + 1 / 2 ^ 53) * 10 ^ k" using b(1) by (intro mult_right_mono) simp_all
  then show "scaled val d * 10 ^ k + 1 / 2 < 10 ^ (j + k)" using assms(6) by (simp add: sc)
qed (use assms in simp_all)

lemma whole_width:
  assumes "unat val < d * 1000" "0 < d"
  shows "length (dec (unat val div d)) \<le> 3"
  using assms by (intro dec_width) (simp_all add: less_mult_imp_div_less mult.commute)

lemma DI_widths:
  "below val 1000 (9995 / 100) \<Longrightarrow> 1000 \<le> 2 * unat val \<Longrightarrow> length (fixed 1 (scaled val 1000)) \<le> 4"
  "below val (1000 * 1000) (9995 / 100) \<Longrightarrow> 1000000 \<le> 2 * unat val \<Longrightarrow> length (fixed 1 (scaled val (1000 * 1000))) \<le> 4"
  "below val (1000 * 1000) (9995 / 1000) \<Longrightarrow> 1000000 \<le> 2 * unat val \<Longrightarrow> length (fixed 2 (scaled val (1000 * 1000))) \<le> 4"
  "below val (1000 * 1000 * 1000) (9995 / 100) \<Longrightarrow> 1000000000 \<le> 2 * unat val \<Longrightarrow> length (fixed 1 (scaled val (1000 * 1000 * 1000))) \<le> 4"
  "below val (1000 * 1000 * 1000) (9995 / 1000) \<Longrightarrow> 1000000000 \<le> 2 * unat val \<Longrightarrow> length (fixed 2 (scaled val (1000 * 1000 * 1000))) \<le> 4"
  "below val (1000 * 1000 * 1000 * 1000) (9995 / 100) \<Longrightarrow> 1000000000000 \<le> 2 * unat val \<Longrightarrow> length (fixed 1 (scaled val (1000 * 1000 * 1000 * 1000))) \<le> 4"
  "below val (1000 * 1000 * 1000 * 1000) (9995 / 1000) \<Longrightarrow> 1000000000000 \<le> 2 * unat val \<Longrightarrow> length (fixed 2 (scaled val (1000 * 1000 * 1000 * 1000))) \<le> 4"
proof -
  show "below val 1000 (9995 / 100) \<Longrightarrow> 1000 \<le> 2 * unat val \<Longrightarrow> length (fixed 1 (scaled val 1000)) \<le> 4"
    using scaled_width[of val "1000" "9995 / 100" 99949 1 2] to_double_eq[of 17 "of_nat 1000 * to_double (9995 / 100)" 6868511699763200] by (simp add: double_limits)
  show "below val (1000 * 1000) (9995 / 100) \<Longrightarrow> 1000000 \<le> 2 * unat val \<Longrightarrow> length (fixed 1 (scaled val (1000 * 1000))) \<le> 4"
    using scaled_width[of val "(1000 * 1000)" "9995 / 100" 99949999 1 2] to_double_eq[of 27 "of_nat (1000 * 1000) * to_double (9995 / 100)" 6707530956800000] by (simp add: double_limits)
  show "below val (1000 * 1000) (9995 / 1000) \<Longrightarrow> 1000000 \<le> 2 * unat val \<Longrightarrow> length (fixed 2 (scaled val (1000 * 1000))) \<le> 4"
    using scaled_width[of val "(1000 * 1000)" "9995 / 1000" 9994999 2 1] to_double_eq[of 24 "of_nat (1000 * 1000) * to_double (9995 / 1000)" 5366024765440000] by (simp add: double_limits)
  show "below val (1000 * 1000 * 1000) (9995 / 100) \<Longrightarrow> 1000000000 \<le> 2 * unat val \<Longrightarrow> length (fixed 1 (scaled val (1000 * 1000 * 1000))) \<le> 4"
    using scaled_width[of val "(1000 * 1000 * 1000)" "9995 / 100" 99949999999 1 2] to_double_eq[of 37 "of_nat (1000 * 1000 * 1000) * to_double (9995 / 100)" 6550323200000000] by (simp add: double_limits)
  show "below val (1000 * 1000 * 1000) (9995 / 1000) \<Longrightarrow> 1000000000 \<le> 2 * unat val \<Longrightarrow> length (fixed 2 (scaled val (1000 * 1000 * 1000))) \<le> 4"
    using scaled_width[of val "(1000 * 1000 * 1000)" "9995 / 1000" 9994999999 2 1] to_double_eq[of 34 "of_nat (1000 * 1000 * 1000) * to_double (9995 / 1000)" 5240258560000000] by (simp add: double_limits)
  show "below val (1000 * 1000 * 1000 * 1000) (9995 / 100) \<Longrightarrow> 1000000000000 \<le> 2 * unat val \<Longrightarrow> length (fixed 1 (scaled val (1000 * 1000 * 1000 * 1000))) \<le> 4"
    using scaled_width[of val "(1000 * 1000 * 1000 * 1000)" "9995 / 100" 99949999999999 1 2] to_double_eq[of 47 "of_nat (1000 * 1000 * 1000 * 1000) * to_double (9995 / 100)" 6396800000000000] by (simp add: double_limits)
  show "below val (1000 * 1000 * 1000 * 1000) (9995 / 1000) \<Longrightarrow> 1000000000000 \<le> 2 * unat val \<Longrightarrow> length (fixed 2 (scaled val (1000 * 1000 * 1000 * 1000))) \<le> 4"
    using scaled_width[of val "(1000 * 1000 * 1000 * 1000)" "9995 / 1000" 9994999999999 2 1] to_double_eq[of 44 "of_nat (1000 * 1000 * 1000 * 1000) * to_double (9995 / 1000)" 5117440000000000] by (simp add: double_limits)
qed

lemma DMS_widths:
  "below val 1024 (9995 / 100) \<Longrightarrow> 1024 \<le> 2 * unat val \<Longrightarrow> length (fixed 1 (scaled val 1024)) \<le> 4"
  "below val (1024 * 1024) (9995 / 100) \<Longrightarrow> 1048576 \<le> 2 * unat val \<Longrightarrow> length (fixed 1 (scaled val (1024 * 1024))) \<le> 4"
  "below val (1024 * 1024) (9995 / 1000) \<Longrightarrow> 1048576 \<le> 2 * unat val \<Longrightarrow> length (fixed 2 (scaled val (1024 * 1024))) \<le> 4"
  "below val (1024 * 1024 * 1024) (9995 / 100) \<Longrightarrow> 1073741824 \<le> 2 * unat val \<Longrightarrow> length (fixed 1 (scaled val (1024 * 1024 * 1024))) \<le> 4"
  "below val (1024 * 1024 * 1024) (9995 / 1000) \<Longrightarrow> 1073741824 \<le> 2 * unat val \<Longrightarrow> length (fixed 2 (scaled val (1024 * 1024 * 1024))) \<le> 4"
  "below val (1024 * 1024 * 1024 * 1024) (9995 / 100) \<Longrightarrow> 1099511627776 \<le> 2 * unat val \<Longrightarrow> length (fixed 1 (scaled val (1024 * 1024 * 1024 * 1024))) \<le> 4"
  "below val (1024 * 1024 * 1024 * 1024) (9995 / 1000) \<Longrightarrow> 1099511627776 \<le> 2 * unat val \<Longrightarrow> length (fixed 2 (scaled val (1024 * 1024 * 1024 * 1024))) \<le> 4"
proof -
  show "below val 1024 (9995 / 100) \<Longrightarrow> 1024 \<le> 2 * unat val \<Longrightarrow> length (fixed 1 (scaled val 1024)) \<le> 4"
    using scaled_width[of val "1024" "9995 / 100" 102348 1 2] to_double_eq[of 17 "of_nat 1024 * to_double (9995 / 100)" 7033355980557517] by (simp add: double_limits)
  show "below val (1024 * 1024) (9995 / 100) \<Longrightarrow> 1048576 \<le> 2 * unat val \<Longrightarrow> length (fixed 1 (scaled val (1024 * 1024))) \<le> 4"
    using scaled_width[of val "(1024 * 1024)" "9995 / 100" 104805171 1 2] to_double_eq[of 27 "of_nat (1024 * 1024) * to_double (9995 / 100)" 7033355980557517] by (simp add: double_limits)
  show "below val (1024 * 1024) (9995 / 1000) \<Longrightarrow> 1048576 \<le> 2 * unat val \<Longrightarrow> length (fixed 2 (scaled val (1024 * 1024))) \<le> 4"
    using scaled_width[of val "(1024 * 1024)" "9995 / 1000" 10480517 2 1] to_double_eq[of 24 "of_nat (1024 * 1024) * to_double (9995 / 1000)" 5626684784446013] by (simp add: double_limits)
  show "below val (1024 * 1024 * 1024) (9995 / 100) \<Longrightarrow> 1073741824 \<le> 2 * unat val \<Longrightarrow> length (fixed 1 (scaled val (1024 * 1024 * 1024))) \<le> 4"
    using scaled_width[of val "(1024 * 1024 * 1024)" "9995 / 100" 107320495308 1 2] to_double_eq[of 37 "of_nat (1024 * 1024 * 1024) * to_double (9995 / 100)" 7033355980557517] by (simp add: double_limits)
  show "below val (1024 * 1024 * 1024) (9995 / 1000) \<Longrightarrow> 1073741824 \<le> 2 * unat val \<Longrightarrow> length (fixed 2 (scaled val (1024 * 1024 * 1024))) \<le> 4"
    using scaled_width[of val "(1024 * 1024 * 1024)" "9995 / 1000" 10732049530 2 1] to_double_eq[of 34 "of_nat (1024 * 1024 * 1024) * to_double (9995 / 1000)" 5626684784446013] by (simp add: double_limits)
  show "below val (1024 * 1024 * 1024 * 1024) (9995 / 100) \<Longrightarrow> 1099511627776 \<le> 2 * unat val \<Longrightarrow> length (fixed 1 (scaled val (1024 * 1024 * 1024 * 1024))) \<le> 4"
    using scaled_width[of val "(1024 * 1024 * 1024 * 1024)" "9995 / 100" 109896187196211 1 2] to_double_eq[of 47 "of_nat (1024 * 1024 * 1024 * 1024) * to_double (9995 / 100)" 7033355980557517] by (simp add: double_limits)
  show "below val (1024 * 1024 * 1024 * 1024) (9995 / 1000) \<Longrightarrow> 1099511627776 \<le> 2 * unat val \<Longrightarrow> length (fixed 2 (scaled val (1024 * 1024 * 1024 * 1024))) \<le> 4"
    using scaled_width[of val "(1024 * 1024 * 1024 * 1024)" "9995 / 1000" 10989618719621 2 1] to_double_eq[of 44 "of_nat (1024 * 1024 * 1024 * 1024) * to_double (9995 / 1000)" 5626684784446013] by (simp add: double_limits)
qed


lemma DI_width: "length (DI val) \<le> 5"
proof -
  have "length (dec (unat val)) \<le> 5" if "unat val < 10000" using that by (intro dec_width) simp_all
  moreover have "length (dec (unat val div 1000)) \<le> 4" if "unat val < 1000000" using that whole_width[of val 1000] by simp
  moreover have "length (dec (unat val div 1000000)) \<le> 4" if "unat val < 1000000000" using that whole_width[of val 1000000] by simp
  moreover have "length (dec (unat val div 1000000000)) \<le> 4" if "unat val < 1000000000000" using that whole_width[of val 1000000000] by simp
  ultimately show ?thesis unfolding DI_def using DI_widths[of val] by (simp add: not_less split: if_split)
qed

lemma DMS_width: "length (DMS val) \<le> 7"
proof -
  have "length (dec (unat val)) \<le> 5" if "unat val < 10000" using that by (intro dec_width) simp_all
  moreover have "length (dec (unat val div 1024)) \<le> 4" if "unat val < 1024000" using that whole_width[of val 1024] by simp
  moreover have "length (dec (unat val div 1048576)) \<le> 4" if "unat val < 1048576000" using that whole_width[of val 1048576] by simp
  moreover have "length (dec (unat val div 1073741824)) \<le> 4" if "unat val < 1073741824000" using that whole_width[of val 1073741824] by simp
  ultimately show ?thesis unfolding DMS_def using DMS_widths[of val] by (simp add: not_less split: if_split)
qed

text \<open>
  The number formatters fit their buffers, for all 64-bit arguments: at most five characters
  for \<open>DI\<close>, seven for \<open>DMS\<close>, 34 for \<open>DTD\<close>, also where the time runs backwards, the days overflow their 32-bit
  variable, or a quotient is rounded.
\<close>

lemma number_widths: "length (DI val) \<le> 5" "length (DMS val) \<le> 7" "length (DTD cur_ms event_ms) \<le> 34"
proof -
  show "length (DI val) \<le> 5" by (rule DI_width)
  show "length (DMS val) \<le> 7" by (rule DMS_width)
  have "length (dec (unat (x mod n))) \<le> 2" if "0 < n" "n \<le> 60" for x n :: u64
  proof (rule dec_width)
    have "unat (x mod n) < unat n" using that(1) by (simp add: unat_mod word_gt_0 unat_gt_0)
    then show "unat (x mod n) < 10 ^ 2" using that(2) by (simp add: word_le_nat_alt)
  qed simp
  then have two: "length (dec (unat (x mod 24))) \<le> 2" "length (dec (unat (x mod 60))) \<le> 2" for x :: u64 by simp_all
  define x where "x = (cur_ms - event_ms) div 1000"
  show "length (DTD cur_ms event_ms) \<le> 34"
    using DI_width[of "scast (ucast (x div 60 div 60 div 24) :: u32)"] two(1)[of "x div 60 div 60"] two(2)[of "x div 60"] two(2)[of x]
    unfolding DTD_def Let_def x_def[symmetric] by simp
qed

section \<open>The statistics file\<close>

definition VERSION :: string where "VERSION = ''2.52b''"

record r_state = y_state +
  in_place_resume :: bool
  fuzzer_pid :: u32
  last_bcvg :: rat
  last_stab :: rat
  last_eps :: rat
  use_banner :: string
  qemu_mode :: bool
  persistent_mode :: bool
  deferred_mode :: bool
  orig_cmdline :: string
  plot_file :: string
  prev_plot :: "u32 \<times> u32 \<times> u32 \<times> u32 \<times> u64 \<times> u64 \<times> u64 \<times> u32"
    \<comment> \<open>\<open>prev_qp\<close>, \<open>prev_pf\<close>, \<open>prev_pnf\<close>, \<open>prev_ce\<close>, \<open>prev_qc\<close>, \<open>prev_uc\<close>, \<open>prev_uh\<close>, \<open>prev_md\<close>\<close>

abbreviation newline :: char where "newline \<equiv> CHR 0x0A"

definition stats_line :: "string \<times> string \<Rightarrow> string" where
  "stats_line = (\<lambda>(name, v). name @ v @ [newline])"

definition target_mode :: "'a r_state_scheme \<Rightarrow> string" where
  "target_mode s =
     (if qemu_mode s then ''qemu '' else '''') @ (if dumb_mode s \<noteq> 0 then '' dumb '' else '''') @
     (if no_forkserver s then ''no_forksrv '' else '''') @ (if crash_mode s \<noteq> FAULT_NONE then ''crash '' else '''') @
     (if persistent_mode s then ''persistent '' else '''') @ (if deferred_mode s then ''deferred '' else '''') @
     (if qemu_mode s \<or> dumb_mode s \<noteq> 0 \<or> no_forkserver s \<or> crash_mode s \<noteq> FAULT_NONE \<or> persistent_mode s \<or> deferred_mode s
      then '''' else ''default'')"

abbreviation dec_u :: "'l::len word \<Rightarrow> string" where "dec_u w \<equiv> dec (unat w)"

text \<open>The lines in front of the one \<open>find_start_position\<close> looks for, that one, and the others.\<close>

definition stats_head :: "rat \<Rightarrow> u64 \<Rightarrow> 'a r_state_scheme \<Rightarrow> (string \<times> string) list" where
  "stats_head eps now s =
     [(''start_time        : '', dec_u (start_time s div 1000)),
      (''last_update       : '', dec_u (now div 1000)),
      (''fuzzer_pid        : '', dec_u (fuzzer_pid s)),
      (''cycles_done       : '', dec_u (if queue_cycle s \<noteq> 0 then queue_cycle s - 1 else 0)),
      (''execs_done        : '', dec_u (total_execs s)),
      (''execs_per_sec     : '', fixed 2 eps),
      (''paths_total       : '', dec_u (queued_paths s)),
      (''paths_favored     : '', dec_u (queued_favored s)),
      (''paths_found       : '', dec_u (queued_discovered s)),
      (''paths_imported    : '', dec_u (queued_imported s)),
      (''max_depth         : '', dec_u (max_depth s))]"

definition stats_cur_path :: "'a r_state_scheme \<Rightarrow> string \<times> string" where
  "stats_cur_path s = (''cur_path          : '', dec_u (current_entry s))"

definition stats_tail :: "rat \<Rightarrow> rat \<Rightarrow> 'a r_state_scheme \<Rightarrow> (string \<times> string) list" where
  "stats_tail bitmap_cvg stability s =
     [(''pending_favs      : '', dec_u (pending_favored s)),
      (''pending_total     : '', dec_u (pending_not_fuzzed s)),
      (''variable_paths    : '', dec_u (queued_variable s)),
      (''stability         : '', fixed 2 stability @ ''%''),
      (''bitmap_cvg        : '', fixed 2 bitmap_cvg @ ''%''),
      (''unique_crashes    : '', dec_u (unique_crashes s)),
      (''unique_hangs      : '', dec_u (unique_hangs s)),
      (''last_path         : '', dec_u (last_path_time s div 1000)),
      (''last_crash        : '', dec_u (last_crash_time s div 1000)),
      (''last_hang         : '', dec_u (last_hang_time s div 1000)),
      (''execs_since_crash : '', dec_u (total_execs s - last_crash_execs s)),
      (''exec_timeout      : '', dec_u (exec_tmout s)),
      (''afl_banner        : '', use_banner s),
      (''afl_version       : '', VERSION),
      (''target_mode       : '', target_mode s),
      (''command_line      : '', orig_cmdline s)]"

definition stats_text :: "rat \<Rightarrow> rat \<Rightarrow> rat \<Rightarrow> u64 \<Rightarrow> 'a r_state_scheme \<Rightarrow> string" where
  "stats_text bitmap_cvg stability eps now s =
     concat (map stats_line (stats_head eps now s @ stats_cur_path s # stats_tail bitmap_cvg stability s))"

definition stats_file :: "'a r_state_scheme \<Rightarrow> string" where
  "stats_file s = out_dir s @ ''/fuzzer_stats''"

definition write_stats_file :: "rat \<Rightarrow> rat \<Rightarrow> rat \<Rightarrow> 'a r_state_scheme \<Rightarrow> err + 'a r_state_scheme" where
  "write_stats_file bitmap_cvg stability eps s =
     (case fs s (stats_file s) of
        Some (Link _) \<Rightarrow> Inl (PFATAL ''Unable to create'')
      | _ \<Rightarrow>
          let (bitmap_cvg, stability, eps, s) =
                (if bitmap_cvg = 0 \<and> stability = 0 \<and> eps = 0 then (last_bcvg s, last_stab s, last_eps s, s)
                 else (bitmap_cvg, stability, eps, s\<lparr>last_bcvg := bitmap_cvg, last_stab := stability, last_eps := eps\<rparr>));
              (now, s) = get_cur_time s
          in Inr (s\<lparr>fs := (fs s)(stats_file s \<mapsto> File (bytes_of (stats_text bitmap_cvg stability eps now s)))\<rparr>))"

text \<open>One line of the plot file, when one of the figures in it has changed.\<close>

definition maybe_update_plot_file :: "rat \<Rightarrow> rat \<Rightarrow> 'a r_state_scheme \<Rightarrow> 'a r_state_scheme" where
  "maybe_update_plot_file bitmap_cvg eps s =
     (let figures = (queued_paths s, pending_favored s, pending_not_fuzzed s, current_entry s, queue_cycle s,
                     unique_crashes s, unique_hangs s, max_depth s) in
      if prev_plot s = figures then s
      else
        let (now, s) = get_cur_time (s\<lparr>prev_plot := figures\<rparr>)
        in s\<lparr>plot_file := plot_file s @
             dec_u (now div 1000) @ '', '' @ dec_u (queue_cycle s - 1) @ '', '' @ dec_u (current_entry s) @ '', '' @
             dec_u (queued_paths s) @ '', '' @ dec_u (pending_not_fuzzed s) @ '', '' @ dec_u (pending_favored s) @ '', '' @
             fixed 2 bitmap_cvg @ ''%, '' @ dec_u (unique_crashes s) @ '', '' @ dec_u (unique_hangs s) @ '', '' @
             dec_u (max_depth s) @ '', '' @ fixed 2 eps @ [newline]\<rparr>)"

section \<open>Reading it back\<close>

text \<open>What \<open>read\<close> puts into a zeroed buffer of 4096 bytes, as a string; \<open>None\<close> when there is no file.\<close>

definition read_stats :: "'a r_state_scheme \<Rightarrow> string option" where
  "read_stats s =
     (case fs s (if in_place_resume s then stats_file s else in_dir s @ ''/../fuzzer_stats'') of
        Some (File d) \<Rightarrow> Some (map (\<lambda>b. char_of (unat b)) (takeWhile (\<lambda>b. b \<noteq> 0) (take 4095 d)))
      | _ \<Rightarrow> None)"

definition find_start_position :: "'a r_state_scheme \<Rightarrow> u32" where
  "find_start_position s =
     (if \<not> resuming_fuzz s then 0
      else case read_stats s of
        None \<Rightarrow> 0
      | Some tmp \<Rightarrow>
          (case strstr ''cur_path          : '' tmp of
             None \<Rightarrow> 0
           | Some off \<Rightarrow>
               let ret = of_int (atoi (bytes_of (drop 20 off))) in if ret \<ge> queued_paths s then 0 else ret))"

definition find_timeout :: "'a r_state_scheme \<Rightarrow> 'a r_state_scheme" where
  "find_timeout s =
     (if \<not> resuming_fuzz s then s
      else case read_stats s of
        None \<Rightarrow> s
      | Some tmp \<Rightarrow>
          (case strstr ''exec_timeout   : '' tmp of
             None \<Rightarrow> s
           | Some off \<Rightarrow>
               let ret = (of_int (atoi (bytes_of (drop 17 off))) :: u32)
               in if ret \<le> 4 then s else s\<lparr>exec_tmout := ret, timeout_given := 3\<rparr>))"

section \<open>Searching text made of lines\<close>

lemma strstr_sep:
  assumes "c \<notin> set pat" "pat \<noteq> []"
  shows "strstr pat (a @ c # b) = (case strstr pat a of Some r \<Rightarrow> Some (r @ c # b) | None \<Rightarrow> strstr pat b)"
proof (induction a)
  case Nil
  have "take (length pat) (c # b) \<noteq> pat" using assms by (cases pat) auto
  then show ?case using assms(2) by simp
next
  case (Cons x a)
  show ?case
  proof (cases "length pat \<le> length (x # a)")
    case True
    then have "take (length pat) ((x # a) @ c # b) = take (length pat) (x # a)" by (simp only: take_append) simp
    then show ?thesis using Cons by simp
  next
    case False
    then obtain n where "length pat = length (x # a) + Suc n" by (metis add_Suc_right less_imp_Suc_add not_le)
    then have "c \<in> set (take (length pat) ((x # a) @ c # b))" by simp
    then have "take (length pat) ((x # a) @ c # b) \<noteq> pat" using assms(1) by metis
    moreover have "take (length pat) (x # a) \<noteq> pat" using False by (metis length_take min.absorb_iff2 nat_le_linear take_all)
    ultimately show ?thesis using Cons by simp
  qed
qed

lemma strstr_foreign:
  assumes "\<forall>c\<in>set v. c \<notin> set pat" "pat \<noteq> []" "strstr pat a = None" "v \<noteq> []"
  shows "strstr pat (a @ v @ b) = strstr pat b"
  using assms
proof (induction v arbitrary: a)
  case (Cons c v)
  have n: "strstr pat [] = None" using Cons.prems(2) by simp
  have "strstr pat (a @ (c # v) @ b) = strstr pat (v @ b)" using strstr_sep[of c pat a "v @ b"] Cons.prems by simp
  also have "\<dots> = strstr pat b"
  proof (cases "v = []")
    case False
    then show ?thesis using Cons.IH[OF _ _ n] Cons.prems by simp
  qed simp
  finally show ?case .
qed simp

lemma strstr_lines':
  assumes "pat \<noteq> []" "newline \<notin> set pat" "\<forall>l\<in>set ls. strstr pat (fst l @ snd l) = None"
  shows "strstr pat (concat (map stats_line ls) @ rest) = strstr pat rest"
  using assms(3)
proof (induction ls)
  case (Cons l ls)
  obtain k v where l: "l = (k, v)" by (cases l)
  have "strstr pat ((k @ v) @ newline # concat (map stats_line ls) @ rest) = strstr pat (concat (map stats_line ls) @ rest)"
    using Cons.prems assms(1,2) l by (subst strstr_sep) auto
  then show ?case using Cons l by (simp add: stats_line_def)
qed simp

lemma strstr_lines:
  assumes "pat \<noteq> []" "newline \<notin> set pat" "\<forall>l\<in>set ls. strstr pat (fst l) = None \<and> (\<forall>c\<in>set (snd l). c \<notin> set pat)"
  shows "strstr pat (concat (map stats_line ls) @ rest) = strstr pat rest"
proof (rule strstr_lines'[OF assms(1,2)], rule ballI)
  fix l assume l: "l \<in> set ls"
  show "strstr pat (fst l @ snd l) = None"
    using strstr_foreign[of "snd l" pat "fst l" "[]"] l assms by (cases "snd l = []") auto
qed

lemma strstr_prefix: "strstr pat (a @ b) = None \<Longrightarrow> strstr pat a = None"
proof (induction a)
  case (Cons x a)
  have "take (length pat) (x # a) \<noteq> pat"
  proof
    assume t: "take (length pat) (x # a) = pat"
    then have "length pat \<le> length (x # a)" by (metis length_take min.absorb_iff2 min.commute nat_le_linear take_all)
    then have "take (length pat) ((x # a) @ b) = pat" using t by (simp only: take_append) simp
    then show False using Cons.prems by simp
  qed
  moreover have "strstr pat (a @ b) = None" using Cons.prems by (auto split: if_splits)
  ultimately show ?case using Cons.IH by simp
qed (cases b; auto split: if_splits)

lemma strstr_own: "strstr pat (pat @ b) = Some (pat @ b)"
proof (cases "pat @ b")
  case (Cons c cs)
  have "take (length pat) (pat @ b) = pat" by simp
  then show ?thesis unfolding Cons by simp
qed simp

section \<open>What a resumed session recovers\<close>

lemma dec_no: "\<not> is_digit c \<Longrightarrow> c \<notin> set (dec n)"
  using dec_digits by blast

lemma fixed_chars: "c \<in> set (fixed k x) \<Longrightarrow> is_digit c \<or> c = CHR ''-'' \<or> c = CHR ''.''"
  using dec_digits by (auto simp: fixed_def Let_def pad0_def is_digit_def split: if_splits)

lemma unat_byte [simp]: "unat (of_char c :: u8) = of_char c"
proof -
  have "(of_char c :: u8) = of_nat (of_char c)" by (simp only: of_nat_of_char)
  then show ?thesis by (simp add: unat_of_nat take_bit_nat_eq_self)
qed

lemma digit_byte: "isdigit (of_char c) \<longleftrightarrow> is_digit c"
  by (simp add: isdigit_def is_digit_def word_le_nat_alt)

lemma string_of_bytes [simp]: "map (\<lambda>b. char_of (unat b)) (bytes_of s) = s"
  by (simp add: bytes_of_def comp_def)

lemma atoi_digits:
  assumes "\<forall>c\<in>set ds. is_digit c"
  shows "foldl (\<lambda>v c. 10 * v + (uint c - 48)) v (bytes_of ds) = v * 10 ^ length ds + int (undec ds)"
  using assms
proof (induction ds arbitrary: v)
  case (Cons c ds)
  have "uint (of_char c :: u8) = int (of_char c)" by (metis uint_nat unat_byte)
  then have u: "uint (of_char c :: u8) - 48 = int (of_char c - 48)" using Cons.prems by (simp add: is_digit_def)
  define d where "d = (of_char c - 48 :: nat)"
  have "foldl (\<lambda>v c. 10 * v + (uint c - 48)) v (bytes_of (c # ds)) = (10 * v + int d) * 10 ^ length ds + int (undec ds)"
    using Cons u unfolding d_def by (simp add: bytes_of_def)
  moreover have "undec (c # ds) = d * 10 ^ length ds + undec ds" by (simp add: d_def)
  ultimately show ?case by (simp add: algebra_simps)
qed (simp add: bytes_of_def)

lemma isdigit_others: "isdigit b \<Longrightarrow> \<not> isspace b \<and> b \<noteq> 45 \<and> b \<noteq> 43 \<and> b \<noteq> 0"
  by (auto simp: isdigit_def isspace_def word_le_nat_alt)

lemma atoi_dec: "atoi (bytes_of (dec n @ newline # r)) = int n"
proof -
  obtain c cs where c: "dec n = c # cs" by (metis dec.simps list.exhaust snoc_eq_iff_butlast)
  have ds: "\<forall>x\<in>set (dec n). is_digit x" by (rule dec_digits)
  have d: "is_digit c" using ds c by simp
  then have f: "\<not> isspace (of_char c)" "(of_char c :: u8) \<noteq> 45" "(of_char c :: u8) \<noteq> 43"
    using digit_byte[of c] isdigit_others[of "of_char c"] by auto
  have "takeWhile isdigit (bytes_of (dec n @ newline # r)) = bytes_of (dec n)"
  proof -
    have "\<forall>x\<in>set (bytes_of (dec n)). isdigit x" using ds digit_byte by (auto simp: bytes_of_def)
    moreover have "\<not> isdigit (of_char newline)" by (simp add: isdigit_def)
    ultimately show ?thesis unfolding bytes_of_def map_append by (subst takeWhile_append2) auto
  qed
  then have "atoi (bytes_of (dec n @ newline # r)) = foldl (\<lambda>v c. 10 * v + (uint c - 48)) 0 (bytes_of (dec n))"
    using f c by (simp add: atoi_def bytes_of_def)
  then show ?thesis using atoi_digits[OF ds] by simp
qed

lemma head_names:
  "map fst (stats_head eps now s) =
     [''start_time        : '', ''last_update       : '', ''fuzzer_pid        : '', ''cycles_done       : '', ''execs_done        : '',
      ''execs_per_sec     : '', ''paths_total       : '', ''paths_favored     : '', ''paths_found       : '', ''paths_imported    : '',
      ''max_depth         : '']"
  by (simp add: stats_head_def)

lemma head_names_ok: "list_all (\<lambda>k. strstr ''cur_path          : '' k = None \<and> length k = 20 \<and> CHR 0x00 \<notin> set k) (map fst (stats_head eps now s))"
  unfolding head_names by code_simp

text \<open>Values made of digits, points and signs have nothing in common with the names searched for.\<close>

definition plain :: "string \<Rightarrow> bool" where
  "plain v \<longleftrightarrow> (\<forall>c\<in>set v. is_digit c \<or> c = CHR ''-'' \<or> c = CHR ''.'' \<or> c = CHR ''%'')"

lemma plain_values: "plain (dec n)" "plain (fixed k x)" "plain (fixed k x @ ''%'')"
  using dec_digits[of n] fixed_chars[of _ k x] by (auto simp: plain_def)

lemma plain_foreign:
  assumes "plain v"
  shows "\<forall>c\<in>set v. c \<notin> set ''cur_path          : ''" "\<forall>c\<in>set v. c \<notin> set ''exec_timeout   : ''" "CHR 0x00 \<notin> set v"
  using assms by (auto simp: plain_def is_digit_def)

lemma zero_byte: "0 \<in> set (bytes_of s) \<longleftrightarrow> CHR 0x00 \<in> set s"
proof -
  have "(of_char c :: u8) = 0 \<longleftrightarrow> c = CHR 0x00" for c
  proof -
    have "(of_char c :: u8) = 0 \<longleftrightarrow> unat (of_char c :: u8) = 0" by (rule unat_eq_zero[symmetric])
    also have "\<dots> \<longleftrightarrow> of_char c = (of_char (CHR 0x00) :: nat)" unfolding unat_byte by simp
    finally have "(of_char c :: u8) = 0 \<longleftrightarrow> of_char c = (of_char (CHR 0x00) :: nat)" .
    then show ?thesis by (simp only: of_char_eq_iff)
  qed
  then show ?thesis by (auto simp: bytes_of_def image_iff)
qed

lemma value_width: "length (dec_u (w :: 'l::len word)) \<le> LENGTH('l)"
proof (rule dec_width)
  have "unat w < 2 ^ LENGTH('l)" by (rule unsigned_less)
  also have "(2 :: nat) ^ LENGTH('l) \<le> 10 ^ LENGTH('l)" by (intro power_mono) simp_all
  finally show "unat w < 10 ^ LENGTH('l)" .
qed simp

lemma stats_head_length:
  assumes "0 \<le> eps" "eps < 10 ^ 300"
  shows "length (concat (map stats_line (stats_head eps now s))) \<le> 1400"
proof -
  have "eps * 10 ^ 2 + 1 / 2 < 10 ^ (301 + 2)"
  proof -
    have "eps * 10 ^ 2 < 10 ^ 300 * 10 ^ 2" using assms by (intro mult_strict_right_mono) simp_all
    moreover have "(1 :: rat) / 2 \<le> 10 ^ 302" "(10 :: rat) ^ (301 + 2) = 10 * 10 ^ 302" "(10 :: rat) ^ 300 * 10 ^ 2 = 10 ^ 302"
      by (simp_all flip: power_add power_Suc)
    ultimately show ?thesis by linarith
  qed
  then have e: "length (fixed 2 eps) \<le> 304" using fixed_width[of eps 2 301] assms by simp
  note w = value_width[where 'l=64, simplified] value_width[where 'l=32, simplified]
  show ?thesis
    using e w(1)[of "start_time s div 1000"] w(1)[of "now div 1000"] w(2)[of "fuzzer_pid s"]
      w(1)[of "if queue_cycle s \<noteq> 0 then queue_cycle s - 1 else 0"] w(1)[of "total_execs s"] w(2)[of "queued_paths s"]
      w(2)[of "queued_favored s"] w(2)[of "queued_discovered s"] w(2)[of "queued_imported s"] w(2)[of "max_depth s"]
    by (simp add: stats_head_def stats_line_def del: of_nat_unat)
qed

text \<open>The text a resumed session gets to see: it is cut off after 4095 bytes or at a null character.\<close>

lemma read_written:
  assumes "read_stats t = Some tmp" "fs t (if in_place_resume t then stats_file t else in_dir t @ ''/../fuzzer_stats'') = Some (File (bytes_of text))"
  shows "\<exists>rest. text = tmp @ rest" "text = a @ b \<Longrightarrow> length a \<le> 4095 \<Longrightarrow> CHR 0x00 \<notin> set a \<Longrightarrow> \<exists>c. tmp = a @ c"
proof -
  let ?f = "\<lambda>b :: u8. b \<noteq> 0"
  have tmp: "tmp = map (\<lambda>b. char_of (unat b)) (takeWhile ?f (take 4095 (bytes_of text)))" using assms by (simp add: read_stats_def)
  have "bytes_of text = takeWhile ?f (take 4095 (bytes_of text)) @ dropWhile ?f (take 4095 (bytes_of text)) @ drop 4095 (bytes_of text)"
    by (metis append_assoc append_take_drop_id takeWhile_dropWhile_id)
  then have "map (\<lambda>b. char_of (unat b)) (bytes_of text) = tmp @ map (\<lambda>b. char_of (unat b)) (dropWhile ?f (take 4095 (bytes_of text)) @ drop 4095 (bytes_of text))"
    unfolding tmp by (metis map_append)
  then show "\<exists>rest. text = tmp @ rest" by auto
  assume a: "text = a @ b" "length a \<le> 4095" "CHR 0x00 \<notin> set a"
  have "take 4095 (bytes_of text) = bytes_of a @ take (4095 - length a) (bytes_of b)" using a by (simp add: bytes_of_def)
  moreover have "\<forall>x\<in>set (bytes_of a). ?f x" using a(3) zero_byte by metis
  ultimately have "takeWhile ?f (take 4095 (bytes_of text)) = bytes_of a @ takeWhile ?f (take (4095 - length a) (bytes_of b))"
    by (simp add: takeWhile_append2)
  then show "\<exists>c. tmp = a @ c" unfolding tmp by simp
qed

text \<open>The number of the entry the session was at, when the speed that is written is of a sensible size.\<close>

lemma find_cur_path:
  assumes fl: "fs t (if in_place_resume t then stats_file t else in_dir t @ ''/../fuzzer_stats'') = Some (File (bytes_of (stats_text bc st eps now s)))"
    and "resuming_fuzz t" "0 \<le> eps" "eps < 10 ^ 300"
  shows "find_start_position t = (if current_entry s < queued_paths t then current_entry s else 0)"
proof -
  let ?pat = "''cur_path          : ''"
  let ?head = "concat (map stats_line (stats_head eps now s))"
  let ?mid = "stats_line (stats_cur_path s)"
  let ?tail = "concat (map stats_line (stats_tail bc st s))"
  obtain tmp where tmp: "read_stats t = Some tmp" using fl by (simp add: read_stats_def)
  have whole: "stats_text bc st eps now s = (?head @ ?mid) @ ?tail" by (simp add: stats_text_def)
  have mid: "?mid = ?pat @ dec_u (current_entry s) @ [newline]" by (simp add: stats_line_def stats_cur_path_def)
  have len: "length (?head @ ?mid) \<le> 4095"
    using stats_head_length[OF assms(3,4), of now s] value_width[of "current_entry s"] unfolding mid by (simp del: of_nat_unat)
  have names: "\<forall>l\<in>set (stats_head eps now s). strstr ?pat (fst l) = None \<and> CHR 0x00 \<notin> set (fst l)"
    using head_names_ok[of eps now s] by (simp add: list_all_iff)
  have plain: "\<forall>l\<in>set (stats_head eps now s). plain (snd l)" using plain_values by (simp add: stats_head_def)
  have "CHR 0x00 \<notin> set ?mid" using plain_foreign(3)[OF plain_values(1)] unfolding mid by simp
  moreover have "CHR 0x00 \<notin> set ?head" using names plain plain_foreign(3) by (auto simp: stats_line_def)
  ultimately obtain c where c: "tmp = (?head @ ?mid) @ c" using read_written(2)[OF tmp fl whole len] by auto
  have "strstr ?pat tmp = strstr ?pat (?mid @ c)"
    unfolding c append_assoc by (rule strstr_lines) (use names plain plain_foreign(1) in auto)
  also have "\<dots> = Some (?mid @ c)" unfolding mid append_assoc by (rule strstr_own)
  finally have off: "strstr ?pat tmp = Some (?mid @ c)" .
  have "drop 20 (?mid @ c) = dec_u (current_entry s) @ newline # c" unfolding mid by simp
  then have "of_int (atoi (bytes_of (drop 20 (?mid @ c)))) = current_entry s" by (simp add: atoi_dec)
  then show ?thesis using assms(2) tmp off by (auto simp: find_start_position_def Let_def)
qed

text \<open>The time limit: the name searched for has fewer blanks than the one that is written.\<close>

lemma strstr_skip:
  assumes "x \<notin> set a" "a = [] \<or> last a \<noteq> c"
  shows "strstr (c # x # p) (a @ b) = strstr (c # x # p) b"
  using assms
proof (induction a)
  case (Cons y a)
  have "take (length (c # x # p)) ((y # a) @ b) \<noteq> c # x # p" using Cons.prems by (cases a) auto
  then show ?case using Cons by (auto split: if_splits)
qed simp

lemma plain_line: "strstr ''exec_timeout   : '' k = None \<Longrightarrow> plain v \<Longrightarrow> strstr ''exec_timeout   : '' (k @ v) = None"
  using strstr_foreign[of v "''exec_timeout   : ''" k "[]"] plain_foreign(2)[of v] by (cases "v = []") auto

lemma strstr_chars: "strstr pat s = Some r \<Longrightarrow> set pat \<subseteq> set s"
proof (induction s)
  case (Cons c cs)
  show ?case
  proof (cases "take (length pat) (c # cs) = pat")
    case True
    then show ?thesis using set_take_subset[of "length pat" "c # cs"] by simp
  next
    case False
    then have "set pat \<subseteq> set cs" using Cons by simp
    then show ?thesis by auto
  qed
qed (auto split: if_splits)

lemma plain_names:
  "map fst (stats_head eps now s @ stats_cur_path s # take 12 (stats_tail bc st s)) =
     [''start_time        : '', ''last_update       : '', ''fuzzer_pid        : '', ''cycles_done       : '', ''execs_done        : '',
      ''execs_per_sec     : '', ''paths_total       : '', ''paths_favored     : '', ''paths_found       : '', ''paths_imported    : '',
      ''max_depth         : '', ''cur_path          : '', ''pending_favs      : '', ''pending_total     : '', ''variable_paths    : '',
      ''stability         : '', ''bitmap_cvg        : '', ''unique_crashes    : '', ''unique_hangs      : '', ''last_path         : '',
      ''last_crash        : '', ''last_hang         : '', ''execs_since_crash : '', ''exec_timeout      : '']"
  by (simp add: stats_head_def stats_cur_path_def stats_tail_def)

lemma plain_names_ok:
  "list_all (\<lambda>k. strstr ''exec_timeout   : '' k = None) (map fst (stats_head eps now s @ stats_cur_path s # take 12 (stats_tail bc st s)))"
  unfolding plain_names by code_simp

lemma no_exec_timeout:
  assumes "strstr ''exec_timeout   : '' (use_banner s) = None" "strstr ''exec_timeout   : '' (orig_cmdline s) = None"
  shows "strstr ''exec_timeout   : '' (stats_text bc st eps now s) = None"
proof -
  let ?pat = "''exec_timeout   : ''"
  let ?first = "stats_head eps now s @ stats_cur_path s # take 12 (stats_tail bc st s)"
  let ?last = "[(''afl_banner        : '', use_banner s), (''afl_version       : '', VERSION), (''target_mode       : '', target_mode s),
    (''command_line      : '', orig_cmdline s)]"
  have "stats_tail bc st s = take 12 (stats_tail bc st s) @ ?last" by (simp add: stats_tail_def)
  then have whole: "stats_text bc st eps now s = concat (map stats_line (?first @ ?last)) @ []" unfolding stats_text_def by simp
  have x: "strstr ?pat (k @ v) = strstr ?pat v" if "CHR ''x'' \<notin> set k" "last k = CHR '' ''" for k v
    using strstr_skip[of "CHR ''x''" k "CHR ''e''"] that by simp
  have "CHR ''x'' \<notin> set (target_mode s)" "CHR ''x'' \<notin> set VERSION" by (simp_all add: target_mode_def VERSION_def)
  then have "strstr ?pat (target_mode s) = None" "strstr ?pat VERSION = None" using strstr_chars[of ?pat] by fastforce+
  then have "\<forall>l\<in>set ?last. strstr ?pat (fst l @ snd l) = None" using assms x by simp
  moreover have "strstr ?pat (fst l @ snd l) = None" if "l \<in> set ?first" for l
  proof (rule plain_line)
    show "strstr ?pat (fst l) = None" using plain_names_ok[of eps now s bc st] that unfolding list_all_iff by (metis (no_types, lifting) image_eqI list.set_map)
    show "plain (snd l)" using that plain_values by (auto simp: stats_head_def stats_cur_path_def stats_tail_def)
  qed
  ultimately have "\<forall>l\<in>set (?first @ ?last). strstr ?pat (fst l @ snd l) = None" unfolding set_append ball_Un by blast
  then have "strstr ?pat (concat (map stats_line (?first @ ?last)) @ []) = strstr ?pat []" by (intro strstr_lines') simp_all
  then show ?thesis unfolding whole by simp
qed

section \<open>Properties\<close>

lemma write_stats_file_text:
  fixes s :: "'a r_state_scheme"
  assumes "write_stats_file bc st eps s = Inr s'"
  shows "\<exists>bc' st' now (u :: 'a r_state_scheme). fs s' (stats_file s) = Some (File (bytes_of (stats_text bc' st' (if bc = 0 \<and> st = 0 \<and> eps = 0 then last_eps s else eps) now u))) \<and>
    current_entry u = current_entry s \<and> use_banner u = use_banner s \<and> orig_cmdline u = orig_cmdline s \<and> out_dir s' = out_dir s"
proof -
  let ?z = "bc = 0 \<and> st = 0 \<and> eps = 0"
  define s1 where "s1 = (if ?z then s else s\<lparr>last_bcvg := bc, last_stab := st, last_eps := eps\<rparr>)"
  define u where "u = s1\<lparr>time_pos := time_pos s1 + 1\<rparr>"
  define now where "now = time_src s1 (time_pos s1) div 1000"
  define bc' where "bc' = (if ?z then last_bcvg s else bc)"
  define st' where "st' = (if ?z then last_stab s else st)"
  have "get_cur_time s1 = (now, u)" by (simp add: get_cur_time_def u_def now_def)
  then have "s' = u\<lparr>fs := (fs u)(stats_file u \<mapsto> File (bytes_of (stats_text bc' st' (if ?z then last_eps s else eps) now u)))\<rparr>"
    using assms by (cases ?z) (auto simp: write_stats_file_def Let_def s1_def bc'_def st'_def split: option.splits node.splits)
  moreover have "current_entry u = current_entry s" "use_banner u = use_banner s" "orig_cmdline u = orig_cmdline s" "out_dir u = out_dir s"
    "stats_file u = stats_file s" by (simp_all add: u_def s1_def stats_file_def)
  ultimately show ?thesis by (intro exI[of _ bc'] exI[of _ st'] exI[of _ now] exI[of _ u]) simp
qed

text \<open>
  C25. A session that resumes in place from the statistics another one has written starts at the queue entry that
  one was working on, provided its queue has that entry; otherwise at the first.
\<close>

theorem find_start_position_roundtrip:
  fixes s :: "'a r_state_scheme"
  assumes "write_stats_file bitmap_cvg stability eps s = Inr s'"
    and "0 \<le> (if bitmap_cvg = 0 \<and> stability = 0 \<and> eps = 0 then last_eps s else eps)"
    and "(if bitmap_cvg = 0 \<and> stability = 0 \<and> eps = 0 then last_eps s else eps) < 10 ^ 300"
    and "resuming_fuzz t" "in_place_resume t" "out_dir t = out_dir s" "fs t (stats_file t) = fs s' (stats_file t)"
  shows "find_start_position t = (if current_entry s < queued_paths t then current_entry s else 0)"
proof -
  have "stats_file t = stats_file s" using assms(6) by (simp add: stats_file_def)
  then obtain bc' st' now and u :: "'a r_state_scheme" where "fs t (stats_file t) = Some (File (bytes_of (stats_text bc' st'
      (if bitmap_cvg = 0 \<and> stability = 0 \<and> eps = 0 then last_eps s else eps) now u)))" "current_entry u = current_entry s"
    using write_stats_file_text[OF assms(1)] assms(7) by auto
  then show ?thesis using find_cur_path[of t bc' st' _ now u, OF _ assms(4,2,3)] assms(5) by simp
qed

text \<open>
  C38. The time limit of a session, in contrast, is never recovered: \<open>find_timeout\<close> looks for the name of that
  figure with fewer blanks than \<open>write_stats_file\<close> puts after it, so that it leaves the resumed session as it is.
\<close>

theorem find_timeout_finds_nothing:
  fixes s :: "'a r_state_scheme"
  assumes "write_stats_file bitmap_cvg stability eps s = Inr s'"
    and "strstr ''exec_timeout   : '' (use_banner s) = None" "strstr ''exec_timeout   : '' (orig_cmdline s) = None"
    and "in_place_resume t" "out_dir t = out_dir s" "fs t (stats_file t) = fs s' (stats_file t)"
  shows "find_timeout t = t"
proof (cases "read_stats t")
  case (Some tmp)
  have "stats_file t = stats_file s" using assms(5) by (simp add: stats_file_def)
  then obtain bc' st' e now and u :: "'a r_state_scheme" where u: "fs t (stats_file t) = Some (File (bytes_of (stats_text bc' st' e now u)))"
    "use_banner u = use_banner s" "orig_cmdline u = orig_cmdline s"
    using write_stats_file_text[OF assms(1)] assms(6) by auto
  then obtain rest where "stats_text bc' st' e now u = tmp @ rest" using read_written(1)[OF Some] assms(4) by auto
  then have "strstr ''exec_timeout   : '' tmp = None" using no_exec_timeout[of u bc' st' e now] u assms(2,3) strstr_prefix by metis
  then show ?thesis using Some by (simp add: find_timeout_def)
qed (simp add: find_timeout_def)

definition example_r :: r_state where
  "example_r = y_state.extend (example_y\<lparr>resuming_fuzz := True, current_entry := 1\<rparr>)
     \<lparr>in_place_resume = True, fuzzer_pid = 4711, last_bcvg = 0, last_stab = 100, last_eps = 1000, use_banner = ''target'', qemu_mode = False,
      persistent_mode = False, deferred_mode = False, orig_cmdline = ''afl-fuzz -i - -o o target'', plot_file = [], prev_plot = (0, 0, 0, 0, 0, 0, 0, 0)\<rparr>"

lemma example_r_fields:
  "out_dir example_r = ''o''" "fs example_r ''o/fuzzer_stats'' = None" "current_entry example_r = 1" "resuming_fuzz example_r"
  "in_place_resume example_r" "use_banner example_r = ''target''" "orig_cmdline example_r = ''afl-fuzz -i - -o o target''"
  using example_y_fields(2) by (simp_all add: example_r_def y_state.extend_def example_y_def x_state.extend_def)

lemma write_stats_file_Inr: "fs s (stats_file s) = None \<Longrightarrow> \<exists>s'. write_stats_file bc st eps s = Inr s' \<and>
    resuming_fuzz s' = resuming_fuzz s \<and> in_place_resume s' = in_place_resume s \<and> out_dir s' = out_dir s"
  by (auto simp: write_stats_file_def get_cur_time_def stats_file_def)

theorem find_start_position_roundtrip_witness:
  "\<exists>t. write_stats_file 12 100 900 example_r = Inr t \<and> find_start_position t = (if 1 < queued_paths t then 1 else 0)"
proof -
  obtain t where t: "write_stats_file 12 100 900 example_r = Inr t" "resuming_fuzz t" "in_place_resume t" "out_dir t = out_dir example_r"
    using write_stats_file_Inr[of example_r 12 100 900] example_r_fields by (auto simp: stats_file_def)
  then show ?thesis using find_start_position_roundtrip[OF t(1), of t] example_r_fields(3) by simp
qed

theorem find_timeout_finds_nothing_witness:
  "\<exists>t. write_stats_file 12 100 900 example_r = Inr t \<and> find_timeout t = t"
proof -
  obtain t where t: "write_stats_file 12 100 900 example_r = Inr t" "in_place_resume t" "out_dir t = out_dir example_r"
    using write_stats_file_Inr[of example_r 12 100 900] example_r_fields by (auto simp: stats_file_def)
  then show ?thesis using find_timeout_finds_nothing[OF t(1), of t] example_r_fields(6,7) by simp
qed

end
