(* ===== verification/Afl_Tmin.thy ===== *)
theory Afl_Tmin
  imports Afl_Trim "HOL-Library.Sublist"
begin

unbundle bit_operations_syntax

text \<open>
  The test case minimizer \<open>afl-tmin.c\<close>: running the target once, the four minimization stages of \<open>minimize\<close> and
  the passes over them. The target is a parameter as in the fuzzer; it may behave differently on every
  run. \<open>in_len\<close> is the length of the list \<open>in_data\<close>: it only shrinks, and the buffer is never read beyond it.
  It is below \<open>TMIN_MAX_FILE\<close>, so that no 32-bit sum of positions wraps. The tallies that are only printed
  and the failures to write \<open>prog_in\<close> and \<open>out_file\<close> are left out.
\<close>

section \<open>State\<close>

record tm_state =
  tm_target :: "nat \<Rightarrow> u8 list \<Rightarrow> u32 \<Rightarrow> outcome"
  tm_pos :: nat               \<comment> \<open>number of the next execution\<close>
  tm_tmout :: u32
  in_data :: "u8 list"
  tm_trace :: "u8 list"
  mask_bitmap :: "u8 list option"
  orig_cksum :: u32
  tm_execs :: u32
  missed_hangs :: u32
  missed_crashes :: u32
  missed_paths :: u32
  tm_crash_mode :: bool
  exit_crash :: bool
  edges_only :: bool
  exact_mode :: bool

definition TMIN_MAX_FILE :: nat where "TMIN_MAX_FILE = 10 * 1024 * 1024"
definition TMIN_SET_MIN_SIZE :: nat where "TMIN_SET_MIN_SIZE = 4"
definition TMIN_SET_STEPS :: nat where "TMIN_SET_STEPS = 128"

declare TMIN_MAX_FILE_def [cfg_simps] TMIN_SET_MIN_SIZE_def [cfg_simps] TMIN_SET_STEPS_def [cfg_simps]

text \<open>How the program ends early: an error, or the user's interrupt, with what it then writes to \<open>out_file\<close>.\<close>

datatype tm_stop = TFail err | TAborted "u8 list"

definition bindT :: "tm_stop + 'a \<Rightarrow> ('a \<Rightarrow> tm_stop + 'b) \<Rightarrow> tm_stop + 'b" where
  "bindT m f = (case m of Inl e \<Rightarrow> Inl e | Inr x \<Rightarrow> f x)"

lemma bindT_simps [simp]: "bindT (Inl e) f = Inl e" "bindT (Inr x) f = f x"
  by (simp_all add: bindT_def)

lemma bindT_cong [fundef_cong]: "m = m' \<Longrightarrow> (\<And>x. m' = Inr x \<Longrightarrow> f x = f' x) \<Longrightarrow> bindT m f = bindT m' f'"
  by (cases m') auto

section \<open>Running the target\<close>

definition tm_classify_counts :: "bool \<Rightarrow> u8 list \<Rightarrow> u8 list" where
  "tm_classify_counts edges mem = (if edges then map (\<lambda>b. if b \<noteq> 0 then 1 else b) mem else map count_class_lookup8 mem)"

definition apply_mask :: "u8 list option \<Rightarrow> u8 list \<Rightarrow> u8 list" where
  "apply_mask mb mem =
     (case mb of None \<Rightarrow> mem | Some m \<Rightarrow> unview 4 (map2 (\<lambda>a b. a AND NOT b) (view 4 mem :: u32 list) (view 4 m)))"

definition anything_set :: "u8 list \<Rightarrow> bool" where
  "anything_set mem \<longleftrightarrow> (\<exists>w\<in>set (view 4 mem :: u32 list). w \<noteq> 0)"

definition WIFEXITED :: "u32 \<Rightarrow> bool" where
  "WIFEXITED st \<longleftrightarrow> st AND 0x7f = 0"

text \<open>The trace as the child left it in the cleared map, and as it is judged.\<close>

definition raw_trace :: "outcome \<Rightarrow> tm_state \<Rightarrow> u8 list" where
  "raw_trace oc s = shared_map oc (replicate (length (tm_trace s)) 0)"

definition seen_trace :: "outcome \<Rightarrow> tm_state \<Rightarrow> u8 list" where
  "seen_trace oc s = apply_mask (mask_bitmap s) (tm_classify_counts (edges_only s) (raw_trace oc s))"

definition crashed :: "outcome \<Rightarrow> tm_state \<Rightarrow> bool" where
  "crashed oc s \<longleftrightarrow> WIFSIGNALED (oc_status oc) \<or> WIFEXITED (oc_status oc) \<and> WEXITSTATUS (oc_status oc) = MSAN_ERROR \<or>
     WIFEXITED (oc_status oc) \<and> WEXITSTATUS (oc_status oc) \<noteq> 0 \<and> exit_crash s"

text \<open>What follows the waiting: whether the changes should be kept.\<close>

definition tm_judge :: "bool \<Rightarrow> outcome \<Rightarrow> tm_state \<Rightarrow> bool \<times> tm_state" where
  "tm_judge first_run oc s =
     (if oc_timed_out oc then (False, s\<lparr>missed_hangs := missed_hangs s + 1\<rparr>)
      else
        let c = crashed oc s;
            s = (if c \<and> first_run then s\<lparr>tm_crash_mode := True\<rparr> else s)
        in if c \<and> \<not> tm_crash_mode s then (False, s\<lparr>missed_crashes := missed_crashes s + 1\<rparr>)
           else if c \<and> \<not> exact_mode s then (True, s)
           else if \<not> c \<and> tm_crash_mode s then (False, s\<lparr>missed_paths := missed_paths s + 1\<rparr>)
           else
             let cksum = hash32 (tm_trace s) HASH_CONST;
                 s = (if first_run then s\<lparr>orig_cksum := cksum\<rparr> else s)
             in if orig_cksum s = cksum then (True, s) else (False, s\<lparr>missed_paths := missed_paths s + 1\<rparr>))"

definition tm_run_target :: "u8 list \<Rightarrow> bool \<Rightarrow> tm_state \<Rightarrow> tm_stop + bool \<times> tm_state" where
  "tm_run_target mem first_run s =
     (let oc = tm_target s (tm_pos s) mem (tm_tmout s);
          s = s\<lparr>tm_pos := tm_pos s + 1\<rparr>
      in if oc_sys oc = ForkFailed then Inl (TFail (PFATAL ''fork() failed''))
         else if oc_sys oc = WaitFailed then Inl (TFail (FATAL ''waitpid() failed''))
         else if (le_load (take 4 (raw_trace oc s)) :: u32) = EXEC_FAIL_SIG then Inl (TFail (FATAL ''Unable to execute''))
         else
           let s = s\<lparr>tm_trace := seen_trace oc s, tm_execs := tm_execs s + 1\<rparr>
           in if oc_stop oc then Inl (TAborted (in_data s)) else Inr (tm_judge first_run oc s))"

section \<open>Minimization\<close>

abbreviation ZERO :: u8 where "ZERO \<equiv> 48"

text \<open>Stage 0: blocks of a fixed size are overwritten by the character 0.\<close>

primrec norm_loop :: "nat \<Rightarrow> nat \<Rightarrow> nat \<Rightarrow> tm_state \<Rightarrow> tm_stop + tm_state" where
  "norm_loop 0 set_len set_pos s = (if set_pos < length (in_data s) then Inl (TFail OutOfFuel) else Inr s)"
| "norm_loop (Suc fuel) set_len set_pos s =
     (if set_pos < length (in_data s) then
        let d = in_data s; use_len = min set_len (length d - set_pos) in
        if \<forall>b\<in>set (take use_len (drop set_pos d)). b = ZERO then norm_loop fuel set_len (set_pos + set_len) s
        else
          let tmp = take set_pos d @ replicate use_len ZERO @ drop (set_pos + use_len) d in
          bindT (tm_run_target tmp False s) (\<lambda>(res, s).
            norm_loop fuel set_len (set_pos + set_len) (if res then s\<lparr>in_data := tmp\<rparr> else s))
      else Inr s)"

definition block_normalization :: "tm_state \<Rightarrow> tm_stop + tm_state" where
  "block_normalization s =
     (case next_p2 (of_nat (length (in_data s) div TMIN_SET_STEPS)) of
        None \<Rightarrow> Inl (TFail OutOfFuel)
      | Some p \<Rightarrow> norm_loop (length (in_data s)) (max (unat p) TMIN_SET_MIN_SIZE) 0 s)"

text \<open>
  Stage 1, for one block length: \<open>memcmp\<close> compares a block with the one before it, which must therefore
  exist. The first component of the results is \<open>changed_any\<close>.
\<close>

primrec del_loop :: "nat \<Rightarrow> nat \<Rightarrow> nat \<Rightarrow> bool \<Rightarrow> bool \<Rightarrow> tm_state \<Rightarrow> tm_stop + bool \<times> tm_state" where
  "del_loop 0 del_len del_pos prev_del changed s =
     (if del_pos < length (in_data s) then Inl (TFail OutOfFuel) else Inr (changed, s))"
| "del_loop (Suc fuel) del_len del_pos prev_del changed s =
     (if del_pos < length (in_data s) then
        let d = in_data s; tail_len = length d - del_pos - del_len in
        if \<not> prev_del \<and> tail_len \<noteq> 0 \<and> del_pos < del_len then Inl (TFail OutOfBounds)
        else if \<not> prev_del \<and> tail_len \<noteq> 0 \<and> take del_len (drop (del_pos - del_len) d) = take del_len (drop del_pos d)
        then del_loop fuel del_len (del_pos + del_len) prev_del changed s
        else
          let tmp = take del_pos d @ take tail_len (drop (del_pos + del_len) d) in
          bindT (tm_run_target tmp False s) (\<lambda>(res, s).
            if res then del_loop fuel del_len del_pos True True (s\<lparr>in_data := tmp\<rparr>)
            else del_loop fuel del_len (del_pos + del_len) False changed s)
      else Inr (changed, s))"

text \<open>\<open>next_del_blksize\<close>: the block length is halved until it is one.\<close>

function del_sizes :: "nat \<Rightarrow> bool \<Rightarrow> tm_state \<Rightarrow> tm_stop + bool \<times> tm_state" where
  "del_sizes del_len changed s =
     (let del_len = (if del_len = 0 then 1 else del_len) in
      bindT (del_loop (length (in_data s)) del_len 0 True changed s) (\<lambda>(changed, s).
        if del_len > 1 \<and> length (in_data s) \<ge> 1 then del_sizes (del_len div 2) changed s else Inr (changed, s)))"
  by pat_completeness auto
termination by (relation "measure fst") (auto split: if_splits)

declare del_sizes.simps [simp del]

definition block_deletion :: "tm_state \<Rightarrow> tm_stop + bool \<times> tm_state" where
  "block_deletion s =
     (case next_p2 (of_nat (length (in_data s) div TRIM_START_STEPS)) of
        None \<Rightarrow> Inl (TFail OutOfFuel)
      | Some p \<Rightarrow> del_sizes (unat p) False s)"

text \<open>Stage 2: every symbol is replaced by the character 0, all its occurrences at once.\<close>

primrec alpha_loop :: "nat list \<Rightarrow> (nat \<Rightarrow> nat) \<Rightarrow> bool \<Rightarrow> tm_state \<Rightarrow> tm_stop + bool \<times> tm_state" where
  "alpha_loop [] alpha_map changed s = Inr (changed, s)"
| "alpha_loop (i # is) alpha_map changed s =
     (if i = 48 \<or> alpha_map i = 0 then alpha_loop is alpha_map changed s
      else
        let tmp = map (\<lambda>b. if unat b = i then ZERO else b) (in_data s) in
        bindT (tm_run_target tmp False s) (\<lambda>(res, s).
          if res then alpha_loop is alpha_map True (s\<lparr>in_data := tmp\<rparr>) else alpha_loop is alpha_map changed s))"

definition alphabet_minimization :: "bool \<Rightarrow> tm_state \<Rightarrow> tm_stop + bool \<times> tm_state" where
  "alphabet_minimization changed s = alpha_loop [0..<256] (\<lambda>i. length (filter (\<lambda>b. unat b = i) (in_data s))) changed s"

text \<open>Stage 3: every byte on its own; \<open>tmp_buf\<close> follows \<open>in_data\<close>.\<close>

primrec char_loop :: "nat list \<Rightarrow> u8 list \<Rightarrow> bool \<Rightarrow> tm_state \<Rightarrow> tm_stop + bool \<times> tm_state" where
  "char_loop [] tmp changed s = Inr (changed, s)"
| "char_loop (i # is) tmp changed s =
     (let orig = tmp ! i in
      if orig = ZERO then char_loop is tmp changed s
      else
        bindT (tm_run_target (tmp[i := ZERO]) False s) (\<lambda>(res, s).
          if res then char_loop is (tmp[i := ZERO]) True (s\<lparr>in_data := (in_data s)[i := ZERO]\<rparr>)
          else char_loop is (tmp[i := ZERO, i := orig]) changed s))"

definition character_minimization :: "bool \<Rightarrow> tm_state \<Rightarrow> tm_stop + bool \<times> tm_state" where
  "character_minimization changed s = char_loop [0..<length (in_data s)] (in_data s) changed s"

text \<open>\<open>next_pass\<close>: passes until one changes nothing.\<close>

primrec pass_loop :: "nat \<Rightarrow> nat \<Rightarrow> tm_state \<Rightarrow> tm_stop + tm_state" where
  "pass_loop 0 cur_pass s = Inl (TFail OutOfFuel)"
| "pass_loop (Suc fuel) cur_pass s =
     bindT (block_deletion s) (\<lambda>(changed, s).
       if cur_pass + 1 > 1 \<and> \<not> changed then Inr s
       else
         bindT (alphabet_minimization changed s) (\<lambda>(changed, s).
         bindT (character_minimization changed s) (\<lambda>(changed, s).
           if changed then pass_loop fuel (cur_pass + 1) s else Inr s)))"

definition tm_minimize :: "tm_state \<Rightarrow> tm_stop + tm_state" where
  "tm_minimize s = bindT (block_normalization s) (\<lambda>s. pass_loop (2 * length (in_data s) + 2) 0 s)"

text \<open>From the initial file to the one that is written: the end of \<open>main\<close>.\<close>

definition tmin_main :: "u8 list \<Rightarrow> tm_state \<Rightarrow> tm_stop + u8 list" where
  "tmin_main data s =
     (if data = [] then Inl (TFail (FATAL ''Zero-sized input file.''))
      else if length data \<ge> TMIN_MAX_FILE then Inl (TFail (FATAL ''Input file is too large''))
      else
        let s = s\<lparr>in_data := data, tm_crash_mode := False\<rparr> in
        bindT (tm_run_target (in_data s) True s) (\<lambda>(res, s1).
          if oc_timed_out (tm_target s (tm_pos s) (in_data s) (tm_tmout s)) then Inl (TFail (FATAL ''Target binary times out''))
          else if \<not> tm_crash_mode s1 \<and> \<not> anything_set (tm_trace s1) then Inl (TFail (FATAL ''No instrumentation detected.''))
          else bindT (tm_minimize s1) (\<lambda>s. Inr (in_data s))))"

section \<open>Simplified data\<close>

text \<open>
  \<open>simpler ys xs\<close>: \<open>ys\<close> comes from \<open>xs\<close> by removing bytes and by replacing bytes by the character 0. The
  weight of the data drops with every such change.
\<close>

definition simpler :: "u8 list \<Rightarrow> u8 list \<Rightarrow> bool" where
  "simpler = list_emb (\<lambda>y x. y = x \<or> y = ZERO)"

definition weight :: "u8 list \<Rightarrow> nat" where
  "weight xs = length xs + length (filter (\<lambda>b. b \<noteq> ZERO) xs)"

lemma simpler_refl [simp, intro]: "simpler xs xs"
  by (simp add: simpler_def list_emb_refl)

lemma simpler_trans: "simpler xs ys \<Longrightarrow> simpler ys zs \<Longrightarrow> simpler xs zs"
  unfolding simpler_def by (rule list_emb_trans) auto

lemma simpler_length: "simpler ys xs \<Longrightarrow> length ys \<le> length xs"
  by (simp add: simpler_def list_emb_length)

lemma simpler_same_length: "list_all2 (\<lambda>y x. y = x \<or> y = ZERO) ys xs \<Longrightarrow> simpler ys xs"
  unfolding simpler_def by (induction rule: list_all2_induct) auto

lemma simpler_delete: "simpler (take p xs @ drop (p + n) xs) xs"
proof -
  have "list_emb (\<lambda>y x. y = x \<or> y = ZERO) (take p xs @ drop (p + n) xs) (take p xs @ take n (drop p xs) @ drop (p + n) xs)"
    by (intro list_emb_append_mono list_emb_append2 list_emb_refl) simp_all
  moreover have "take n (drop p xs) @ drop (p + n) xs = drop p xs" by (metis append_take_drop_id drop_drop add.commute)
  ultimately show ?thesis by (simp add: simpler_def)
qed

lemma simpler_block:
  assumes "p + n \<le> length xs"
  shows "simpler (take p xs @ replicate n ZERO @ drop (p + n) xs) xs"
  using assms by (intro simpler_same_length list_all2_all_nthI) (auto simp: nth_append)

lemma simpler_update: "simpler (xs[i := ZERO]) xs"
proof (cases "i < length xs")
  case True
  then show ?thesis by (intro simpler_same_length list_all2_all_nthI) (auto simp: nth_list_update)
qed (simp add: list_update_beyond)

lemma simpler_map: "simpler (map (\<lambda>b. if P b then ZERO else b) xs) xs"
  by (intro simpler_same_length list_all2_all_nthI) auto

lemma simpler_weight: "simpler ys xs \<Longrightarrow> weight ys \<le> weight xs \<and> (weight ys = weight xs \<longrightarrow> ys = xs)"
  unfolding simpler_def by (induction rule: list_emb.induct) (auto simp: weight_def)

lemma simpler_antisym: "simpler ys xs \<Longrightarrow> simpler xs ys \<Longrightarrow> ys = xs"
  using simpler_weight[of ys xs] simpler_weight[of xs ys] by auto

section \<open>What one run decides\<close>

text \<open>The target may change from run to run; \<open>keeps s j mem\<close> is the verdict of run \<open>j\<close> on \<open>mem\<close>.\<close>

definition keeps :: "tm_state \<Rightarrow> nat \<Rightarrow> u8 list \<Rightarrow> bool" where
  "keeps s j mem \<longleftrightarrow> (let oc = tm_target s j mem (tm_tmout s) in
     \<not> oc_timed_out oc \<and> crashed oc s = tm_crash_mode s \<and>
     (tm_crash_mode s \<and> \<not> exact_mode s \<or> hash32 (seen_trace oc s) HASH_CONST = orig_cksum s))"

definition tm_wf :: "tm_state \<Rightarrow> bool" where
  "tm_wf s \<longleftrightarrow> length (tm_trace s) mod 4 = 0 \<and> (\<forall>m. mask_bitmap s = Some m \<longrightarrow> length m = length (tm_trace s)) \<and>
     length (in_data s) < TMIN_MAX_FILE"

definition tm_frame :: "tm_state \<Rightarrow> tm_state \<Rightarrow> bool" where
  "tm_frame s s' \<longleftrightarrow> tm_target s' = tm_target s \<and> tm_pos s \<le> tm_pos s' \<and> tm_tmout s' = tm_tmout s \<and>
     length (tm_trace s') = length (tm_trace s) \<and> mask_bitmap s' = mask_bitmap s \<and> orig_cksum s' = orig_cksum s \<and>
     tm_crash_mode s' = tm_crash_mode s \<and> exit_crash s' = exit_crash s \<and> edges_only s' = edges_only s \<and> exact_mode s' = exact_mode s"

text \<open>\<open>shrunk s s'\<close>: from \<open>s\<close> to \<open>s'\<close> the data were simplified, and what is there now was approved by a run.\<close>

definition shrunk :: "tm_state \<Rightarrow> tm_state \<Rightarrow> bool" where
  "shrunk s s' \<longleftrightarrow> tm_frame s s' \<and> simpler (in_data s') (in_data s) \<and>
     (in_data s' = in_data s \<or> (\<exists>j. tm_pos s \<le> j \<and> j < tm_pos s' \<and> keeps s j (in_data s')))"

text \<open>
  \<open>okT s Q m\<close>: the computation \<open>m\<close>, begun in \<open>s\<close>, gives a result with \<open>Q\<close>; or some run of the target could not be
  made and a message macro ended the program; or the user interrupted some run, and gets data as good as any
  result.
\<close>

definition unrunnable :: "tm_state \<Rightarrow> bool" where
  "unrunnable s \<longleftrightarrow> (\<exists>j mem. let oc = tm_target s j mem (tm_tmout s) in
     oc_sys oc = ForkFailed \<or> oc_sys oc = WaitFailed \<or> (le_load (take 4 (raw_trace oc s)) :: u32) = EXEC_FAIL_SIG)"

definition interrupted :: "tm_state \<Rightarrow> bool" where
  "interrupted s \<longleftrightarrow> (\<exists>j mem. oc_stop (tm_target s j mem (tm_tmout s)))"

lemma runs_witnessed:
  "oc_sys (tm_target s j mem (tm_tmout s)) = ForkFailed \<Longrightarrow> unrunnable s"
  "oc_sys (tm_target s j mem (tm_tmout s)) = WaitFailed \<Longrightarrow> unrunnable s"
  "(le_load (take 4 (raw_trace (tm_target s j mem (tm_tmout s)) s)) :: u32) = EXEC_FAIL_SIG \<Longrightarrow> unrunnable s"
  "oc_stop (tm_target s j mem (tm_tmout s)) \<Longrightarrow> interrupted s"
  unfolding unrunnable_def interrupted_def Let_def by blast+

definition okT :: "tm_state \<Rightarrow> ('a \<Rightarrow> bool) \<Rightarrow> tm_stop + 'a \<Rightarrow> bool" where
  "okT s Q m \<longleftrightarrow> (case m of Inl (TFail e) \<Rightarrow> fatal e \<and> unrunnable s
     | Inl (TAborted d) \<Rightarrow> interrupted s \<and> (\<exists>s'. shrunk s s' \<and> d = in_data s') | Inr x \<Rightarrow> Q x)"

lemma okT_simps [simp]:
  "okT s Q (Inl (TFail e)) \<longleftrightarrow> fatal e \<and> unrunnable s" "okT s Q (Inr x) \<longleftrightarrow> Q x"
  "okT s Q (Inl (TAborted d)) \<longleftrightarrow> interrupted s \<and> (\<exists>s'. shrunk s s' \<and> d = in_data s')"
  by (simp_all add: okT_def)

lemma okT_bind: "okT s Q m \<Longrightarrow> (\<And>x. m = Inr x \<Longrightarrow> Q x \<Longrightarrow> okT s P (f x)) \<Longrightarrow> okT s P (bindT m f)"
  by (auto simp: okT_def bindT_def split: sum.splits tm_stop.splits)

lemma okT_mono: "okT s Q m \<Longrightarrow> (\<And>x. Q x \<Longrightarrow> P x) \<Longrightarrow> okT s P m"
  by (auto simp: okT_def split: sum.splits tm_stop.splits)

lemma tm_frame_refl [simp, intro]: "tm_frame s s"
  by (simp add: tm_frame_def)

lemma tm_frame_trans: "tm_frame s t \<Longrightarrow> tm_frame t u \<Longrightarrow> tm_frame s u"
  by (simp add: tm_frame_def)

lemma frame_in_data [simp]: "tm_frame s (t\<lparr>in_data := d\<rparr>) \<longleftrightarrow> tm_frame s t"
  by (simp add: tm_frame_def)

lemma frame_keeps: "tm_frame s t \<Longrightarrow> keeps t j mem \<longleftrightarrow> keeps s j mem"
  by (simp add: keeps_def tm_frame_def crashed_def seen_trace_def raw_trace_def)

lemma shrunk_refl [simp, intro]: "shrunk s s"
  by (simp add: shrunk_def)

lemma shrunk_trans:
  assumes "shrunk s t" "shrunk t u"
  shows "shrunk s u"
proof -
  have f: "tm_frame s t" "tm_frame t u" using assms by (auto simp: shrunk_def)
  then have "tm_pos s \<le> tm_pos t" "tm_pos t \<le> tm_pos u" by (auto simp: tm_frame_def)
  moreover have "keeps t j m \<longleftrightarrow> keeps s j m" for j m using frame_keeps[OF f(1)] .
  ultimately show ?thesis using assms tm_frame_trans[OF f] simpler_trans
    unfolding shrunk_def by (metis le_trans order_less_le_trans)
qed

lemma shrunk_wf: "shrunk s t \<Longrightarrow> tm_wf s \<Longrightarrow> tm_wf t"
  using simpler_length[of "in_data t" "in_data s"] by (auto simp: shrunk_def tm_wf_def tm_frame_def)

lemma frame_runs: "tm_frame s t \<Longrightarrow> unrunnable t \<longleftrightarrow> unrunnable s" "tm_frame s t \<Longrightarrow> interrupted t \<longleftrightarrow> interrupted s"
  by (simp_all add: unrunnable_def interrupted_def tm_frame_def raw_trace_def)

lemma okT_from:
  assumes "okT t Q m" "shrunk s t" "\<And>x. Q x \<Longrightarrow> P x"
  shows "okT s P m"
proof -
  have "tm_frame s t" using assms(2) by (simp add: shrunk_def)
  then show ?thesis using assms frame_runs shrunk_trans[OF assms(2)]
    by (auto simp: okT_def split: sum.splits tm_stop.splits) blast
qed

lemma judging_upd [simp]:
  "raw_trace oc (s\<lparr>tm_pos := n\<rparr>) = raw_trace oc s" "seen_trace oc (s\<lparr>tm_pos := n\<rparr>) = seen_trace oc s"
  "crashed oc (s\<lparr>tm_pos := n\<rparr>) = crashed oc s" "crashed oc (s\<lparr>tm_execs := x\<rparr>) = crashed oc s" "crashed oc (s\<lparr>tm_trace := m\<rparr>) = crashed oc s"
  "raw_trace oc (s\<lparr>in_data := d, tm_crash_mode := c\<rparr>) = raw_trace oc s" "seen_trace oc (s\<lparr>in_data := d, tm_crash_mode := c\<rparr>) = seen_trace oc s"
  "crashed oc (s\<lparr>in_data := d, tm_crash_mode := c\<rparr>) = crashed oc s"
  by (simp_all add: raw_trace_def seen_trace_def crashed_def)

lemma apply_mask_bytes:
  assumes "4 dvd length mem" "length mem = length mb"
  shows "apply_mask (Some mb) mem = map2 (\<lambda>a b. a AND NOT b) mem mb"
proof -
  have "unview 4 (map2 (\<lambda>a b. a AND NOT b) (view 4 mem :: u32 list) (view 4 mb)) = map2 (\<lambda>a b. a AND NOT b) mem mb"
    using zero_less_numeral assms
  proof (induction mem mb rule: chunk_induct2)
    case (Cons c cs d ds)
    have "(le_load c :: u32) AND NOT (le_load d) = le_load (map2 (\<lambda>a b. a AND NOT b) c d)"
      using le_load_ANDNOT[of c d, where 'a=32] Cons by simp
    moreover have "le_store 4 (le_load (map2 (\<lambda>a b. a AND NOT b) c d) :: u32) = map2 (\<lambda>a b. a AND NOT b) c d"
      using le_store_load[of "map2 (\<lambda>a b. a AND NOT b) c d", where 'a=32] Cons by simp
    ultimately show ?case using Cons by (simp add: view_append)
  qed simp_all
  then show ?thesis by (simp add: apply_mask_def)
qed

lemma length_seen_trace:
  assumes "tm_wf s"
  shows "length (seen_trace oc s) = length (tm_trace s)"
proof -
  have "length (tm_classify_counts (edges_only s) (raw_trace oc s)) = length (tm_trace s)"
    by (simp add: tm_classify_counts_def raw_trace_def)
  then show ?thesis using assms apply_mask_bytes[of "tm_classify_counts (edges_only s) (raw_trace oc s)"]
    by (cases "mask_bitmap s") (auto simp: seen_trace_def tm_wf_def apply_mask_def[of None] mod_eq_0_iff_dvd)
qed

lemma tm_run_target_ok:
  assumes "tm_wf s"
  shows "okT s (\<lambda>(res, t). tm_frame s t \<and> tm_pos s < tm_pos t \<and> in_data t = in_data s \<and> (res \<longleftrightarrow> keeps s (tm_pos s) mem))
    (tm_run_target mem False s)"
proof -
  let ?oc = "tm_target s (tm_pos s) mem (tm_tmout s)"
  let ?fails = "oc_sys ?oc = ForkFailed \<or> oc_sys ?oc = WaitFailed \<or> (le_load (take 4 (raw_trace ?oc s)) :: u32) = EXEC_FAIL_SIG"
  show ?thesis
  proof (cases "?fails \<or> oc_stop ?oc")
    case True
    then show ?thesis by (auto simp: tm_run_target_def Let_def shrunk_def tm_frame_def intro: runs_witnessed)
  next
    case False
    then show ?thesis using length_seen_trace[OF assms]
      by (auto simp: tm_run_target_def tm_judge_def keeps_def tm_frame_def Let_def)
  qed
qed

section \<open>The stages\<close>

text \<open>
  A candidate that is approved replaces the data. \<open>stepped changed s (c, t)\<close>: a stage that was begun in \<open>s\<close> with the
  flag \<open>changed\<close> has left the state \<open>t\<close> and the flag \<open>c\<close>, which is raised exactly if the data are others now.
\<close>

definition stepped :: "bool \<Rightarrow> tm_state \<Rightarrow> bool \<times> tm_state \<Rightarrow> bool" where
  "stepped changed s ct \<longleftrightarrow> shrunk s (snd ct) \<and> (fst ct \<longleftrightarrow> changed \<or> in_data (snd ct) \<noteq> in_data s)"

lemma try_ok:
  assumes "tm_wf s" "simpler tmp (in_data s)" "tmp \<noteq> in_data s"
    and acc: "\<And>t. stepped changed s (True, t\<lparr>in_data := tmp\<rparr>) \<Longrightarrow> keeps s (tm_pos s) tmp \<Longrightarrow> in_data t = in_data s \<Longrightarrow> okT s Q (f (True, t))"
    and rej: "\<And>t. stepped changed s (changed, t) \<Longrightarrow> \<not> keeps s (tm_pos s) tmp \<Longrightarrow> in_data t = in_data s \<Longrightarrow> okT s Q (f (False, t))"
  shows "okT s Q (bindT (tm_run_target tmp False s) f)"
proof (rule okT_bind[OF tm_run_target_ok[OF assms(1)]])
  fix x :: "bool \<times> tm_state"
  assume x: "case x of (res, t) \<Rightarrow> tm_frame s t \<and> tm_pos s < tm_pos t \<and> in_data t = in_data s \<and> res = keeps s (tm_pos s) tmp"
  obtain res t where xt: "x = (res, t)" by (cases x)
  have "shrunk s t" using x xt by (simp add: shrunk_def)
  moreover have "res \<Longrightarrow> shrunk s (t\<lparr>in_data := tmp\<rparr>)" using x xt assms(2) by (auto simp: shrunk_def)
  ultimately show "okT s Q (f x)" using x xt acc[of t] rej[of t] assms(3) by (cases res) (auto simp: stepped_def)
qed

lemma stepped_trans:
  assumes "stepped changed s (c, t)" "stepped c t ct"
  shows "stepped changed s ct"
proof -
  have "in_data (snd ct) = in_data s \<Longrightarrow> in_data t = in_data s"
    using assms simpler_antisym[of "in_data t" "in_data s"] by (auto simp: stepped_def shrunk_def)
  then show ?thesis using assms shrunk_trans[of s t "snd ct"] by (auto simp: stepped_def)
qed

lemma stepped_from: "okT t (stepped c t) m \<Longrightarrow> stepped changed s (c, t) \<Longrightarrow> okT s (stepped changed s) m"
  by (erule okT_from) (simp add: stepped_def, rule stepped_trans)

lemma stepped_refl [simp]: "stepped changed s (changed, s)"
  by (simp add: stepped_def)

lemma stepped_wf: "stepped changed s (c, t) \<Longrightarrow> tm_wf s \<Longrightarrow> tm_wf t"
  by (auto simp: stepped_def intro: shrunk_wf)

text \<open>What all stages with a flag promise, and what follows for two of them in sequence.\<close>

locale reducer =
  fixes stage :: "bool \<Rightarrow> tm_state \<Rightarrow> tm_stop + bool \<times> tm_state"
  assumes stage_ok: "tm_wf s \<Longrightarrow> okT s (stepped changed s) (stage changed s)"
begin

lemma stage_then:
  assumes "tm_wf s" "stepped changed s (c, t)"
    and "\<And>c t. stepped changed s (c, t) \<Longrightarrow> okT s Q (f (c, t))"
  shows "okT s Q (bindT (stage c t) f)"
proof (rule okT_bind)
  show "okT s (stepped changed s) (stage c t)"
    using stepped_from[OF stage_ok[of t c] assms(2)] stepped_wf[OF assms(2,1)] by simp
qed (use assms(3) in auto)

lemma stage_unchanged:
  assumes "tm_wf s" "stage changed s = Inr (False, t)"
  shows "\<not> changed" "in_data t = in_data s" "tm_frame s t"
  using stage_ok[OF assms(1), of changed] assms(2) by (auto simp: stepped_def shrunk_def)

end

lemma norm_loop_ok:
  assumes "tm_wf s" "0 < set_len" "length (in_data s) \<le> set_pos + fuel"
  shows "okT s (shrunk s) (norm_loop fuel set_len set_pos s)"
  using assms
proof (induction fuel arbitrary: set_pos s)
  case (Suc fuel)
  let ?u = "min set_len (length (in_data s) - set_pos)"
  let ?tmp = "take set_pos (in_data s) @ replicate ?u ZERO @ drop (set_pos + ?u) (in_data s)"
  have go: "okT s (shrunk s) (norm_loop fuel set_len (set_pos + set_len) t)" if "stepped False s (c, t)" for c t
  proof -
    have t: "shrunk s t" using that by (simp add: stepped_def)
    moreover have "length (in_data t) \<le> length (in_data s)" using t simpler_length by (auto simp: shrunk_def)
    ultimately show ?thesis using Suc.prems Suc.IH[OF shrunk_wf[OF t Suc.prems(1)], of "set_pos + set_len"]
      by (auto elim!: okT_from intro: shrunk_trans)
  qed
  show ?case
  proof (cases "set_pos < length (in_data s) \<and> \<not> (\<forall>b\<in>set (take ?u (drop set_pos (in_data s))). b = ZERO)")
    case True
    have u: "set_pos + ?u \<le> length (in_data s)" using True by auto
    have "?tmp \<noteq> in_data s"
    proof
      assume eq: "?tmp = in_data s"
      have "take ?u (drop set_pos ?tmp) = replicate ?u ZERO" using True by simp
      then show False using True unfolding eq by (metis in_set_replicate)
    qed
    then have "okT s (shrunk s) (bindT (tm_run_target ?tmp False s) (\<lambda>(res, s).
        norm_loop fuel set_len (set_pos + set_len) (if res then s\<lparr>in_data := ?tmp\<rparr> else s)))"
      using go by (intro try_ok[OF Suc.prems(1) simpler_block[OF u], of False]) simp_all
    moreover have "\<not> (\<forall>b\<in>set (take ?u (drop set_pos (in_data s))). b = ZERO)" using True by blast
    ultimately show ?thesis using True by (simp only: norm_loop.simps Let_def if_True if_False)
  next
    case False
    then show ?thesis using go[of False s] by (auto simp: Let_def)
  qed
qed simp

lemma small_next_p2:
  assumes "tm_wf s"
  shows "\<exists>m\<le>31. next_p2 (of_nat (length (in_data s) div n)) = Some (2 ^ m)"
proof -
  have "length (in_data s) div n \<le> length (in_data s)" "length (in_data s) < 2 ^ 31"
    using assms by (simp_all add: tm_wf_def TMIN_MAX_FILE_def)
  then have "length (in_data s) div n < 2 ^ 31" by (rule le_less_trans)
  then have "(of_nat (length (in_data s) div n) :: u32) \<le> 2 ^ 31"
    by (simp add: word_le_nat_alt unat_of_nat take_bit_nat_eq_self)
  then show ?thesis using next_p2_terminates by blast
qed

lemma block_normalization_ok:
  assumes "tm_wf s"
  shows "okT s (shrunk s) (block_normalization s)"
proof -
  obtain p where "next_p2 (of_nat (length (in_data s) div TMIN_SET_STEPS)) = Some p"
    using small_next_p2[OF assms, of TMIN_SET_STEPS] by auto
  then show ?thesis using norm_loop_ok[OF assms, of "max (unat p) TMIN_SET_MIN_SIZE" 0 "length (in_data s)"]
    by (simp add: block_normalization_def TMIN_SET_MIN_SIZE_def)
qed

text \<open>One step of the deletion loop, whose two results are distinguished by the flag.\<close>

lemma del_loop_ok:
  assumes "tm_wf s" "0 < del_len" "length (in_data s) \<le> del_pos + fuel" "prev_del \<or> del_len \<le> del_pos"
  shows "okT s (stepped changed s) (del_loop fuel del_len del_pos prev_del changed s)"
  using assms
proof (induction fuel arbitrary: del_pos prev_del changed s)
  case (Suc fuel)
  let ?d = "in_data s"
  let ?tail = "length ?d - del_pos - del_len"
  let ?tmp = "take del_pos ?d @ take ?tail (drop (del_pos + del_len) ?d)"
  let ?same = "\<not> prev_del \<and> ?tail \<noteq> 0 \<and> take del_len (drop (del_pos - del_len) ?d) = take del_len (drop del_pos ?d)"
  show ?case
  proof (cases "del_pos < length ?d \<and> \<not> ?same")
    case True
    have len: "length ?tmp < length ?d" using True Suc.prems(2) by auto
    then have ne: "?tmp \<noteq> ?d" by (metis less_irrefl)
    have tmp: "?tmp = take del_pos ?d @ drop (del_pos + del_len) ?d" by simp
    have "okT s (stepped changed s) (bindT (tm_run_target ?tmp False s) (\<lambda>(res, t).
        if res then del_loop fuel del_len del_pos True True (t\<lparr>in_data := ?tmp\<rparr>)
        else del_loop fuel del_len (del_pos + del_len) False changed t))"
    proof (rule try_ok[OF Suc.prems(1) _ ne, of changed])
      show "simpler ?tmp ?d" unfolding tmp by (rule simpler_delete)
      fix t assume t: "stepped changed s (True, t\<lparr>in_data := ?tmp\<rparr>)"
      have "okT (t\<lparr>in_data := ?tmp\<rparr>) (stepped True (t\<lparr>in_data := ?tmp\<rparr>)) (del_loop fuel del_len del_pos True True (t\<lparr>in_data := ?tmp\<rparr>))"
        using Suc.prems len stepped_wf[OF t] by (intro Suc.IH) auto
      then show "okT s (stepped changed s) (case (True, t) of (res, t) \<Rightarrow>
        if res then del_loop fuel del_len del_pos True True (t\<lparr>in_data := ?tmp\<rparr>)
        else del_loop fuel del_len (del_pos + del_len) False changed t)"
        using stepped_from[OF _ t] by simp
    next
      fix t assume t: "stepped changed s (changed, t)" "in_data t = ?d"
      have "okT t (stepped changed t) (del_loop fuel del_len (del_pos + del_len) False changed t)"
        using Suc.prems t(2) stepped_wf[OF t(1)] by (intro Suc.IH) auto
      then show "okT s (stepped changed s) (case (False, t) of (res, t) \<Rightarrow>
        if res then del_loop fuel del_len del_pos True True (t\<lparr>in_data := ?tmp\<rparr>)
        else del_loop fuel del_len (del_pos + del_len) False changed t)"
        using stepped_from[OF _ t(1)] by simp
    qed
    moreover have "\<not> (\<not> prev_del \<and> ?tail \<noteq> 0 \<and> del_pos < del_len)" using Suc.prems(4) by auto
    ultimately show ?thesis using True by (simp only: del_loop.simps Let_def if_True if_False)
  next
    case False
    have "okT s (stepped changed s) (del_loop fuel del_len (del_pos + del_len) prev_del changed s)"
      using Suc.prems by (intro Suc.IH) auto
    then show ?thesis using False Suc.prems(4) by (auto simp: Let_def)
  qed
qed (simp add: not_less)

lemma del_sizes_ok:
  assumes "tm_wf s"
  shows "okT s (stepped changed s) (del_sizes del_len changed s)"
  using assms
proof (induction del_len changed s rule: del_sizes.induct)
  case (1 del_len changed s)
  let ?n = "if del_len = 0 then 1 else del_len"
  show ?case
  proof (subst del_sizes.simps, unfold Let_def, rule okT_bind)
    show "okT s (stepped changed s) (del_loop (length (in_data s)) ?n 0 True changed s)"
      using 1(2) by (intro del_loop_ok) auto
    fix x :: "bool \<times> tm_state" 
    assume x: "del_loop (length (in_data s)) ?n 0 True changed s = Inr x" "stepped changed s x"
    obtain c t where xt: "x = (c, t)" by (cases x)
    have "okT t (stepped c t) (del_sizes (?n div 2) c t)" if "?n > 1 \<and> 1 \<le> length (in_data t)"
      using 1(1)[OF refl x(1) xt[symmetric] that] stepped_wf[of changed s c t] x 1(2) xt by simp
    then show "okT s (stepped changed s) (case x of (changed, s) \<Rightarrow>
        if 1 < ?n \<and> 1 \<le> length (in_data s) then del_sizes (?n div 2) changed s else Inr (changed, s))"
      using x xt stepped_from by auto
  qed
qed

interpretation deletion: reducer "del_sizes n" for n
  by unfold_locales (rule del_sizes_ok)

lemma block_deletion_ok:
  assumes "tm_wf s"
  shows "okT s (stepped False s) (block_deletion s)"
  using small_next_p2[OF assms, of TRIM_START_STEPS] deletion.stage_ok[OF assms] by (auto simp: block_deletion_def)

lemma alpha_loop_ok:
  assumes "tm_wf s" "distinct is" "\<forall>i\<in>set is. i \<noteq> 48 \<and> alpha_map i \<noteq> 0 \<longrightarrow> (\<exists>b\<in>set (in_data s). unat b = i)"
  shows "okT s (stepped changed s) (alpha_loop is alpha_map changed s)"
  using assms
proof (induction "is" arbitrary: changed s)
  case (Cons i js)
  let ?tmp = "map (\<lambda>b. if unat b = i then ZERO else b) (in_data s)"
  show ?case
  proof (cases "i = 48 \<or> alpha_map i = 0")
    case False
    then obtain b where b: "b \<in> set (in_data s)" "unat b = i" "b \<noteq> ZERO" using Cons.prems(3) by fastforce
    then have "b \<notin> set ?tmp" by auto
    then have ne: "?tmp \<noteq> in_data s" using b(1) by metis
    have rest: "\<exists>b\<in>set ?tmp. unat b = j" if j: "j \<in> set js" "j \<noteq> 48 \<and> alpha_map j \<noteq> 0" for j
    proof -
      obtain b where "b \<in> set (in_data s)" "unat b = j" using bspec[OF Cons.prems(3), of j] j by auto
      then show ?thesis using j(1) Cons.prems(2) by (intro bexI[of _ b]) (auto simp: image_iff)
    qed
    have "okT s (stepped changed s) (bindT (tm_run_target ?tmp False s) (\<lambda>(res, t).
        if res then alpha_loop js alpha_map True (t\<lparr>in_data := ?tmp\<rparr>) else alpha_loop js alpha_map changed t))"
    proof (rule try_ok[OF Cons.prems(1) simpler_map ne, of changed])
      fix t assume t: "stepped changed s (True, t\<lparr>in_data := ?tmp\<rparr>)"
      have "okT (t\<lparr>in_data := ?tmp\<rparr>) (stepped True (t\<lparr>in_data := ?tmp\<rparr>)) (alpha_loop js alpha_map True (t\<lparr>in_data := ?tmp\<rparr>))"
        using Cons.prems stepped_wf[OF t] rest by (intro Cons.IH) auto
      then show "okT s (stepped changed s) (case (True, t) of (res, t) \<Rightarrow>
        if res then alpha_loop js alpha_map True (t\<lparr>in_data := ?tmp\<rparr>) else alpha_loop js alpha_map changed t)"
        using stepped_from[OF _ t] by simp
    next
      fix t assume t: "stepped changed s (changed, t)" "in_data t = in_data s"
      have "okT t (stepped changed t) (alpha_loop js alpha_map changed t)"
        using Cons.prems t(2) stepped_wf[OF t(1)] by (intro Cons.IH) auto
      then show "okT s (stepped changed s) (case (False, t) of (res, t) \<Rightarrow>
        if res then alpha_loop js alpha_map True (t\<lparr>in_data := ?tmp\<rparr>) else alpha_loop js alpha_map changed t)"
        using stepped_from[OF _ t(1)] by simp
    qed
    then show ?thesis using False by (simp only: alpha_loop.simps Let_def if_False)
  qed (use Cons in auto)
qed simp

lemma char_loop_ok:
  assumes "tm_wf s" "tmp = in_data s" "\<forall>i\<in>set is. i < length (in_data s)"
  shows "okT s (stepped changed s) (char_loop is tmp changed s)"
  using assms
proof (induction "is" arbitrary: tmp changed s)
  case (Cons i js)
  let ?tmp = "tmp[i := ZERO]"
  show ?case
  proof (cases "tmp ! i = ZERO")
    case False
    have ne: "?tmp \<noteq> in_data s" using False Cons.prems(2,3) by (metis list.set_intros(1) nth_list_update_eq)
    have eq: "(in_data t)[i := ZERO] = ?tmp" if "in_data t = in_data s" for t using that Cons.prems(2) by simp
    have "okT s (stepped changed s) (bindT (tm_run_target ?tmp False s) (\<lambda>(res, t).
        if res then char_loop js ?tmp True (t\<lparr>in_data := (in_data t)[i := ZERO]\<rparr>) else char_loop js (tmp[i := ZERO, i := tmp ! i]) changed t))"
    proof (rule try_ok[OF Cons.prems(1) _ ne, of changed])
      show "simpler ?tmp (in_data s)" using Cons.prems(2) simpler_update by simp
      fix t assume t: "stepped changed s (True, t\<lparr>in_data := ?tmp\<rparr>)" "in_data t = in_data s"
      have "okT (t\<lparr>in_data := ?tmp\<rparr>) (stepped True (t\<lparr>in_data := ?tmp\<rparr>)) (char_loop js ?tmp True (t\<lparr>in_data := ?tmp\<rparr>))"
        using Cons.prems stepped_wf[OF t(1)] by (intro Cons.IH) auto
      then show "okT s (stepped changed s) (case (True, t) of (res, t) \<Rightarrow>
        if res then char_loop js ?tmp True (t\<lparr>in_data := (in_data t)[i := ZERO]\<rparr>) else char_loop js (tmp[i := ZERO, i := tmp ! i]) changed t)"
        using stepped_from[OF _ t(1)] eq[OF t(2)] by simp
    next
      fix t assume t: "stepped changed s (changed, t)" "in_data t = in_data s"
      have "okT t (stepped changed t) (char_loop js (tmp[i := ZERO, i := tmp ! i]) changed t)"
        using Cons.prems t(2) stepped_wf[OF t(1)] by (intro Cons.IH) auto
      then show "okT s (stepped changed s) (case (False, t) of (res, t) \<Rightarrow>
        if res then char_loop js ?tmp True (t\<lparr>in_data := (in_data t)[i := ZERO]\<rparr>) else char_loop js (tmp[i := ZERO, i := tmp ! i]) changed t)"
        using stepped_from[OF _ t(1)] by simp
    qed
    then show ?thesis using False by (simp only: char_loop.simps Let_def if_False)
  qed (use Cons in auto)
qed simp

interpretation alphabet: reducer alphabet_minimization
proof
  fix s changed assume "tm_wf s"
  then show "okT s (stepped changed s) (alphabet_minimization changed s)"
    unfolding alphabet_minimization_def by (intro alpha_loop_ok) (auto simp: filter_empty_conv)
qed

interpretation character: reducer character_minimization
proof
  fix s changed assume "tm_wf s"
  then show "okT s (stepped changed s) (character_minimization changed s)"
    unfolding character_minimization_def by (intro char_loop_ok) auto
qed

section \<open>No byte can be spared\<close>

text \<open>
  For a target that behaves the same on every run: the deletion stage gives up without a change only if
  the removal of each single byte was rejected. The blocks it skips equal their predecessors, and give
  the same candidate.
\<close>

definition steady :: "tm_state \<Rightarrow> bool" where
  "steady s \<longleftrightarrow> (\<forall>j mem. tm_target s j mem = tm_target s 0 mem)"

definition without :: "nat \<Rightarrow> u8 list \<Rightarrow> u8 list" where
  "without q d = take q d @ drop (Suc q) d"

definition stuck :: "tm_state \<Rightarrow> bool" where
  "stuck s \<longleftrightarrow> (\<forall>q < length (in_data s). \<not> keeps s 0 (without q (in_data s)))"

lemma steady_keeps: "steady s \<Longrightarrow> keeps s j mem \<longleftrightarrow> keeps s 0 mem"
  unfolding keeps_def steady_def by metis

lemma steady_frame: "tm_frame s t \<Longrightarrow> steady t \<longleftrightarrow> steady s"
  by (simp add: steady_def tm_frame_def)

lemma stuck_frame: "tm_frame s t \<Longrightarrow> in_data t = in_data s \<Longrightarrow> stuck t \<longleftrightarrow> stuck s"
  by (simp add: stuck_def frame_keeps)

lemma without_twin:
  assumes "d ! p = d ! Suc p" "Suc p < length d"
  shows "without (Suc p) d = without p d"
proof -
  have "drop (Suc p) d = d ! p # drop (Suc (Suc p)) d" using assms by (simp add: Cons_nth_drop_Suc)
  moreover have "take (Suc p) d = take p d @ [d ! p]" using assms(2) by (simp add: take_Suc_conv_app_nth)
  ultimately show ?thesis by (simp add: without_def)
qed

lemma del_loop_stuck:
  assumes "tm_wf s" "steady s" "length (in_data s) \<le> p + fuel" "prev_del \<or> 0 < p"
    and "\<forall>q<min p (length (in_data s)). \<not> keeps s 0 (without q (in_data s))"
  shows "okT s (\<lambda>(c, t). \<not> c \<longrightarrow> stuck s) (del_loop fuel 1 p prev_del changed s)"
  using assms
proof (induction fuel arbitrary: p prev_del changed s)
  case (Suc fuel)
  let ?d = "in_data s"
  let ?tail = "length ?d - p - 1"
  let ?tmp = "take p ?d @ take ?tail (drop (p + 1) ?d)"
  let ?same = "\<not> prev_del \<and> ?tail \<noteq> 0 \<and> take 1 (drop (p - 1) ?d) = take 1 (drop p ?d)"
  let ?Q = "\<lambda>(c, t :: tm_state). \<not> c \<longrightarrow> stuck s"
  show ?case
  proof (cases "p < length ?d \<and> \<not> ?same")
    case True
    have tmp: "?tmp = without p ?d" by (simp add: without_def)
    have len: "length ?tmp < length ?d" using True by auto
    then have ne: "?tmp \<noteq> ?d" by (metis less_irrefl)
    have "okT s ?Q (bindT (tm_run_target ?tmp False s) (\<lambda>(res, t).
        if res then del_loop fuel 1 p True True (t\<lparr>in_data := ?tmp\<rparr>) else del_loop fuel 1 (p + 1) False changed t))"
    proof (rule try_ok[OF Suc.prems(1) _ ne, of changed])
      show "simpler ?tmp ?d" unfolding tmp without_def using simpler_delete[of p ?d 1] by simp
      fix t assume t: "stepped changed s (True, t\<lparr>in_data := ?tmp\<rparr>)"
      have "okT (t\<lparr>in_data := ?tmp\<rparr>) (stepped True (t\<lparr>in_data := ?tmp\<rparr>)) (del_loop fuel 1 p True True (t\<lparr>in_data := ?tmp\<rparr>))"
        using Suc.prems len stepped_wf[OF t] by (intro del_loop_ok) auto
      then show "okT s ?Q (case (True, t) of (res, t) \<Rightarrow>
        if res then del_loop fuel 1 p True True (t\<lparr>in_data := ?tmp\<rparr>) else del_loop fuel 1 (p + 1) False changed t)"
        using t by (auto simp: stepped_def elim!: okT_from)
    next
      fix t assume t: "stepped changed s (changed, t)" "\<not> keeps s (tm_pos s) ?tmp" "in_data t = ?d"
      have f: "tm_frame s t" "shrunk s t" using t(1) by (simp_all add: stepped_def shrunk_def)
      have "\<forall>q<min (p + 1) (length ?d). \<not> keeps s 0 (without q ?d)"
        using t(2) Suc.prems(5) steady_keeps[OF Suc.prems(2)] unfolding tmp by (auto simp: less_Suc_eq)
      then have "okT t (\<lambda>(c, t'). \<not> c \<longrightarrow> stuck t) (del_loop fuel 1 (p + 1) False changed t)"
        using Suc.prems t(3) stepped_wf[OF t(1)] steady_frame[OF f(1)] frame_keeps[OF f(1)] by (intro Suc.IH) auto
      then show "okT s ?Q (case (False, t) of (res, t) \<Rightarrow>
        if res then del_loop fuel 1 p True True (t\<lparr>in_data := ?tmp\<rparr>) else del_loop fuel 1 (p + 1) False changed t)"
        using stuck_frame[OF f(1) t(3)] f(2) by (auto elim!: okT_from)
    qed
    moreover have "\<not> (\<not> prev_del \<and> ?tail \<noteq> 0 \<and> p < 1)" using Suc.prems(4) by auto
    ultimately show ?thesis using True by (simp only: del_loop.simps Let_def if_True if_False)
  next
    case False
    show ?thesis
    proof (cases "p < length ?d")
      case in_range: True
      then have same: ?same using False by blast
      then obtain r where r: "p = Suc r" using Suc.prems(4) by (cases p) auto
      have "?d ! r = ?d ! Suc r" using same in_range r by (auto simp: take_Suc hd_drop_conv_nth)
      then have "\<not> keeps s 0 (without p ?d)" using without_twin[of ?d r] Suc.prems(5) in_range r by simp
      then have "okT s ?Q (del_loop fuel 1 (p + 1) prev_del changed s)"
        using Suc.prems in_range by (intro Suc.IH) (auto simp: less_Suc_eq)
      moreover have "\<not> (\<not> prev_del \<and> ?tail \<noteq> 0 \<and> p < 1)" using r by simp
      ultimately show ?thesis using in_range same by (simp only: del_loop.simps Let_def if_True if_False) simp
    next
      case out: False
      then have "stuck s" using Suc.prems(5) by (simp add: stuck_def)
      then show ?thesis using out by simp
    qed
  qed
qed (auto simp: stuck_def)

text \<open>The promise of the deletion stage, and of a whole pass: without a change, no byte can be spared.\<close>

definition settled :: "bool \<Rightarrow> tm_state \<Rightarrow> bool \<times> tm_state \<Rightarrow> bool" where
  "settled changed s ct \<longleftrightarrow> stepped changed s ct \<and> (steady s \<and> \<not> fst ct \<longrightarrow> stuck (snd ct))"

lemma okT_conj: "okT s P m \<Longrightarrow> okT s Q m \<Longrightarrow> okT s (\<lambda>x. P x \<and> Q x) m"
  by (auto simp: okT_def split: sum.splits tm_stop.splits)

lemma settled_from:
  assumes "okT t (settled c t) m" "stepped changed s (c, t)"
  shows "okT s (settled changed s) m"
  using assms(1)
proof (rule okT_from)
  show "shrunk s t" using assms(2) by (simp add: stepped_def)
  then have "steady t \<longleftrightarrow> steady s" by (intro steady_frame) (simp add: shrunk_def)
  then show "settled c t x \<Longrightarrow> settled changed s x" for x using stepped_trans[OF assms(2), of x] by (simp add: settled_def)
qed

lemma del_loop_settled:
  assumes "tm_wf s"
  shows "okT s (settled changed s) (del_loop (length (in_data s)) 1 0 True changed s)"
proof (cases "steady s")
  case True
  have 1: "okT s (stepped changed s) (del_loop (length (in_data s)) 1 0 True changed s)"
    using assms by (intro del_loop_ok) auto
  have 2: "okT s (\<lambda>(c, t). \<not> c \<longrightarrow> stuck s) (del_loop (length (in_data s)) 1 0 True changed s)"
    using assms True by (intro del_loop_stuck) auto
  show ?thesis
  proof (rule okT_mono[OF okT_conj[OF 1 2]])
    fix x :: "bool \<times> tm_state"
    assume "stepped changed s x \<and> (case x of (c, t) \<Rightarrow> \<not> c \<longrightarrow> stuck s)"
    then show "settled changed s x" using stuck_frame[of s "snd x"] by (auto simp: settled_def stepped_def shrunk_def)
  qed
next
  case False
  then show ?thesis using del_loop_ok[of s 1 0 "length (in_data s)" True changed] assms
    by (auto simp: settled_def elim: okT_mono)
qed

lemma del_sizes_settled:
  assumes "tm_wf s"
  shows "okT s (settled changed s) (del_sizes del_len changed s)"
  using assms
proof (induction del_len changed s rule: del_sizes.induct)
  case (1 del_len changed s)
  let ?n = "if del_len = 0 then 1 else del_len"
  have last: "okT s (settled changed s) (del_loop (length (in_data s)) ?n 0 True changed s)" if "\<not> 1 < ?n"
  proof -
    have "?n = 1" using that by auto
    then show ?thesis using del_loop_settled[OF 1(2)] by simp
  qed
  show ?case
  proof (subst del_sizes.simps, unfold Let_def, rule okT_bind)
    show "okT s (\<lambda>x. stepped changed s x \<and> (\<not> 1 < ?n \<longrightarrow> settled changed s x)) (del_loop (length (in_data s)) ?n 0 True changed s)"
      using 1(2) last by (cases "1 < ?n") (auto intro!: okT_conj del_loop_ok)
    fix x :: "bool \<times> tm_state" 
    assume x: "del_loop (length (in_data s)) ?n 0 True changed s = Inr x" "stepped changed s x \<and> (\<not> 1 < ?n \<longrightarrow> settled changed s x)"
    obtain c t where xt: "x = (c, t)" by (cases x)
    have "okT t (settled c t) (del_sizes (?n div 2) c t)" if "?n > 1 \<and> 1 \<le> length (in_data t)"
      using 1(1)[OF refl x(1) xt[symmetric] that] stepped_wf[of changed s c t] x 1(2) xt by simp
    moreover have "settled changed s x" if "length (in_data t) = 0" using x that xt by (simp add: settled_def stuck_def)
    ultimately show "okT s (settled changed s) (case x of (changed, s) \<Rightarrow>
        if 1 < ?n \<and> 1 \<le> length (in_data s) then del_sizes (?n div 2) changed s else Inr (changed, s))"
      using x xt settled_from[of t c _ changed s] by (cases "length (in_data t) = 0") (auto simp: Suc_le_eq)
  qed
qed

lemma block_deletion_settled:
  assumes "tm_wf s"
  shows "okT s (settled False s) (block_deletion s)"
  using small_next_p2[OF assms, of TRIM_START_STEPS] del_sizes_settled[OF assms] by (auto simp: block_deletion_def)

section \<open>The whole minimization\<close>

text \<open>Every pass that is followed by another has lowered the weight of the data.\<close>

definition minimized :: "tm_state \<Rightarrow> tm_state \<Rightarrow> bool" where
  "minimized s t \<longleftrightarrow> shrunk s t \<and> (steady s \<longrightarrow> stuck t)"

lemma minimized_from:
  assumes "okT t (minimized t) m" "shrunk s t"
  shows "okT s (minimized s) m"
  using assms
proof (rule okT_from)
  have "steady t \<longleftrightarrow> steady s" using assms(2) by (intro steady_frame) (simp add: shrunk_def)
  then show "minimized t x \<Longrightarrow> minimized s x" for x using shrunk_trans[OF assms(2)] by (simp add: minimized_def)
qed

lemma pass_loop_ok:
  assumes "tm_wf s" "weight (in_data s) < fuel"
  shows "okT s (minimized s) (pass_loop fuel cur_pass s)"
  using assms
proof (induction fuel arbitrary: cur_pass s)
  case (Suc fuel)
  show ?case unfolding pass_loop.simps
  proof (rule okT_bind[OF block_deletion_settled[OF Suc.prems(1)]])
    fix x assume x: "settled False s x"
    obtain c t where xt: "x = (c, t)" by (cases x)
    have t: "stepped False s (c, t)" "tm_wf t" using x xt Suc.prems(1) stepped_wf by (auto simp: settled_def)
    have st: "shrunk s t" using t(1) by (simp add: stepped_def)
    let ?rest = "bindT (alphabet_minimization c t) (\<lambda>(changed, s).
        bindT (character_minimization changed s) (\<lambda>(changed, s). if changed then pass_loop fuel (cur_pass + 1) s else Inr s))"
    have "okT t (minimized t) ?rest"
    proof (rule alphabet.stage_then[OF t(2) stepped_refl], simp only: case_prod_conv, rule character.stage_then[OF t(2)], assumption)
      fix c1 t1 c2 t2 assume u: "stepped c t (c2, t2)"
      have s2: "shrunk t t2" "tm_frame t t2" using u by (simp_all add: stepped_def shrunk_def)
      show "okT t (minimized t) (case (c2, t2) of (changed, s) \<Rightarrow> if changed then pass_loop fuel (cur_pass + 1) s else Inr s)"
      proof (cases c2)
        case True
        have su: "stepped False s (c2, t2)" using stepped_trans[OF t(1) u] .
        then have "weight (in_data t2) < weight (in_data s)"
          using simpler_weight[of "in_data t2" "in_data s"] True by (auto simp: stepped_def shrunk_def)
        then have "okT t2 (minimized t2) (pass_loop fuel (cur_pass + 1) t2)"
          using Suc.prems stepped_wf[OF su] by (intro Suc.IH) auto
        then show ?thesis using True minimized_from s2(1) by simp
      next
        case False
        then have "\<not> c" "in_data t2 = in_data t" using u by (auto simp: stepped_def)
        then have "steady s \<longrightarrow> stuck t2" using x xt stuck_frame[OF s2(2)] by (simp add: settled_def)
        then show ?thesis using False s2(1) steady_frame[of s t] st by (simp add: minimized_def shrunk_def)
      qed
    qed
    then have "okT s (minimized s) ?rest" using minimized_from st by blast
    then show "okT s (minimized s) (case x of (changed, s) \<Rightarrow> if cur_pass + 1 > 1 \<and> \<not> changed then Inr s else
         bindT (alphabet_minimization changed s) (\<lambda>(changed, s).
         bindT (character_minimization changed s) (\<lambda>(changed, s). if changed then pass_loop fuel (cur_pass + 1) s else Inr s)))"
      using x xt st by (auto simp: minimized_def settled_def)
  qed
qed simp

lemma tm_minimize_ok:
  assumes "tm_wf s"
  shows "okT s (minimized s) (tm_minimize s)"
  unfolding tm_minimize_def
proof (rule okT_bind[OF block_normalization_ok[OF assms]])
  fix t assume t: "shrunk s t"
  have "weight (in_data t) \<le> 2 * length (in_data t)" by (simp add: weight_def)
  then have "okT t (minimized t) (pass_loop (2 * length (in_data t) + 2) 0 t)"
    using shrunk_wf[OF t assms] by (intro pass_loop_ok) auto
  then show "okT s (minimized s) (pass_loop (2 * length (in_data t) + 2) 0 t)" using minimized_from t by blast
qed

section \<open>From the file given to the file written\<close>

text \<open>What the minimizer preserves: how the run \<open>oc\<close> ends is how the first run \<open>oc0\<close> did.\<close>

definition same_behaviour :: "tm_state \<Rightarrow> outcome \<Rightarrow> outcome \<Rightarrow> bool" where
  "same_behaviour s oc0 oc \<longleftrightarrow> \<not> oc_timed_out oc \<and> crashed oc s = crashed oc0 s \<and>
     (crashed oc0 s \<and> \<not> exact_mode s \<or> hash32 (seen_trace oc s) HASH_CONST = hash32 (seen_trace oc0 s) HASH_CONST)"

abbreviation first_outcome :: "u8 list \<Rightarrow> tm_state \<Rightarrow> outcome" where
  "first_outcome data s \<equiv> tm_target s (tm_pos s) data (tm_tmout s)"

lemma first_run:
  assumes "tm_wf s" "\<not> tm_crash_mode s" "tm_run_target mem True s = Inr (res, t)" "\<not> oc_timed_out (first_outcome mem s)"
  shows "tm_wf t" "in_data t = in_data s" "tm_pos t = Suc (tm_pos s)" "tm_target t = tm_target s" "tm_tmout t = tm_tmout s"
    "unrunnable t \<longleftrightarrow> unrunnable s" "interrupted t \<longleftrightarrow> interrupted s"
    "keeps t j m \<longleftrightarrow> same_behaviour s (first_outcome mem s) (tm_target s j m (tm_tmout s))"
proof -
  let ?oc = "first_outcome mem s"
  have t: "tm_target t = tm_target s" "tm_tmout t = tm_tmout s" "length (tm_trace t) = length (tm_trace s)"
    "mask_bitmap t = mask_bitmap s" "in_data t = in_data s" "tm_pos t = Suc (tm_pos s)" "exit_crash t = exit_crash s" 
    "edges_only t = edges_only s" "exact_mode t = exact_mode s" "tm_crash_mode t = crashed ?oc s"
    "\<not> (crashed ?oc s \<and> \<not> exact_mode s) \<Longrightarrow> orig_cksum t = hash32 (seen_trace ?oc s) HASH_CONST"
    using assms(2-4) length_seen_trace[OF assms(1), of ?oc]
    by (auto simp: tm_run_target_def tm_judge_def Let_def split: if_splits)
  show "tm_wf t" "in_data t = in_data s" "tm_pos t = Suc (tm_pos s)" "tm_target t = tm_target s" "tm_tmout t = tm_tmout s"
    "unrunnable t \<longleftrightarrow> unrunnable s" "interrupted t \<longleftrightarrow> interrupted s"
    using assms(1) t by (simp_all add: tm_wf_def unrunnable_def interrupted_def raw_trace_def)
  have "seen_trace oc t = seen_trace oc s" "crashed oc t = crashed oc s" for oc
    using t by (simp_all add: seen_trace_def crashed_def raw_trace_def)
  then show "keeps t j m \<longleftrightarrow> same_behaviour s ?oc (tm_target s j m (tm_tmout s))"
    using t by (auto simp: keeps_def same_behaviour_def Let_def)
qed

definition preserved :: "u8 list \<Rightarrow> tm_state \<Rightarrow> u8 list \<Rightarrow> bool" where
  "preserved data s out \<longleftrightarrow> simpler out data \<and>
     (out = data \<or> (\<exists>j>tm_pos s. same_behaviour s (first_outcome data s) (tm_target s j out (tm_tmout s))))"

lemma tmin_main_ok:
  assumes "4 dvd length (tm_trace s)" "\<forall>m. mask_bitmap s = Some m \<longrightarrow> length m = length (tm_trace s)"
    "data \<noteq> []" "length data < TMIN_MAX_FILE" "\<not> oc_timed_out (first_outcome data s)"
    "tm_run_target data True (s\<lparr>in_data := data, tm_crash_mode := False\<rparr>) = Inr (res, t)"
  shows "okT t (minimized t) (tm_minimize t)" "in_data t = data"
    "unrunnable t \<longleftrightarrow> unrunnable s" "interrupted t \<longleftrightarrow> interrupted s" "tm_target t = tm_target s"
    "keeps t j m \<longleftrightarrow> same_behaviour s (first_outcome data s) (tm_target s j m (tm_tmout s))"
    "shrunk t u \<Longrightarrow> preserved data s (in_data u)"
    "tm_crash_mode t \<longleftrightarrow> crashed (first_outcome data s) s" "tm_trace t = seen_trace (first_outcome data s) s"
proof -
  let ?s = "s\<lparr>in_data := data, tm_crash_mode := False\<rparr>"
  have wf: "tm_wf ?s" using assms by (simp add: tm_wf_def mod_eq_0_iff_dvd)
  have "same_behaviour ?s = same_behaviour s" by (simp add: same_behaviour_def fun_eq_iff)
  then have f: "tm_wf t" "in_data t = data" "tm_pos t = Suc (tm_pos s)" "tm_target t = tm_target s" "tm_tmout t = tm_tmout s"
    "unrunnable t \<longleftrightarrow> unrunnable ?s" "interrupted t \<longleftrightarrow> interrupted ?s"
    "keeps t j m \<longleftrightarrow> same_behaviour s (first_outcome data s) (tm_target s j m (tm_tmout s))" for j m
    using first_run[OF wf _ assms(6)] assms(5) by simp_all
  show "okT t (minimized t) (tm_minimize t)" by (rule tm_minimize_ok[OF f(1)])
  show "in_data t = data" "tm_target t = tm_target s" "unrunnable t \<longleftrightarrow> unrunnable s" "interrupted t \<longleftrightarrow> interrupted s"
    using f by (simp_all add: unrunnable_def interrupted_def)
  show k: "keeps t j m \<longleftrightarrow> same_behaviour s (first_outcome data s) (tm_target s j m (tm_tmout s))" for j m by (rule f(8))
  show "shrunk t u \<Longrightarrow> preserved data s (in_data u)" using f(2,3) by (auto simp: shrunk_def preserved_def k Suc_le_eq)
  show "tm_crash_mode t \<longleftrightarrow> crashed (first_outcome data s) s" "tm_trace t = seen_trace (first_outcome data s) s"
    using assms(5,6) by (auto simp: tm_run_target_def tm_judge_def Let_def split: if_splits)
qed

lemma first_run_stop:
  assumes "tm_run_target data True (s\<lparr>in_data := data, tm_crash_mode := False\<rparr>) = Inl e"
  shows "case e of TFail x \<Rightarrow> fatal x \<and> unrunnable s | TAborted out \<Rightarrow> interrupted s \<and> out = data"
  using assms by (auto simp: tm_run_target_def Let_def intro: runs_witnessed split: if_splits)

text \<open>
  C11. \<open>afl-tmin\<close> ends, whatever the target does and even if it behaves differently on every run: no loop exceeds its
  bound and nothing is read outside the buffers. The file it writes, also when the user interrupts it, is the one
  given or has been approved by a run of its own that ended as the first one did (same kind of exit, and the same
  trace unless only the crash matters); it comes from the file given by removing bytes and replacing bytes by the
  character 0.
\<close>

theorem tmin_main_preserves:
  assumes "4 dvd length (tm_trace s)" "\<forall>m. mask_bitmap s = Some m \<longrightarrow> length m = length (tm_trace s)"
  shows "case tmin_main data s of Inl (TFail e) \<Rightarrow> fatal e | Inl (TAborted out) \<Rightarrow> interrupted s \<and> preserved data s out
    | Inr out \<Rightarrow> preserved data s out"
proof (cases "data \<noteq> [] \<and> length data < TMIN_MAX_FILE")
  case sz: True
  show ?thesis
  proof (cases "tm_run_target data True (s\<lparr>in_data := data, tm_crash_mode := False\<rparr>)")
    case (Inl e)
    then show ?thesis using first_run_stop[OF Inl] sz by (cases e) (auto simp: tmin_main_def Let_def preserved_def)
  next
    case (Inr x)
    obtain res t where x: "x = (res, t)" by (cases x)
    let ?main = "\<not> oc_timed_out (first_outcome data s) \<and> (tm_crash_mode t \<or> anything_set (tm_trace t))"
    show ?thesis
    proof (cases ?main)
      case True
      then have "tmin_main data s = bindT (tm_minimize t) (\<lambda>s. Inr (in_data s))" using Inr x sz by (auto simp: tmin_main_def Let_def)
      then show ?thesis using tmin_main_ok[OF assms, of data res t] sz Inr x True
        by (cases "tm_minimize t") (auto simp: okT_def minimized_def split: tm_stop.splits)
    next
      case False
      then show ?thesis using Inr x sz by (auto simp: tmin_main_def Let_def)
    qed
  qed
qed (auto simp: tmin_main_def)

text \<open>
  C12. Where the target behaves the same on every run, can be run, and is not interrupted, \<open>afl-tmin\<close> writes a
  file, and no single byte can be removed from that file any more without a change of the behaviour.
\<close>

theorem tmin_main_minimal:
  assumes "4 dvd length (tm_trace s)" "\<forall>m. mask_bitmap s = Some m \<longrightarrow> length m = length (tm_trace s)"
    and "data \<noteq> []" "length data < TMIN_MAX_FILE" "steady s" "\<not> unrunnable s" "\<not> interrupted s"
    and "\<not> oc_timed_out (first_outcome data s)" "crashed (first_outcome data s) s \<or> anything_set (seen_trace (first_outcome data s) s)"
  shows "\<exists>out. tmin_main data s = Inr out \<and>
    (\<forall>q < length out. \<not> same_behaviour s (first_outcome data s) (tm_target s 0 (without q out) (tm_tmout s)))"
proof (cases "tm_run_target data True (s\<lparr>in_data := data, tm_crash_mode := False\<rparr>)")
  case (Inl e)
  then show ?thesis using first_run_stop[OF Inl] assms(6,7) by (cases e) auto
next
  case (Inr x)
  obtain res t where x: "x = (res, t)" by (cases x)
  note ok = tmin_main_ok[OF assms(1-4,8), of res t, OF Inr[unfolded x]]
  obtain u where u: "tm_minimize t = Inr u" "shrunk t u" "stuck u"
  proof -
    have "steady t" using assms(5) ok(5) by (simp add: steady_def)
    then show ?thesis using ok(1,3,4) assms(6,7) that by (cases "tm_minimize t") (auto simp: okT_def minimized_def split: tm_stop.splits)
  qed
  have "keeps u j m \<longleftrightarrow> same_behaviour s (first_outcome data s) (tm_target s j m (tm_tmout s))" for j m
    using frame_keeps[of t u] u(2) ok(6) by (simp add: shrunk_def)
  then show ?thesis using u assms Inr x ok(8,9) by (auto simp: tmin_main_def Let_def stuck_def)
qed

text \<open>A target that crashes on inputs with the letter A.\<close>

definition example_tm :: tm_state where
  "example_tm = \<lparr>tm_target = (\<lambda>j mem t. \<lparr>oc_sys = SysOk, oc_pid = 1, oc_trace = (\<lambda>m. [1, 0, 0, 0]), oc_status = (if 65 \<in> set mem then 11 else 0),
       oc_timed_out = False, oc_stop = False, oc_skip = False\<rparr>),
     tm_pos = 0, tm_tmout = 1000, in_data = [], tm_trace = replicate 8 0, mask_bitmap = None, orig_cksum = 0, tm_execs = 0,
     missed_hangs = 0, missed_crashes = 0, missed_paths = 0, tm_crash_mode = False, exit_crash = False, edges_only = False,
     exact_mode = False\<rparr>"

theorem tmin_main_preserves_witness:
  "case tmin_main [66, 65, 67] example_tm of Inl (TFail e) \<Rightarrow> fatal e | Inl (TAborted out) \<Rightarrow> interrupted example_tm \<and> preserved [66, 65, 67] example_tm out
    | Inr out \<Rightarrow> preserved [66, 65, 67] example_tm out"
  by (rule tmin_main_preserves) (simp_all add: example_tm_def)

theorem tmin_main_minimal_witness:
  "\<exists>out. tmin_main [66, 65, 67] example_tm = Inr out \<and> (\<forall>q < length out. \<not> same_behaviour example_tm (first_outcome [66, 65, 67] example_tm)
     (tm_target example_tm 0 (without q out) (tm_tmout example_tm)))"
proof (rule tmin_main_minimal)
  show "\<not> unrunnable example_tm" by (simp add: unrunnable_def example_tm_def raw_trace_def shared_map_def EXEC_FAIL_SIG_def)
qed (simp_all add: example_tm_def TMIN_MAX_FILE_def steady_def interrupted_def crashed_def WIFSIGNALED_def)

end
