(* ===== verification/Spec2Isabelle.thy ===== *)
theory Spec2Isabelle
  imports Afl_Disk Afl_Bitmap Afl_Hash Afl_Mutators Afl_Random Afl_Queue Afl_Extras Afl_Exec Afl_Trim Afl_Alloc Afl_Stages Afl_Plans Afl_Det Afl_Havoc Afl_Fuzz Afl_Seeds Afl_Sync Afl_Main Afl_Report Afl_Tmin
begin

text \<open>
  A verification development for the fuzzer that this repository ships under \<open>src/docker/afl\<close>
  (AFL 2.52b), the C program that drives the binaries retrowrite instruments.

  \<^bold>\<open>The program.\<close> \<open>afl-fuzz.c\<close> keeps a queue of test cases. For one entry after the other \<open>fuzz_one\<close>
  decides whether to skip it, calibrates and trims it, runs a fixed sequence of deterministic mutations
  and then random ones (havoc), the latter also on inputs spliced from two entries. Every mutated input
  goes through \<open>common_fuzz_stuff\<close>: it is written where the target reads it, the target is run, and
  \<open>save_if_interesting\<close> compares the coverage map the run has left with what has been seen before and
  keeps the input as a queue entry, a crash or a hang. The queue is thinned by \<open>update_bitmap_score\<close> and
  \<open>cull_queue\<close>, which pick for every byte of the map the fastest, smallest entry. All of it shares global
  variables, and all buffers come from the checking allocator of \<open>alloc-inl.h\<close>. The loop of \<open>main\<close> goes
  through the queue in cycles and now and then imports what other instances have found. \<open>afl-tmin.c\<close> is
  a program of its own: it makes one test case smaller as long as the target behaves the same on it.

  \<^bold>\<open>State.\<close> The globals are one extensible record, built up theory by theory along the dependencies:
  \<open>bm_state\<close> (maps), \<open>rng_state\<close> (generator), \<open>q_state\<close> (queue, files), \<open>ex_state\<close> (dictionaries), \<open>x_state\<close>
  (execution and statistics), \<open>y_state\<close> (imports), \<open>r_state\<close> (status files). Operations take the record and return it, in the sum type \<open>err + 'a\<close>:
  \<open>FATAL\<close>, \<open>PFATAL\<close> and \<open>ABORT\<close> stand for the message macros of \<open>debug.h\<close> that end the process, the other
  errors for undefined behaviour (null pointer, access out of bounds, division by zero) and for
  exhausted fuel of a loop. \<open>okE P m\<close> says that \<open>m\<close> gives a result with \<open>P\<close> or ends with a message; so it
  excludes undefined behaviour and exhausted fuel. Queue entries are numbered, pointers to them are
  numbers; files are a map from names (the parts that handle directories have a disk with directories of
  their own). Integers have the width of the code, except for the stage counters \<open>stage_cur\<close> and \<open>stage_max\<close>, which are
  mathematical integers where the code has \<open>s32\<close>: a stage would have to run the target more than \<open>2 ^ 31\<close> times. What the program does not determine is a field that holds an
  arbitrary function or stream: the random numbers, the clock, the behaviour of the target on its
  \<open>n\<close>-th run, given the input, the time limit and the coverage map it finds, the answers of the fork server, the place \<open>malloc\<close> gives a block. Theorems hold for all of them.

  \<^bold>\<open>Theories.\<close>
  \<^item> \<open>Afl_Prelude\<close>, \<open>Afl_Words\<close>: integer types, errors, little-endian views of memory, decimal formatting,
    the rules of \<open>okE\<close>, byte-wise arithmetic in words.
  \<^item> \<open>Afl_Disk\<close>: files and directories, \<open>delete_files\<close> and \<open>nuke_resume_dir\<close>, and a notion of the paths an operation is
    confined to (locale \<open>evolution\<close>).
  \<^item> \<open>Afl_Bitmap\<close>: \<open>has_new_bits\<close>, \<open>count_bits\<close>, \<open>count_bytes\<close>, \<open>count_non_255_bytes\<close>, \<open>simplify_trace\<close>,
    \<open>classify_counts\<close>, \<open>minimize_bits\<close>, word by word as in the code, in both word sizes, and their
    byte-wise meaning. The locale \<open>novelty\<close> states what the users of a virgin map rely on.
  \<^item> \<open>Afl_Hash\<close>: \<open>hash32\<close> of \<open>hash.h\<close>, and that it notices every change confined to a word.
  \<^item> \<open>Afl_Mutators\<close>: \<open>could_be_bitflip\<close>, \<open>could_be_arith\<close>, \<open>could_be_interest\<close> (sound and, for flips, exact),
    \<open>locate_diffs\<close>, \<open>next_p2\<close>, the tables of interesting values.
  \<^item> \<open>Afl_Random\<close>: \<open>UR\<close>, \<open>shuffle_ptrs\<close>, \<open>choose_block_len\<close>.
  \<^item> \<open>Afl_Alloc\<close>: the functions of \<open>alloc-inl.h\<close> on an explicit memory with headers and canaries; a step
    relation of programs that use them, its invariant, and \<open>ck_realloc\<close> as an operation on byte strings.
  \<^item> \<open>Afl_Queue\<close>: \<open>add_to_queue\<close>, \<open>destroy_queue\<close>, the walk to an entry, \<open>mark_as_*\<close>, \<open>update_bitmap_score\<close>,
    \<open>cull_queue\<close>, with the invariants of links and counters (\<open>queue_inv\<close>), of ratings and reference
    counts (\<open>score_inv\<close>; \<open>rated\<close> is the part that suffices for culling and that every operation keeps)
    and of the marks on disk (\<open>marks_inv\<close>).
  \<^item> \<open>Afl_Extras\<close>: \<open>load_extras\<close>, \<open>load_extras_file\<close>, \<open>maybe_add_auto\<close>, \<open>save_auto\<close>, \<open>load_auto\<close>. The locale
    \<open>comparison\<close> covers the two \<open>qsort\<close> orders.
  \<^item> \<open>Afl_Exec\<close>: \<open>write_to_testcase\<close>, \<open>write_with_gap\<close>, \<open>run_target\<close>, \<open>calibrate_case\<close>, \<open>describe_op\<close>,
    \<open>write_crash_readme\<close>, \<open>save_if_interesting\<close>, \<open>common_fuzz_stuff\<close>, the periodic part of \<open>show_stats\<close>;
    the invariant \<open>x_inv k\<close> of the globals with room for \<open>k\<close> more entries. File names are formatted in the 256 bytes
    of \<open>describe_op\<close>, unchecked as in the code; \<open>named\<close>, a part of the invariant, says that the name of the stage and of a
    fuzzer that is imported from are short enough for it, and \<open>describe_op_overflows\<close> what happens otherwise.
  \<^item> \<open>Afl_Trim\<close>: \<open>trim_case\<close>, with the run of the target that stands for the bytes it keeps.
  \<^item> \<open>Afl_Stages\<close>, \<open>Afl_Plans\<close>, \<open>Afl_Det\<close>: the deterministic stages of \<open>fuzz_one\<close>, written statement by
    statement; an abstract notion of plan (the inputs run, in order, and the counters) with rules that
    derive the plan a stage refines; safety and exact inputs of the stages, the effector map.
  \<^item> \<open>Afl_Havoc\<close>: the random stage, all its tweaks on a buffer whose allocation and live length differ,
    its extensions, that it ends. The locale \<open>executor\<close> is its view of \<open>common_fuzz_stuff\<close>.
  \<^item> \<open>Afl_Fuzz\<close>: \<open>calculate_score\<close> and the tallies its averages are divided by, skipping, mapping, calibrating and trimming an entry, splicing,
    and \<open>fuzz_one\<close> as the composition of everything above.
  \<^item> \<open>Afl_Seeds\<close>: \<open>read_testcases\<close>, \<open>perform_dry_run\<close>, \<open>link_or_copy\<close>, \<open>pivot_inputs\<close>: which files become
    entries, that the dry run is safe, the names in the output directory and that a later run knows them.
  \<^item> \<open>Afl_Sync\<close>: \<open>sync_fuzzers\<close>, importing test cases under the contract of \<open>executor\<close>; the numbers it records.
  \<^item> \<open>Afl_Main\<close>: the main loop of \<open>main\<close>, one iteration at a time; a run relation (\<open>main_run\<close>) and its
    invariant: the entries are taken in the order of the queue, cycle after cycle.
  \<^item> \<open>Afl_Report\<close>: the number formatters \<open>DI\<close>, \<open>DF\<close>, \<open>DMS\<close>, \<open>DTD\<close>, the files \<open>fuzzer_stats\<close> and \<open>plot_data\<close>, and what
    \<open>find_start_position\<close> and \<open>find_timeout\<close> read back in a resumed session.
  \<^item> \<open>Afl_Tmin\<close>: \<open>run_target\<close>, \<open>minimize\<close> and the end of \<open>main\<close> of \<open>afl-tmin.c\<close>. The locale \<open>reducer\<close> is what
    its stages have in common.

  \<^bold>\<open>What is shown.\<close> The central statement is \<open>fuzz_one_safe\<close>: for every target, every stream of random
  numbers that is not constant for ever modulo some number, and every state with the invariant, \<open>fuzz_one\<close>
  returns with the invariant or ends with a message. It rests on the corresponding statements for
  \<open>common_fuzz_stuff\<close>, calibration, trimming and each stage; \<open>sync_fuzzers_safe\<close> says the same of importing from
  fuzzers whose directories have names of at most 230 characters,
  and \<open>main_iteration_safe\<close> composes the two with culling and the cursor into one iteration of the main loop,
  whose invariant carries over to every run of it. For the minimizer, \<open>tmin_main_preserves\<close> says that its
  result was approved by a run, \<open>tmin_main_minimal\<close> that no byte of it can be spared. Beside them there are exact functional
  descriptions (new coverage, favourites, the inputs of the deterministic stages, splices, run results),
  equivalences of optimised routines with their byte-wise meaning, refinements (stages and plans,
  \<open>ck_realloc\<close> and byte strings), bounds, termination and one liveness statement, for the loop that
  picks a splicing partner. Some theorems record where the code departs from its comments: the walk to
  an entry by \<open>next_100\<close>, the counters of the inserting dictionary stage, \<open>ck_memdup_str\<close>, splices that
  reproduce their target, numbers of more than six digits in file names, the buffer of \<open>describe_op\<close>, the time limit that
  \<open>find_timeout\<close> never finds.

  \<^bold>\<open>Bounds and fuel.\<close> Where a loop of the code has no evident bound the definition takes fuel, and a
  theorem shows that the fuel is enough: calibration runs at most \<open>CAL_CYCLES_LONG\<close> times; the inner loop
  of trimming shortens the input or advances, the outer one halves its step; \<open>next_p2\<close> doubles at most
  31 times; a pass of \<open>minimize\<close> after which there is another one has lowered the length plus the number of
  bytes other than the character 0, so that twice the length and two passes suffice; the havoc stage doubles \<open>stage_max\<close> together with the score, which starts at 2 or more and is
  not doubled above 1600, so \<open>HAVOC_FUEL = 32768\<close> rounds of at most 41 runs each suffice; skipping short splicing targets takes
  at most one step per entry. The deterministic stages on \<open>L\<close> bytes with \<open>X\<close> dictionary tokens run at
  most \<open>528 * L + X * (2 * L + 1)\<close> inputs; that and 16 havoc stages is the room in the queue which
  \<open>fuzz_one_safe\<close> asks for. Inputs are assumed shorter than \<open>2 ^ 29\<close> bytes, the code's \<open>MAX_FILE\<close> is \<open>2 ^ 20\<close>;
  bit positions such as \<open>len << 3\<close> then fit the 32-bit variables they are kept in. The tallies \<open>total_cal_cycles\<close> and
  \<open>total_bitmap_entries\<close>, by which the score divides, are assumed positive and below \<open>2 ^ 63\<close> when an entry is picked
  (\<open>tallies_ok\<close>); preparing the entry adds at most 40 and 1 to them.

  \<^bold>\<open>Not modelled.\<close> Of \<open>afl-fuzz.c\<close>: the set-up in \<open>main\<close> (options, CPU binding, shared memory, fork
  server start-up, signal handlers, taking over an output directory), which is made of system calls; the drawing of the
  status screen; the code for \<open>IGNORE_FINDS\<close>,
  \<open>SIMPLE_FILES\<close> and \<open>DEBUG_BUILD\<close>, which the Makefile does not enable. The other tools of the directory
  (\<open>afl-showmap\<close>, \<open>afl-analyze\<close>, \<open>afl-gcc\<close>, \<open>afl-as\<close>, \<open>afl-gotcpu\<close>, \<open>llvm_mode\<close>, \<open>libdislocator\<close>,
  \<open>libtokencap\<close>) are separate programs. The rewriter itself (\<open>src/librw\<close>, \<open>src/rwtools\<close>) is Python around
  third-party disassembly libraries, and QEMU is third-party code.
\<close>

end
